(* ===== verification/Prelude.thy ===== *)
theory Prelude
  imports Main "HOL-Library.Word"
begin

text \<open>
  Shared vocabulary of the development: the fixed-width integer types, the names of the
  kernel's spin locks and sleep channels, the type \<open>outcome\<close> of what a piece of kernel code
  does, sequencing of kernel code (\<open>then_do\<close>), its weakest precondition \<open>wp\<close>, and generic
  lemmas about lists, updates and loops that the component theories use.
\<close>

unbundle bit_operations_syntax

section \<open>Integer types, locks and channels\<close>

type_synonym u8 = "8 word"
type_synonym u16 = "16 word"
type_synonym u32 = "32 word"

text \<open>One constructor per \<open>struct spinlock\<close> object of the kernel. The spin locks inside the
  sleep locks of buffers and inodes are indexed by the table entry, those of pipes by the
  address of the pipe.\<close>

datatype lockid =
    PtableLock
  | KmemLock
  | TicksLock
  | BcacheLock
  | LogLock
  | IcacheLock
  | FtableLock
  | IdeLock
  | ConsLock
  | PipeLock u32
  | BufSleepLk nat
  | InodeSleepLk nat

text \<open>The addresses the kernel sleeps on: one constructor per object used as a channel.\<close>

datatype chan =
    ChProc nat
  | ChTicks
  | ChLog
  | ChBuf nat
  | ChBufLock nat
  | ChInodeLock nat
  | ChPipeRead u32
  | ChPipeWrite u32
  | ChInput

section \<open>Outcomes of kernel code\<close>

text \<open>
  Running kernel code from a state either returns a value and a new state (\<open>Ret\<close>), calls
  \<open>panic\<close> (\<open>Panic\<close> with the message), performs an access that C does not define, such as a
  dereference of a null pointer or an index past the end of an array (\<open>Fault\<close>), spins on a
  lock another CPU holds (\<open>Spin\<close>), gives up the CPU inside \<open>sched\<close> with the process asleep on a
  channel (\<open>Sleep\<close>) or a zombie (\<open>Exited\<close>), or loops for ever (\<open>Diverge\<close>).
\<close>

datatype ('a, 's) outcome =
    Ret 'a 's
  | Panic string
  | Fault string
  | Spin lockid 's
  | Sleep chan 's
  | Exited 's
  | Diverge

primrec then_do ::
  "('a, 's) outcome \<Rightarrow> ('a \<Rightarrow> 's \<Rightarrow> ('b, 's) outcome) \<Rightarrow> ('b, 's) outcome" where
  "then_do (Ret x s) k = k x s"
| "then_do (Panic m) k = Panic m"
| "then_do (Fault m) k = Fault m"
| "then_do (Spin l s) k = Spin l s"
| "then_do (Sleep c s) k = Sleep c s"
| "then_do (Exited s) k = Exited s"
| "then_do Diverge k = Diverge"

text \<open>A loop over the elements of a list, with an accumulator.\<close>

primrec for_each :: "('i \<Rightarrow> 's \<Rightarrow> (unit, 's) outcome) \<Rightarrow> 'i list \<Rightarrow> 's \<Rightarrow> (unit, 's) outcome" where
  "for_each f [] s = Ret () s"
| "for_each f (i # is) s = then_do (f i s) (\<lambda>_ s. for_each f is s)"

text \<open>\<open>wp m Q\<close>: the code returns, and value and state satisfy \<open>Q\<close> (total correctness).\<close>

primrec wp :: "('a, 's) outcome \<Rightarrow> ('a \<Rightarrow> 's \<Rightarrow> bool) \<Rightarrow> bool" where
  "wp (Ret x s) Q = Q x s"
| "wp (Panic m) Q = False"
| "wp (Fault m) Q = False"
| "wp (Spin l s) Q = False"
| "wp (Sleep c s) Q = False"
| "wp (Exited s) Q = False"
| "wp Diverge Q = False"

named_theorems wp_intro \<open>weakest-precondition rules of the kernel operations\<close>
named_theorems kdefs \<open>definitions of kernel operations unfolded together\<close>

lemma wp_then_do [simp]: "wp (then_do m k) Q = wp m (\<lambda>x s. wp (k x s) Q)"
  by (cases m) simp_all

lemma wp_mono: "wp m Q \<Longrightarrow> (\<And>x s. Q x s \<Longrightarrow> R x s) \<Longrightarrow> wp m R"
  by (cases m) auto

lemma wp_Ret_iff: "wp m Q \<longleftrightarrow> (\<exists>x s. m = Ret x s \<and> Q x s)"
  by (cases m) auto

lemma wp_RetD: "m = Ret x s \<Longrightarrow> wp m Q \<Longrightarrow> Q x s"
  by simp

lemma wp_if [simp]: "wp (if b then m else m') Q = (if b then wp m Q else wp m' Q)"
  by simp

lemma then_do_Ret_iff:
  "then_do m k = Ret y t \<longleftrightarrow> (\<exists>x s. m = Ret x s \<and> k x s = Ret y t)"
  by (cases m) auto

lemma then_do_assoc: "then_do (then_do m k) h = then_do m (\<lambda>x s. then_do (k x s) h)"
  by (cases m) auto

lemma then_do_return [simp]: "then_do m (\<lambda>x s. Ret x s) = m"
  by (cases m) auto

lemma for_each_append:
  "for_each f (is @ js) s = then_do (for_each f is s) (\<lambda>_ s. for_each f js s)"
  by (induction "is" arbitrary: s) (auto simp: then_do_assoc)

text \<open>The rule for loops: an invariant indexed by the part of the list already done.\<close>

lemma for_each_wp:
  assumes "I [] s"
    and "\<And>done i todo s. is = done @ i # todo \<Longrightarrow> I done s \<Longrightarrow> wp (f i s) (\<lambda>_ t. I (done @ [i]) t)"
  shows "wp (for_each f is s) (\<lambda>_ t. I is t)"
proof -
  have "wp (for_each f js t) (\<lambda>_ t. I is t)" if "I ds t" "is = ds @ js" for ds js t
    using that
  proof (induction js arbitrary: ds t)
    case Nil
    then show ?case by simp
  next
    case (Cons i js)
    then have "wp (f i t) (\<lambda>_ t. I (ds @ [i]) t)"
      using assms(2) [of ds i js t] by simp
    then show ?case
      using Cons.IH [of "ds @ [i]"] Cons.prems(2) by (auto simp: wp_Ret_iff)
  qed
  from this [of "[]" s "is"] assms(1) show ?thesis by simp
qed

text \<open>\<open>returns m\<close>: the code neither panics, faults, blocks nor loops.\<close>

abbreviation returns :: "('a, 's) outcome \<Rightarrow> bool" where
  "returns m \<equiv> wp m (\<lambda>_ _. True)"

section \<open>Generic lemmas\<close>

text \<open>\<open>find_idx P n\<close>: the first index below \<open>n\<close> that satisfies \<open>P\<close>, as a table scan finds it.\<close>

definition find_idx :: "(nat \<Rightarrow> bool) \<Rightarrow> nat \<Rightarrow> nat option" where
  "find_idx P n = find P [0..<n]"

lemma find_idx_Some:
  "find_idx P n = Some i \<longleftrightarrow> i < n \<and> P i \<and> (\<forall>j < i. \<not> P j)"
  unfolding find_idx_def by (auto simp: find_Some_iff)

lemma find_idx_None: "find_idx P n = None \<longleftrightarrow> (\<forall>i < n. \<not> P i)"
  unfolding find_idx_def by (auto simp: find_None_iff)

lemma find_idx_cong: "(\<And>i. i < n \<Longrightarrow> P i = Q i) \<Longrightarrow> find_idx P n = find_idx Q n"
  unfolding find_idx_def by (rule find_cong) auto

lemma small_bit:
  assumes "x < (4096 :: 32 word)" and "bit x n"
  shows "n < 12"
proof (rule ccontr)
  assume "\<not> n < 12"
  then have "(2 :: nat) ^ 12 \<le> 2 ^ n" by (intro power_increasing) simp_all
  moreover have "unat x < 4096" using assms(1) by (simp add: word_less_nat_alt)
  ultimately have "unat x div 2 ^ n = 0" by simp
  moreover have "bit (unat x) n" using assms(2) bit_imp_le_length [of x n] by (simp add: bit_unsigned_iff)
  ultimately show False by (simp add: bit_iff_odd)
qed

lemma unat_u32: "unat (a :: u32) < 4294967296"
  using unsigned_less [of a, where 'a = nat] by simp

lemma sint_small:
  assumes "unat (k :: u32) < 2147483648"
  shows "sint k = int (unat k)"
proof -
  have "int (unat k) < 2147483648" using assms by linarith
  moreover have "- 2147483648 \<le> int (unat k)" by linarith
  ultimately show ?thesis by (simp add: sint_uint signed_take_bit_int_eq_self)
qed

lemma unat_add_below:
  assumes "unat (a :: u32) + unat b \<le> unat (z :: u32)"
  shows "unat (a + b) = unat a + unat b"
  using assms unat_u32 [of z] by (simp add: unat_word_ariths(1))

end
