(* ===== verification/Machine.thy ===== *)
theory Machine
  imports Prelude
begin

text \<open>
  The machine the kernel runs on: byte-addressed memory seen through the kernel's direct map,
  little-endian 32-bit loads and stores, and the address arithmetic of \<open>mmu.h\<close> and
  \<open>memlayout.h\<close> (page rounding, page-directory and page-table indices, page-table flags,
  virtual/physical conversion), with the lemmas about pages the other theories rest on.
\<close>

section \<open>Memory\<close>

type_synonym mem = "u32 \<Rightarrow> u8"

definition ld32 :: "mem \<Rightarrow> u32 \<Rightarrow> u32" where
  "ld32 m a = ucast (m a) OR push_bit 8 (ucast (m (a + 1)))
     OR push_bit 16 (ucast (m (a + 2))) OR push_bit 24 (ucast (m (a + 3)))"

definition st32 :: "mem \<Rightarrow> u32 \<Rightarrow> u32 \<Rightarrow> mem" where
  "st32 m a v = m(a := ucast v, a + 1 := ucast (drop_bit 8 v),
     a + 2 := ucast (drop_bit 16 v), a + 3 := ucast (drop_bit 24 v))"

section \<open>Constants and macros of mmu.h and memlayout.h\<close>

definition PGSIZE :: u32 where "PGSIZE = 4096"
definition EXTMEM :: u32 where "EXTMEM = 0x100000"
definition PHYSTOP :: u32 where "PHYSTOP = 0xE000000"
definition DEVSPACE :: u32 where "DEVSPACE = 0xFE000000"
definition KERNBASE :: u32 where "KERNBASE = 0x80000000"
definition KERNLINK :: u32 where "KERNLINK = KERNBASE + EXTMEM"

definition V2P :: "u32 \<Rightarrow> u32" where "V2P a = a - KERNBASE"
definition P2V :: "u32 \<Rightarrow> u32" where "P2V a = a + KERNBASE"

definition PTE_P :: u32 where "PTE_P = 1"
definition PTE_W :: u32 where "PTE_W = 2"
definition PTE_U :: u32 where "PTE_U = 4"

definition PDX :: "u32 \<Rightarrow> u32" where "PDX va = drop_bit 22 va AND 0x3FF"
definition PTX :: "u32 \<Rightarrow> u32" where "PTX va = drop_bit 12 va AND 0x3FF"
definition PGADDR :: "u32 \<Rightarrow> u32 \<Rightarrow> u32 \<Rightarrow> u32" where
  "PGADDR d t off = push_bit 22 d OR push_bit 12 t OR off"

definition PGROUNDUP :: "u32 \<Rightarrow> u32" where
  "PGROUNDUP sz = (sz + PGSIZE - 1) AND NOT (PGSIZE - 1)"
definition PGROUNDDOWN :: "u32 \<Rightarrow> u32" where
  "PGROUNDDOWN a = a AND NOT (PGSIZE - 1)"
definition PTE_ADDR :: "u32 \<Rightarrow> u32" where "PTE_ADDR pte = pte AND NOT 0xFFF"
definition PTE_FLAGS :: "u32 \<Rightarrow> u32" where "PTE_FLAGS pte = pte AND 0xFFF"

section \<open>Loads and stores\<close>

lemma ld32_st32 [simp]: "ld32 (st32 m a v) a = v"
proof (rule bit_word_eqI)
  fix n :: nat
  assume "n < LENGTH(32)"
  then consider "n < 8" | "8 \<le> n" "n < 16" | "16 \<le> n" "n < 24" | "24 \<le> n" "n < 32"
    by fastforce
  then show "bit (ld32 (st32 m a v) a) n = bit v n"
    by cases (auto simp: ld32_def st32_def bit_simps)
qed

lemma ld32_cong:
  "m a = m' a \<Longrightarrow> m (a + 1) = m' (a + 1) \<Longrightarrow> m (a + 2) = m' (a + 2) \<Longrightarrow> m (a + 3) = m' (a + 3)
   \<Longrightarrow> ld32 m a = ld32 m' a"
  by (simp add: ld32_def)

lemma st32_other:
  "b \<noteq> a \<Longrightarrow> b \<noteq> a + 1 \<Longrightarrow> b \<noteq> a + 2 \<Longrightarrow> b \<noteq> a + 3 \<Longrightarrow> st32 m a v b = m b"
  by (simp add: st32_def)

section \<open>Pages\<close>

definition page_aligned :: "u32 \<Rightarrow> bool" where
  "page_aligned a \<longleftrightarrow> a mod PGSIZE = 0"

lemma pgmask: "(PGSIZE - 1 :: u32) = mask 12"
  by (simp add: PGSIZE_def mask_eq_exp_minus_1)

lemma and_not_mask_minus: "a AND NOT (mask n) = a - take_bit n a" for a :: "'a::len word"
proof -
  have "a AND NOT (mask n) = push_bit n (drop_bit n a)"
    by (rule bit_word_eqI) (auto simp: bit_simps)
  moreover have "push_bit n (drop_bit n a) + take_bit n a = a"
    by (rule bits_ident)
  ultimately show ?thesis by (metis add_diff_cancel_right')
qed

lemma PGROUNDDOWN_minus: "PGROUNDDOWN a = a - a mod PGSIZE"
proof -
  have "a AND NOT (PGSIZE - 1) = a - take_bit 12 a"
    by (simp only: pgmask and_not_mask_minus)
  then show ?thesis
    by (simp add: PGROUNDDOWN_def take_bit_eq_mod PGSIZE_def)
qed

lemma unat_PGROUNDDOWN: "unat (PGROUNDDOWN a) = unat a div 4096 * 4096"
proof -
  have "unat (a mod 4096) = unat a mod 4096"
    by (simp add: unat_mod)
  moreover have "a mod 4096 \<le> a"
    by (simp add: word_le_nat_alt unat_mod)
  ultimately have "unat (a - a mod 4096) = unat a - unat a mod 4096"
    by (simp add: unat_sub)
  then show ?thesis
    by (simp add: PGROUNDDOWN_minus PGSIZE_def minus_mod_eq_div_mult)
qed

lemma page_aligned_unat: "page_aligned a \<longleftrightarrow> 4096 dvd unat a"
proof -
  have "a mod 4096 = 0 \<longleftrightarrow> unat (a mod 4096) = 0"
    by (simp only: unat_eq_zero)
  then show ?thesis
    by (simp add: page_aligned_def PGSIZE_def dvd_eq_mod_eq_0 unat_mod)
qed

lemma page_aligned_PGROUNDDOWN [simp]: "page_aligned (PGROUNDDOWN a)"
  by (simp add: page_aligned_unat unat_PGROUNDDOWN)

lemma PGROUNDDOWN_aligned [simp]: "page_aligned a \<Longrightarrow> PGROUNDDOWN a = a"
  by (simp add: page_aligned_def PGROUNDDOWN_minus)

lemma unat_page_add:
  assumes "page_aligned p" and "k < 4096"
  shows "unat (p + of_nat k) = unat p + k"
proof -
  obtain q where q: "unat p = 4096 * q"
    using assms(1) by (auto simp: page_aligned_unat)
  have "unat p < 2 ^ 32" using unsigned_less [of p] by simp
  then have "q < 1048576" using q by simp
  then have "unat p + k < 2 ^ 32" using q assms(2) by simp
  then show ?thesis
    using assms(2) by (simp add: unat_word_ariths unat_of_nat)
qed

lemma PGROUNDDOWN_page_add:
  assumes "page_aligned p" and "k < 4096"
  shows "PGROUNDDOWN (p + of_nat k) = p"
proof -
  have "unat (PGROUNDDOWN (p + of_nat k)) = unat p"
    using assms by (auto simp: unat_PGROUNDDOWN unat_page_add page_aligned_unat elim!: dvdE)
  then show ?thesis by (simp add: word_unat_eq_iff)
qed

text \<open>Every address lies in exactly one page, at an offset below the page size.\<close>

lemma page_offset:
  obtains k where "k < 4096" and "a = PGROUNDDOWN a + of_nat k"
proof
  show "unat (a mod PGSIZE) < 4096"
    by (simp add: PGSIZE_def unat_mod)
  show "a = PGROUNDDOWN a + of_nat (unat (a mod PGSIZE))"
    by (simp add: PGROUNDDOWN_minus)
qed

text \<open>A 32-bit access at a word-aligned offset stays inside its page.\<close>

lemma PGROUNDDOWN_word_access:
  assumes "page_aligned p" and "k < 1024" and "j < 4"
  shows "PGROUNDDOWN (p + 4 * of_nat k + of_nat j) = p"
proof -
  have "p + 4 * of_nat k + of_nat j = p + of_nat (4 * k + j)" by simp
  with assms show ?thesis
    by (simp only: PGROUNDDOWN_page_add) 
qed

lemma PGROUNDUP_DOWN: "PGROUNDUP a = PGROUNDDOWN (a + 4095)"
  by (simp add: PGROUNDUP_def PGROUNDDOWN_def PGSIZE_def add.commute)

lemma page_aligned_PGROUNDUP [simp]: "page_aligned (PGROUNDUP a)"
  by (simp add: PGROUNDUP_DOWN)

lemma unat_PGROUNDUP:
  assumes "unat a + 4095 < 2 ^ 32"
  shows "unat (PGROUNDUP a) = (unat a + 4095) div 4096 * 4096"
proof -
  have "unat (a + 4095) = unat a + 4095"
    using assms by (simp add: unat_word_ariths)
  then show ?thesis by (simp add: PGROUNDUP_DOWN unat_PGROUNDDOWN)
qed

lemma PGROUNDUP_ge: "unat a + 4095 < 2 ^ 32 \<Longrightarrow> a \<le> PGROUNDUP a"
  by (simp add: word_le_nat_alt unat_PGROUNDUP)

lemma page_aligned_add: "page_aligned p \<Longrightarrow> page_aligned (p + PGSIZE)"
proof -
  assume "page_aligned p"
  then have "4096 dvd unat p" by (simp add: page_aligned_unat)
  moreover have "unat (p + 4096) = (unat p + 4096) mod 2 ^ 32" by (simp add: unat_word_ariths)
  moreover have "4096 dvd (x + 4096) mod 2 ^ 32 \<longleftrightarrow> 4096 dvd x" for x :: nat
    by (simp add: dvd_mod_iff)
  ultimately show ?thesis by (simp add: page_aligned_unat PGSIZE_def)
qed

text \<open>The \<open>n\<close> pages from page \<open>p\<close> on.\<close>

definition pages_from :: "u32 \<Rightarrow> nat \<Rightarrow> u32 list" where
  "pages_from p n = map (\<lambda>i. p + of_nat i * PGSIZE) [0..<n]"

lemma pages_from_Suc: "pages_from p (Suc n) = p # pages_from (p + PGSIZE) n"
proof -
  have "map (\<lambda>i. p + of_nat i * PGSIZE) [0..<Suc n] =
      p # map (\<lambda>i. p + of_nat (Suc i) * PGSIZE) [0..<n]"
    by (simp add: upt_conv_Cons map_Suc_upt [symmetric] del: upt_Suc)
  then show ?thesis by (simp add: pages_from_def algebra_simps)
qed

lemma set_pages_from:
  assumes "unat p + n * 4096 \<le> 2 ^ 32"
  shows "q \<in> set (pages_from p n) \<Longrightarrow> \<exists>i < n. unat q = unat p + i * 4096"
proof -
  assume "q \<in> set (pages_from p n)"
  then obtain i where i: "i < n" "q = p + of_nat i * PGSIZE"
    by (auto simp: pages_from_def)
  have "unat p + i * 4096 < 2 ^ 32" using assms i(1) by simp
  then have "unat q = unat p + i * 4096"
    by (simp add: i(2) PGSIZE_def unat_word_ariths unat_of_nat)
  with i(1) show ?thesis by blast
qed

end
