(* ===== verification/Spinlock.thy ===== *)
theory Spinlock
  imports Machine
begin

text \<open>
  CPUs and spin locks: the per-CPU state of \<open>proc.h\<close> that locking uses, \<open>mycpu\<close> and \<open>cpuid\<close> of
  \<open>proc.c\<close>, and \<open>spinlock.c\<close>. The record \<open>machine\<close> is the bottom layer of the kernel state; the
  other components extend it with their own variables. \<open>eflags_if\<close>, \<open>cr3\<close> and \<open>lapicid\<close> are the
  interrupt flag, the page-table base register and the local APIC ID of the CPU that executes the
  code; \<open>cpu_esp0\<close> is the kernel stack pointer in a CPU's task state segment. The fields of a
  lock that only serve debugging (\<open>name\<close>, \<open>pcs\<close>) are left out.
\<close>

section \<open>State\<close>

record cpu =
  cpu_apicid :: u8
  cpu_ncli :: int
  cpu_intena :: bool
  cpu_proc :: "nat option"
  cpu_esp0 :: u32

record spinlock =
  lk_locked :: bool
  lk_cpu :: "nat option"

record machine =
  mem :: mem
  cpus :: "nat \<Rightarrow> cpu"
  ncpu :: nat
  lapicid :: u8
  eflags_if :: bool
  cr3 :: u32
  locks :: "lockid \<Rightarrow> spinlock"

section \<open>Operations\<close>

definition readeflags_if :: "'a machine_scheme \<Rightarrow> bool" where
  "readeflags_if s = eflags_if s"

definition cli :: "'a machine_scheme \<Rightarrow> 'a machine_scheme" where
  "cli s = s\<lparr>eflags_if := False\<rparr>"

definition sti :: "'a machine_scheme \<Rightarrow> 'a machine_scheme" where
  "sti s = s\<lparr>eflags_if := True\<rparr>"

definition mycpu :: "'a machine_scheme \<Rightarrow> (nat, 'a machine_scheme) outcome" where
  "mycpu s =
     (if readeflags_if s then Panic ''mycpu called with interrupts enabled''
      else case find_idx (\<lambda>i. cpu_apicid (cpus s i) = lapicid s) (ncpu s) of
             Some i \<Rightarrow> Ret i s
           | None \<Rightarrow> Panic ''unknown apicid'')"

definition cpuid :: "'a machine_scheme \<Rightarrow> (nat, 'a machine_scheme) outcome" where
  "cpuid s = mycpu s"

definition initlock :: "lockid \<Rightarrow> 'a machine_scheme \<Rightarrow> 'a machine_scheme" where
  "initlock lk s = s\<lparr>locks := (locks s)(lk := \<lparr>lk_locked = False, lk_cpu = None\<rparr>)\<rparr>"

definition pushcli :: "'a machine_scheme \<Rightarrow> (unit, 'a machine_scheme) outcome" where
  "pushcli s =
     (let eflags = readeflags_if s in
      then_do (mycpu (cli s)) (\<lambda>c s.
      let s = (if cpu_ncli (cpus s c) = 0
               then s\<lparr>cpus := (cpus s)(c := (cpus s c)\<lparr>cpu_intena := eflags\<rparr>)\<rparr> else s)
      in Ret () (s\<lparr>cpus := (cpus s)(c := (cpus s c)\<lparr>cpu_ncli := cpu_ncli (cpus s c) + 1\<rparr>)\<rparr>)))"

definition popcli :: "'a machine_scheme \<Rightarrow> (unit, 'a machine_scheme) outcome" where
  "popcli s =
     (if readeflags_if s then Panic ''popcli - interruptible''
      else then_do (mycpu s) (\<lambda>c s.
        let s = s\<lparr>cpus := (cpus s)(c := (cpus s c)\<lparr>cpu_ncli := cpu_ncli (cpus s c) - 1\<rparr>)\<rparr> in
        if cpu_ncli (cpus s c) < 0 then Panic ''popcli''
        else if cpu_ncli (cpus s c) = 0 \<and> cpu_intena (cpus s c) then Ret () (sti s)
        else Ret () s))"

definition holding :: "lockid \<Rightarrow> 'a machine_scheme \<Rightarrow> (bool, 'a machine_scheme) outcome" where
  "holding lk s =
     then_do (pushcli s) (\<lambda>_ s.
     then_do (mycpu s) (\<lambda>c s.
     let r = (lk_locked (locks s lk) \<and> lk_cpu (locks s lk) = Some c) in
     then_do (popcli s) (\<lambda>_ s. Ret r s)))"

definition acquire_xchg :: "lockid \<Rightarrow> 'a machine_scheme \<Rightarrow> (unit, 'a machine_scheme) outcome" where
  "acquire_xchg lk s =
     (if lk_locked (locks s lk) then Spin lk s
      else let s = s\<lparr>locks := (locks s)(lk := (locks s lk)\<lparr>lk_locked := True\<rparr>)\<rparr> in
        then_do (mycpu s) (\<lambda>c s.
        Ret () (s\<lparr>locks := (locks s)(lk := (locks s lk)\<lparr>lk_cpu := Some c\<rparr>)\<rparr>)))"

definition acquire :: "lockid \<Rightarrow> 'a machine_scheme \<Rightarrow> (unit, 'a machine_scheme) outcome" where
  "acquire lk s =
     then_do (pushcli s) (\<lambda>_ s.
     then_do (holding lk s) (\<lambda>held s.
     if held then Panic ''acquire'' else acquire_xchg lk s))"

definition release :: "lockid \<Rightarrow> 'a machine_scheme \<Rightarrow> (unit, 'a machine_scheme) outcome" where
  "release lk s =
     then_do (holding lk s) (\<lambda>held s.
     if \<not> held then Panic ''release''
     else let s = s\<lparr>locks := (locks s)(lk := (locks s lk)\<lparr>lk_cpu := None\<rparr>)\<rparr>;
              s = s\<lparr>locks := (locks s)(lk := (locks s lk)\<lparr>lk_locked := False\<rparr>)\<rparr>
          in popcli s)"

section \<open>The executing CPU and the states around a critical section\<close>

definition this_cpu :: "'a machine_scheme \<Rightarrow> nat option" where
  "this_cpu s = find_idx (\<lambda>i. cpu_apicid (cpus s i) = lapicid s) (ncpu s)"

text \<open>The executing CPU \<open>c\<close> is registered, its \<open>pushcli\<close> depth is not negative, and interrupts are
  off when the depth is positive. It is \<open>calm\<close> if moreover \<open>intena\<close>, which \<open>pushcli\<close> overwrites
  at depth zero, already agrees with the interrupt flag there.\<close>

definition cpu_ok :: "nat \<Rightarrow> 'a machine_scheme \<Rightarrow> bool" where
  "cpu_ok c s \<longleftrightarrow> this_cpu s = Some c \<and> 0 \<le> cpu_ncli (cpus s c)
     \<and> (cpu_ncli (cpus s c) \<noteq> 0 \<longrightarrow> \<not> eflags_if s)"

definition calm :: "nat \<Rightarrow> 'a machine_scheme \<Rightarrow> bool" where
  "calm c s \<longleftrightarrow> cpu_ok c s \<and> (cpu_ncli (cpus s c) = 0 \<longrightarrow> cpu_intena (cpus s c) = eflags_if s)"

text \<open>What \<open>pushcli\<close> does to the per-CPU record, and the record after a matched pair of calls.\<close>

definition cpu_push :: "bool \<Rightarrow> cpu \<Rightarrow> cpu" where
  "cpu_push e x = x\<lparr>cpu_intena := (if cpu_ncli x = 0 then e else cpu_intena x), cpu_ncli := cpu_ncli x + 1\<rparr>"

definition synced :: "nat \<Rightarrow> 'a machine_scheme \<Rightarrow> 'a machine_scheme" where
  "synced c s = s\<lparr>cpus := (cpus s)(c := (cpus s c)\<lparr>cpu_intena :=
     (if cpu_ncli (cpus s c) = 0 then eflags_if s else cpu_intena (cpus s c))\<rparr>)\<rparr>"

definition lock_free :: "lockid \<Rightarrow> 'a machine_scheme \<Rightarrow> bool" where
  "lock_free lk s \<longleftrightarrow> locks s lk = \<lparr>lk_locked = False, lk_cpu = None\<rparr>"

definition lock_mine :: "lockid \<Rightarrow> nat \<Rightarrow> 'a machine_scheme \<Rightarrow> bool" where
  "lock_mine lk c s \<longleftrightarrow> locks s lk = \<lparr>lk_locked = True, lk_cpu = Some c\<rparr>"

text \<open>The state inside a critical section entered from \<open>s\<close> on CPU \<open>c\<close>.\<close>

definition enter :: "lockid \<Rightarrow> nat \<Rightarrow> 'a machine_scheme \<Rightarrow> 'a machine_scheme" where
  "enter lk c s = s\<lparr>eflags_if := False,
     cpus := (cpus s)(c := cpu_push (eflags_if s) (cpus s c)),
     locks := (locks s)(lk := \<lparr>lk_locked = True, lk_cpu = Some c\<rparr>)\<rparr>"

definition leave :: "lockid \<Rightarrow> nat \<Rightarrow> 'a machine_scheme \<Rightarrow> 'a machine_scheme" where
  "leave lk c s = s\<lparr>
     eflags_if := (cpu_ncli (cpus s c) = 1 \<and> cpu_intena (cpus s c)),
     cpus := (cpus s)(c := (cpus s c)\<lparr>cpu_ncli := cpu_ncli (cpus s c) - 1\<rparr>),
     locks := (locks s)(lk := \<lparr>lk_locked = False, lk_cpu = None\<rparr>)\<rparr>"

lemma cpu_push_simps [simp]:
  "cpu_apicid (cpu_push e x) = cpu_apicid x" "cpu_ncli (cpu_push e x) = cpu_ncli x + 1"
  "cpu_proc (cpu_push e x) = cpu_proc x" "cpu_esp0 (cpu_push e x) = cpu_esp0 x"
  by (simp_all add: cpu_push_def)

lemma mycpu_eq: "\<not> eflags_if s \<Longrightarrow> this_cpu s = Some c \<Longrightarrow> mycpu s = Ret c s"
  by (simp add: mycpu_def this_cpu_def readeflags_if_def)

lemma this_cpu_cong:
  "(\<And>i. cpu_apicid (cpus s i) = cpu_apicid (cpus t i)) \<Longrightarrow> lapicid s = lapicid t \<Longrightarrow> ncpu s = ncpu t
   \<Longrightarrow> this_cpu s = this_cpu t"
  unfolding this_cpu_def by simp

lemma this_cpu_enter [simp]: "this_cpu (enter lk c s) = this_cpu s"
  by (rule this_cpu_cong) (simp_all add: enter_def)

lemma this_cpu_leave [simp]: "this_cpu (leave lk c s) = this_cpu s"
  by (rule this_cpu_cong) (simp_all add: leave_def)

definition pushed :: "nat \<Rightarrow> 'a machine_scheme \<Rightarrow> 'a machine_scheme" where
  "pushed c s = s\<lparr>eflags_if := False, cpus := (cpus s)(c := cpu_push (eflags_if s) (cpus s c))\<rparr>"

definition popped :: "nat \<Rightarrow> 'a machine_scheme \<Rightarrow> 'a machine_scheme" where
  "popped c s = s\<lparr>eflags_if := (cpu_ncli (cpus s c) = 1 \<and> cpu_intena (cpus s c)),
     cpus := (cpus s)(c := (cpus s c)\<lparr>cpu_ncli := cpu_ncli (cpus s c) - 1\<rparr>)\<rparr>"

lemma this_cpu_pushed [simp]: "this_cpu (pushed c s) = this_cpu s"
  by (rule this_cpu_cong) (simp_all add: pushed_def)

lemma this_cpu_popped [simp]: "this_cpu (popped c s) = this_cpu s"
  by (rule this_cpu_cong) (simp_all add: popped_def)

lemma this_cpu_cli [simp]: "this_cpu (cli s) = this_cpu s"
  by (rule this_cpu_cong) (simp_all add: cli_def)

lemma this_cpu_upds [simp]:
  "this_cpu (s\<lparr>locks := l\<rparr>) = this_cpu s"
  "this_cpu (s\<lparr>mem := m\<rparr>) = this_cpu s"
  "this_cpu (s\<lparr>eflags_if := b\<rparr>) = this_cpu s"
  by (rule this_cpu_cong, simp_all)+

lemma this_cpu_cpus_upd [simp]:
  "(\<And>i. cpu_apicid (f i) = cpu_apicid (cpus s i)) \<Longrightarrow> this_cpu (s\<lparr>cpus := f\<rparr>) = this_cpu s"
  by (rule this_cpu_cong) simp_all

lemma pushcli_eq:
  assumes "cpu_ok c s"
  shows "pushcli s = Ret () (pushed c s)"
proof -
  have m: "mycpu (cli s) = Ret c (cli s)"
    using assms by (simp add: mycpu_eq cpu_ok_def cli_def)
  show ?thesis
    by (auto simp: pushcli_def pushed_def cpu_push_def readeflags_if_def m Let_def) 
       (simp_all add: cli_def)
qed

lemma popcli_eq:
  assumes "this_cpu s = Some c" and "\<not> eflags_if s" and "1 \<le> cpu_ncli (cpus s c)"
  shows "popcli s = Ret () (popped c s)"
  using assms
  by (auto simp: popcli_def popped_def readeflags_if_def mycpu_eq sti_def Let_def)

lemma cpu_ok_pushed: "cpu_ok c s \<Longrightarrow> cpu_ok c (pushed c s)"
  by (auto simp: cpu_ok_def pushed_def)

lemma cpu_intena_same: "cpu_intena x = e \<Longrightarrow> x\<lparr>cpu_intena := e\<rparr> = x"
  by auto

lemma cpu_ncli_same: "cpu_ncli x = n \<Longrightarrow> x\<lparr>cpu_intena := e, cpu_ncli := n\<rparr> = x\<lparr>cpu_intena := e\<rparr>"
  by (cases x) auto

lemma eflags_if_same: "eflags_if s = b \<Longrightarrow> s\<lparr>eflags_if := b\<rparr> = s"
  by auto

lemma popped_pushed:
  assumes "cpu_ok c s"
  shows "popped c (pushed c s) = synced c s"
proof (cases "cpu_ncli (cpus s c) = 0")
  case True
  then show ?thesis
    by (simp add: popped_def pushed_def cpu_push_def synced_def cpu_ncli_same)
next
  case False
  with assms have "\<not> eflags_if s" by (simp add: cpu_ok_def)
  with False show ?thesis
    by (simp add: popped_def pushed_def cpu_push_def synced_def eflags_if_same)
qed

lemma synced_deep: "cpu_ncli (cpus s c) \<noteq> 0 \<Longrightarrow> synced c s = s"
  by (simp add: synced_def)

lemma synced_calm: "calm c s \<Longrightarrow> synced c s = s"
  by (cases "cpu_ncli (cpus s c) = 0") (simp_all add: synced_def calm_def cpu_intena_same)

lemma synced_simps [simp]:
  "locks (synced c s) = locks s" "eflags_if (synced c s) = eflags_if s" "mem (synced c s) = mem s"
  by (simp_all add: synced_def)

lemma holding_eq:
  assumes "cpu_ok c s"
  shows "holding lk s = Ret (lk_locked (locks s lk) \<and> lk_cpu (locks s lk) = Some c) (synced c s)"
proof -
  have p: "this_cpu s = Some c" "\<not> eflags_if (pushed c s)"
    "1 \<le> cpu_ncli (cpus (pushed c s) c)" "locks (pushed c s) = locks s"
    using assms by (auto simp: cpu_ok_def pushed_def)
  show ?thesis
    by (simp add: holding_def pushcli_eq [OF assms] mycpu_eq popcli_eq p popped_pushed [OF assms])
qed

lemma acquire_eq:
  assumes "cpu_ok c s" and "lock_free lk s"
  shows "acquire lk s = Ret () (enter lk c s)"
proof -
  have ok: "cpu_ok c (pushed c s)" by (rule cpu_ok_pushed) fact
  have l: "locks (pushed c s) = locks s" and i: "\<not> eflags_if (pushed c s)"
    by (simp_all add: pushed_def)
  have m: "mycpu (pushed c s\<lparr>locks := l'\<rparr>) = Ret c (pushed c s\<lparr>locks := l'\<rparr>)" for l'
    using assms(1) i by (simp add: mycpu_eq cpu_ok_def)
  have d: "synced c (pushed c s) = pushed c s"
    using assms(1) by (intro synced_deep) (simp add: pushed_def cpu_ok_def)
  show ?thesis
    using assms(2) l
    by (simp add: acquire_def acquire_xchg_def pushcli_eq [OF assms(1)] holding_eq [OF ok] lock_free_def m d Let_def)
       (simp add: enter_def pushed_def)
qed

lemma release_eq:
  assumes "cpu_ok c s" and "1 \<le> cpu_ncli (cpus s c)" and "lock_mine lk c s"
  shows "release lk s = Ret () (leave lk c s)"
proof -
  have "this_cpu s = Some c" "\<not> eflags_if s"
    using assms(1,2) by (auto simp: cpu_ok_def)
  then have "popcli (s\<lparr>locks := l'\<rparr>) = Ret () (popped c (s\<lparr>locks := l'\<rparr>))" for l'
    using assms(2) by (simp add: popcli_eq)
  then show ?thesis
    using assms(3)
    using assms(2) by (simp add: release_def holding_eq [OF assms(1)] synced_deep lock_mine_def Let_def)
       (simp add: leave_def popped_def)
qed

lemma cpu_ok_enter [simp]: "cpu_ok c s \<Longrightarrow> cpu_ok c (enter lk c s)"
  by (auto simp: cpu_ok_def enter_def)

lemma enter_simps [simp]:
  "mem (enter lk c s) = mem s" "ncpu (enter lk c s) = ncpu s" "lapicid (enter lk c s) = lapicid s"
  "\<not> eflags_if (enter lk c s)" "lock_mine lk c (enter lk c s)"
  "cpu_ncli (cpus (enter lk c s) c) = cpu_ncli (cpus s c) + 1"
  "cpu_proc (cpus (enter lk c s) i) = cpu_proc (cpus s i)"
  "lk' \<noteq> lk \<Longrightarrow> locks (enter lk c s) lk' = locks s lk'"
  by (simp_all add: enter_def lock_mine_def)

lemma leave_enter:
  assumes "cpu_ok c s" and "lock_free lk s"
  shows "leave lk c (enter lk c s) = synced c s"
proof -
  have "(locks s)(lk := \<lparr>lk_locked = False, lk_cpu = None\<rparr>) = locks s"
    using assms(2) by (auto simp: lock_free_def)
  then have "leave lk c (enter lk c s) = popped c (pushed c s)"
    by (simp add: leave_def enter_def popped_def pushed_def)
  then show ?thesis by (simp only: popped_pushed [OF assms(1)])
qed

section \<open>Properties\<close>

lemma spinlock_set_both [simp]:
  "(l :: spinlock)\<lparr>lk_locked := a, lk_cpu := b\<rparr> = \<lparr>lk_locked = a, lk_cpu = b\<rparr>"
  by (cases l) simp

text \<open>A machine whose CPUs \<open>0..<n\<close> have their index as APIC ID and hold no lock, seen from CPU 0
  with interrupts on.\<close>

definition idle_machine :: "nat \<Rightarrow> machine" where
  "idle_machine n = \<lparr>mem = (\<lambda>_. 0),
     cpus = (\<lambda>i. \<lparr>cpu_apicid = of_nat i, cpu_ncli = 0, cpu_intena = True, cpu_proc = None, cpu_esp0 = 0\<rparr>),
     ncpu = n, lapicid = 0, eflags_if = True, cr3 = 0,
     locks = (\<lambda>_. \<lparr>lk_locked = False, lk_cpu = None\<rparr>)\<rparr>"

lemma this_cpu_idle: "0 < n \<Longrightarrow> this_cpu (idle_machine n) = Some 0"
  by (simp add: this_cpu_def idle_machine_def find_idx_Some)

lemma calm_idle: "0 < n \<Longrightarrow> calm 0 (idle_machine n)"
  by (simp add: calm_def cpu_ok_def this_cpu_idle) (simp add: idle_machine_def)

lemma cpu_ok_idle: "0 < n \<Longrightarrow> cpu_ok 0 (idle_machine n)"
  using calm_idle by (simp add: calm_def)

lemma acquire_held:
  assumes "cpu_ok c s" and "lk_locked (locks s lk)"
  shows "acquire lk s = (if lk_cpu (locks s lk) = Some c then Panic ''acquire'' else Spin lk (pushed c s))"
proof -
  have ok: "cpu_ok c (pushed c s)" by (rule cpu_ok_pushed) fact
  have l: "locks (pushed c s) = locks s" by (simp add: pushed_def)
  have d: "synced c (pushed c s) = pushed c s"
    using assms(1) by (intro synced_deep) (simp add: pushed_def cpu_ok_def)
  show ?thesis
    using assms(2) l by (simp add: acquire_def acquire_xchg_def pushcli_eq [OF assms(1)] holding_eq [OF ok] d)
qed

text \<open>what \<open>acquire\<close> does, in every case: it panics when this CPU already holds the lock, spins
  (with interrupts off) while another CPU holds it, and otherwise returns holding the lock, with
  interrupts off and the \<open>pushcli\<close> depth one higher; nothing else changes.\<close>

theorem acquire_outcome:
  assumes "cpu_ok c s"
  shows "acquire lk s =
    (if lk_locked (locks s lk) then
       (if lk_cpu (locks s lk) = Some c then Panic ''acquire'' else Spin lk (pushed c s))
     else Ret () (enter lk c s))"
proof (cases "lk_locked (locks s lk)")
  case True
  with assms show ?thesis by (simp add: acquire_held)
next
  case False
  have ok: "cpu_ok c (pushed c s)" by (rule cpu_ok_pushed) fact
  have l: "locks (pushed c s) = locks s" and i: "\<not> eflags_if (pushed c s)"
    by (simp_all add: pushed_def)
  have m: "mycpu (pushed c s\<lparr>locks := l'\<rparr>) = Ret c (pushed c s\<lparr>locks := l'\<rparr>)" for l'
    using assms(1) i by (simp add: mycpu_eq cpu_ok_def)
  have d: "synced c (pushed c s) = pushed c s"
    using assms(1) by (intro synced_deep) (simp add: pushed_def cpu_ok_def)
  show ?thesis
    using False l
    by (simp add: acquire_def acquire_xchg_def pushcli_eq [OF assms(1)] holding_eq [OF ok] m d Let_def)
       (simp add: enter_def pushed_def)
qed

theorem acquire_outcome_witness:
  "cpu_ok 0 (idle_machine 1) \<and> acquire KmemLock (idle_machine 1) = Ret () (enter KmemLock 0 (idle_machine 1))"
  using acquire_outcome [of 0 "idle_machine 1" KmemLock] cpu_ok_idle [of 1]
  by (simp add: idle_machine_def)

text \<open>a critical section leaves the machine as it found it: \<open>acquire\<close> followed by
  \<open>release\<close> returns, and interrupt flag, \<open>pushcli\<close> depth and lock are what they were. Only the
  saved flag \<open>intena\<close>, meaningless at depth zero, is refreshed there.\<close>

theorem acquire_release_restores:
  assumes "cpu_ok c s" and "lock_free lk s"
  shows "then_do (acquire lk s) (\<lambda>_ t. release lk t) = Ret () (synced c s)"
proof -
  have "release lk (enter lk c s) = Ret () (leave lk c (enter lk c s))"
    using assms by (intro release_eq) (auto simp: cpu_ok_def [of c s])
  with assms show ?thesis by (simp add: acquire_eq leave_enter)
qed

theorem acquire_release_restores_witness:
  "cpu_ok 0 (idle_machine 2) \<and> lock_free LogLock (idle_machine 2)
   \<and> then_do (acquire LogLock (idle_machine 2)) (\<lambda>_ t. release LogLock t)
       = Ret () (synced 0 (idle_machine 2))"
proof -
  have "cpu_ok 0 (idle_machine 2)" by (simp add: cpu_ok_idle)
  moreover have "lock_free LogLock (idle_machine 2)" by (simp add: lock_free_def idle_machine_def)
  ultimately show ?thesis using acquire_release_restores [of 0 "idle_machine 2" LogLock] by blast
qed

primrec pushcli_n :: "nat \<Rightarrow> 'a machine_scheme \<Rightarrow> (unit, 'a machine_scheme) outcome" where
  "pushcli_n 0 s = Ret () s"
| "pushcli_n (Suc n) s = then_do (pushcli s) (\<lambda>_ s. pushcli_n n s)"

primrec popcli_n :: "nat \<Rightarrow> 'a machine_scheme \<Rightarrow> (unit, 'a machine_scheme) outcome" where
  "popcli_n 0 s = Ret () s"
| "popcli_n (Suc n) s = then_do (popcli_n n s) (\<lambda>_ s. popcli s)"

text \<open>\<open>pushcli\<close> and \<open>popcli\<close> are matched: \<open>n\<close> calls of \<open>popcli\<close> undo \<open>n\<close> calls of
  \<open>pushcli\<close>, interrupts come back on exactly at the last one and only if they were on before,
  and \<open>popcli\<close> never panics on the way.\<close>

theorem popcli_undoes_pushcli:
  assumes "cpu_ok c s"
  shows "then_do (pushcli_n n s) (\<lambda>_ t. popcli_n n t) = Ret () (if n = 0 then s else synced c s)"
  using assms
proof (induction n arbitrary: s)
  case 0
  then show ?case by simp
next
  case (Suc n)
  have ok: "cpu_ok c (pushed c s)" by (rule cpu_ok_pushed) (rule Suc.prems)
  have d: "synced c (pushed c s) = pushed c s"
    using Suc.prems by (intro synced_deep) (simp add: pushed_def cpu_ok_def)
  have "then_do (pushcli_n (Suc n) s) (\<lambda>_ t. popcli_n (Suc n) t)
      = then_do (then_do (pushcli_n n (pushed c s)) (\<lambda>_ t. popcli_n n t)) (\<lambda>_ t. popcli t)"
    by (simp add: pushcli_eq [OF Suc.prems] then_do_assoc)
  also have "\<dots> = popcli (pushed c s)"
    using Suc.IH [OF ok] d by simp
  also have "\<dots> = Ret () (popped c (pushed c s))"
    using Suc.prems by (intro popcli_eq) (auto simp: cpu_ok_def pushed_def)
  finally show ?case by (simp add: popped_pushed [OF Suc.prems])
qed

theorem popcli_undoes_pushcli_witness:
  "cpu_ok 0 (idle_machine 1)
   \<and> then_do (pushcli_n 3 (idle_machine 1)) (\<lambda>_ t. popcli_n 3 t) = Ret () (idle_machine 1)"
  using popcli_undoes_pushcli [of 0 "idle_machine 1" 3] cpu_ok_idle [of 1]
    synced_calm [OF calm_idle [of 1]] by simp

section \<open>Many CPUs and many locks\<close>

text \<open>The locks a CPU holds, as the lock table has it.\<close>

definition held :: "nat \<Rightarrow> 'a machine_scheme \<Rightarrow> lockid set" where
  "held c s = {lk. lk_locked (locks s lk) \<and> lk_cpu (locks s lk) = Some c}"

text \<open>Several CPUs that share the locks. \<open>smp_now\<close> is the machine as the executing CPU sees it;
  \<open>smp_if\<close> keeps the interrupt flags of the CPUs that do not execute. Two history variables follow
  the calls: \<open>smp_inside lk\<close> are the CPUs whose call of \<open>acquire\<close> for \<open>lk\<close> has returned and that have
  not released it since, \<open>smp_spin c\<close> is the lock in whose \<open>xchg\<close> loop CPU \<open>c\<close> spins. Neither is read by
  the lock code.\<close>

record smp =
  smp_now :: machine
  smp_if :: "nat \<Rightarrow> bool"
  smp_inside :: "lockid \<Rightarrow> nat set"
  smp_spin :: "nat \<Rightarrow> lockid option"

text \<open>Another CPU goes on, with its own APIC ID and its own interrupt flag.\<close>

definition switch_to :: "nat \<Rightarrow> nat \<Rightarrow> smp \<Rightarrow> smp" where
  "switch_to c i w = (let s = smp_now w; fl = (smp_if w)(c := eflags_if s) in
     w\<lparr>smp_now := s\<lparr>lapicid := cpu_apicid (cpus s i), eflags_if := fl i\<rparr>, smp_if := fl\<rparr>)"

definition int_flag :: "nat \<Rightarrow> smp \<Rightarrow> bool" where
  "int_flag i w = (if this_cpu (smp_now w) = Some i then eflags_if (smp_now w) else smp_if w i)"

text \<open>The states \<open>n\<close> CPUs reach. They start without locks and with any interrupt flags. A CPU that does
  not spin calls \<open>acquire\<close>, which returns or starts to spin, or \<open>release\<close>; one that spins repeats its
  \<open>xchg\<close> until it gets the lock. An interrupt gate turns interrupts off at any time; outside
  \<open>popcli\<close> they are turned on, by the \<open>sti\<close> of the scheduler or the return from an interrupt, only by a
  CPU inside no critical section.\<close>

inductive lock_reach :: "nat \<Rightarrow> smp \<Rightarrow> bool" for n :: nat where
  boot: "0 < n \<Longrightarrow> n \<le> 8 \<Longrightarrow>
     lock_reach n \<lparr>smp_now = (idle_machine n)\<lparr>eflags_if := fl 0\<rparr>, smp_if = fl, smp_inside = (\<lambda>_. {}), smp_spin = (\<lambda>_. None)\<rparr>"
| acquire_step: "lock_reach n w \<Longrightarrow> this_cpu (smp_now w) = Some c \<Longrightarrow> smp_spin w c = None
     \<Longrightarrow> acquire lk (smp_now w) = Ret () t
     \<Longrightarrow> lock_reach n (w\<lparr>smp_now := t, smp_inside := (smp_inside w)(lk := insert c (smp_inside w lk))\<rparr>)"
| spin_step: "lock_reach n w \<Longrightarrow> this_cpu (smp_now w) = Some c \<Longrightarrow> smp_spin w c = None
     \<Longrightarrow> acquire lk (smp_now w) = Spin lk t \<Longrightarrow> lock_reach n (w\<lparr>smp_now := t, smp_spin := (smp_spin w)(c := Some lk)\<rparr>)"
| xchg_step: "lock_reach n w \<Longrightarrow> this_cpu (smp_now w) = Some c \<Longrightarrow> smp_spin w c = Some lk
     \<Longrightarrow> acquire_xchg lk (smp_now w) = Ret () t
     \<Longrightarrow> lock_reach n (w\<lparr>smp_now := t, smp_inside := (smp_inside w)(lk := insert c (smp_inside w lk)), smp_spin := (smp_spin w)(c := None)\<rparr>)"
| release_step: "lock_reach n w \<Longrightarrow> this_cpu (smp_now w) = Some c \<Longrightarrow> smp_spin w c = None
     \<Longrightarrow> release lk (smp_now w) = Ret () t
     \<Longrightarrow> lock_reach n (w\<lparr>smp_now := t, smp_inside := (smp_inside w)(lk := smp_inside w lk - {c})\<rparr>)"
| int_off: "lock_reach n w \<Longrightarrow> lock_reach n (w\<lparr>smp_now := cli (smp_now w)\<rparr>)"
| int_on: "lock_reach n w \<Longrightarrow> this_cpu (smp_now w) = Some c \<Longrightarrow> smp_spin w c = None \<Longrightarrow> (\<And>lk. c \<notin> smp_inside w lk)
     \<Longrightarrow> lock_reach n (w\<lparr>smp_now := sti (smp_now w)\<rparr>)"
| run_on: "lock_reach n w \<Longrightarrow> this_cpu (smp_now w) = Some c \<Longrightarrow> i < n \<Longrightarrow> lock_reach n (switch_to c i w)"

text \<open>The invariant of the lock table and the CPUs: \<open>lock_inv\<close> of the machine, with \<open>d i\<close> the number of
  locks CPU \<open>i\<close> spins for, and \<open>smp_inv\<close> of everything.\<close>

definition lock_wf :: "nat \<Rightarrow> spinlock \<Rightarrow> bool" where
  "lock_wf n l = (case lk_cpu l of None \<Rightarrow> \<not> lk_locked l | Some i \<Rightarrow> i < n \<and> lk_locked l)"

lemma lock_wf_simps [simp]:
  "lock_wf n \<lparr>lk_locked = False, lk_cpu = None\<rparr>" "lock_wf n \<lparr>lk_locked = True, lk_cpu = Some c\<rparr> \<longleftrightarrow> c < n"
  by (simp_all add: lock_wf_def)

definition lock_inv :: "nat \<Rightarrow> (nat \<Rightarrow> nat) \<Rightarrow> machine \<Rightarrow> bool" where
  "lock_inv n d s \<longleftrightarrow> n \<le> 8 \<and> ncpu s = n \<and> (\<forall>i. cpu_apicid (cpus s i) = of_nat i)
     \<and> (\<exists>c < n. cpu_ok c s)
     \<and> (\<forall>lk. lock_wf n (locks s lk))
     \<and> (\<forall>i. finite (held i s) \<and> cpu_ncli (cpus s i) = int (card (held i s) + d i))"

definition spins :: "smp \<Rightarrow> nat \<Rightarrow> nat" where
  "spins w i = (if smp_spin w i = None then 0 else 1)"

definition smp_inv :: "nat \<Rightarrow> smp \<Rightarrow> bool" where
  "smp_inv n w \<longleftrightarrow> lock_inv n (spins w) (smp_now w)
     \<and> (\<forall>lk i. i \<in> smp_inside w lk \<longleftrightarrow> lk \<in> held i (smp_now w))
     \<and> (\<forall>i < n. cpu_ncli (cpus (smp_now w) i) \<noteq> 0 \<longrightarrow> \<not> int_flag i w)"

lemma this_cpu_lock_inv:
  assumes "ncpu s = n" "n \<le> 8" "\<And>i. cpu_apicid (cpus s i) = of_nat i" "i < n" "lapicid s = of_nat i"
  shows "this_cpu s = Some i"
proof -
  have "of_nat j \<noteq> (of_nat i :: u8)" if "j < i" for j
    using that assms(2,4) by (simp add: word_unat_eq_iff unat_of_nat)
  then show ?thesis
    using assms by (auto simp: this_cpu_def find_idx_Some)
qed

lemma held_enter:
  assumes "\<not> lk_locked (locks s lk)"
  shows "held i (enter lk c s) = (if i = c then insert lk (held c s) else held i s)"
    and "lk \<notin> held i s"
  using assms by (auto simp: held_def enter_def)

lemma held_leave:
  assumes "lock_mine lk c s"
  shows "held i (leave lk c s) = (if i = c then held c s - {lk} else held i s)"
  using assms by (auto simp: held_def leave_def lock_mine_def split: if_splits)

lemma cpu_ncli_enter: "cpu_ncli (cpus (enter lk c s) i) = cpu_ncli (cpus s i) + (if i = c then 1 else 0)"
  by (simp add: enter_def)

lemma cpu_ncli_leave: "cpu_ncli (cpus (leave lk c s) i) = cpu_ncli (cpus s i) - (if i = c then 1 else 0)"
  by (simp add: leave_def)

lemma lock_inv_cpu: "lock_inv n d s \<Longrightarrow> this_cpu s = Some c \<Longrightarrow> c < n \<and> cpu_ok c s"
  by (auto simp: lock_inv_def cpu_ok_def)

lemma lock_invI:
  assumes "lock_inv n d s" and "ncpu t = ncpu s" and "\<And>i. cpu_apicid (cpus t i) = cpu_apicid (cpus s i)"
    and "c < n" and "cpu_ok c t"
    and "\<And>lk. lock_wf n (locks t lk)"
    and "\<And>i. finite (held i t) \<and> cpu_ncli (cpus t i) = int (card (held i t) + e i)"
  shows "lock_inv n e t"
  using assms by (auto simp: lock_inv_def)

lemma pushed_simps [simp]: "held i (pushed c s) = held i s" "locks (pushed c s) = locks s" "ncpu (pushed c s) = ncpu s"
  "cpus (pushed c s) = (cpus s)(c := cpu_push (eflags_if s) (cpus s c))"
  by (simp_all add: pushed_def held_def)

lemma lock_inv_pushed:
  assumes inv: "lock_inv n d s" and c: "this_cpu s = Some c"
  shows "lock_inv n (d(c := Suc (d c))) (pushed c s)"
proof (rule lock_invI [OF inv _ _ _ cpu_ok_pushed])
  show "c < n" "cpu_ok c s" using lock_inv_cpu [OF inv c] by simp_all
qed (use inv in \<open>auto simp: lock_inv_def\<close>)

text \<open>The \<open>xchg\<close> that gets the lock.\<close>

definition taken :: "lockid \<Rightarrow> nat \<Rightarrow> 'a machine_scheme \<Rightarrow> 'a machine_scheme" where
  "taken lk c s = s\<lparr>locks := (locks s)(lk := \<lparr>lk_locked = True, lk_cpu = Some c\<rparr>)\<rparr>"

lemma enter_taken: "enter lk c s = taken lk c (pushed c s)"
  by (simp add: enter_def taken_def pushed_def)

lemma cpu_ok_locks [simp]: "cpu_ok c (s\<lparr>locks := l\<rparr>) = cpu_ok c s"
  by (simp add: cpu_ok_def)

lemma held_taken:
  assumes "\<not> lk_locked (locks s lk)"
  shows "held i (taken lk c s) = (if i = c then insert lk (held c s) else held i s)"
    and "lk \<notin> held i s"
  using assms by (auto simp: held_def taken_def)

lemma lock_inv_taken:
  assumes inv: "lock_inv n d s" and c: "this_cpu s = Some c" and d: "d c = Suc k" and free: "\<not> lk_locked (locks s lk)"
  shows "lock_inv n (d(c := k)) (taken lk c s)"
proof (rule lock_invI [OF inv])
  show "c < n" "cpu_ok c (taken lk c s)" using lock_inv_cpu [OF inv c] by (simp_all add: taken_def)
  show "finite (held i (taken lk c s)) \<and> cpu_ncli (cpus (taken lk c s) i) = int (card (held i (taken lk c s)) + (d(c := k)) i)" for i
    using inv d by (auto simp: held_taken [OF free] lock_inv_def) (simp_all add: taken_def)
qed (use inv lock_inv_cpu [OF inv c] in \<open>auto simp: taken_def lock_inv_def\<close>)

lemma lock_inv_enter:
  assumes inv: "lock_inv n d s" and c: "this_cpu s = Some c" and free: "\<not> lk_locked (locks s lk)"
  shows "lock_inv n d (enter lk c s)"
  using lock_inv_taken [OF lock_inv_pushed [OF inv c], of c "d c" lk] c free
  by (simp add: enter_taken)

lemma lock_inv_leave:
  assumes inv: "lock_inv n d s" and c: "this_cpu s = Some c" and mine: "lock_mine lk c s"
  shows "lock_inv n d (leave lk c s)" and "1 \<le> cpu_ncli (cpus s c)"
proof -
  have lk: "lk \<in> held c s" using mine by (simp add: held_def lock_mine_def)
  then have card: "0 < card (held c s)" using inv by (auto simp: lock_inv_def card_gt_0_iff)
  then show "1 \<le> cpu_ncli (cpus s c)" using inv by (simp add: lock_inv_def)
  have n: "finite (held i (leave lk c s)) \<and> cpu_ncli (cpus (leave lk c s) i) = int (card (held i (leave lk c s)) + d i)" for i
    using inv card lk by (auto simp: lock_inv_def cpu_ncli_leave held_leave [OF mine] of_nat_diff)
  then have "0 \<le> cpu_ncli (cpus (leave lk c s) c)" by simp
  then have ok: "cpu_ok c (leave lk c s)" using c by (auto simp: cpu_ok_def leave_def)
  show "lock_inv n d (leave lk c s)"
    by (rule lock_invI [OF inv _ _ _ ok _ n]) (use lock_inv_cpu [OF inv c] inv in \<open>auto simp: leave_def lock_inv_def\<close>)
qed

text \<open>What the lock operations did when they returned.\<close>

lemma acquire_returned:
  assumes "cpu_ok c s" and "acquire lk s = Ret () t"
  shows "\<not> lk_locked (locks s lk) \<and> t = enter lk c s"
  using assms(2) by (simp add: acquire_outcome [OF assms(1)] split: if_splits)

lemma acquire_spun:
  assumes "cpu_ok c s" and "acquire lk s = Spin lk t"
  shows "t = pushed c s"
  using assms(2) by (simp add: acquire_outcome [OF assms(1)] split: if_splits)

lemma acquire_xchg_returned:
  assumes "cpu_ok c s" and "cpu_ncli (cpus s c) \<noteq> 0" and "acquire_xchg lk s = Ret () t"
  shows "\<not> lk_locked (locks s lk) \<and> t = taken lk c s"
proof -
  have "mycpu (s\<lparr>locks := l\<rparr>) = Ret c (s\<lparr>locks := l\<rparr>)" for l
    using assms(1,2) by (intro mycpu_eq) (auto simp: cpu_ok_def)
  with assms(3) show ?thesis by (auto simp: acquire_xchg_def taken_def Let_def split: if_splits)
qed

lemma release_returned:
  assumes "lock_inv n d s" and "this_cpu s = Some c" and "release lk s = Ret () t"
  shows "lock_mine lk c s \<and> t = leave lk c s"
proof -
  have ok: "cpu_ok c s" using lock_inv_cpu [OF assms(1,2)] by simp
  have mine: "lock_mine lk c s"
    using assms(3) by (auto simp: release_def holding_eq [OF ok] lock_mine_def spinlock.equality split: if_splits)
  then show ?thesis using assms(3) release_eq [OF ok lock_inv_leave(2) [OF assms(1,2) mine] mine] by simp
qed

text \<open>A step of CPU \<open>c\<close> keeps the invariant if it keeps that of the machine and the history, and leaves the
  other CPUs alone.\<close>

lemma smp_inv_step:
  assumes "smp_inv n w" and "this_cpu (smp_now w) = Some c" and "this_cpu t = Some c" and "lock_inv n (spins w') t"
    and "smp_now w' = t" and "smp_if w' = smp_if w" and "\<And>lk i. i \<in> smp_inside w' lk \<longleftrightarrow> lk \<in> held i t"
    and "\<And>i. i \<noteq> c \<Longrightarrow> cpu_ncli (cpus t i) = cpu_ncli (cpus (smp_now w) i)"
  shows "smp_inv n w'"
proof -
  have "\<not> eflags_if t" if "cpu_ncli (cpus t c) \<noteq> 0" using lock_inv_cpu [OF assms(4,3)] that by (simp add: cpu_ok_def)
  with assms show ?thesis by (auto simp: smp_inv_def int_flag_def)
qed

lemma smp_inv_boot:
  assumes "0 < n" "n \<le> 8"
  shows "smp_inv n \<lparr>smp_now = (idle_machine n)\<lparr>eflags_if := fl 0\<rparr>, smp_if = fl, smp_inside = (\<lambda>_. {}), smp_spin = (\<lambda>_. None)\<rparr>"
proof -
  have "cpu_ok 0 ((idle_machine n)\<lparr>eflags_if := fl 0\<rparr>)"
    using this_cpu_idle [OF assms(1)] by (simp add: cpu_ok_def) (simp add: idle_machine_def)
  with assms show ?thesis
    by (auto simp: smp_inv_def lock_inv_def spins_def held_def idle_machine_def)
qed

lemma smp_inv_switch:
  assumes inv: "smp_inv n w" and c: "this_cpu (smp_now w) = Some c" and i: "i < n"
  shows "smp_inv n (switch_to c i w)"
proof -
  let ?s = "smp_now w" and ?t = "smp_now (switch_to c i w)"
  have l: "lock_inv n (spins w) ?s" using inv by (simp add: smp_inv_def)
  have t: "this_cpu ?t = Some i"
    using l i by (intro this_cpu_lock_inv [of _ n]) (auto simp: lock_inv_def switch_to_def Let_def)
  have fl: "int_flag j (switch_to c i w) = int_flag j w" for j
    using t c by (simp add: int_flag_def) (auto simp: switch_to_def Let_def)
  have e: "eflags_if ?t = int_flag i w" using fl [of i] t by (simp add: int_flag_def)
  have same: "cpus ?t = cpus ?s" "locks ?t = locks ?s" "ncpu ?t = ncpu ?s" "spins (switch_to c i w) = spins w"
      "smp_inside (switch_to c i w) = smp_inside w" "held j ?t = held j ?s" for j
    by (simp_all add: switch_to_def Let_def spins_def [abs_def] held_def)
  have "cpu_ok i ?t" using t e inv i l by (auto simp: cpu_ok_def same smp_inv_def lock_inv_def)
  then have "lock_inv n (spins (switch_to c i w)) ?t"
    using l i by (intro lock_invI [OF l _ _ i]) (auto simp: same lock_inv_def)
  with inv show ?thesis by (simp add: smp_inv_def fl same)
qed

lemma spins_upd:
  "spins (w\<lparr>smp_now := t\<rparr>) = spins w" "spins (w\<lparr>smp_now := t, smp_inside := I\<rparr>) = spins w"
  "spins (w\<lparr>smp_now := t, smp_spin := (smp_spin w)(c := Some lk)\<rparr>) = (spins w)(c := 1)"
  "spins (w\<lparr>smp_now := t, smp_inside := I, smp_spin := (smp_spin w)(c := None)\<rparr>) = (spins w)(c := 0)"
  by (auto simp: spins_def fun_eq_iff)

lemma smp_inv_flag:
  assumes inv: "smp_inv n w" and c: "this_cpu (smp_now w) = Some c" and b: "b \<Longrightarrow> cpu_ncli (cpus (smp_now w) c) = 0"
  shows "smp_inv n (w\<lparr>smp_now := (smp_now w)\<lparr>eflags_if := b\<rparr>\<rparr>)"
proof -
  let ?t = "(smp_now w)\<lparr>eflags_if := b\<rparr>"
  have l: "lock_inv n (spins w) (smp_now w)" using inv by (simp add: smp_inv_def)
  have "cpu_ok c ?t" using lock_inv_cpu [OF l c] b by (auto simp: cpu_ok_def)
  then have "lock_inv n (spins w) ?t"
    using l lock_inv_cpu [OF l c] by (intro lock_invI [OF l, of _ c]) (auto simp: lock_inv_def held_def)
  then show ?thesis using inv c
    by (intro smp_inv_step [OF inv c, of ?t]) (auto simp: spins_upd smp_inv_def held_def)
qed

lemma smp_invD:
  assumes "smp_inv n w"
  shows "lock_inv n (spins w) (smp_now w)" and "i \<in> smp_inside w lk \<longleftrightarrow> lk \<in> held i (smp_now w)"
  using assms by (simp_all add: smp_inv_def)

lemma smp_inv_acquire:
  assumes inv: "smp_inv n w" and c: "this_cpu (smp_now w) = Some c" and ret: "acquire lk (smp_now w) = Ret () t"
  shows "smp_inv n (w\<lparr>smp_now := t, smp_inside := (smp_inside w)(lk := insert c (smp_inside w lk))\<rparr>)"
proof -
  note l = smp_invD(1) [OF inv]
  have a: "\<not> lk_locked (locks (smp_now w) lk)" "t = enter lk c (smp_now w)"
    using acquire_returned [of c, OF _ ret] lock_inv_cpu [OF l c] by simp_all
  show ?thesis
    using lock_inv_enter [OF l c a(1)] c a(2)
    by (intro smp_inv_step [OF inv c, of t]) (auto simp: spins_upd smp_invD(2) [OF inv] held_enter [OF a(1)] cpu_ncli_enter)
qed

lemma smp_inv_spin:
  assumes inv: "smp_inv n w" and c: "this_cpu (smp_now w) = Some c" and no: "smp_spin w c = None"
    and spin: "acquire lk (smp_now w) = Spin lk t"
  shows "smp_inv n (w\<lparr>smp_now := t, smp_spin := (smp_spin w)(c := Some lk)\<rparr>)"
proof -
  note l = smp_invD(1) [OF inv]
  have a: "t = pushed c (smp_now w)" using acquire_spun [of c, OF _ spin] lock_inv_cpu [OF l c] by simp
  have "spins w c = 0" using no by (simp add: spins_def)
  then show ?thesis
    using lock_inv_pushed [OF l c] c a by (intro smp_inv_step [OF inv c, of t]) (auto simp: spins_upd smp_invD(2) [OF inv])
qed

lemma smp_inv_xchg:
  assumes inv: "smp_inv n w" and c: "this_cpu (smp_now w) = Some c" and spin: "smp_spin w c = Some lk"
    and ret: "acquire_xchg lk (smp_now w) = Ret () t"
  shows "smp_inv n (w\<lparr>smp_now := t, smp_inside := (smp_inside w)(lk := insert c (smp_inside w lk)), smp_spin := (smp_spin w)(c := None)\<rparr>)"
proof -
  note l = smp_invD(1) [OF inv]
  have d: "spins w c = Suc 0" using spin by (simp add: spins_def)
  then have "cpu_ncli (cpus (smp_now w) c) \<noteq> 0" using l by (simp add: lock_inv_def)
  then have a: "\<not> lk_locked (locks (smp_now w) lk)" "t = taken lk c (smp_now w)"
    using acquire_xchg_returned [of c, OF _ _ ret] lock_inv_cpu [OF l c] by simp_all
  show ?thesis
    using lock_inv_taken [OF l c d a(1)] c a(2)
    by (intro smp_inv_step [OF inv c, of t]) (auto simp: spins_upd smp_invD(2) [OF inv] held_taken [OF a(1)], simp_all add: taken_def)
qed

lemma smp_inv_release:
  assumes inv: "smp_inv n w" and c: "this_cpu (smp_now w) = Some c" and ret: "release lk (smp_now w) = Ret () t"
  shows "smp_inv n (w\<lparr>smp_now := t, smp_inside := (smp_inside w)(lk := smp_inside w lk - {c})\<rparr>)"
proof -
  note l = smp_invD(1) [OF inv]
  have a: "lock_mine lk c (smp_now w)" "t = leave lk c (smp_now w)" using release_returned [OF l c ret] by simp_all
  then have o: "lk \<in> held i (smp_now w) \<longleftrightarrow> i = c" for i by (auto simp: held_def lock_mine_def)
  show ?thesis
    using lock_inv_leave(1) [OF l c a(1)] c a(2)
    by (intro smp_inv_step [OF inv c, of t]) (auto simp: spins_upd smp_invD(2) [OF inv] held_leave [OF a(1)] cpu_ncli_leave o)
qed

lemma smp_inv_cli: "smp_inv n w \<Longrightarrow> smp_inv n (w\<lparr>smp_now := cli (smp_now w)\<rparr>)"
proof -
  assume inv: "smp_inv n w"
  then obtain c where "this_cpu (smp_now w) = Some c" by (auto simp: smp_inv_def lock_inv_def cpu_ok_def)
  from smp_inv_flag [OF inv this, of False] show ?thesis by (simp add: cli_def)
qed

lemma smp_inv_sti:
  assumes inv: "smp_inv n w" and c: "this_cpu (smp_now w) = Some c" and no: "smp_spin w c = None" "\<And>lk. c \<notin> smp_inside w lk"
  shows "smp_inv n (w\<lparr>smp_now := sti (smp_now w)\<rparr>)"
proof -
  have "held c (smp_now w) = {}" using no(2) smp_invD(2) [OF inv] by auto
  then have "cpu_ncli (cpus (smp_now w) c) = 0" using no(1) smp_invD(1) [OF inv] by (simp add: lock_inv_def spins_def)
  with smp_inv_flag [OF inv c, of True] show ?thesis by (simp add: sti_def)
qed

lemma lock_reach_inv: "lock_reach n w \<Longrightarrow> smp_inv n w"
  by (induction rule: lock_reach.induct)
     (blast intro: smp_inv_boot smp_inv_acquire smp_inv_spin smp_inv_xchg smp_inv_release smp_inv_cli smp_inv_sti smp_inv_switch)+

text \<open>C34: mutual exclusion of spin locks. Whatever calls of \<open>acquire\<close> and \<open>release\<close> the CPUs of a machine
  make, in whatever interleaving: no two CPUs are between their \<open>acquire\<close> of the same lock and its
  release; the lock table marks a lock as locked by a CPU exactly when that CPU is there, and a lock
  marked as locked has such a CPU; the \<open>pushcli\<close> depth of every CPU is the number of locks it is
  inside of, plus one while it spins; and a CPU that is inside a critical section or spins has
  interrupts off, so that no interrupt handler can run on it and try to take the same lock.\<close>

theorem lock_holder_uninterrupted:
  assumes "lock_reach n w"
  shows "(\<forall>lk i j. i \<in> smp_inside w lk \<longrightarrow> j \<in> smp_inside w lk \<longrightarrow> i = j)
    \<and> (\<forall>lk i. lk_locked (locks (smp_now w) lk) \<and> lk_cpu (locks (smp_now w) lk) = Some i \<longleftrightarrow> i \<in> smp_inside w lk)
    \<and> (\<forall>lk. lk_locked (locks (smp_now w) lk) \<longrightarrow> (\<exists>i < n. i \<in> smp_inside w lk))
    \<and> (\<forall>i. cpu_ncli (cpus (smp_now w) i) = int (card {lk. i \<in> smp_inside w lk}) + (if smp_spin w i = None then 0 else 1))
    \<and> (\<forall>i < n. (\<exists>lk. i \<in> smp_inside w lk) \<or> smp_spin w i \<noteq> None \<longrightarrow> \<not> int_flag i w)"
proof (intro conjI allI impI)
  from assms have inv: "smp_inv n w" by (rule lock_reach_inv)
  note l = smp_invD(1) [OF inv] and ins = smp_invD(2) [OF inv]
  have set: "{lk. i \<in> smp_inside w lk} = held i (smp_now w)" for i using ins by auto
  show "i = j" if "i \<in> smp_inside w lk" "j \<in> smp_inside w lk" for lk i j using that by (simp add: ins held_def)
  show "lk_locked (locks (smp_now w) lk) \<and> lk_cpu (locks (smp_now w) lk) = Some i \<longleftrightarrow> i \<in> smp_inside w lk" for lk i
    by (simp add: ins held_def)
  show "\<exists>i < n. i \<in> smp_inside w lk" if "lk_locked (locks (smp_now w) lk)" for lk
    using l that by (auto simp: ins held_def lock_inv_def lock_wf_def split: option.splits dest!: spec [of _ lk])
  show n: "cpu_ncli (cpus (smp_now w) i) = int (card {lk. i \<in> smp_inside w lk}) + (if smp_spin w i = None then 0 else 1)" for i
    using l by (simp add: lock_inv_def set spins_def)
  show "\<not> int_flag i w" if "i < n" "(\<exists>lk. i \<in> smp_inside w lk) \<or> smp_spin w i \<noteq> None" for i
  proof -
    have "finite (held i (smp_now w))" using l by (simp add: lock_inv_def)
    then have "cpu_ncli (cpus (smp_now w) i) \<noteq> 0" using that(2) n [of i] unfolding set by (auto simp: ins)
    with inv that(1) show ?thesis by (simp add: smp_inv_def)
  qed
qed

theorem lock_holder_uninterrupted_witness:
  "\<exists>w. lock_reach 2 w \<and> 0 \<in> smp_inside w KmemLock \<and> 1 \<notin> smp_inside w KmemLock \<and> \<not> int_flag 0 w"
proof -
  let ?s = "(idle_machine 2)\<lparr>eflags_if := True\<rparr>"
  let ?b = "\<lparr>smp_now = ?s, smp_if = (\<lambda>_. True), smp_inside = (\<lambda>_. {}), smp_spin = (\<lambda>_. None)\<rparr>"
  let ?w = "?b\<lparr>smp_now := enter KmemLock 0 ?s, smp_inside := (smp_inside ?b)(KmemLock := insert 0 (smp_inside ?b KmemLock))\<rparr>"
  have s: "?s = idle_machine 2" by (simp add: idle_machine_def)
  have "lock_free KmemLock ?s" by (simp add: lock_free_def idle_machine_def)
  then have "acquire KmemLock ?s = Ret () (enter KmemLock 0 ?s)"
    using acquire_eq [OF cpu_ok_idle [of 2]] s by simp
  moreover have "lock_reach 2 ?b" using lock_reach.boot [of 2 "\<lambda>_. True"] by simp
  ultimately have r: "lock_reach 2 ?w"
    using lock_reach.acquire_step [of 2 ?b 0 KmemLock "enter KmemLock 0 ?s"] this_cpu_idle [of 2] s by simp
  have i: "0 \<in> smp_inside ?w KmemLock" by simp
  from lock_holder_uninterrupted [OF r] r i show ?thesis
    by (intro exI [of _ ?w]) (metis zero_neq_one zero_less_numeral)
qed

section \<open>Frame of the lock operations\<close>

text \<open>Whatever the state, a lock operation that returns changes only the interrupt flag, the depth
  and saved flag of CPUs, and locks. \<open>lock_frame s t\<close> says so; everything a component adds to the
  state is left alone.\<close>

definition same_cpus :: "(nat \<Rightarrow> cpu) \<Rightarrow> (nat \<Rightarrow> cpu) \<Rightarrow> bool" where
  "same_cpus f g \<longleftrightarrow> (\<forall>i. cpu_apicid (f i) = cpu_apicid (g i) \<and> cpu_proc (f i) = cpu_proc (g i)
     \<and> cpu_esp0 (f i) = cpu_esp0 (g i))"

definition lock_frame :: "'a machine_scheme \<Rightarrow> 'a machine_scheme \<Rightarrow> bool" where
  "lock_frame s t \<longleftrightarrow> t = s\<lparr>eflags_if := eflags_if t, cpus := cpus t, locks := locks t\<rparr>
     \<and> same_cpus (cpus t) (cpus s)"

lemma same_cpus_refl [simp]: "same_cpus f f"
  by (simp add: same_cpus_def)

lemma lock_frame_refl [simp]: "lock_frame s s"
  by (simp add: lock_frame_def)

lemma lock_frame_upd:
  "same_cpus f (cpus s) \<Longrightarrow> lock_frame s (s\<lparr>eflags_if := e, cpus := f, locks := l\<rparr>)"
  by (simp add: lock_frame_def)

lemma lock_frame_trans:
  assumes "lock_frame s t" and "lock_frame t u"
  shows "lock_frame s u"
proof -
  from assms obtain e f l e' f' l' where
    "t = s\<lparr>eflags_if := e, cpus := f, locks := l\<rparr>" "same_cpus f (cpus s)"
    "u = t\<lparr>eflags_if := e', cpus := f', locks := l'\<rparr>" "same_cpus f' (cpus t)"
    unfolding lock_frame_def by blast
  then show ?thesis by (simp add: lock_frame_def same_cpus_def)
qed

lemma mycpu_frame: "mycpu s = Ret c t \<Longrightarrow> t = s"
  by (auto simp: mycpu_def split: if_splits option.splits)

lemma pushcli_frame: "pushcli s = Ret x t \<Longrightarrow> lock_frame s t"
  by (auto simp: pushcli_def then_do_Ret_iff Let_def cli_def lock_frame_def same_cpus_def
      dest!: mycpu_frame)

lemma popcli_frame: "popcli s = Ret x t \<Longrightarrow> lock_frame s t"
  by (auto simp: popcli_def then_do_Ret_iff Let_def sti_def lock_frame_def same_cpus_def
      dest!: mycpu_frame split: if_splits)

lemma holding_frame: "holding lk s = Ret r t \<Longrightarrow> lock_frame s t"
  by (auto simp: holding_def then_do_Ret_iff Let_def dest!: pushcli_frame mycpu_frame popcli_frame
      intro: lock_frame_trans)

lemma lock_frame_locks_upd: "lock_frame s t \<Longrightarrow> lock_frame s (t\<lparr>locks := l\<rparr>)"
  by (rule lock_frame_trans) (auto simp: lock_frame_def)

lemma acquire_frame: "acquire lk s = Ret x t \<Longrightarrow> lock_frame s t"
  by (auto simp: acquire_def acquire_xchg_def then_do_Ret_iff Let_def dest!: pushcli_frame holding_frame mycpu_frame
      split: if_splits intro: lock_frame_trans intro!: lock_frame_locks_upd)

lemma release_frame: "release lk s = Ret x t \<Longrightarrow> lock_frame s t"
  by (auto simp: release_def then_do_Ret_iff Let_def dest!: holding_frame popcli_frame
      split: if_splits)
     (blast intro: lock_frame_trans lock_frame_locks_upd)


section \<open>Critical sections\<close>

text \<open>Code between \<open>acquire\<close> and \<open>release\<close> that leaves CPUs and locks as it found them can be released
  again, and the pair leaves no trace in CPUs and locks.\<close>

definition same_core :: "'a machine_scheme \<Rightarrow> 'a machine_scheme \<Rightarrow> bool" where
  "same_core s t \<longleftrightarrow> cpus t = cpus s \<and> locks t = locks s \<and> ncpu t = ncpu s \<and> lapicid t = lapicid s
     \<and> eflags_if t = eflags_if s"

lemma same_core_refl [simp]: "same_core s s"
  by (simp add: same_core_def)

lemma same_core_trans: "same_core s t \<Longrightarrow> same_core t u \<Longrightarrow> same_core s u"
  by (simp add: same_core_def)

lemma same_coreD:
  assumes "same_core s t"
  shows "this_cpu t = this_cpu s" "cpu_ok c t = cpu_ok c s" "calm c t = calm c s"
    "lock_free lk t = lock_free lk s" "lock_mine lk c t = lock_mine lk c s" "cpus t = cpus s"
    "eflags_if t = eflags_if s" "mycpu s = Ret d s \<Longrightarrow> mycpu t = Ret d t"
  using assms
  by (auto simp: same_core_def this_cpu_def cpu_ok_def calm_def lock_free_def lock_mine_def mycpu_def
      readeflags_if_def split: if_splits option.splits)

lemma release_section:
  assumes "calm c s" and "lock_free lk s" and "same_core (enter lk c s) t"
  shows "release lk t = Ret () (leave lk c t) \<and> same_core s (leave lk c t)"
proof
  have ok: "cpu_ok c s" using assms(1) by (simp add: calm_def)
  have "cpu_ok c t" "lock_mine lk c t" "1 \<le> cpu_ncli (cpus t c)"
    using ok same_coreD [OF assms(3)] by (auto simp: cpu_ok_def)
  then show "release lk t = Ret () (leave lk c t)" by (simp add: release_eq)
  have "leave lk c (enter lk c s) = s"
    using assms(1,2) by (simp add: leave_enter synced_calm calm_def)
  moreover have "same_core (leave lk c (enter lk c s)) (leave lk c t)"
    using assms(3) by (simp add: same_core_def leave_def)
  ultimately show "same_core s (leave lk c t)" by simp
qed

lemma acquire_calm: "calm c s \<Longrightarrow> lock_free lk s \<Longrightarrow> acquire lk s = Ret () (enter lk c s)"
  by (simp add: acquire_eq calm_def)

lemma wp_release_section:
  assumes "calm c s" and "lock_free lk s" and "same_core (enter lk c s) t"
    and "same_core s (leave lk c t) \<Longrightarrow> Q () (leave lk c t)"
  shows "wp (release lk t) Q"
  using release_section [OF assms(1-3)] assms(4) by simp

lemma myproc_core:
  assumes "calm c s"
  shows "popcli (pushed c s) = Ret () s \<and> pushcli s = Ret () (pushed c s) \<and> mycpu (pushed c s) = Ret c (pushed c s)"
proof -
  have ok: "cpu_ok c s" and sy: "synced c s = s" using assms by (simp_all add: calm_def synced_calm [OF assms])
  have "pushcli s = Ret () (pushed c s)" by (rule pushcli_eq [OF ok])
  moreover have m: "\<not> eflags_if (pushed c s)" "this_cpu (pushed c s) = Some c"
    using ok by (auto simp: pushed_def cpu_ok_def)
  moreover from m have "mycpu (pushed c s) = Ret c (pushed c s)" by (rule mycpu_eq)
  moreover have "popcli (pushed c s) = Ret () (popped c (pushed c s))"
    using m ok by (intro popcli_eq) (auto simp: pushed_def cpu_ok_def)
  ultimately show ?thesis using popped_pushed [OF ok] sy by simp
qed

end
