(* ===== verification/Kstring.thy ===== *)
theory Kstring
  imports Machine
begin

text \<open>
  The memory and string routines of \<open>string.c\<close> (with the \<open>rep stos\<close> helpers of \<open>x86.h\<close>).
  \<open>memset\<close> and \<open>memmove\<close> act on the byte memory. The routines on NUL-terminated
  strings read their arguments through a function from offsets to bytes, so that they apply both
  to a string in memory and to a field of a structure; \<open>strncpy\<close> and \<open>safestrcpy\<close> return the
  contents they leave in the destination array.
\<close>

section \<open>Definitions\<close>

primrec stosb :: "mem \<Rightarrow> u32 \<Rightarrow> u8 \<Rightarrow> nat \<Rightarrow> mem" where
  "stosb m a c 0 = m"
| "stosb m a c (Suc n) = stosb (m(a := c)) (a + 1) c n"

primrec stosl :: "mem \<Rightarrow> u32 \<Rightarrow> u32 \<Rightarrow> nat \<Rightarrow> mem" where
  "stosl m a c 0 = m"
| "stosl m a c (Suc n) = stosl (st32 m a c) (a + 4) c n"

definition memset :: "mem \<Rightarrow> u32 \<Rightarrow> u32 \<Rightarrow> u32 \<Rightarrow> mem" where
  "memset m dst c n =
     (if dst mod 4 = 0 \<and> n mod 4 = 0 then
        let c = c AND 0xFF in
        stosl m dst (push_bit 24 c OR push_bit 16 c OR push_bit 8 c OR c) (unat (n div 4))
      else stosb m dst (ucast c) (unat n))"

primrec memcmp :: "mem \<Rightarrow> u32 \<Rightarrow> u32 \<Rightarrow> nat \<Rightarrow> int" where
  "memcmp m s1 s2 0 = 0"
| "memcmp m s1 s2 (Suc n) =
     (if m s1 \<noteq> m s2 then uint (m s1) - uint (m s2) else memcmp m (s1 + 1) (s2 + 1) n)"

text \<open>The two loops of \<open>memmove\<close>: \<open>*d++ = *s++\<close> and \<open>*--d = *--s\<close>.\<close>

primrec copy_up :: "mem \<Rightarrow> u32 \<Rightarrow> u32 \<Rightarrow> nat \<Rightarrow> mem" where
  "copy_up m d s 0 = m"
| "copy_up m d s (Suc n) = copy_up (m(d := m s)) (d + 1) (s + 1) n"

primrec copy_down :: "mem \<Rightarrow> u32 \<Rightarrow> u32 \<Rightarrow> nat \<Rightarrow> mem" where
  "copy_down m d s 0 = m"
| "copy_down m d s (Suc n) = copy_down (m(d - 1 := m (s - 1))) (d - 1) (s - 1) n"

definition memmove :: "mem \<Rightarrow> u32 \<Rightarrow> u32 \<Rightarrow> u32 \<Rightarrow> mem" where
  "memmove m dst src n =
     (if src < dst \<and> src + n > dst then copy_down m (dst + n) (src + n) (unat n)
      else copy_up m dst src (unat n))"

definition memcpy :: "mem \<Rightarrow> u32 \<Rightarrow> u32 \<Rightarrow> u32 \<Rightarrow> mem" where
  "memcpy m dst src n = memmove m dst src n"

text \<open>A copy of given bytes to an address.\<close>

definition put_bytes :: "mem \<Rightarrow> u32 \<Rightarrow> u8 list \<Rightarrow> mem" where
  "put_bytes m a bs = (\<lambda>x. if unat (x - a) < length bs then bs ! unat (x - a) else m x)"

type_synonym bytes = "nat \<Rightarrow> u8"

text \<open>The bytes at an address of memory, and the bytes of an array.\<close>

definition at_mem :: "mem \<Rightarrow> u32 \<Rightarrow> bytes" where
  "at_mem m a i = m (a + of_nat i)"

definition at_list :: "u8 list \<Rightarrow> bytes" where
  "at_list xs i = (if i < length xs then xs ! i else 0)"

primrec strncmp :: "bytes \<Rightarrow> bytes \<Rightarrow> nat \<Rightarrow> int" where
  "strncmp p q 0 = 0"
| "strncmp p q (Suc n) =
     (if p 0 \<noteq> 0 \<and> p 0 = q 0 then strncmp (\<lambda>i. p (Suc i)) (\<lambda>i. q (Suc i)) n
      else uint (p 0) - uint (q 0))"

primrec strncpy :: "bytes \<Rightarrow> nat \<Rightarrow> u8 list" where
  "strncpy t 0 = []"
| "strncpy t (Suc n) =
     (if t 0 \<noteq> 0 then t 0 # strncpy (\<lambda>i. t (Suc i)) n else t 0 # replicate n 0)"

text \<open>The loop of \<open>safestrcpy\<close>: \<open>i\<close> bytes are copied, \<open>n\<close> is the value before \<open>--n\<close>.\<close>

fun safestrcpy_loop :: "u8 list \<Rightarrow> bytes \<Rightarrow> nat \<Rightarrow> nat \<Rightarrow> u8 list" where
  "safestrcpy_loop s t i (Suc (Suc n)) =
     (if t i \<noteq> 0 then safestrcpy_loop (s[i := t i]) t (Suc i) (Suc n)
      else (s[i := t i])[Suc i := 0])"
| "safestrcpy_loop s t i n = s[i := 0]"

definition safestrcpy :: "u8 list \<Rightarrow> bytes \<Rightarrow> int \<Rightarrow> u8 list" where
  "safestrcpy s t n = (if n \<le> 0 then s else safestrcpy_loop s t 0 (nat n))"

partial_function (option) strlen_from :: "bytes \<Rightarrow> nat \<Rightarrow> nat option" where
  "strlen_from s n = (if s n = 0 then Some n else strlen_from s (Suc n))"

definition strlen :: "bytes \<Rightarrow> nat option" where
  "strlen s = strlen_from s 0"

text \<open>The C string held in the first \<open>n\<close> bytes of \<open>p\<close>.\<close>

definition cstr :: "bytes \<Rightarrow> nat \<Rightarrow> u8 list" where
  "cstr p n = takeWhile (\<lambda>b. b \<noteq> 0) (map p [0..<n])"

section \<open>memset fills, memmove copies\<close>

lemma word_range_Suc:
  fixes a d :: u32
  assumes "Suc n < 2 ^ 32"
  shows "unat (a - d) < Suc n \<longleftrightarrow> a = d \<or> unat (a - (d + 1)) < n"
proof (cases "a = d")
  case True
  then show ?thesis by simp
next
  case False
  then have "a - d \<noteq> 0" by simp
  then have "unat (a - d - 1) = unat (a - d) - 1"
    by (simp add: unat_minus_one)
  moreover have "0 < unat (a - d)" using \<open>a - d \<noteq> 0\<close> by (simp add: unat_gt_0)
  moreover have "a - d - 1 = a - (d + 1)" by simp
  ultimately show ?thesis using False by auto
qed

lemma stosb_fill:
  "n < 2 ^ 32 \<Longrightarrow> stosb m d c n a = (if unat (a - d) < n then c else m a)"
proof (induction n arbitrary: m d)
  case 0
  then show ?case by simp
next
  case (Suc n)
  then have "stosb m d c (Suc n) a = (if unat (a - (d + 1)) < n then c else (m(d := c)) a)"
    by simp
  then show ?case using word_range_Suc [OF Suc.prems, of a d] by auto
qed

lemma stosb_add: "stosb m d c (i + j) = stosb (stosb m d c i) (d + of_nat i) c j"
  by (induction i arbitrary: m d) (simp_all add: add.assoc)

definition spread :: "u32 \<Rightarrow> u32" where
  "spread c = push_bit 24 c OR push_bit 16 c OR push_bit 8 c OR c"

lemma spread_bytes:
  fixes b :: u8
  assumes "c = ucast b"
  shows "ucast (spread c) = b" "ucast (drop_bit 8 (spread c)) = b"
    "ucast (drop_bit 16 (spread c)) = b" "ucast (drop_bit 24 (spread c)) = b"
  unfolding spread_def assms by (rule bit_word_eqI, auto simp: bit_simps dest: bit_imp_le_length)+

lemma stosb_4: "stosb m a b 4 = m(a := b, a + 1 := b, a + 2 := b, a + 3 := b)"
  by (simp add: eval_nat_numeral add.assoc)

lemma st32_spread: "st32 m a (spread (ucast b)) = stosb m a b 4" for b :: u8
  by (simp add: st32_def spread_bytes [OF refl] stosb_4)

lemma stosl_spread: "stosl m d (spread (ucast b)) n = stosb m d b (4 * n)" for b :: u8
proof (induction n arbitrary: m d)
  case 0
  then show ?case by simp
next
  case (Suc n)
  have "stosb m d b (4 + 4 * n) = stosb (stosb m d b 4) (d + 4) b (4 * n)"
    by (simp only: stosb_add of_nat_numeral)
  with Suc show ?case by (simp add: st32_spread)
qed

lemma low_byte: "c AND 0xFF = ucast (ucast c :: u8)" for c :: u32
proof -
  have "c AND 0xFF = take_bit 8 c"
    by (simp add: take_bit_eq_mask mask_eq_exp_minus_1)
  also have "\<dots> = ucast (ucast c :: u8)"
    by (rule bit_word_eqI) (auto simp: bit_simps)
  finally show ?thesis .
qed

lemma memset_stosb: "memset m d c n = stosb m d (ucast c) (unat n)"
proof (cases "d mod 4 = 0 \<and> n mod 4 = 0")
  case True
  then have "unat (n mod 4) = 0" by simp
  then have "unat n mod 4 = 0" by (simp add: unat_mod)
  then have "4 * (unat n div 4) = unat n" by presburger
  then show ?thesis
    using True by (simp add: memset_def low_byte unat_div spread_def [symmetric] stosl_spread)
qed (auto simp: memset_def)

text \<open>\<open>memset\<close> stores the low byte of \<open>c\<close> in the \<open>n\<close> bytes from \<open>dst\<close>, on both of its
  paths (whole words when address and length are multiples of 4, bytes otherwise), and changes
  nothing else.\<close>

theorem memset_fill:
  "memset m dst c n a = (if a - dst < n then ucast c else m a)"
proof -
  have "unat n < 2 ^ 32" using unsigned_less [of n] by simp
  then show ?thesis
    by (simp add: memset_stosb stosb_fill word_less_nat_alt)
qed

lemma copy_up_spec:
  assumes "n < 2 ^ 32"
    and "\<And>i j. i < j \<Longrightarrow> j < n \<Longrightarrow> d + of_nat i \<noteq> s + of_nat j"
  shows "copy_up m d s n a = (if unat (a - d) < n then m (s + (a - d)) else m a)"
  using assms
proof (induction n arbitrary: m d s)
  case 0
  then show ?case by simp
next
  case (Suc n)
  have hyp: "d + 1 + of_nat i \<noteq> s + 1 + of_nat j" if "i < j" "j < n" for i j
    using Suc.prems(2) [of "Suc i" "Suc j"] that by (simp add: add.assoc)
  have src: "s + (a - d) \<noteq> d" if "unat (a - (d + 1)) < n"
  proof
    assume eq: "s + (a - d) = d"
    show False
    proof (cases "a = d")
      case True
      with that have "unat (- 1 :: u32) < n" by simp
      then show False
        using Suc.prems(1) by (simp add: unsigned_minus_1_eq_mask mask_eq_exp_minus_1)
    next
      case False
      with that Suc.prems(1) have "unat (a - d) < Suc n" by (simp add: word_range_Suc)
      moreover have "0 < unat (a - d)" using False by (simp add: unat_gt_0)
      ultimately have "d + of_nat 0 \<noteq> s + of_nat (unat (a - d))"
        using Suc.prems(2) by blast
      with eq show False by simp
    qed
  qed
  have "copy_up m d s (Suc n) a =
     (if unat (a - (d + 1)) < n then (m(d := m s)) (s + 1 + (a - (d + 1))) else (m(d := m s)) a)"
    using Suc.IH [of "d + 1" "s + 1"] Suc.prems(1) hyp by simp
  moreover have "s + 1 + (a - (d + 1)) = s + (a - d)" by simp
  ultimately show ?case
    using word_range_Suc [OF Suc.prems(1), of a d] src by auto
qed

lemma unat_diff_less_iff:
  fixes a d :: u32
  assumes "n < 2 ^ 32"
  shows "unat (a - d) < n \<longleftrightarrow> (\<exists>i < n. a = d + of_nat i)"
proof
  assume "unat (a - d) < n"
  moreover have "a = d + of_nat (unat (a - d))" by simp
  ultimately show "\<exists>i < n. a = d + of_nat i" by blast
next
  assume "\<exists>i < n. a = d + of_nat i"
  then obtain i where "i < n" "a = d + of_nat i" by blast
  with assms show "unat (a - d) < n"
    by (simp add: unat_of_nat)
qed

lemma copy_down_spec:
  assumes "n < 2 ^ 32"
    and "\<And>i j. i < j \<Longrightarrow> j < n \<Longrightarrow> d + of_nat j \<noteq> s + of_nat i"
  shows "copy_down m (d + of_nat n) (s + of_nat n) n a
           = (if unat (a - d) < n then m (s + (a - d)) else m a)"
  using assms
proof (induction n arbitrary: m)
  case 0
  then show ?case by simp
next
  case (Suc n)
  let ?m = "m(d + of_nat n := m (s + of_nat n))"
  have "copy_down m (d + of_nat (Suc n)) (s + of_nat (Suc n)) (Suc n) a
      = copy_down ?m (d + of_nat n) (s + of_nat n) n a"
    by (simp add: algebra_simps)
  also have "\<dots> = (if unat (a - d) < n then ?m (s + (a - d)) else ?m a)"
    by (rule Suc.IH) (use Suc.prems in auto)
  also have "\<dots> = (if unat (a - d) < Suc n then m (s + (a - d)) else m a)"
  proof (cases "unat (a - d) < n")
    case True
    then have "d + of_nat n \<noteq> s + of_nat (unat (a - d))"
      using Suc.prems(2) by blast
    with True show ?thesis by (simp add: eq_commute)
  next
    case False
    have "a = d + of_nat n \<longleftrightarrow> unat (a - d) = n"
      using Suc.prems(1) by (auto simp: unat_of_nat) 
    with False show ?thesis by auto
  qed
  finally show ?case .
qed

lemma no_wrap_add:
  fixes a :: u32
  assumes "unat a + n \<le> 2 ^ 32" and "i < n"
  shows "unat (a + of_nat i) = unat a + i"
  using assms by (simp add: unat_word_ariths unat_of_nat)

lemma memmove_eq:
  assumes "unat src + unat n \<le> 2 ^ 32" and "unat dst + unat n \<le> 2 ^ 32"
  shows "memmove m dst src n a = (if a - dst < n then m (src + (a - dst)) else m a)"
proof -
  have n: "unat n < 2 ^ 32" using unsigned_less [of n] by simp
  have ne: "dst + of_nat i \<noteq> src + of_nat j"
    if "i < unat n" "j < unat n" "unat dst + i \<noteq> unat src + j" for i j
    using that assms no_wrap_add [of dst "unat n" i] no_wrap_add [of src "unat n" j] by auto
  show ?thesis
  proof (cases "src < dst \<and> src + n > dst")
    case True
    then have "unat src < unat dst" by (simp add: word_less_nat_alt)
    then have "dst + of_nat j \<noteq> src + of_nat i" if "i < j" "j < unat n" for i j
      using ne [of j i] that by simp
    then have "copy_down m (dst + of_nat (unat n)) (src + of_nat (unat n)) (unat n) a
        = (if unat (a - dst) < unat n then m (src + (a - dst)) else m a)"
      by (rule copy_down_spec [OF n])
    with True show ?thesis by (simp add: memmove_def word_less_nat_alt)
  next
    case False
    have "dst + of_nat i \<noteq> src + of_nat j" if "i < j" "j < unat n" for i j
    proof (rule ne)
      show "unat dst + i \<noteq> unat src + j"
      proof
        assume eq: "unat dst + i = unat src + j"
        with that have "src < dst" by (simp add: word_less_nat_alt)
        with False have "src + n \<le> dst" by simp
        show False
        proof (cases "unat src + unat n < 2 ^ 32")
          case True
          then have "unat (src + n) = unat src + unat n" by (simp add: unat_word_ariths)
          with \<open>src + n \<le> dst\<close> eq that show False by (simp add: word_le_nat_alt)
        next
          case False
          with assms eq that show False by simp
        qed
      qed
    qed (use that in auto)
    then have "copy_up m dst src (unat n) a
        = (if unat (a - dst) < unat n then m (src + (a - dst)) else m a)"
      by (rule copy_up_spec [OF n])
    moreover have "memmove m dst src n = copy_up m dst src (unat n)"
      using False by (auto simp: memmove_def)
    ultimately show ?thesis by (simp add: word_less_nat_alt)
  qed
qed

text \<open>C40: \<open>memmove\<close> makes the \<open>n\<close> destination bytes equal to the \<open>n\<close> source bytes as they
  were before the call, also when the two regions overlap in either direction, and leaves every
  other byte alone, for regions that do not wrap around the end of the address space.\<close>

theorem memmove_copies:
  assumes "unat src + unat n \<le> 2 ^ 32" and "unat dst + unat n \<le> 2 ^ 32"
  shows "memmove m dst src n a = (if a - dst < n then m (src + (a - dst)) else m a)"
  using assms by (rule memmove_eq)

theorem memmove_copies_witness:
  "unat (16 :: u32) + unat (3 :: u32) \<le> 2 ^ 32 \<and> unat (17 :: u32) + unat (3 :: u32) \<le> 2 ^ 32
   \<and> memmove (\<lambda>a. ucast a) 17 16 3 18 = 17 \<and> memmove (\<lambda>a. ucast a) 17 16 3 20 = 20"
  using memmove_copies [of 16 3 17 "\<lambda>a. ucast a" 18] memmove_copies [of 16 3 17 "\<lambda>a. ucast a" 20]
  by simp

section \<open>Strings\<close>

lemma map_upt_Suc_shift: "map p [0..<Suc n] = p 0 # map (\<lambda>i. p (Suc i)) [0..<n]"
  by (simp add: upt_conv_Cons map_Suc_upt [symmetric] del: upt_Suc)

lemma cstr_0 [simp]: "cstr p 0 = []"
  by (simp add: cstr_def)

lemma cstr_Suc: "cstr p (Suc n) = (if p 0 = 0 then [] else p 0 # cstr (\<lambda>i. p (Suc i)) n)"
  by (simp add: cstr_def map_upt_Suc_shift del: upt_Suc)

lemma length_cstr: "length (cstr p n) \<le> n"
  unfolding cstr_def using length_takeWhile_le [of "\<lambda>b. b \<noteq> 0" "map p [0..<n]"] by simp

lemma strncmp_0_iff: "strncmp p q n = 0 \<longleftrightarrow> cstr p n = cstr q n"
proof (induction n arbitrary: p q)
  case 0
  then show ?case by simp
next
  case (Suc n)
  then show ?case by (auto simp: cstr_Suc uint_0_iff dest: word_uint_eqI)
qed

lemma length_strncpy [simp]: "length (strncpy t n) = n"
  by (induction n arbitrary: t) simp_all

lemma at_list_Cons_Suc [simp]: "(\<lambda>i. at_list (x # xs) (Suc i)) = at_list xs"
  by (auto simp: at_list_def fun_eq_iff)

lemma at_list_Cons_0 [simp]: "at_list (x # xs) 0 = x"
  by (simp add: at_list_def)

lemma cstr_zeros: "cstr (at_list (replicate n 0)) k = []"
  by (cases k) (auto simp: cstr_Suc at_list_def)

lemma strncpy_cstr: "cstr (at_list (strncpy t n)) n = cstr t n"
  by (induction n arbitrary: t) (simp_all add: cstr_Suc)

lemma strncpy_padding:
  "length (cstr t n) \<le> i \<Longrightarrow> i < n \<Longrightarrow> strncpy t n ! i = 0"
proof (induction n arbitrary: t i)
  case 0
  then show ?case by simp
next
  case (Suc n)
  then show ?case by (cases i) (auto simp: cstr_Suc split: if_splits)
qed

lemma length_safestrcpy_loop [simp]: "length (safestrcpy_loop s t i n) = length s"
  by (induction s t i n rule: safestrcpy_loop.induct) simp_all

lemma cstr_eqI:
  assumes "k \<le> n" and "\<And>j. j < k \<Longrightarrow> p j \<noteq> 0" and "k < n \<Longrightarrow> p k = 0"
  shows "cstr p n = map p [0..<k]"
  using assms
proof (induction n arbitrary: p k)
  case 0
  then show ?case by simp
next
  case (Suc n)
  show ?case
  proof (cases k)
    case 0
    with Suc.prems(3) show ?thesis by (simp add: cstr_Suc)
  next
    case (Suc k')
    then have "cstr (\<lambda>i. p (Suc i)) n = map (\<lambda>i. p (Suc i)) [0..<k']"
      using Suc.IH [of k' "\<lambda>i. p (Suc i)"] Suc.prems \<open>k = Suc k'\<close> by simp
    with Suc Suc.prems(2) [of 0] show ?thesis
      by (simp add: cstr_Suc map_upt_Suc_shift del: upt_Suc)
  qed
qed

lemma safestrcpy_loop_cstr:
  assumes "i + n = N" and "0 < n" and "N \<le> length s"
    and "\<And>j. j < i \<Longrightarrow> s ! j = t j \<and> t j \<noteq> 0"
  shows "cstr (at_list (safestrcpy_loop s t i n)) N = cstr t (N - 1)"
  using assms
proof (induction s t i n rule: safestrcpy_loop.induct [case_names copy stop0 stop1])
  case (copy s t i n)
  show ?case
  proof (cases "t i = 0")
    case True
    let ?r = "(s[i := 0])[Suc i := 0]"
    have "cstr (at_list ?r) N = map (at_list ?r) [0..<i]"
      by (rule cstr_eqI) (use copy.prems in \<open>auto simp: at_list_def nth_list_update\<close>)
    also have "\<dots> = map t [0..<i]"
      using copy.prems by (auto simp: at_list_def)
    also have "\<dots> = cstr t (N - 1)"
      by (rule cstr_eqI [symmetric]) (use copy.prems True in auto)
    finally show ?thesis using True by simp
  next
    case False
    then have "cstr (at_list (safestrcpy_loop (s[i := t i]) t (Suc i) (Suc n))) N = cstr t (N - 1)"
      using copy.prems by (intro copy.IH) (auto simp: nth_list_update less_Suc_eq)
    with False show ?thesis by simp
  qed
next
  case (stop1 s t i)
  let ?r = "s[i := 0]"
  have "cstr (at_list ?r) N = map (at_list ?r) [0..<i]"
    by (rule cstr_eqI) (use stop1.prems in \<open>auto simp: at_list_def nth_list_update\<close>)
  also have "\<dots> = map t [0..<i]"
    using stop1.prems by (auto simp: at_list_def)
  also have "\<dots> = cstr t (N - 1)"
    by (rule cstr_eqI [symmetric]) (use stop1.prems in auto)
  finally show ?case by simp
qed auto

lemma safestrcpy_loop_frame:
  "i + n \<le> j \<Longrightarrow> 0 < n \<Longrightarrow> safestrcpy_loop s t i n ! j = s ! j"
  by (induction s t i n rule: safestrcpy_loop.induct) auto

lemma strlen_from_Some:
  "i \<le> k \<Longrightarrow> s k = 0 \<Longrightarrow> (\<And>j. i \<le> j \<Longrightarrow> j < k \<Longrightarrow> s j \<noteq> 0) \<Longrightarrow> strlen_from s i = Some k"
proof (induction "k - i" arbitrary: i)
  case 0
  then show ?case by (simp add: strlen_from.simps)
next
  case (Suc d)
  then have "strlen_from s (Suc i) = Some k" by simp
  moreover have "s i \<noteq> 0" using Suc.hyps(2) Suc.prems by simp
  ultimately show ?case by (simp add: strlen_from.simps [of s i])
qed

lemma strlen_Some: "s k = 0 \<Longrightarrow> (\<And>j. j < k \<Longrightarrow> s j \<noteq> 0) \<Longrightarrow> strlen s = Some k"
  unfolding strlen_def by (rule strlen_from_Some) auto

text \<open>copying a name with \<open>safestrcpy\<close> into a buffer of \<open>n\<close> bytes leaves a NUL-terminated
  string, the source truncated to \<open>n - 1\<close> bytes, in the buffer, whatever the buffer held before,
  and does not touch the bytes from \<open>n\<close> on; \<open>strlen\<close> of the result terminates.\<close>

theorem safestrcpy_terminated:
  assumes "0 < n" and "n \<le> length s"
  shows "length (safestrcpy s t (int n)) = length s
    \<and> cstr (at_list (safestrcpy s t (int n))) n = cstr t (n - 1)
    \<and> (\<forall>j. n \<le> j \<longrightarrow> safestrcpy s t (int n) ! j = s ! j)
    \<and> strlen (at_list (safestrcpy s t (int n))) = Some (length (cstr t (n - 1)))"
proof -
  let ?r = "safestrcpy s t (int n)"
  have r: "?r = safestrcpy_loop s t 0 n"
    using assms by (simp add: safestrcpy_def)
  have len: "length ?r = length s" by (simp add: r)
  have c: "cstr (at_list ?r) n = cstr t (n - 1)"
    unfolding r by (rule safestrcpy_loop_cstr) (use assms in auto)
  have frame: "\<forall>j. n \<le> j \<longrightarrow> ?r ! j = s ! j"
    unfolding r using assms by (simp add: safestrcpy_loop_frame)
  let ?k = "length (cstr (at_list ?r) n)"
  have k: "?k < n" using c length_cstr [of t "n - 1"] assms by simp
  have "at_list ?r ?k = 0"
    using k nth_length_takeWhile [of "\<lambda>b. b \<noteq> 0" "map (at_list ?r) [0..<n]"]
    by (simp add: cstr_def)
  moreover have "at_list ?r j \<noteq> 0" if "j < ?k" for j
  proof -
    have "cstr (at_list ?r) n ! j = at_list ?r j"
      using that k by (simp add: cstr_def takeWhile_nth)
    moreover have "cstr (at_list ?r) n ! j \<noteq> 0"
      using nth_mem [OF that] by (auto simp: cstr_def dest: set_takeWhileD)
    ultimately show ?thesis by simp
  qed
  ultimately have "strlen (at_list ?r) = Some (length (cstr t (n - 1)))"
    using strlen_Some [of "at_list ?r" ?k] c by simp
  with len c frame show ?thesis by blast
qed

theorem safestrcpy_terminated_witness:
  "0 < (3::nat) \<and> (3::nat) \<le> length [7, 7, 7, 7 :: u8]
   \<and> cstr (at_list (safestrcpy [7, 7, 7, 7] (at_list [1, 2, 3]) 3)) 3 = cstr (at_list [1, 2, 3]) 2"
  using safestrcpy_terminated [of 3 "[7, 7, 7, 7]" "at_list [1, 2, 3]"] by simp

end
