(* ===== verification/Kalloc.thy ===== *)
theory Kalloc
  imports Spinlock Kstring
begin

text \<open>
  The physical page allocator, \<open>kalloc.c\<close>. The free list lives in the free pages themselves: the
  first word of a free page is the address of the next one, so it is modelled in the byte memory.
  \<open>kend\<close> is the linker symbol \<open>end\<close>, the first address after the kernel image. The interface the
  rest of the kernel relies on is the locale \<open>page_allocator\<close>, interpreted here on \<open>kalloc\<close> and
  \<open>kfree\<close>.
\<close>

section \<open>State and operations\<close>

record kmem = machine +
  use_lock :: bool
  freelist :: u32
  kend :: u32

definition kfree :: "u32 \<Rightarrow> 'a kmem_scheme \<Rightarrow> (unit, 'a kmem_scheme) outcome" where
  "kfree v s =
     (if v mod PGSIZE \<noteq> 0 \<or> v < kend s \<or> V2P v \<ge> PHYSTOP then Panic ''kfree''
      else
        let s = s\<lparr>mem := memset (mem s) v 1 PGSIZE\<rparr> in
        then_do (if use_lock s then acquire KmemLock s else Ret () s) (\<lambda>_ s.
        let r = v;
            s = s\<lparr>mem := st32 (mem s) r (freelist s)\<rparr>;
            s = s\<lparr>freelist := r\<rparr> in
        if use_lock s then release KmemLock s else Ret () s))"

definition kalloc :: "'a kmem_scheme \<Rightarrow> (u32, 'a kmem_scheme) outcome" where
  "kalloc s =
     then_do (if use_lock s then acquire KmemLock s else Ret () s) (\<lambda>_ s.
     let r = freelist s;
         s = (if r \<noteq> 0 then s\<lparr>freelist := ld32 (mem s) r\<rparr> else s) in
     then_do (if use_lock s then release KmemLock s else Ret () s) (\<lambda>_ s.
     Ret r s))"

text \<open>The loop of \<open>freerange\<close>; the fuel bounds the number of pages below \<open>vend\<close>.\<close>

fun freerange_loop :: "nat \<Rightarrow> u32 \<Rightarrow> u32 \<Rightarrow> 'a kmem_scheme \<Rightarrow> (unit, 'a kmem_scheme) outcome" where
  "freerange_loop 0 p vend s = Diverge"
| "freerange_loop (Suc fuel) p vend s =
     (if p + PGSIZE \<le> vend then
        then_do (kfree p s) (\<lambda>_ s. freerange_loop fuel (p + PGSIZE) vend s)
      else Ret () s)"

definition freerange :: "u32 \<Rightarrow> u32 \<Rightarrow> 'a kmem_scheme \<Rightarrow> (unit, 'a kmem_scheme) outcome" where
  "freerange vstart vend s = freerange_loop (2 + unat vend div 4096) (PGROUNDUP vstart) vend s"

definition kinit1 :: "u32 \<Rightarrow> u32 \<Rightarrow> 'a kmem_scheme \<Rightarrow> (unit, 'a kmem_scheme) outcome" where
  "kinit1 vstart vend s = freerange vstart vend ((initlock KmemLock s)\<lparr>use_lock := False\<rparr>)"

definition kinit2 :: "u32 \<Rightarrow> u32 \<Rightarrow> 'a kmem_scheme \<Rightarrow> (unit, 'a kmem_scheme) outcome" where
  "kinit2 vstart vend s = then_do (freerange vstart vend s) (\<lambda>_ s. Ret () (s\<lparr>use_lock := True\<rparr>))"

section \<open>The free list\<close>

fun free_chain :: "mem \<Rightarrow> u32 \<Rightarrow> u32 list \<Rightarrow> bool" where
  "free_chain m a [] \<longleftrightarrow> a = 0"
| "free_chain m a (x # xs) \<longleftrightarrow> a = x \<and> x \<noteq> 0 \<and> free_chain m (ld32 m x) xs"

definition kpage :: "'a kmem_scheme \<Rightarrow> u32 \<Rightarrow> bool" where
  "kpage s v \<longleftrightarrow> page_aligned v \<and> kend s \<le> v \<and> V2P v < PHYSTOP"

text \<open>The allocator's invariant: the free list is the chain of pages \<open>ps\<close>, without repetition, all of
  them pages the allocator may manage; once locking is on, the lock is free between calls.\<close>

definition kmem_inv :: "nat \<Rightarrow> 'a kmem_scheme \<Rightarrow> u32 list \<Rightarrow> bool" where
  "kmem_inv c s ps \<longleftrightarrow> free_chain (mem s) (freelist s) ps \<and> distinct ps \<and> (\<forall>p \<in> set ps. kpage s p)
     \<and> (use_lock s \<longrightarrow> calm c s \<and> lock_free KmemLock s)"

lemma kmem_frame [simp]:
  "this_cpu (s\<lparr>freelist := f\<rparr>) = this_cpu s" "this_cpu (s\<lparr>use_lock := b\<rparr>) = this_cpu s"
  "cpu_ok c (s\<lparr>freelist := f\<rparr>) = cpu_ok c s" "calm c (s\<lparr>freelist := f\<rparr>) = calm c s"
  "lock_free lk (s\<lparr>freelist := f\<rparr>) = lock_free lk s"
  "lock_mine lk c (s\<lparr>freelist := f\<rparr>) = lock_mine lk c s"
  "leave lk c (s\<lparr>freelist := f\<rparr>) = (leave lk c s)\<lparr>freelist := f\<rparr>"
  by (simp_all add: this_cpu_def cpu_ok_def calm_def lock_free_def lock_mine_def leave_def)

lemma mem_frame [simp]:
  "cpu_ok c (s\<lparr>mem := m\<rparr>) = cpu_ok c s" "calm c (s\<lparr>mem := m\<rparr>) = calm c s"
  "lock_free lk (s\<lparr>mem := m\<rparr>) = lock_free lk s" "lock_mine lk c (s\<lparr>mem := m\<rparr>) = lock_mine lk c s"
  "leave lk c (s\<lparr>mem := m\<rparr>) = (leave lk c s)\<lparr>mem := m\<rparr>"
  "enter lk c (s\<lparr>mem := m\<rparr>) = (enter lk c s)\<lparr>mem := m\<rparr>"
  by (simp_all add: cpu_ok_def calm_def lock_free_def lock_mine_def leave_def enter_def)

lemma enter_kmem [simp]:
  "freelist (enter lk c s) = freelist s" "use_lock (enter lk c s) = use_lock s" "kend (enter lk c s) = kend s"
  by (simp_all add: enter_def)

lemma enter_then_leave:
  assumes "calm c s" and "lock_free lk s"
  shows "leave lk c (enter lk c s) = s"
  using assms by (simp add: leave_enter synced_calm calm_def)

lemma release_in_section:
  assumes "calm c s"
  shows "1 \<le> cpu_ncli (cpus (enter lk c s) c)"
  using assms by (simp add: calm_def cpu_ok_def)

text \<open>What the two operations compute, with the locking discharged.\<close>

lemma kalloc_eq:
  assumes "kmem_inv c s ps"
  shows "kalloc s = Ret (freelist s) (if freelist s \<noteq> 0 then s\<lparr>freelist := ld32 (mem s) (freelist s)\<rparr> else s)"
proof (cases "use_lock s")
  case True
  with assms have c: "calm c s" "lock_free KmemLock s" by (simp_all add: kmem_inv_def)
  then have ok: "cpu_ok c s" by (simp add: calm_def)
  have rel: "release KmemLock (enter KmemLock c s) = Ret () s"
    using release_eq [of c "enter KmemLock c s" KmemLock] ok release_in_section [OF c(1)]
    by (simp add: enter_then_leave [OF c])
  have rel2: "release KmemLock ((enter KmemLock c s)\<lparr>freelist := f\<rparr>) = Ret () (s\<lparr>freelist := f\<rparr>)" for f
    using release_eq [of c "(enter KmemLock c s)\<lparr>freelist := f\<rparr>" KmemLock] ok release_in_section [OF c(1)]
    by (simp add: enter_then_leave [OF c])
  show ?thesis
    using True rel rel2 by (simp add: kalloc_def acquire_eq [OF ok c(2)] Let_def)
next
  case False
  then show ?thesis by (simp add: kalloc_def Let_def)
qed

definition kfreed :: "u32 \<Rightarrow> 'a kmem_scheme \<Rightarrow> 'a kmem_scheme" where
  "kfreed v s = s\<lparr>mem := st32 (memset (mem s) v 1 PGSIZE) v (freelist s), freelist := v\<rparr>"

lemma kfree_eq:
  assumes "kmem_inv c s ps"
  shows "kfree v s = (if kpage s v then Ret () (kfreed v s) else Panic ''kfree'')"
proof -
  have g: "(v mod PGSIZE \<noteq> 0 \<or> v < kend s \<or> V2P v \<ge> PHYSTOP) = (\<not> kpage s v)"
    unfolding kpage_def page_aligned_def by (simp only: de_Morgan_conj not_le not_less)
  show ?thesis
  proof (cases "use_lock s")
    case True
    with assms have c: "calm c s" "lock_free KmemLock s" by (simp_all add: kmem_inv_def)
    then have ok: "cpu_ok c s" by (simp add: calm_def)
    have rel: "release KmemLock ((enter KmemLock c s)\<lparr>mem := m, freelist := f\<rparr>)
        = Ret () (s\<lparr>mem := m, freelist := f\<rparr>)" for m f
      using release_eq [of c "(enter KmemLock c s)\<lparr>mem := m, freelist := f\<rparr>" KmemLock] ok
        release_in_section [OF c(1)]
      by (simp add: enter_then_leave [OF c])
    have acq: "acquire KmemLock (s\<lparr>mem := m\<rparr>) = Ret () ((enter KmemLock c s)\<lparr>mem := m\<rparr>)" for m
      using acquire_eq [of c "s\<lparr>mem := m\<rparr>" KmemLock] ok c(2) by simp
    show ?thesis
      unfolding kfree_def g using True by (simp add: acq rel kfreed_def Let_def)
  next
    case False
    then show ?thesis unfolding kfree_def g by (simp add: kfreed_def Let_def)
  qed
qed

lemma kpage_nonzero: "kpage s p \<Longrightarrow> p \<noteq> 0"
  by (auto simp: kpage_def V2P_def KERNBASE_def PHYSTOP_def)

lemma st32_page:
  assumes "page_aligned p" and "PGROUNDDOWN a \<noteq> p"
  shows "st32 m p v a = m a"
proof (rule st32_other)
  have "PGROUNDDOWN (p + of_nat k) = p" if "k < 4" for k
    using assms(1) that by (simp add: PGROUNDDOWN_page_add)
  from this [of 0] this [of 1] this [of 2] this [of 3] assms(2)
  show "a \<noteq> p" "a \<noteq> p + 1" "a \<noteq> p + 2" "a \<noteq> p + 3" by auto
qed

lemma memset_page:
  assumes "page_aligned p" and "PGROUNDDOWN a \<noteq> p"
  shows "memset m p c PGSIZE a = m a"
proof -
  have "\<not> a - p < PGSIZE"
  proof
    assume "a - p < PGSIZE"
    then have "unat (a - p) < 4096" by (simp add: word_less_nat_alt PGSIZE_def)
    then have "PGROUNDDOWN (p + of_nat (unat (a - p))) = p"
      using assms(1) by (intro PGROUNDDOWN_page_add)
    with assms(2) show False by simp
  qed
  moreover have "unat PGSIZE < 2 ^ 32" by (simp add: PGSIZE_def)
  ultimately show ?thesis
    by (simp add: memset_stosb stosb_fill word_less_nat_alt)
qed

text \<open>Freeing a page changes only bytes of that page.\<close>

lemma mem_kfreed:
  "page_aligned v \<Longrightarrow> PGROUNDDOWN a \<noteq> v \<Longrightarrow> mem (kfreed v s) a = mem s a"
  by (simp add: kfreed_def st32_page memset_page)

lemma ld32_page_cong:
  assumes "page_aligned p" and "\<And>a. PGROUNDDOWN a = p \<Longrightarrow> m a = m' a"
  shows "ld32 m p = ld32 m' p"
proof -
  have "PGROUNDDOWN (p + of_nat k) = p" if "k < 4" for k
    using assms(1) that by (simp add: PGROUNDDOWN_page_add)
  from this [of 0] this [of 1] this [of 2] this [of 3] assms(2)
  show ?thesis by (intro ld32_cong) auto
qed

lemma free_chain_cong:
  assumes "\<And>p. p \<in> set ps \<Longrightarrow> page_aligned p"
    and "\<And>a. PGROUNDDOWN a \<in> set ps \<Longrightarrow> m a = m' a"
  shows "free_chain m h ps = free_chain m' h ps"
  using assms
proof (induction ps arbitrary: h)
  case Nil
  then show ?case by simp
next
  case (Cons p ps)
  have "ld32 m p = ld32 m' p"
    using Cons.prems by (intro ld32_page_cong) auto
  then show ?case using Cons.IH [of "ld32 m' p"] Cons.prems by auto
qed

lemma kmem_inv_kalloc_Cons:
  assumes "kmem_inv c s (p # ps)"
  shows "kalloc s = Ret p (s\<lparr>freelist := ld32 (mem s) p\<rparr>)" and "kmem_inv c (s\<lparr>freelist := ld32 (mem s) p\<rparr>) ps"
  using assms kalloc_eq [OF assms] by (auto simp: kmem_inv_def kpage_def)

lemma kmem_inv_kalloc_Nil:
  assumes "kmem_inv c s []"
  shows "kalloc s = Ret 0 s"
  using assms kalloc_eq [OF assms] by (auto simp: kmem_inv_def)

lemma kmem_inv_kfreed:
  assumes inv: "kmem_inv c s ps" and v: "kpage s v" and new: "v \<notin> set ps"
  shows "kmem_inv c (kfreed v s) (v # ps)"
proof -
  have al: "page_aligned v" using v by (simp add: kpage_def)
  have "free_chain (mem (kfreed v s)) (freelist s) ps = free_chain (mem s) (freelist s) ps"
  proof (rule free_chain_cong)
    show "page_aligned p" if "p \<in> set ps" for p
      using inv that by (auto simp: kmem_inv_def kpage_def)
    show "mem (kfreed v s) a = mem s a" if "PGROUNDDOWN a \<in> set ps" for a
      using that new al by (intro mem_kfreed) auto
  qed
  moreover have "ld32 (mem (kfreed v s)) v = freelist s" by (simp add: kfreed_def)
  moreover have "kpage (kfreed v s) p = kpage s p" for p by (simp add: kpage_def kfreed_def)
  moreover have "(use_lock (kfreed v s) \<longrightarrow> calm c (kfreed v s) \<and> lock_free KmemLock (kfreed v s))
      = (use_lock s \<longrightarrow> calm c s \<and> lock_free KmemLock s)"
    by (simp add: kfreed_def)
  moreover have "freelist (kfreed v s) = v" by (simp add: kfreed_def)
  ultimately show ?thesis
    using inv v new kpage_nonzero [OF v] by (auto simp: kmem_inv_def)
qed

section \<open>The interface of the page allocator\<close>

text \<open>What a client of the allocator may rely on. \<open>inv s ps\<close>: the free pages are \<open>ps\<close>, in the order
  in which they will be handed out.\<close>

locale page_allocator =
  fixes alloc :: "'s \<Rightarrow> (u32, 's) outcome"
    and free :: "u32 \<Rightarrow> 's \<Rightarrow> (unit, 's) outcome"
    and inv :: "'s \<Rightarrow> u32 list \<Rightarrow> bool"
    and managed :: "'s \<Rightarrow> u32 \<Rightarrow> bool"
    and memory :: "'s \<Rightarrow> mem"
  assumes alloc_page: "inv s (p # ps) \<Longrightarrow>
        \<exists>t. alloc s = Ret p t \<and> inv t ps \<and> memory t = memory s \<and> managed t = managed s"
    and alloc_empty: "inv s [] \<Longrightarrow> alloc s = Ret 0 s"
    and free_page: "inv s ps \<Longrightarrow> managed s p \<Longrightarrow> p \<notin> set ps \<Longrightarrow>
        \<exists>t. free p s = Ret () t \<and> inv t (p # ps) \<and> managed t = managed s
          \<and> (\<forall>a. PGROUNDDOWN a \<noteq> p \<longrightarrow> memory t a = memory s a)"
    and inv_distinct: "inv s ps \<Longrightarrow> distinct ps"
    and inv_managed: "inv s ps \<Longrightarrow> p \<in> set ps \<Longrightarrow> managed s p"
begin

primrec alloc_n :: "nat \<Rightarrow> 's \<Rightarrow> (u32 list, 's) outcome" where
  "alloc_n 0 s = Ret [] s"
| "alloc_n (Suc n) s = then_do (alloc s) (\<lambda>p s. then_do (alloc_n n s) (\<lambda>ps s. Ret (p # ps) s))"

lemma alloc_n_pages:
  assumes "inv s (qs @ ps)" and "length qs = n"
  shows "\<exists>t. alloc_n n s = Ret qs t \<and> inv t ps \<and> memory t = memory s \<and> managed t = managed s"
  using assms
proof (induction n arbitrary: s qs)
  case 0
  then show ?case by simp
next
  case (Suc n)
  then obtain q qs' where qs: "qs = q # qs'" "length qs' = n" by (cases qs) auto
  with Suc.prems obtain t where t: "alloc s = Ret q t" "inv t (qs' @ ps)" "memory t = memory s" "managed t = managed s"
    using alloc_page [of s q "qs' @ ps"] by auto
  with Suc.IH [OF t(2) qs(2)] show ?case by (auto simp: qs(1))
qed

lemma free_then_alloc:
  assumes "inv s ps" and "managed s p" and "p \<notin> set ps"
  shows "\<exists>t. then_do (free p s) (\<lambda>_ s. alloc s) = Ret p t \<and> inv t ps"
  using free_page [OF assms] alloc_page [of _ p ps] by fastforce

end

interpretation ka: page_allocator kalloc kfree "kmem_inv c" kpage mem
proof unfold_locales
  fix s :: "'a kmem_scheme" and p ps
  assume inv: "kmem_inv c s (p # ps)"
  have "kpage (s\<lparr>freelist := ld32 (mem s) p\<rparr>) = kpage s" by (auto simp: kpage_def fun_eq_iff)
  with kmem_inv_kalloc_Cons [OF inv]
  show "\<exists>t. kalloc s = Ret p t \<and> kmem_inv c t ps \<and> mem t = mem s \<and> kpage t = kpage s"
    by auto
next
  fix s :: "'a kmem_scheme" and p ps
  assume inv: "kmem_inv c s ps" and p: "kpage s p" "p \<notin> set ps"
  have "kpage (kfreed p s) = kpage s" by (auto simp: kpage_def kfreed_def fun_eq_iff)
  moreover have "page_aligned p" using p(1) by (simp add: kpage_def)
  ultimately show "\<exists>t. kfree p s = Ret () t \<and> kmem_inv c t (p # ps) \<and> kpage t = kpage s
      \<and> (\<forall>a. PGROUNDDOWN a \<noteq> p \<longrightarrow> mem t a = mem s a)"
    using kfree_eq [OF inv, of p] p kmem_inv_kfreed [OF inv p] by (auto simp: mem_kfreed)
qed (blast intro: kmem_inv_kalloc_Nil, auto simp: kmem_inv_def)

section \<open>Properties\<close>

text \<open>C36: \<open>kfree\<close> panics exactly on addresses that are not pages the allocator manages (not page
  aligned, inside the kernel image, or above \<open>PHYSTOP\<close>); otherwise it puts the page at the front
  of the free list, keeps the list well formed, and changes no byte of any other page.\<close>

theorem kfree_correct:
  assumes "kmem_inv c s ps" and "v \<notin> set ps"
  shows "(\<not> kpage s v \<longrightarrow> kfree v s = Panic ''kfree'')
    \<and> (kpage s v \<longrightarrow> (\<exists>t. kfree v s = Ret () t \<and> kmem_inv c t (v # ps) \<and> freelist t = v
        \<and> (\<forall>a. PGROUNDDOWN a \<noteq> v \<longrightarrow> mem t a = mem s a)))"
proof (cases "kpage s v")
  case True
  then have "page_aligned v" by (simp add: kpage_def)
  then have "\<forall>a. PGROUNDDOWN a \<noteq> v \<longrightarrow> mem (kfreed v s) a = mem s a"
    by (simp add: mem_kfreed)
  moreover have "freelist (kfreed v s) = v" by (simp add: kfreed_def)
  ultimately show ?thesis
    using True kfree_eq [OF assms(1)] kmem_inv_kfreed [OF assms(1) True assms(2)] by simp
next
  case False
  then show ?thesis using kfree_eq [OF assms(1)] by simp
qed

text \<open>A machine with one idle CPU, locking switched on and no free page; the kernel image ends at
  \<open>0x80110000\<close>.\<close>

definition idle_kmem :: kmem where
  "idle_kmem = \<lparr>mem = (\<lambda>_. 0),
     cpus = (\<lambda>i. \<lparr>cpu_apicid = of_nat i, cpu_ncli = 0, cpu_intena = True, cpu_proc = None, cpu_esp0 = 0\<rparr>),
     ncpu = 1, lapicid = 0, eflags_if = True, cr3 = 0,
     locks = (\<lambda>_. \<lparr>lk_locked = False, lk_cpu = None\<rparr>),
     use_lock = True, freelist = 0, kend = 0x80110000\<rparr>"

lemma kmem_inv_idle: "kmem_inv 0 idle_kmem []"
  by (simp add: kmem_inv_def idle_kmem_def calm_def cpu_ok_def this_cpu_def find_idx_Some lock_free_def)

lemma kpage_idle: "kpage idle_kmem 0x80110000"
  by (simp add: kpage_def idle_kmem_def page_aligned_def PGSIZE_def V2P_def KERNBASE_def PHYSTOP_def)

theorem kfree_correct_witness:
  "kmem_inv 0 idle_kmem [] \<and> kpage idle_kmem 0x80110000 \<and>
   (\<exists>t. kfree 0x80110000 idle_kmem = Ret () t \<and> kmem_inv 0 t [0x80110000])"
  using kfree_correct [of 0 idle_kmem "[]" "0x80110000"] kmem_inv_idle kpage_idle by auto

text \<open>C35: \<open>n\<close> calls of \<open>kalloc\<close> return the first \<open>n\<close> pages of the free list, which are pairwise
  different, and leave the rest of the list free and memory untouched; on an empty list \<open>kalloc\<close>
  returns 0 and changes nothing.\<close>

theorem kalloc_correct:
  assumes "kmem_inv c s (qs @ ps)"
  shows "(\<exists>t. ka.alloc_n (length qs) s = Ret qs t \<and> distinct qs \<and> kmem_inv c t ps \<and> mem t = mem s)
    \<and> (qs @ ps = [] \<longrightarrow> kalloc s = Ret 0 s)"
proof
  have "distinct (qs @ ps)" using ka.inv_distinct [OF assms] .
  then show "\<exists>t. ka.alloc_n (length qs) s = Ret qs t \<and> distinct qs \<and> kmem_inv c t ps \<and> mem t = mem s"
    using ka.alloc_n_pages [OF assms refl] by auto
  show "qs @ ps = [] \<longrightarrow> kalloc s = Ret 0 s"
    using assms ka.alloc_empty by auto
qed

lemma kmem_inv_kfreed_idle: "kmem_inv 0 (kfreed 0x80110000 idle_kmem) ([0x80110000] @ [])"
  using kmem_inv_kfreed [OF kmem_inv_idle kpage_idle] by simp

theorem kalloc_correct_witness:
  "kmem_inv 0 (kfreed 0x80110000 idle_kmem) ([0x80110000] @ []) \<and>
   (\<exists>t. ka.alloc_n 1 (kfreed 0x80110000 idle_kmem) = Ret [0x80110000] t \<and> kmem_inv 0 t [])"
  using kalloc_correct [OF kmem_inv_kfreed_idle] kmem_inv_kfreed_idle by auto

lemma freerange_loop_wp:
  assumes "kmem_inv c s ps" and "page_aligned p" and "kend s \<le> p" and "unat vend \<le> 0x8E000000"
    and "unat p + n * 4096 \<le> unat vend" and "unat vend < unat p + Suc n * 4096" and "n < fuel"
    and "set (pages_from p n) \<inter> set ps = {}" and "0x80000000 \<le> unat p"
  shows "wp (freerange_loop fuel p vend s)
           (\<lambda>_ t. kmem_inv c t (rev (pages_from p n) @ ps) \<and> kend t = kend s \<and> use_lock t = use_lock s)"
  using assms
proof (induction n arbitrary: p s ps fuel)
  case 0
  then obtain f where "fuel = Suc f" by (cases fuel) auto
  moreover have "unat (p + PGSIZE) = unat p + 4096"
    using 0 by (simp add: PGSIZE_def unat_word_ariths)
  ultimately show ?case
    using 0 by (simp add: pages_from_def word_le_nat_alt)
next
  case (Suc n)
  then obtain f where f: "fuel = Suc f" by (cases fuel) auto
  have u: "unat (p + PGSIZE) = unat p + 4096"
    using Suc.prems by (simp add: PGSIZE_def unat_word_ariths)
  have "unat (p - KERNBASE) = unat p - 0x80000000"
    using Suc.prems by (simp add: unat_sub word_le_nat_alt KERNBASE_def)
  then have kp: "kpage s p"
    using Suc.prems by (simp add: kpage_def V2P_def PHYSTOP_def word_less_nat_alt)
  have new: "p \<notin> set ps" using Suc.prems(8) by (simp add: pages_from_Suc)
  have fr: "kfree p s = Ret () (kfreed p s)"
    using kfree_eq [OF Suc.prems(1), of p] kp by simp
  have keep: "kend (kfreed p s) = kend s" "use_lock (kfreed p s) = use_lock s"
    by (simp_all add: kfreed_def)
  have fresh: "set (pages_from (p + PGSIZE) n) \<inter> set (p # ps) = {}"
  proof -
    have "p \<notin> set (pages_from (p + PGSIZE) n)"
    proof
      assume "p \<in> set (pages_from (p + PGSIZE) n)"
      moreover have "unat (p + PGSIZE) + n * 4096 \<le> 2 ^ 32" using Suc.prems u by simp
      ultimately show False using set_pages_from [of "p + PGSIZE" n p] u by auto
    qed
    then show ?thesis using Suc.prems(8) by (auto simp: pages_from_Suc)
  qed
  have "wp (freerange_loop f (p + PGSIZE) vend (kfreed p s))
      (\<lambda>_ t. kmem_inv c t (rev (pages_from (p + PGSIZE) n) @ p # ps)
         \<and> kend t = kend (kfreed p s) \<and> use_lock t = use_lock (kfreed p s))"
  proof (rule Suc.IH)
    show "kmem_inv c (kfreed p s) (p # ps)" using Suc.prems(1) kp new by (rule kmem_inv_kfreed)
    show "page_aligned (p + PGSIZE)" using Suc.prems(2) by (rule page_aligned_add)
    show "kend (kfreed p s) \<le> p + PGSIZE"
      using Suc.prems(3) u by (simp add: keep word_le_nat_alt)
  qed (use Suc.prems u f fresh in auto)
  moreover have "p + PGSIZE \<le> vend" using Suc.prems u by (simp add: word_le_nat_alt)
  ultimately show ?case by (simp add: f fr keep pages_from_Suc)
qed

text \<open>starting with no free page, \<open>kinit1\<close> (called by \<open>main\<close> with the end of the kernel image and
  the end of the memory mapped at boot) returns with a free list that holds every whole page
  between the two addresses exactly once, and nothing else.\<close>

theorem kinit1_correct:
  assumes "kend s \<le> vstart" and "KERNBASE \<le> vstart" and "vstart \<le> vend" and "page_aligned vend"
    and "vend \<le> P2V PHYSTOP" and "freelist s = 0"
  shows "wp (kinit1 vstart vend s) (\<lambda>_ t. kmem_inv c t
     (rev (pages_from (PGROUNDUP vstart) ((unat vend - unat (PGROUNDUP vstart)) div 4096))))"
proof -
  let ?p = "PGROUNDUP vstart" and ?n = "(unat vend - unat (PGROUNDUP vstart)) div 4096"
  let ?s = "(initlock KmemLock s)\<lparr>use_lock := False\<rparr>"
  have b: "0x80000000 \<le> unat vstart" "unat vstart \<le> unat vend" "unat vend \<le> 0x8E000000"
    using assms by (simp_all add: word_le_nat_alt KERNBASE_def P2V_def PHYSTOP_def)
  have p: "unat ?p = (unat vstart + 4095) div 4096 * 4096" "vstart \<le> ?p"
    using b by (simp_all add: unat_PGROUNDUP PGROUNDUP_ge)
  obtain k where k: "unat vend = 4096 * k" using assms(4) by (auto simp: page_aligned_unat)
  have le: "unat ?p \<le> unat vend" using p(1) b(2) k by simp
  have "4096 dvd unat vend - unat ?p" using k p(1) by (simp add: dvd_diff_nat)
  then have n: "unat vend = unat ?p + ?n * 4096" using le by simp
  have "wp (freerange_loop (2 + unat vend div 4096) ?p vend ?s)
      (\<lambda>_ t. kmem_inv c t (rev (pages_from ?p ?n) @ []) \<and> kend t = kend ?s \<and> use_lock t = use_lock ?s)"
  proof (rule freerange_loop_wp)
    show "kmem_inv c ?s []" using assms(6) by (simp add: kmem_inv_def initlock_def)
    show "kend ?s \<le> ?p" using assms(1) p(2) by (simp add: initlock_def)
    show "0x80000000 \<le> unat ?p" using b(1) p(2) by (simp add: word_le_nat_alt)
    show "unat ?p + ?n * 4096 \<le> unat vend" using n by simp
    show "unat vend < unat ?p + Suc ?n * 4096" using n by simp
    have "?n \<le> unat vend div 4096" by (rule div_le_mono) simp
    then show "?n < 2 + unat vend div 4096" by simp
  qed (use b in auto)
  then show ?thesis
    by (auto simp: kinit1_def freerange_def wp_Ret_iff)
qed

theorem kinit1_correct_witness:
  "wp (kinit1 0x80110000 0x80112000 idle_kmem) (\<lambda>_ t. kmem_inv 0 t [0x80111000, 0x80110000])"
proof -
  have r: "PGROUNDUP 0x80110000 = 0x80110000"
    by (simp add: PGROUNDUP_def PGSIZE_def)
  have "rev (pages_from 0x80110000 2) = [0x80111000, 0x80110000]"
    by (simp add: pages_from_def PGSIZE_def numeral_2_eq_2)
  with kinit1_correct [of idle_kmem "0x80110000" "0x80112000" 0] show ?thesis
    by (simp add: r idle_kmem_def KERNBASE_def P2V_def PHYSTOP_def page_aligned_def PGSIZE_def)
qed

end
