(* ===== verification/Vm.thy ===== *)
theory Vm
  imports Kalloc
begin

text \<open>
  Virtual memory, after \<open>vm.c\<close>: page directories and page tables in the byte memory, the routines that
  build, walk, extend, shrink, copy and free them, and the copy into a user address space. A pointer
  to a page table entry is its kernel address (0 for null). The loops carry fuel; the bound given at
  each call is what the loop needs when its address does not wrap around.
\<close>

section \<open>State\<close>

text \<open>\<open>data_addr\<close> is the linker symbol \<open>data\<close>; \<open>klog\<close> collects the messages the kernel prints with
  \<open>cprintf\<close> for diagnosis.\<close>

record vmst = kmem +
  kpgdir :: u32
  data_addr :: u32
  klog :: "string list"

definition klog_msg :: "string \<Rightarrow> 'a vmst_scheme \<Rightarrow> 'a vmst_scheme" where
  "klog_msg m s = s\<lparr>klog := klog s @ [m]\<rparr>"

definition NPDENTRIES :: nat where "NPDENTRIES = 1024"

section \<open>Walking and mapping\<close>

definition walkpgdir :: "u32 \<Rightarrow> u32 \<Rightarrow> bool \<Rightarrow> 'a kmem_scheme \<Rightarrow> (u32, 'a kmem_scheme) outcome" where
  "walkpgdir pgdir va alloc s =
     (let pde = pgdir + 4 * PDX va in
      if ld32 (mem s) pde AND PTE_P \<noteq> 0 then
        let pgtab = P2V (PTE_ADDR (ld32 (mem s) pde)) in
        Ret (pgtab + 4 * PTX va) s
      else if \<not> alloc then Ret 0 s
      else then_do (kalloc s) (\<lambda>pgtab s.
        if pgtab = 0 then Ret 0 s
        else
          let s = s\<lparr>mem := memset (mem s) pgtab 0 PGSIZE\<rparr>;
              s = s\<lparr>mem := st32 (mem s) pde (V2P pgtab OR PTE_P OR PTE_W OR PTE_U)\<rparr>
          in Ret (pgtab + 4 * PTX va) s))"

primrec mappages_loop :: "nat \<Rightarrow> u32 \<Rightarrow> u32 \<Rightarrow> u32 \<Rightarrow> u32 \<Rightarrow> u32 \<Rightarrow> 'a kmem_scheme \<Rightarrow> (int, 'a kmem_scheme) outcome" where
  "mappages_loop 0 pgdir a last_a pa perm s = Diverge"
| "mappages_loop (Suc fuel) pgdir a last_a pa perm s =
     then_do (walkpgdir pgdir a True s) (\<lambda>pte s.
     if pte = 0 then Ret (- 1) s
     else if ld32 (mem s) pte AND PTE_P \<noteq> 0 then Panic ''remap''
     else
       let s = s\<lparr>mem := st32 (mem s) pte (pa OR perm OR PTE_P)\<rparr> in
       if a = last_a then Ret 0 s
       else mappages_loop fuel pgdir (a + PGSIZE) last_a (pa + PGSIZE) perm s)"

definition mappages :: "u32 \<Rightarrow> u32 \<Rightarrow> u32 \<Rightarrow> u32 \<Rightarrow> u32 \<Rightarrow> 'a kmem_scheme \<Rightarrow> (int, 'a kmem_scheme) outcome" where
  "mappages pgdir va sz pa perm s =
     (let a = PGROUNDDOWN va;
          last_a = PGROUNDDOWN (va + sz - 1)
      in mappages_loop (Suc (unat (last_a - a) div 4096)) pgdir a last_a pa perm s)"

section \<open>Freeing\<close>

primrec deallocuvm_loop :: "nat \<Rightarrow> u32 \<Rightarrow> u32 \<Rightarrow> u32 \<Rightarrow> 'a kmem_scheme \<Rightarrow> (unit, 'a kmem_scheme) outcome" where
  "deallocuvm_loop 0 pgdir a oldsz s = Diverge"
| "deallocuvm_loop (Suc fuel) pgdir a oldsz s =
     (if \<not> a < oldsz then Ret () s
      else then_do (walkpgdir pgdir a False s) (\<lambda>pte s.
        if pte = 0 then
          let a = PGADDR (PDX a + 1) 0 0 - PGSIZE in
          deallocuvm_loop fuel pgdir (a + PGSIZE) oldsz s
        else if ld32 (mem s) pte AND PTE_P \<noteq> 0 then
          let pa = PTE_ADDR (ld32 (mem s) pte) in
          if pa = 0 then Panic ''kfree''
          else
            let v = P2V pa in
            then_do (kfree v s) (\<lambda>_ s.
            let s = s\<lparr>mem := st32 (mem s) pte 0\<rparr> in
            deallocuvm_loop fuel pgdir (a + PGSIZE) oldsz s)
        else deallocuvm_loop fuel pgdir (a + PGSIZE) oldsz s))"

definition deallocuvm :: "u32 \<Rightarrow> u32 \<Rightarrow> u32 \<Rightarrow> 'a kmem_scheme \<Rightarrow> (u32, 'a kmem_scheme) outcome" where
  "deallocuvm pgdir oldsz newsz s =
     (if newsz \<ge> oldsz then Ret oldsz s
      else
        let a = PGROUNDUP newsz in
        then_do (deallocuvm_loop (unat oldsz div 4096 + 2) pgdir a oldsz s) (\<lambda>_ s. Ret newsz s))"

definition freevm :: "u32 \<Rightarrow> bool \<Rightarrow> 'a kmem_scheme \<Rightarrow> (unit, 'a kmem_scheme) outcome" where
  "freevm pgdir dodeallocuvm s =
     (if pgdir = 0 then Panic ''freevm: no pgdir''
      else
        then_do (if dodeallocuvm then deallocuvm pgdir KERNBASE 0 s else Ret 0 s) (\<lambda>_ s.
        then_do (for_each (\<lambda>i s.
            if ld32 (mem s) (pgdir + 4 * of_nat i) AND PTE_P \<noteq> 0 then
              let v = P2V (PTE_ADDR (ld32 (mem s) (pgdir + 4 * of_nat i))) in kfree v s
            else Ret () s) [0..<NPDENTRIES] s) (\<lambda>_ s.
        kfree pgdir s)))"

section \<open>Building address spaces\<close>

record kmap =
  km_virt :: u32
  km_phys_start :: u32
  km_phys_end :: u32
  km_perm :: u32

definition kmaps :: "u32 \<Rightarrow> kmap list" where
  "kmaps data =
    [\<lparr>km_virt = KERNBASE, km_phys_start = 0, km_phys_end = EXTMEM, km_perm = PTE_W\<rparr>,
     \<lparr>km_virt = KERNLINK, km_phys_start = V2P KERNLINK, km_phys_end = V2P data, km_perm = 0\<rparr>,
     \<lparr>km_virt = data, km_phys_start = V2P data, km_phys_end = PHYSTOP, km_perm = PTE_W\<rparr>,
     \<lparr>km_virt = DEVSPACE, km_phys_start = DEVSPACE, km_phys_end = 0, km_perm = PTE_W\<rparr>]"

primrec setupkvm_loop :: "kmap list \<Rightarrow> u32 \<Rightarrow> 'a kmem_scheme \<Rightarrow> (u32, 'a kmem_scheme) outcome" where
  "setupkvm_loop [] pgdir s = Ret pgdir s"
| "setupkvm_loop (k # ks) pgdir s =
     then_do (mappages pgdir (km_virt k) (km_phys_end k - km_phys_start k) (km_phys_start k) (km_perm k) s) (\<lambda>r s.
     if r < 0 then then_do (freevm pgdir False s) (\<lambda>_ s. Ret 0 s)
     else setupkvm_loop ks pgdir s)"

definition setupkvm :: "'a vmst_scheme \<Rightarrow> (u32, 'a vmst_scheme) outcome" where
  "setupkvm s =
     then_do (kalloc s) (\<lambda>pgdir s.
     if pgdir = 0 then Ret 0 s
     else
       let s = s\<lparr>mem := memset (mem s) pgdir 0 PGSIZE\<rparr> in
       if P2V PHYSTOP > DEVSPACE then Panic ''PHYSTOP too high''
       else setupkvm_loop (kmaps (data_addr s)) pgdir s)"

definition switchkvm :: "'a vmst_scheme \<Rightarrow> 'a vmst_scheme" where
  "switchkvm s = s\<lparr>cr3 := V2P (kpgdir s)\<rparr>"

definition kvmalloc :: "'a vmst_scheme \<Rightarrow> (unit, 'a vmst_scheme) outcome" where
  "kvmalloc s =
     then_do (setupkvm s) (\<lambda>d s.
     let s = s\<lparr>kpgdir := d\<rparr> in Ret () (switchkvm s))"

definition inituvm :: "u32 \<Rightarrow> u32 \<Rightarrow> u32 \<Rightarrow> 'a kmem_scheme \<Rightarrow> (unit, 'a kmem_scheme) outcome" where
  "inituvm pgdir init sz s =
     (if sz \<ge> PGSIZE then Panic ''inituvm: more than a page''
      else then_do (kalloc s) (\<lambda>m s.
        let s = s\<lparr>mem := memset (mem s) m 0 PGSIZE\<rparr> in
        then_do (mappages pgdir 0 PGSIZE (V2P m) (PTE_W OR PTE_U) s) (\<lambda>_ s.
        Ret () (s\<lparr>mem := memmove (mem s) m init sz\<rparr>))))"

primrec allocuvm_loop :: "nat \<Rightarrow> u32 \<Rightarrow> u32 \<Rightarrow> u32 \<Rightarrow> u32 \<Rightarrow> 'a vmst_scheme \<Rightarrow> (u32, 'a vmst_scheme) outcome" where
  "allocuvm_loop 0 pgdir a oldsz newsz s = Diverge"
| "allocuvm_loop (Suc fuel) pgdir a oldsz newsz s =
     (if \<not> a < newsz then Ret newsz s
      else then_do (kalloc s) (\<lambda>m s.
        if m = 0 then
          let s = klog_msg ''allocuvm out of memory'' s in
          then_do (deallocuvm pgdir newsz oldsz s) (\<lambda>_ s. Ret 0 s)
        else
          let s = s\<lparr>mem := memset (mem s) m 0 PGSIZE\<rparr> in
          then_do (mappages pgdir a PGSIZE (V2P m) (PTE_W OR PTE_U) s) (\<lambda>r s.
          if r < 0 then
            let s = klog_msg ''allocuvm out of memory (2)'' s in
            then_do (deallocuvm pgdir newsz oldsz s) (\<lambda>_ s.
            then_do (kfree m s) (\<lambda>_ s. Ret 0 s))
          else allocuvm_loop fuel pgdir (a + PGSIZE) oldsz newsz s)))"

definition allocuvm :: "u32 \<Rightarrow> u32 \<Rightarrow> u32 \<Rightarrow> 'a vmst_scheme \<Rightarrow> (u32, 'a vmst_scheme) outcome" where
  "allocuvm pgdir oldsz newsz s =
     (if newsz \<ge> KERNBASE then Ret 0 s
      else if newsz < oldsz then Ret oldsz s
      else allocuvm_loop (unat newsz div 4096 + 2) pgdir (PGROUNDUP oldsz) oldsz newsz s)"

definition clearpteu :: "u32 \<Rightarrow> u32 \<Rightarrow> 'a kmem_scheme \<Rightarrow> (unit, 'a kmem_scheme) outcome" where
  "clearpteu pgdir uva s =
     then_do (walkpgdir pgdir uva False s) (\<lambda>pte s.
     if pte = 0 then Panic ''clearpteu''
     else Ret () (s\<lparr>mem := st32 (mem s) pte (ld32 (mem s) pte AND NOT PTE_U)\<rparr>))"

primrec copyuvm_loop :: "nat \<Rightarrow> u32 \<Rightarrow> u32 \<Rightarrow> u32 \<Rightarrow> u32 \<Rightarrow> 'a kmem_scheme \<Rightarrow> (u32, 'a kmem_scheme) outcome" where
  "copyuvm_loop 0 pgdir d i sz s = Diverge"
| "copyuvm_loop (Suc fuel) pgdir d i sz s =
     (if \<not> i < sz then Ret d s
      else then_do (walkpgdir pgdir i False s) (\<lambda>pte s.
        if pte = 0 then copyuvm_loop fuel pgdir d (i + PGSIZE) sz s
        else if ld32 (mem s) pte AND PTE_P = 0 then copyuvm_loop fuel pgdir d (i + PGSIZE) sz s
        else
          let pa = PTE_ADDR (ld32 (mem s) pte);
              flags = PTE_FLAGS (ld32 (mem s) pte) in
          then_do (kalloc s) (\<lambda>m s.
          if m = 0 then then_do (freevm d True s) (\<lambda>_ s. Ret 0 s)
          else
            let s = s\<lparr>mem := memmove (mem s) m (P2V pa) PGSIZE\<rparr> in
            then_do (mappages d i PGSIZE (V2P m) flags s) (\<lambda>r s.
            if r < 0 then
              then_do (kfree m s) (\<lambda>_ s.
              then_do (freevm d True s) (\<lambda>_ s. Ret 0 s))
            else copyuvm_loop fuel pgdir d (i + PGSIZE) sz s))))"

definition copyuvm :: "u32 \<Rightarrow> u32 \<Rightarrow> 'a vmst_scheme \<Rightarrow> (u32, 'a vmst_scheme) outcome" where
  "copyuvm pgdir sz s =
     then_do (setupkvm s) (\<lambda>d s.
     if d = 0 then Ret 0 s
     else copyuvm_loop (unat sz div 4096 + 2) pgdir d 0 sz s)"

section \<open>Access to user memory\<close>

text \<open>\<open>uva2ka\<close> dereferences the result of \<open>walkpgdir\<close> without a check, which faults when there is no
  page table for the address.\<close>

definition uva2ka :: "u32 \<Rightarrow> u32 \<Rightarrow> 'a kmem_scheme \<Rightarrow> (u32, 'a kmem_scheme) outcome" where
  "uva2ka pgdir uva s =
     then_do (walkpgdir pgdir uva False s) (\<lambda>pte s.
     if pte = 0 then Fault ''uva2ka: *pte''
     else if ld32 (mem s) pte AND PTE_P = 0 then Ret 0 s
     else if ld32 (mem s) pte AND PTE_U = 0 then Ret 0 s
     else Ret (P2V (PTE_ADDR (ld32 (mem s) pte))) s)"

text \<open>The source of \<open>copyout\<close> is given by the bytes it holds: a structure on the kernel stack or a string in
  the address space of the current process.\<close>

primrec copyout_loop :: "nat \<Rightarrow> u32 \<Rightarrow> u32 \<Rightarrow> u8 list \<Rightarrow> u32 \<Rightarrow> 'a kmem_scheme \<Rightarrow> (int, 'a kmem_scheme) outcome" where
  "copyout_loop 0 pgdir va buf len s = Diverge"
| "copyout_loop (Suc fuel) pgdir va buf len s =
     (if \<not> len > 0 then Ret 0 s
      else
        let va0 = PGROUNDDOWN va in
        then_do (uva2ka pgdir va0 s) (\<lambda>pa0 s.
        if pa0 = 0 then Ret (- 1) s
        else
          let n = PGSIZE - (va - va0);
              n = (if n > len then len else n);
              s = s\<lparr>mem := put_bytes (mem s) (pa0 + (va - va0)) (take (unat n) buf)\<rparr>
          in copyout_loop fuel pgdir (va0 + PGSIZE) (drop (unat n) buf) (len - n) s))"

definition copyout :: "u32 \<Rightarrow> u32 \<Rightarrow> u8 list \<Rightarrow> u32 \<Rightarrow> 'a kmem_scheme \<Rightarrow> (int, 'a kmem_scheme) outcome" where
  "copyout pgdir va p len s = copyout_loop (unat len div 4096 + 3) pgdir va p len s"

end
