(* ===== verification/Pagetable.thy ===== *)
theory Pagetable
  imports Vm
begin

text \<open>
  What the page tables of \<open>vm.c\<close> mean. \<open>mapping m pgdir va\<close> is the entry the hardware finds for \<open>va\<close>;
  \<open>vm_inv\<close> says that the directory and its tables are distinct pages that are not on the free list.
  \<open>walkpgdir\<close>, \<open>mappages\<close>, \<open>allocuvm\<close> and \<open>deallocuvm\<close> are then specified by their effect on mappings and
  free pages.
\<close>

section \<open>Words of a page\<close>

lemma word_in_page:
  assumes "page_aligned p" and "i < (1024 :: u32)" and "k < 4"
  shows "PGROUNDDOWN (p + 4 * i + of_nat k) = p" and "unat (p + 4 * i + of_nat k) = unat p + 4 * unat i + k"
proof -
  have i: "unat i < 1024" using assms(2) by (simp add: word_less_nat_alt)
  then show "PGROUNDDOWN (p + 4 * i + of_nat k) = p"
    using PGROUNDDOWN_word_access [OF assms(1) i assms(3)] by simp
  have "p + 4 * i + of_nat k = p + of_nat (4 * unat i + k)" by simp
  then show "unat (p + 4 * i + of_nat k) = unat p + 4 * unat i + k"
    using unat_page_add [OF assms(1), of "4 * unat i + k"] i assms(3) by (simp add: add.assoc)
qed

lemma words_disjoint:
  assumes "page_aligned p" and "page_aligned q" and "i < (1024 :: u32)" and "j < (1024 :: u32)"
    and "k < 4" and "l < 4" and "p + 4 * i + of_nat k = q + 4 * j + of_nat l"
  shows "p = q \<and> i = j"
proof -
  have "p = q" using word_in_page(1) [OF assms(1,3,5)] word_in_page(1) [OF assms(2,4,6)] assms(7) by simp
  moreover have "unat p + 4 * unat i + k = unat q + 4 * unat j + l"
    by (simp only: word_in_page(2) [OF assms(1,3,5), symmetric] word_in_page(2) [OF assms(2,4,6), symmetric] assms(7))
  with calculation have "4 * unat i + k = 4 * unat j + l" by simp
  with assms(5,6) have "unat i = unat j" by presburger
  ultimately show ?thesis by (simp add: word_unat_eq_iff)
qed

lemma ld32_st32_page:
  assumes "page_aligned p" and "page_aligned q" and "i < (1024 :: u32)" and "j < (1024 :: u32)"
  shows "ld32 (st32 m (p + 4 * i) v) (q + 4 * j) = (if p = q \<and> i = j then v else ld32 m (q + 4 * j))"
proof (cases "p = q \<and> i = j")
  case True
  then show ?thesis by simp
next
  case False
  have "st32 m (p + 4 * i) v (q + 4 * j + of_nat l) = m (q + 4 * j + of_nat l)" if "l < 4" for l
  proof (rule st32_other)
    have "q + 4 * j + of_nat l \<noteq> p + 4 * i + of_nat k" if "k < 4" for k
      using words_disjoint [OF assms that \<open>l < 4\<close>] False by metis
    from this [of 0] this [of 1] this [of 2] this [of 3]
    show "q + 4 * j + of_nat l \<noteq> p + 4 * i" "q + 4 * j + of_nat l \<noteq> p + 4 * i + 1"
      "q + 4 * j + of_nat l \<noteq> p + 4 * i + 2" "q + 4 * j + of_nat l \<noteq> p + 4 * i + 3" by simp_all
  qed
  from this [of 0] this [of 1] this [of 2] this [of 3] False show ?thesis
    by (auto intro!: ld32_cong)
qed

lemma st32_other_page:
  assumes "page_aligned p" and "i < (1024 :: u32)" and "PGROUNDDOWN a \<noteq> p"
  shows "st32 m (p + 4 * i) v a = m a"
proof (rule st32_other)
  from word_in_page(1) [OF assms(1,2), of 0] word_in_page(1) [OF assms(1,2), of 1]
    word_in_page(1) [OF assms(1,2), of 2] word_in_page(1) [OF assms(1,2), of 3] assms(3)
  show "a \<noteq> p + 4 * i" "a \<noteq> p + 4 * i + 1" "a \<noteq> p + 4 * i + 2" "a \<noteq> p + 4 * i + 3" by auto
qed

lemma ld32_page_eq:
  assumes "page_aligned p" and "i < (1024 :: u32)" and "\<And>a. PGROUNDDOWN a = p \<Longrightarrow> m a = m' a"
  shows "ld32 m (p + 4 * i) = ld32 m' (p + 4 * i)"
proof -
  from word_in_page(1) [OF assms(1,2), of 0] word_in_page(1) [OF assms(1,2), of 1]
    word_in_page(1) [OF assms(1,2), of 2] word_in_page(1) [OF assms(1,2), of 3]
  show ?thesis by (intro ld32_cong assms(3)) simp_all
qed

lemma in_page_iff:
  assumes "page_aligned p"
  shows "a - p < PGSIZE \<longleftrightarrow> PGROUNDDOWN a = p"
proof
  assume "a - p < PGSIZE"
  then have "unat (a - p) < 4096" by (simp add: word_less_nat_alt PGSIZE_def)
  then show "PGROUNDDOWN a = p" using PGROUNDDOWN_page_add [OF assms, of "unat (a - p)"] by simp
next
  assume "PGROUNDDOWN a = p"
  with page_offset [of a] obtain k where "k < 4096" "a = p + of_nat k" by metis
  then show "a - p < PGSIZE" by (simp add: PGSIZE_def word_less_nat_alt unat_of_nat)
qed

lemma memset_zero_page:
  assumes "page_aligned p"
  shows "memset m p 0 PGSIZE a = (if PGROUNDDOWN a = p then 0 else m a)"
  using in_page_iff [OF assms, of a] by (simp add: memset_stosb stosb_fill word_less_nat_alt PGSIZE_def)

lemma ld32_zero_page:
  assumes "page_aligned p" and "page_aligned q" and "j < (1024 :: u32)"
  shows "ld32 (memset m p 0 PGSIZE) (q + 4 * j) = (if p = q then 0 else ld32 m (q + 4 * j))"
proof (cases "p = q")
  case True
  have "ld32 (memset m p 0 PGSIZE) (q + 4 * j) = ld32 (\<lambda>_. 0) (q + 4 * j)"
    using True by (intro ld32_page_eq assms) (simp add: memset_zero_page [OF assms(2)])
  then show ?thesis using True by (simp add: ld32_def)
next
  case False
  then have "ld32 (memset m p 0 PGSIZE) (q + 4 * j) = ld32 m (q + 4 * j)"
    by (intro ld32_page_eq assms) (simp add: memset_zero_page [OF assms(1)])
  with False show ?thesis by simp
qed

section \<open>Address arithmetic\<close>

lemma PDX_less [simp]: "PDX va < 1024" and PTX_less [simp]: "PTX va < 1024"
proof -
  have "x AND 0x3FF < 1024" for x :: u32
  proof -
    have "x AND 0x3FF \<le> 0x3FF" by (rule word_and_le1)
    then show ?thesis by (rule le_less_trans) simp
  qed
  then show "PDX va < 1024" "PTX va < 1024" by (simp_all add: PDX_def PTX_def)
qed

lemma PTE_ADDR_PGROUNDDOWN: "PTE_ADDR e = PGROUNDDOWN e"
  by (simp add: PTE_ADDR_def PGROUNDDOWN_def PGSIZE_def)

lemma page_aligned_P2V [simp]: "page_aligned (P2V p) = page_aligned p"
proof -
  have "unat (P2V p) = (unat p + 2 ^ 31) mod 2 ^ 32"
    by (simp add: P2V_def KERNBASE_def unat_word_ariths)
  moreover have "4096 dvd (x + 2 ^ 31) mod 2 ^ 32 \<longleftrightarrow> 4096 dvd x" for x :: nat
  proof -
    have "(4096 :: nat) dvd 2 ^ 31" by (rule dvdI [of _ _ 524288]) simp
    then show ?thesis by (simp add: dvd_mod_iff dvd_add_left_iff)
  qed
  ultimately show ?thesis by (simp add: page_aligned_unat)
qed

lemma V2P_eq_P2V: "V2P p = P2V p"
  by (simp add: V2P_def P2V_def KERNBASE_def)

lemma page_aligned_V2P [simp]: "page_aligned (V2P p) = page_aligned p"
  by (simp add: V2P_eq_P2V)

lemma P2V_V2P [simp]: "P2V (V2P a) = a" "V2P (P2V a) = a"
  by (simp_all add: P2V_def V2P_def)

lemma mask_12: "(0xFFF :: u32) = mask 12" and mask_10: "(0x3FF :: u32) = mask 10"
  by (simp_all add: mask_eq_exp_minus_1)

lemma bit_PTE_ADDR: "bit (PTE_ADDR e) n \<longleftrightarrow> 12 \<le> n \<and> bit e n"
  unfolding PTE_ADDR_def mask_12 by (auto simp: bit_simps dest: bit_imp_le_length)

lemma page_aligned_bit:
  assumes "page_aligned p" and "bit p n"
  shows "12 \<le> n"
  using assms bit_PTE_ADDR [of p n] by (simp add: PTE_ADDR_PGROUNDDOWN)

lemma PTE_ADDR_flags:
  assumes "page_aligned pa" and "perm < 4096"
  shows "PTE_ADDR (pa OR perm OR PTE_P) = pa"
proof (rule bit_word_eqI)
  fix n
  show "bit (PTE_ADDR (pa OR perm OR PTE_P)) n = bit pa n"
    using page_aligned_bit [OF assms(1), of n] small_bit [OF assms(2), of n]
    by (auto simp: bit_PTE_ADDR PTE_P_def bit_simps)
qed

lemma PTE_P_set: "(x OR PTE_P) AND PTE_P \<noteq> 0"
proof
  assume "(x OR PTE_P) AND PTE_P = 0"
  then have "bit ((x OR PTE_P) AND PTE_P) 0 = bit (0 :: u32) 0" by simp
  then show False by (simp add: PTE_P_def bit_simps)
qed

lemma bit_PDX: "bit (PDX va) n \<longleftrightarrow> n < 10 \<and> bit va (22 + n)"
  unfolding PDX_def mask_10 by (auto simp: bit_simps)

lemma bit_PTX: "bit (PTX va) n \<longleftrightarrow> n < 10 \<and> bit va (12 + n)"
  unfolding PTX_def mask_10 by (auto simp: bit_simps)

lemma same_page_iff: "PDX va = PDX vb \<and> PTX va = PTX vb \<longleftrightarrow> PGROUNDDOWN va = PGROUNDDOWN vb"
proof
  assume eq: "PDX va = PDX vb \<and> PTX va = PTX vb"
  have "bit va n = bit vb n" if "12 \<le> n" "n < 32" for n
  proof (cases "n < 22")
    case True
    then show ?thesis
      using eq that bit_PTX [of va "n - 12"] bit_PTX [of vb "n - 12"] by auto
  next
    case False
    then show ?thesis
      using eq that bit_PDX [of va "n - 22"] bit_PDX [of vb "n - 22"] by auto
  qed
  then show "PGROUNDDOWN va = PGROUNDDOWN vb"
    by (intro bit_word_eqI) (auto simp: PTE_ADDR_PGROUNDDOWN [symmetric] bit_PTE_ADDR)
next
  assume "PGROUNDDOWN va = PGROUNDDOWN vb"
  then have eq: "bit (PTE_ADDR va) n = bit (PTE_ADDR vb) n" for n by (simp add: PTE_ADDR_PGROUNDDOWN)
  have "bit va n = bit vb n" if "12 \<le> n" for n using eq [of n] that by (simp add: bit_PTE_ADDR)
  then show "PDX va = PDX vb \<and> PTX va = PTX vb"
    by (auto intro!: bit_word_eqI simp: bit_PDX bit_PTX)
qed

section \<open>Directories and mappings\<close>

definition entry :: "mem \<Rightarrow> u32 \<Rightarrow> u32 \<Rightarrow> u32" where
  "entry m p i = ld32 m (p + 4 * i)"

text \<open>The page table in slot \<open>i\<close> of a directory, the entry the tables hold for an address, and the pages
  they occupy.\<close>

definition pt_at :: "mem \<Rightarrow> u32 \<Rightarrow> u32 \<Rightarrow> u32 option" where
  "pt_at m pgdir i = (if entry m pgdir i AND PTE_P \<noteq> 0 then Some (P2V (PTE_ADDR (entry m pgdir i))) else None)"

definition present :: "u32 \<Rightarrow> u32 option" where
  "present e = (if e AND PTE_P \<noteq> 0 then Some e else None)"

definition mapping :: "mem \<Rightarrow> u32 \<Rightarrow> u32 \<Rightarrow> u32 option" where
  "mapping m pgdir va = (case pt_at m pgdir (PDX va) of None \<Rightarrow> None | Some t \<Rightarrow> present (entry m t (PTX va)))"

definition tables :: "mem \<Rightarrow> u32 \<Rightarrow> u32 set" where
  "tables m pgdir = insert pgdir {t. \<exists>i < 1024. pt_at m pgdir i = Some t}"

definition pdir_ok :: "mem \<Rightarrow> u32 \<Rightarrow> bool" where
  "pdir_ok m pgdir \<longleftrightarrow> page_aligned pgdir \<and> (\<forall>i < 1024. pt_at m pgdir i \<noteq> Some pgdir)
     \<and> (\<forall>i < 1024. \<forall>j < 1024. \<forall>t. pt_at m pgdir i = Some t \<longrightarrow> pt_at m pgdir j = Some t \<longrightarrow> i = j)"

definition vm_inv :: "nat \<Rightarrow> 'a kmem_scheme \<Rightarrow> u32 list \<Rightarrow> u32 \<Rightarrow> bool" where
  "vm_inv c s ps pgdir \<longleftrightarrow> kmem_inv c s ps \<and> pdir_ok (mem s) pgdir
     \<and> tables (mem s) pgdir \<inter> set ps = {} \<and> (\<forall>t \<in> tables (mem s) pgdir. kpage s t)"

lemma pt_at_aligned: "pt_at m pgdir i = Some t \<Longrightarrow> page_aligned t"
  by (auto simp: pt_at_def PTE_ADDR_PGROUNDDOWN split: if_splits)

lemma tables_aligned: "pdir_ok m pgdir \<Longrightarrow> t \<in> tables m pgdir \<Longrightarrow> page_aligned t"
  by (auto simp: tables_def pdir_ok_def dest: pt_at_aligned)

lemma pt_at_tables: "pt_at m pgdir i = Some t \<Longrightarrow> i < 1024 \<Longrightarrow> t \<in> tables m pgdir"
  by (auto simp: tables_def)

lemma entry_cong:
  "page_aligned p \<Longrightarrow> i < 1024 \<Longrightarrow> (\<And>a. PGROUNDDOWN a = p \<Longrightarrow> m a = m' a) \<Longrightarrow> entry m p i = entry m' p i"
  unfolding entry_def by (rule ld32_page_eq)

lemma entry_st32:
  "page_aligned p \<Longrightarrow> page_aligned q \<Longrightarrow> i < 1024 \<Longrightarrow> j < 1024
   \<Longrightarrow> entry (st32 m (p + 4 * i) v) q j = (if p = q \<and> i = j then v else entry m q j)"
  unfolding entry_def by (rule ld32_st32_page)

text \<open>A directory keeps its meaning when other pages change.\<close>

lemma pdir_cong:
  assumes ok: "pdir_ok m pgdir" and same: "\<And>a. PGROUNDDOWN a \<in> tables m pgdir \<Longrightarrow> m' a = m a"
  shows "i < 1024 \<Longrightarrow> pt_at m' pgdir i = pt_at m pgdir i" and "mapping m' pgdir va = mapping m pgdir va"
    and "tables m' pgdir = tables m pgdir" and "pdir_ok m' pgdir"
proof -
  have al: "page_aligned pgdir" using ok by (simp add: pdir_ok_def)
  have "entry m' pgdir i = entry m pgdir i" if "i < 1024" for i
    using al that by (rule entry_cong) (simp add: same tables_def)
  then have pt: "pt_at m' pgdir i = pt_at m pgdir i" if "i < 1024" for i using that by (simp add: pt_at_def)
  then show "i < 1024 \<Longrightarrow> pt_at m' pgdir i = pt_at m pgdir i" .
  have "entry m' t j = entry m t j" if "pt_at m pgdir i = Some t" "i < 1024" "j < 1024" for t i j
    using pt_at_aligned [OF that(1)] that(3) by (rule entry_cong) (use that pt_at_tables same in auto)
  then show "mapping m' pgdir va = mapping m pgdir va"
    by (auto simp: mapping_def pt split: option.splits)
  show "tables m' pgdir = tables m pgdir" using pt by (auto simp: tables_def)
  show "pdir_ok m' pgdir" using ok pt by (auto simp: pdir_ok_def)
qed

lemma mapping_page:
  assumes "PGROUNDDOWN va = PGROUNDDOWN vb"
  shows "mapping m pgdir va = mapping m pgdir vb"
proof -
  have "PDX va = PDX vb" "PTX va = PTX vb" using assms same_page_iff [of va vb] by blast+
  then show ?thesis unfolding mapping_def by (simp split: option.splits)
qed

lemma kmem_inv_mem:
  assumes "kmem_inv c s ps" and "\<And>a. PGROUNDDOWN a \<in> set ps \<Longrightarrow> m' a = mem s a"
  shows "kmem_inv c (s\<lparr>mem := m'\<rparr>) ps"
proof -
  have "free_chain m' (freelist s) ps = free_chain (mem s) (freelist s) ps"
    using assms by (intro free_chain_cong) (auto simp: kmem_inv_def kpage_def)
  then show ?thesis using assms(1) by (auto simp: kmem_inv_def kpage_def)
qed

lemma kpage_mem [simp]: "kpage (s\<lparr>mem := m\<rparr>) p = kpage s p" "kpage (s\<lparr>freelist := f\<rparr>) p = kpage s p"
  by (simp_all add: kpage_def)

text \<open>Writing a page table entry.\<close>

lemma vm_store:
  fixes e :: u32
  assumes inv: "vm_inv c s ps pgdir" and tb: "pt_at (mem s) pgdir (PDX va) = Some tb"
  defines "t \<equiv> s\<lparr>mem := st32 (mem s) (tb + 4 * PTX va) e\<rparr>"
  shows "vm_inv c t ps pgdir \<and> tables (mem t) pgdir = tables (mem s) pgdir
    \<and> (\<forall>i < 1024. pt_at (mem t) pgdir i = pt_at (mem s) pgdir i)
    \<and> (\<forall>vb. mapping (mem t) pgdir vb =
          (if PGROUNDDOWN vb = PGROUNDDOWN va then present e else mapping (mem s) pgdir vb))
    \<and> (\<forall>a. PGROUNDDOWN a \<notin> tables (mem s) pgdir \<longrightarrow> mem t a = mem s a)"
proof -
  have ok: "pdir_ok (mem s) pgdir" and k: "kmem_inv c s ps"
    and disj: "tables (mem s) pgdir \<inter> set ps = {}" using inv by (auto simp: vm_inv_def)
  have al: "page_aligned tb" "page_aligned pgdir" using pt_at_aligned [OF tb] ok by (auto simp: pdir_ok_def)
  have tin: "tb \<in> tables (mem s) pgdir" using pt_at_tables [OF tb] by simp
  have ne: "tb \<noteq> pgdir" using ok tb by (auto simp: pdir_ok_def)
  have mem: "mem t a = mem s a" if "PGROUNDDOWN a \<noteq> tb" for a
    unfolding t_def using al(1) that by (simp add: st32_other_page)
  have "entry (mem t) pgdir i = entry (mem s) pgdir i" if "i < 1024" for i
    using al(2) that by (rule entry_cong) (use mem ne in auto)
  then have pt: "pt_at (mem t) pgdir i = pt_at (mem s) pgdir i" if "i < 1024" for i
    using that by (simp add: pt_at_def)
  then have tabs: "tables (mem t) pgdir = tables (mem s) pgdir" by (auto simp: tables_def)
  have "mapping (mem t) pgdir vb =
      (if PGROUNDDOWN vb = PGROUNDDOWN va then present e else mapping (mem s) pgdir vb)" for vb
  proof (cases "pt_at (mem s) pgdir (PDX vb)")
    case None
    then have "PDX vb \<noteq> PDX va" using tb by auto
    then have "PGROUNDDOWN vb \<noteq> PGROUNDDOWN va" using same_page_iff by blast
    with None show ?thesis by (simp add: mapping_def pt)
  next
    case (Some u)
    have "entry (mem t) u (PTX vb) = (if u = tb \<and> PTX vb = PTX va then e else entry (mem s) u (PTX vb))"
      unfolding t_def using al(1) pt_at_aligned [OF Some] by (auto simp: entry_st32)
    moreover have "u = tb \<longleftrightarrow> PDX vb = PDX va" using ok tb Some by (auto simp: pdir_ok_def)
    ultimately show ?thesis
      using Some by (simp add: mapping_def pt same_page_iff [symmetric])
  qed
  moreover have "mem t a = mem s a" if "PGROUNDDOWN a \<in> set ps" for a
    using that disj tin by (intro mem) auto
  then have "kmem_inv c t ps"
    unfolding t_def using k by (intro kmem_inv_mem) simp_all
  moreover have "pdir_ok (mem t) pgdir" using ok pt by (auto simp: pdir_ok_def)
  moreover have "mem t a = mem s a" if "PGROUNDDOWN a \<notin> tables (mem s) pgdir" for a
    using that tin by (intro mem) auto
  ultimately show ?thesis
    using inv tabs pt by (auto simp: vm_inv_def) (auto simp: t_def)
qed

text \<open>Adding a zeroed page table to a free slot of the directory.\<close>

lemma vm_new_table:
  assumes inv: "vm_inv c s (q # ps) pgdir" and none: "pt_at (mem s) pgdir i = None" and i: "i < 1024"
  defines "t \<equiv> s\<lparr>freelist := ld32 (mem s) q,
      mem := st32 (memset (mem s) q 0 PGSIZE) (pgdir + 4 * i) (V2P q OR PTE_P OR PTE_W OR PTE_U)\<rparr>"
  shows "vm_inv c t ps pgdir \<and> pt_at (mem t) pgdir i = Some q
    \<and> (\<forall>va. mapping (mem t) pgdir va = mapping (mem s) pgdir va)
    \<and> tables (mem t) pgdir = insert q (tables (mem s) pgdir)
    \<and> (\<forall>a. PGROUNDDOWN a \<notin> tables (mem t) pgdir \<longrightarrow> mem t a = mem s a)
    \<and> (\<forall>j < 1024. pt_at (mem t) pgdir j = (if j = i then Some q else pt_at (mem s) pgdir j))"
proof -
  have ok: "pdir_ok (mem s) pgdir" and k: "kmem_inv c s (q # ps)"
    and disj: "tables (mem s) pgdir \<inter> set (q # ps) = {}" using inv by (auto simp: vm_inv_def)
  have kq: "kpage s q" "q \<notin> set ps" using k by (auto simp: kmem_inv_def)
  have al: "page_aligned q" "page_aligned pgdir" using kq ok by (auto simp: pdir_ok_def kpage_def)
  have qt: "q \<notin> tables (mem s) pgdir" using disj by auto
  then have ne: "q \<noteq> pgdir" by (auto simp: tables_def)
  have mem: "mem t a = mem s a" if "PGROUNDDOWN a \<noteq> q" "PGROUNDDOWN a \<noteq> pgdir" for a
    unfolding t_def using al that i by (simp add: st32_other_page memset_zero_page)
  let ?e = "V2P q OR PTE_P OR PTE_W OR PTE_U"
  have e: "?e = V2P q OR (PTE_W OR PTE_U) OR PTE_P" by (simp add: or.commute or.left_commute or.assoc)
  have "(PTE_W OR PTE_U) < 4096" by (simp add: PTE_W_def PTE_U_def)
  then have "PTE_ADDR ?e = V2P q" unfolding e using al(1) by (intro PTE_ADDR_flags) auto
  moreover have "?e AND PTE_P \<noteq> 0" 
    using PTE_P_set [of "V2P q OR (PTE_W OR PTE_U)"] by (simp only: e or.assoc simp_thms)
  moreover have "entry (mem t) pgdir j = (if j = i then ?e else entry (mem s) pgdir j)" if "j < 1024" for j
    unfolding t_def using al i that ne by (simp add: entry_def ld32_st32_page ld32_zero_page)
  ultimately have pt: "pt_at (mem t) pgdir j = (if j = i then Some q else pt_at (mem s) pgdir j)" if "j < 1024" for j
    using that by (simp add: pt_at_def)
  have zero: "entry (mem t) q j = 0" if "j < 1024" for j
    unfolding t_def using al i that ne by (simp add: entry_def ld32_st32_page ld32_zero_page)
  have old: "entry (mem t) u j = entry (mem s) u j" if "pt_at (mem s) pgdir l = Some u" "l < 1024" "j < 1024" for u l j
  proof (rule entry_cong)
    show "page_aligned u" using that(1) by (rule pt_at_aligned)
    have "u \<noteq> q" "u \<noteq> pgdir" using that qt ok pt_at_tables by (auto simp: pdir_ok_def)
    then show "mem t a = mem s a" if "PGROUNDDOWN a = u" for a using that mem by auto
  qed (rule that(3))
  have "mapping (mem t) pgdir va = mapping (mem s) pgdir va" for va
    using none zero old by (auto simp: mapping_def pt present_def split: option.splits)
  moreover have tabs: "tables (mem t) pgdir = insert q (tables (mem s) pgdir)"
  proof -
    have "pt_at (mem t) pgdir j = Some x \<longleftrightarrow> j = i \<and> x = q \<or> pt_at (mem s) pgdir j = Some x" if "j < 1024" for j x
      using pt [OF that] none by auto
    then show ?thesis using i by (auto simp: tables_def)
  qed
  moreover have "kmem_inv c t ps"
  proof -
    have "kmem_inv c (s\<lparr>freelist := ld32 (mem s) q\<rparr>) ps" using kmem_inv_kalloc_Cons(2) [OF k] .
    moreover have "mem t a = mem s a" if "PGROUNDDOWN a \<in> set ps" for a
      using that kq(2) disj by (intro mem) (auto simp: tables_def)
    ultimately have "kmem_inv c (s\<lparr>freelist := ld32 (mem s) q, mem := mem t\<rparr>) ps"
      by (intro kmem_inv_mem) simp_all
    then show ?thesis by (simp add: t_def)
  qed
  moreover have "pdir_ok (mem t) pgdir"
    using ok pt qt pt_at_tables ne by (auto simp: pdir_ok_def split: if_splits)
  moreover have "\<forall>j < 1024. pt_at (mem t) pgdir j = (if j = i then Some q else pt_at (mem s) pgdir j)" using pt by blast
  ultimately show ?thesis
    using inv mem kq pt [OF i] disj by (auto simp: vm_inv_def) (auto simp: t_def tables_def)
qed

text \<open>The slots of the directory that have a table. There are as many tables as slots, and the directory itself.\<close>

definition covered :: "mem \<Rightarrow> u32 \<Rightarrow> u32 set" where
  "covered m pgdir = {i. i < 1024 \<and> pt_at m pgdir i \<noteq> None}"

lemma covered_cong: "(\<And>i. i < 1024 \<Longrightarrow> pt_at m' pgdir i = pt_at m pgdir i) \<Longrightarrow> covered m' pgdir = covered m pgdir"
  by (auto simp: covered_def)

lemma card_tables:
  assumes "pdir_ok m pgdir"
  shows "card (tables m pgdir) = Suc (card (covered m pgdir))" and "finite (tables m pgdir)"
proof -
  have e: "tables m pgdir = insert pgdir ((\<lambda>i. the (pt_at m pgdir i)) ` covered m pgdir)"
    by (force simp: tables_def covered_def)
  then show "finite (tables m pgdir)" by simp
  have "pgdir \<notin> (\<lambda>i. the (pt_at m pgdir i)) ` covered m pgdir" using assms by (auto simp: covered_def pdir_ok_def)
  moreover have "inj_on (\<lambda>i. the (pt_at m pgdir i)) (covered m pgdir)" using assms by (force simp: covered_def pdir_ok_def intro!: inj_onI)
  ultimately show "card (tables m pgdir) = Suc (card (covered m pgdir))" unfolding e by (simp add: card_image)
qed

section \<open>Walking\<close>

definition vm_frame :: "'a kmem_scheme \<Rightarrow> 'a kmem_scheme \<Rightarrow> bool" where
  "vm_frame s t \<longleftrightarrow> t\<lparr>freelist := 0, mem := (\<lambda>_. 0)\<rparr> = s\<lparr>freelist := 0, mem := (\<lambda>_. 0)\<rparr>"

lemma vm_frame_refl [simp]: "vm_frame s s"
  by (simp add: vm_frame_def)

lemma vm_frame_trans: "vm_frame s t \<Longrightarrow> vm_frame t u \<Longrightarrow> vm_frame s u"
  by (simp add: vm_frame_def)

lemma vm_frame_upd [simp]:
  "vm_frame s (t\<lparr>mem := m\<rparr>) = vm_frame s t" "vm_frame s (t\<lparr>freelist := f\<rparr>) = vm_frame s t"
  "vm_frame (s\<lparr>mem := m\<rparr>) t = vm_frame s t" "vm_frame (s\<lparr>freelist := f\<rparr>) t = vm_frame s t"
  by (simp_all add: vm_frame_def)

lemma vm_frame_fields:
  assumes "vm_frame s t"
  shows "same_core s t" "kend t = kend s" "use_lock t = use_lock s" "cr3 t = cr3 s" "kpage t = kpage s"
  using arg_cong [OF assms [unfolded vm_frame_def], of cpus] arg_cong [OF assms [unfolded vm_frame_def], of locks]
    arg_cong [OF assms [unfolded vm_frame_def], of ncpu] arg_cong [OF assms [unfolded vm_frame_def], of lapicid]
    arg_cong [OF assms [unfolded vm_frame_def], of eflags_if] arg_cong [OF assms [unfolded vm_frame_def], of kend]
    arg_cong [OF assms [unfolded vm_frame_def], of use_lock] arg_cong [OF assms [unfolded vm_frame_def], of cr3]
  by (simp_all add: same_core_def kpage_def fun_eq_iff)

lemma walkpgdir_existing:
  assumes "pt_at (mem s) pgdir (PDX va) = Some tb"
  shows "walkpgdir pgdir va alloc s = Ret (tb + 4 * PTX va) s"
  using assms by (auto simp: walkpgdir_def pt_at_def entry_def Let_def split: if_splits)

lemma walkpgdir_absent:
  assumes "pt_at (mem s) pgdir (PDX va) = None"
  shows "walkpgdir pgdir va False s = Ret 0 s"
  using assms by (auto simp: walkpgdir_def pt_at_def entry_def Let_def split: if_splits)

lemma walkpgdir_new:
  assumes "pt_at (mem s) pgdir (PDX va) = None" and "vm_inv c s (q # ps) pgdir"
  shows "walkpgdir pgdir va True s = Ret (q + 4 * PTX va) (s\<lparr>freelist := ld32 (mem s) q,
      mem := st32 (memset (mem s) q 0 PGSIZE) (pgdir + 4 * PDX va) (V2P q OR PTE_P OR PTE_W OR PTE_U)\<rparr>)"
proof -
  have k: "kmem_inv c s (q # ps)" using assms(2) by (simp add: vm_inv_def)
  then have "q \<noteq> 0" using kpage_nonzero by (auto simp: kmem_inv_def)
  moreover have "entry (mem s) pgdir (PDX va) AND PTE_P = 0"
    using assms(1) by (auto simp: pt_at_def split: if_splits)
  ultimately show ?thesis
    using kmem_inv_kalloc_Cons(1) [OF k] by (simp add: walkpgdir_def entry_def Let_def)
qed

lemma table_word_nonzero:
  assumes "vm_inv c s ps pgdir" and "t \<in> tables (mem s) pgdir" and "i < 1024"
  shows "t + 4 * i \<noteq> 0"
proof -
  have "page_aligned t" "kpage s t" using assms by (auto simp: vm_inv_def intro: tables_aligned)
  then have "PGROUNDDOWN (t + 4 * i) = t" "t \<noteq> 0" using word_in_page(1) [of t i 0] assms(3) kpage_nonzero by auto
  then show ?thesis by (auto simp: PGROUNDDOWN_def)
qed

text \<open>A walk that may allocate either finds or adds the table for the address, without changing any
  mapping, or fails when no free page is left.\<close>

lemma walkpgdir_alloc:
  assumes inv: "vm_inv c s ps pgdir"
  shows "wp (walkpgdir pgdir va True s) (\<lambda>pte t. vm_frame s t \<and>
    (if pte = 0 then t = s \<and> ps = [] \<and> mapping (mem s) pgdir va = None
     else \<exists>us ps' tb. ps = us @ ps' \<and> vm_inv c t ps' pgdir \<and> pt_at (mem t) pgdir (PDX va) = Some tb
       \<and> pte = tb + 4 * PTX va \<and> (\<forall>vb. mapping (mem t) pgdir vb = mapping (mem s) pgdir vb)
       \<and> tables (mem t) pgdir = tables (mem s) pgdir \<union> set us
       \<and> (\<forall>a. PGROUNDDOWN a \<notin> tables (mem t) pgdir \<longrightarrow> mem t a = mem s a)))"
proof (cases "pt_at (mem s) pgdir (PDX va)")
  case (Some tb)
  then have nz: "tb + 4 * PTX va \<noteq> 0"
    using table_word_nonzero [OF inv pt_at_tables [OF Some]] by simp
  show ?thesis
    unfolding walkpgdir_existing [OF Some] wp.simps
    using nz inv Some by simp (intro exI [of _ "[]"] exI [of _ ps] exI [of _ tb], simp)
next
  case None
  show ?thesis
  proof (cases ps)
    case Nil
    then have "walkpgdir pgdir va True s = Ret 0 s"
      using inv None kmem_inv_kalloc_Nil [of c s]
      by (auto simp: walkpgdir_def vm_inv_def pt_at_def entry_def Let_def split: if_splits)
    with None Nil show ?thesis by (simp add: mapping_def)
  next
    case (Cons q ps')
    note inv' = inv [unfolded Cons]
    let ?t = "s\<lparr>freelist := ld32 (mem s) q,
      mem := st32 (memset (mem s) q 0 PGSIZE) (pgdir + 4 * PDX va) (V2P q OR PTE_P OR PTE_W OR PTE_U)\<rparr>"
    note n = vm_new_table [OF inv' None, simplified]
    then have "q + 4 * PTX va \<noteq> 0"
      using table_word_nonzero [of c ?t ps' pgdir q] pt_at_tables [of "mem ?t" pgdir "PDX va" q] by simp
    then show ?thesis
      unfolding walkpgdir_new [OF None inv'] wp.simps
      using n Cons by simp (intro exI [of _ "[q]"] exI [of _ ps'] exI [of _ q], simp)
  qed
qed

section \<open>Mapping\<close>

lemma page_diff: "page_aligned a \<Longrightarrow> page_aligned b \<Longrightarrow> page_aligned (a - b)"
proof -
  assume "page_aligned a" "page_aligned b"
  then have "4096 dvd unat a" "4096 dvd unat b" by (simp_all add: page_aligned_unat)
  moreover have "unat (a - b) = (if b \<le> a then unat a - unat b else unat a + 2 ^ 32 - unat b)"
    by (simp add: unat_sub_if_size word_le_nat_alt word_size)
  moreover have "(4096 :: nat) dvd 2 ^ 32" by (rule dvdI [of _ _ 1048576]) simp
  ultimately show ?thesis by (auto simp: page_aligned_unat intro!: dvd_diff_nat dvd_add)
qed

text \<open>Ranges of pages: shifting the start of a range by one page.\<close>

lemma page_range_step:
  assumes "page_aligned d" and "page_aligned e" and "e \<noteq> (0 :: u32)"
  shows "d \<le> e \<longleftrightarrow> d = 0 \<or> d - PGSIZE \<le> e - PGSIZE" and "d = 0 \<Longrightarrow> \<not> d - PGSIZE \<le> e - PGSIZE"
    and "d \<noteq> 0 \<Longrightarrow> f \<le> e - PGSIZE \<Longrightarrow> d < f + PGSIZE \<longleftrightarrow> d - PGSIZE < f"
    and "unat (e - PGSIZE) = unat e - 4096" and "4096 \<le> unat e"
proof -
  obtain k l where k: "unat d = 4096 * k" and l: "unat e = 4096 * l"
    using assms(1,2) by (auto simp: page_aligned_unat elim!: dvdE)
  have l1: "1 \<le> l" using assms(3) l by (cases l) (auto simp: unat_eq_zero)
  then show e1: "4096 \<le> unat e" using l by simp
  then have "4096 \<le> e" by (simp add: word_le_nat_alt)
  then show e: "unat (e - PGSIZE) = unat e - 4096" by (simp add: PGSIZE_def unat_sub)
  have lt: "unat e < 2 ^ 32" "unat d < 2 ^ 32" using unsigned_less [of e] unsigned_less [of d] by simp_all
  have d0: "unat (d - PGSIZE) = (if d = 0 then 2 ^ 32 - 4096 else unat d - 4096)"
  proof (cases "d = 0")
    case False
    then have "1 \<le> k" using k by (cases k) (auto simp: unat_eq_zero)
    then have "4096 \<le> d" using k by (simp add: word_le_nat_alt)
    with False show ?thesis by (simp add: PGSIZE_def unat_sub)
  qed (simp add: PGSIZE_def)
  show "d \<le> e \<longleftrightarrow> d = 0 \<or> d - PGSIZE \<le> e - PGSIZE" and "d = 0 \<Longrightarrow> \<not> d - PGSIZE \<le> e - PGSIZE"
    using e e1 d0 lt k l by (auto simp: word_le_nat_alt)
  show "d < f + PGSIZE \<longleftrightarrow> d - PGSIZE < f" if "d \<noteq> 0" "f \<le> e - PGSIZE"
  proof -
    have f: "unat f + 4096 \<le> unat e" using that(2) e e1 by (simp add: word_le_nat_alt)
    then have "unat (f + PGSIZE) = unat f + 4096" using lt by (simp add: PGSIZE_def unat_word_ariths)
    moreover have "4096 \<le> unat d" using that(1) k by (cases k) (auto simp: unat_eq_zero)
    ultimately show ?thesis using d0 that(1) by (auto simp: word_less_nat_alt)
  qed
qed

text \<open>The entry \<open>mappages\<close> writes for an address, given the first page and frame of the range.\<close>

definition target :: "u32 \<Rightarrow> u32 \<Rightarrow> u32 \<Rightarrow> u32 \<Rightarrow> u32 option" where
  "target a pa perm va = Some ((pa + (PGROUNDDOWN va - a)) OR perm OR PTE_P)"

lemma target_step: "target (a + PGSIZE) (pa + PGSIZE) perm va = target a pa perm va"
  by (simp add: target_def algebra_simps)

definition map_post :: "nat \<Rightarrow> u32 \<Rightarrow> u32 list \<Rightarrow> 'a kmem_scheme \<Rightarrow> 'a kmem_scheme \<Rightarrow> u32 list \<Rightarrow> bool" where
  "map_post c pgdir ps s t ps' \<longleftrightarrow> vm_frame s t \<and> vm_inv c t ps' pgdir
     \<and> (\<exists>us. ps = us @ ps' \<and> tables (mem t) pgdir = tables (mem s) pgdir \<union> set us)
     \<and> (\<forall>a. PGROUNDDOWN a \<notin> tables (mem t) pgdir \<longrightarrow> mem t a = mem s a)"

lemma map_post_trans:
  assumes "map_post c pgdir ps s t ps'" and "map_post c pgdir ps' t u ps''"
  shows "map_post c pgdir ps s u ps''"
proof -
  obtain us where us: "ps = us @ ps'" "tables (mem t) pgdir = tables (mem s) pgdir \<union> set us"
    using assms(1) by (auto simp: map_post_def)
  obtain vs where vs: "ps' = vs @ ps''" "tables (mem u) pgdir = tables (mem t) pgdir \<union> set vs"
    using assms(2) by (auto simp: map_post_def)
  have "mem u a = mem s a" if "PGROUNDDOWN a \<notin> tables (mem u) pgdir" for a
    using assms that vs by (auto simp: map_post_def)
  moreover have "\<exists>ws. ps = ws @ ps'' \<and> tables (mem u) pgdir = tables (mem s) pgdir \<union> set ws"
    using us vs by (intro exI [of _ "us @ vs"]) auto
  ultimately show ?thesis using assms by (auto simp: map_post_def intro: vm_frame_trans)
qed

lemma walkpgdir_map_post:
  assumes inv: "vm_inv c s ps pgdir"
  shows "wp (walkpgdir pgdir va True s) (\<lambda>pte t.
    (if pte = 0 then t = s \<and> ps = []
     else \<exists>ps' tb. map_post c pgdir ps s t ps' \<and> pt_at (mem t) pgdir (PDX va) = Some tb
       \<and> pte = tb + 4 * PTX va \<and> (\<forall>vb. mapping (mem t) pgdir vb = mapping (mem s) pgdir vb)))"
  by (rule wp_mono [OF walkpgdir_alloc [OF inv]]) (auto simp: map_post_def split: if_splits)

lemma vm_store_map_post:
  assumes "vm_inv c s ps pgdir" and "pt_at (mem s) pgdir (PDX va) = Some tb"
  shows "map_post c pgdir ps s (s\<lparr>mem := st32 (mem s) (tb + 4 * PTX va) e\<rparr>) ps"
  using vm_store [OF assms, of e] by (simp add: map_post_def)

lemma present_entry: "pt_at m pgdir (PDX va) = Some tb \<Longrightarrow> mapping m pgdir va = present (ld32 m (tb + 4 * PTX va))"
  by (simp add: mapping_def entry_def)

lemma present_flags: "present (pa OR perm OR PTE_P) = Some (pa OR perm OR PTE_P)"
  using PTE_P_set [of "pa OR perm"] by (simp add: present_def or.assoc)

definition step_post ::
  "nat \<Rightarrow> u32 \<Rightarrow> u32 list \<Rightarrow> 'a kmem_scheme \<Rightarrow> u32 \<Rightarrow> u32 \<Rightarrow> u32 \<Rightarrow> 'a kmem_scheme \<Rightarrow> bool" where
  "step_post c pgdir ps s a e pte t \<longleftrightarrow>
    (if pte = 0 then t = s \<and> ps = []
     else ld32 (mem t) pte AND PTE_P = 0
      \<and> (\<exists>ps'. map_post c pgdir ps s (t\<lparr>mem := st32 (mem t) pte e\<rparr>) ps')
      \<and> (\<forall>va. mapping (st32 (mem t) pte e) pgdir va =
           (if PGROUNDDOWN va = a then Some e else mapping (mem s) pgdir va)))"

lemma mappages_step:
  fixes s :: "'a kmem_scheme"
  assumes inv: "vm_inv c s ps pgdir" and a: "page_aligned a" and none: "mapping (mem s) pgdir a = None"
    and e: "present e = Some e"
  shows "wp (walkpgdir pgdir a True s) (step_post c pgdir ps s a e)"
proof (rule wp_mono [OF walkpgdir_map_post [OF inv]])
  fix pte and t :: "'a kmem_scheme"
  let ?u = "t\<lparr>mem := st32 (mem t) pte e\<rparr>"
  assume t: "if pte = 0 then t = s \<and> ps = []
     else \<exists>ps' tb. map_post c pgdir ps s t ps' \<and> pt_at (mem t) pgdir (PDX a) = Some tb
       \<and> pte = tb + 4 * PTX a \<and> (\<forall>vb. mapping (mem t) pgdir vb = mapping (mem s) pgdir vb)"
  show "step_post c pgdir ps s a e pte t"
  proof (cases "pte = 0")
    case False
    with t obtain ps' tb where p: "map_post c pgdir ps s t ps'" "pt_at (mem t) pgdir (PDX a) = Some tb"
      "pte = tb + 4 * PTX a" "\<And>vb. mapping (mem t) pgdir vb = mapping (mem s) pgdir vb" by auto
    have inv': "vm_inv c t ps' pgdir" using p(1) by (simp add: map_post_def)
    have "ld32 (mem t) pte AND PTE_P = 0"
      using present_entry [OF p(2)] none p(3,4) by (auto simp: present_def split: if_splits)
    moreover have "map_post c pgdir ps s ?u ps'"
      unfolding p(3) by (rule map_post_trans [OF p(1) vm_store_map_post [OF inv' p(2)]])
    ultimately show ?thesis
      using False vm_store [OF inv' p(2), of e] a e by (auto simp: p(3,4) step_post_def)
  qed (use t in \<open>simp add: step_post_def\<close>)
qed

definition loop_post :: "nat \<Rightarrow> u32 \<Rightarrow> u32 list \<Rightarrow> 'a kmem_scheme \<Rightarrow> u32 \<Rightarrow> u32 \<Rightarrow> u32 \<Rightarrow> u32
    \<Rightarrow> int \<Rightarrow> 'a kmem_scheme \<Rightarrow> bool" where
  "loop_post c pgdir ps s a b pa perm r t \<longleftrightarrow> (\<exists>ps'. map_post c pgdir ps s t ps' \<and>
    (r = 0 \<and> (\<forall>va. mapping (mem t) pgdir va =
        (if PGROUNDDOWN va - a \<le> b - a then target a pa perm va else mapping (mem s) pgdir va))
     \<or> r = - 1 \<and> ps' = [] \<and> (\<exists>e \<le> b - a. \<forall>va. mapping (mem t) pgdir va =
        (if PGROUNDDOWN va - a < e then target a pa perm va else mapping (mem s) pgdir va))))"

lemma loop_post_fail:
  assumes "vm_inv c s [] pgdir"
  shows "loop_post c pgdir [] s a b pa perm (- 1) s"
  using assms unfolding loop_post_def map_post_def by (intro exI [of _ "[]"]) (auto intro!: exI [of _ 0])

lemma loop_post_last:
  assumes "map_post c pgdir ps s t ps'" and "page_aligned a"
    and "\<And>va. mapping (mem t) pgdir va = (if PGROUNDDOWN va = a then Some (pa OR perm OR PTE_P) else mapping (mem s) pgdir va)"
  shows "loop_post c pgdir ps s a a pa perm 0 t"
  using assms by (auto simp: loop_post_def target_def)

lemma loop_post_step:
  assumes post: "map_post c pgdir ps s t ps'" and al: "page_aligned a" "page_aligned b" "a \<noteq> b"
    and t: "\<And>va. mapping (mem t) pgdir va = (if PGROUNDDOWN va = a then Some (pa OR perm OR PTE_P) else mapping (mem s) pgdir va)"
    and u: "loop_post c pgdir ps' t (a + PGSIZE) b (pa + PGSIZE) perm r u"
  shows "loop_post c pgdir ps s a b pa perm r u"
proof -
  have e: "page_aligned (b - a)" "b - a \<noteq> 0" using al by (auto intro: page_diff)
  have d: "page_aligned (PGROUNDDOWN va - a)" for va using al by (auto intro: page_diff)
  note step = page_range_step [OF d e]
  have sh: "x - (a + PGSIZE) = x - a - PGSIZE" for x by simp
  obtain ps'' where p: "map_post c pgdir ps' t u ps''" and
    m: "r = 0 \<and> (\<forall>va. mapping (mem u) pgdir va =
        (if PGROUNDDOWN va - a - PGSIZE \<le> b - a - PGSIZE then target a pa perm va else mapping (mem t) pgdir va))
     \<or> r = - 1 \<and> ps'' = [] \<and> (\<exists>e \<le> b - a - PGSIZE. \<forall>va. mapping (mem u) pgdir va =
        (if PGROUNDDOWN va - a - PGSIZE < e then target a pa perm va else mapping (mem t) pgdir va))"
    using u unfolding loop_post_def target_step sh by blast
  have m': "mapping (mem t) pgdir va = (if PGROUNDDOWN va - a = 0 then target a pa perm va else mapping (mem s) pgdir va)" for va
    using t [of va] by (auto simp: target_def)
  from m show ?thesis
  proof (elim disjE conjE exE)
    assume "r = 0" "\<forall>va. mapping (mem u) pgdir va =
        (if PGROUNDDOWN va - a - PGSIZE \<le> b - a - PGSIZE then target a pa perm va else mapping (mem t) pgdir va)"
    then have "mapping (mem u) pgdir va = (if PGROUNDDOWN va - a \<le> b - a then target a pa perm va else mapping (mem s) pgdir va)" for va
      using m' [of va] step(1) [of va] by auto
    with \<open>r = 0\<close> map_post_trans [OF post p] show ?thesis unfolding loop_post_def by blast
  next
    fix f
    assume f: "r = - 1" "ps'' = []" "f \<le> b - a - PGSIZE" "\<forall>va. mapping (mem u) pgdir va =
        (if PGROUNDDOWN va - a - PGSIZE < f then target a pa perm va else mapping (mem t) pgdir va)"
    have le: "f + PGSIZE \<le> b - a \<and> 0 < f + PGSIZE"
    proof -
      have "unat f + 4096 \<le> unat (b - a)" using f(3) step(4,5) by (simp add: word_le_nat_alt)
      moreover have "unat (b - a) < 2 ^ 32" using unsigned_less [of "b - a"] by simp
      ultimately have "unat (f + PGSIZE) = unat f + 4096" by (simp add: PGSIZE_def unat_word_ariths)
      with \<open>unat f + 4096 \<le> unat (b - a)\<close> show ?thesis by (simp add: word_le_nat_alt word_less_nat_alt)
    qed
    have "mapping (mem u) pgdir va = (if PGROUNDDOWN va - a < f + PGSIZE then target a pa perm va else mapping (mem s) pgdir va)" for va
      using m' [of va] f(4) step(3) [OF _ f(3), of va] le by (cases "PGROUNDDOWN va - a = 0") auto
    with f(1,2) le map_post_trans [OF post p] show ?thesis unfolding loop_post_def by blast
  qed
qed

lemma mappages_loop_wp:
  fixes s :: "'a kmem_scheme"
  assumes "vm_inv c s ps pgdir" and "page_aligned a" and "page_aligned b"
    and "unat (b - a) div 4096 = n" and "\<And>va. PGROUNDDOWN va - a \<le> b - a \<Longrightarrow> mapping (mem s) pgdir va = None"
  shows "wp (mappages_loop (Suc n) pgdir a b pa perm s) (loop_post c pgdir ps s a b pa perm)"
  using assms
proof (induction n arbitrary: s a pa ps)
  case 0
  have "unat (b - a) mod 4096 = 0" using page_diff [OF 0(3,2)] by (simp add: page_aligned_unat)
  with 0(4) have "unat (b - a) = 0" by (simp add: div_eq_0_iff)
  then have ab: "b = a" by (simp add: unat_eq_zero)
  have "mapping (mem s) pgdir a = None" using 0(5) [of a] 0(2) by simp
  from mappages_step [OF 0(1,2) this present_flags, of pa perm] show ?case
    unfolding mappages_loop.simps wp_then_do
    by (rule wp_mono) (use 0(1,2) ab in
      \<open>auto simp: step_post_def intro!: loop_post_fail loop_post_last split: if_splits\<close>)
next
  case (Suc n)
  have ne: "a \<noteq> b" and e: "page_aligned (b - a)" "b - a \<noteq> 0" using Suc.prems by (auto intro: page_diff)
  note step = page_range_step [OF page_diff [OF page_aligned_PGROUNDDOWN Suc.prems(2)] e]
  have n: "unat (b - (a + PGSIZE)) div 4096 = n"
  proof -
    have "unat (b - (a + PGSIZE)) = unat (b - a) - 4096" using step(4) by (simp add: algebra_simps)
    then show ?thesis using step(5) Suc.prems(4) by simp
  qed
  have "mapping (mem s) pgdir a = None" using Suc.prems(5) [of a] Suc.prems(2) by simp
  have rest: "wp (mappages_loop (Suc n) pgdir (a + PGSIZE) b (pa + PGSIZE) perm u) (loop_post c pgdir ps s a b pa perm)"
    if "map_post c pgdir ps s u ps'"
      and u: "\<forall>va. mapping (mem u) pgdir va = (if PGROUNDDOWN va = a then Some (pa OR perm OR PTE_P) else mapping (mem s) pgdir va)"
    for u ps'
  proof (rule wp_mono [OF Suc.IH loop_post_step [OF that(1) Suc.prems(2,3) ne]])
    show "vm_inv c u ps' pgdir" using that(1) by (simp add: map_post_def)
    show "page_aligned (a + PGSIZE)" using Suc.prems(2) by (rule page_aligned_add)
    show "mapping (mem u) pgdir va = None" if "PGROUNDDOWN va - (a + PGSIZE) \<le> b - (a + PGSIZE)" for va
    proof -
      have r: "PGROUNDDOWN va - a - PGSIZE \<le> b - a - PGSIZE" using that by (simp add: algebra_simps)
      then have "PGROUNDDOWN va - a \<noteq> 0" using step(2) [of va] by blast
      with r step(1) [of va] Suc.prems(5) [of va] u show ?thesis by auto
    qed
  qed (use Suc.prems n u in auto)
  from mappages_step [OF Suc.prems(1,2) \<open>mapping (mem s) pgdir a = None\<close> present_flags, of pa perm] show ?case
    unfolding mappages_loop.simps(2) [of "Suc n"] wp_then_do
  proof (rule wp_mono)
    fix pte and t :: "'a kmem_scheme"
    assume t: "step_post c pgdir ps s a (pa OR perm OR PTE_P) pte t"
    show "wp (if pte = 0 then Ret (- 1) t else if ld32 (mem t) pte AND PTE_P \<noteq> 0 then Panic ''remap''
        else let s = t\<lparr>mem := st32 (mem t) pte (pa OR perm OR PTE_P)\<rparr> in if a = b then Ret 0 s
          else mappages_loop (Suc n) pgdir (a + PGSIZE) b (pa + PGSIZE) perm s) (loop_post c pgdir ps s a b pa perm)"
    proof (cases "pte = 0")
      case True
      then show ?thesis using t Suc.prems(1) by (auto simp: step_post_def intro!: loop_post_fail)
    next
      case False
      with t obtain ps' where "map_post c pgdir ps s (t\<lparr>mem := st32 (mem t) pte (pa OR perm OR PTE_P)\<rparr>) ps'"
        by (auto simp: step_post_def)
      from rest [OF this] False t ne show ?thesis by (simp add: step_post_def Let_def)
    qed
  qed
qed

text \<open>What \<open>mappages\<close> does to a range of unmapped pages.\<close>

lemma mappages_wp:
  assumes "vm_inv c s ps pgdir"
    and "\<And>vb. PGROUNDDOWN vb - PGROUNDDOWN va \<le> PGROUNDDOWN (va + sz - 1) - PGROUNDDOWN va
        \<Longrightarrow> mapping (mem s) pgdir vb = None"
  shows "wp (mappages pgdir va sz pa perm s)
    (loop_post c pgdir ps s (PGROUNDDOWN va) (PGROUNDDOWN (va + sz - 1)) pa perm)"
  unfolding mappages_def Let_def using assms by (intro mappages_loop_wp) simp_all

text \<open>The case of one page.\<close>

lemma mappages_page_wp:
  assumes inv: "vm_inv c s ps pgdir" and a: "page_aligned a" and none: "mapping (mem s) pgdir a = None"
  shows "wp (mappages pgdir a PGSIZE pa perm s) (\<lambda>r t. \<exists>ps'. map_post c pgdir ps s t ps' \<and>
    (r = 0 \<and> (\<forall>va. mapping (mem t) pgdir va =
        (if PGROUNDDOWN va = a then Some (pa OR perm OR PTE_P) else mapping (mem s) pgdir va))
     \<or> r = - 1 \<and> ps' = [] \<and> (\<forall>va. mapping (mem t) pgdir va = mapping (mem s) pgdir va)))"
proof -
  have last: "PGROUNDDOWN (a + PGSIZE - 1) = a"
    using PGROUNDDOWN_page_add [OF a, of 4095] by (simp add: PGSIZE_def add.commute)
  have same: "mapping (mem s) pgdir vb = mapping (mem s) pgdir a" if "PGROUNDDOWN vb = a" for vb
    using that a by (intro mapping_page) simp
  show ?thesis
  proof (rule wp_mono [OF mappages_wp [OF inv]])
    fix vb
    assume "PGROUNDDOWN vb - PGROUNDDOWN a \<le> PGROUNDDOWN (a + PGSIZE - 1) - PGROUNDDOWN a"
    then have "PGROUNDDOWN vb = a" unfolding last using a by simp
    then show "mapping (mem s) pgdir vb = None" using same none by simp
  next
    fix r t
    assume "loop_post c pgdir ps s (PGROUNDDOWN a) (PGROUNDDOWN (a + PGSIZE - 1)) pa perm r t"
    then have t: "loop_post c pgdir ps s a a pa perm r t" unfolding last using a by simp
    have z: "(x - a \<le> a - a) = (x = a)" "(\<exists>e \<le> a - a. P e) = P 0" "\<not> x - a < 0" for x P by auto
    show "\<exists>ps'. map_post c pgdir ps s t ps' \<and>
      (r = 0 \<and> (\<forall>va. mapping (mem t) pgdir va =
          (if PGROUNDDOWN va = a then Some (pa OR perm OR PTE_P) else mapping (mem s) pgdir va))
       \<or> r = - 1 \<and> ps' = [] \<and> (\<forall>va. mapping (mem t) pgdir va = mapping (mem s) pgdir va))"
      using t unfolding loop_post_def z target_def by (simp cong: if_cong)
  qed
qed

lemma mappages_page_covered:
  fixes s t :: "'a kmem_scheme"
  assumes inv: "vm_inv c s ps pgdir" and a: "page_aligned a" and ret: "mappages pgdir a PGSIZE pa perm s = Ret r t"
  shows "covered (mem t) pgdir = (if r = 0 then insert (PDX a) (covered (mem s) pgdir) else covered (mem s) pgdir)"
    and "r \<noteq> 0 \<Longrightarrow> PDX a \<notin> covered (mem s) pgdir"
proof -
  have last: "PGROUNDDOWN (a + PGSIZE - 1) = a" "PGROUNDDOWN a = a"
    using PGROUNDDOWN_page_add [OF a, of 4095] a by (simp_all add: PGSIZE_def add.commute)
  let ?e = "pa OR perm OR PTE_P"
  define k where "k = (\<lambda>pte (s :: 'a kmem_scheme). if pte = 0 then Ret (- 1) s else if ld32 (mem s) pte AND PTE_P \<noteq> 0 then Panic ''remap''
      else Ret (0 :: int) (s\<lparr>mem := st32 (mem s) pte ?e\<rparr>))"
  have "mappages pgdir a PGSIZE pa perm s = then_do (walkpgdir pgdir a True s) k"
    unfolding mappages_def Let_def last mappages_loop.simps k_def by (simp only: if_True simp_thms)
  then have u: "then_do (walkpgdir pgdir a True s) k = Ret r t" using ret by simp
  have put: "r = 0 \<and> covered (mem t) pgdir = covered (mem v) pgdir"
    if v: "vm_inv c v qs pgdir" "pt_at (mem v) pgdir (PDX a) = Some tb" and w: "walkpgdir pgdir a True s = Ret (tb + 4 * PTX a) v" for v qs tb
  proof -
    have nz: "tb + 4 * PTX a \<noteq> 0" using table_word_nonzero [OF v(1) pt_at_tables [OF v(2)]] by simp
    have "k (tb + 4 * PTX a) v = Ret r t" using u unfolding w by simp
    then have "r = 0" "t = v\<lparr>mem := st32 (mem v) (tb + 4 * PTX a) ?e\<rparr>" using nz unfolding k_def by (simp_all split: if_split_asm)
    moreover from this have "covered (mem t) pgdir = covered (mem v) pgdir" using vm_store [OF v, of ?e] by (intro covered_cong) simp
    ultimately show ?thesis by blast
  qed
  have "covered (mem t) pgdir = (if r = 0 then insert (PDX a) (covered (mem s) pgdir) else covered (mem s) pgdir)
    \<and> (r \<noteq> 0 \<longrightarrow> PDX a \<notin> covered (mem s) pgdir)"
  proof (cases "pt_at (mem s) pgdir (PDX a)")
    case (Some tb)
    then have "PDX a \<in> covered (mem s) pgdir" by (simp add: covered_def)
    then show ?thesis using put [OF inv Some walkpgdir_existing [OF Some]] by (simp add: insert_absorb)
  next
    case None
    show ?thesis
    proof (cases ps)
      case Nil
      then have w: "walkpgdir pgdir a True s = Ret 0 s"
        using inv None kmem_inv_kalloc_Nil [of c s]
        by (auto simp: walkpgdir_def vm_inv_def pt_at_def entry_def Let_def split: if_splits)
      have "k 0 s = Ret r t" using u unfolding w by simp
      with None show ?thesis unfolding k_def by (auto simp: covered_def)
    next
      case (Cons q ps')
      note n = vm_new_table [OF inv [unfolded Cons] None PDX_less]
      let ?v = "s\<lparr>freelist := ld32 (mem s) q, mem := st32 (memset (mem s) q 0 PGSIZE) (pgdir + 4 * PDX a) (V2P q OR PTE_P OR PTE_W OR PTE_U)\<rparr>"
      have "covered (mem ?v) pgdir = insert (PDX a) (covered (mem s) pgdir)" using n by (auto simp: covered_def)
      with put [of ?v ps' q] n walkpgdir_new [OF None inv [unfolded Cons]] show ?thesis by simp
    qed
  qed
  then show "covered (mem t) pgdir = (if r = 0 then insert (PDX a) (covered (mem s) pgdir) else covered (mem s) pgdir)"
    "r \<noteq> 0 \<Longrightarrow> PDX a \<notin> covered (mem s) pgdir" by simp_all
qed

section \<open>User memory\<close>

text \<open>The page frame of an entry. In a sound user address space the frames of user pages are distinct
  kernel pages that are neither page tables nor free.\<close>

definition frame_of :: "u32 \<Rightarrow> u32" where
  "frame_of e = P2V (PTE_ADDR e)"

definition frames_inj :: "mem \<Rightarrow> u32 \<Rightarrow> bool" where
  "frames_inj m pgdir \<longleftrightarrow> (\<forall>va vb e e'. va < KERNBASE \<longrightarrow> vb < KERNBASE \<longrightarrow> mapping m pgdir va = Some e
     \<longrightarrow> mapping m pgdir vb = Some e' \<longrightarrow> frame_of e = frame_of e' \<longrightarrow> PGROUNDDOWN va = PGROUNDDOWN vb)"

definition user_inv :: "nat \<Rightarrow> 'a kmem_scheme \<Rightarrow> u32 list \<Rightarrow> u32 \<Rightarrow> bool" where
  "user_inv c s ps pgdir \<longleftrightarrow> vm_inv c s ps pgdir
     \<and> (\<forall>va e. va < KERNBASE \<longrightarrow> mapping (mem s) pgdir va = Some e
          \<longrightarrow> kpage s (frame_of e) \<and> frame_of e \<notin> tables (mem s) pgdir \<and> frame_of e \<notin> set ps)
     \<and> frames_inj (mem s) pgdir"

lemma frames_inj_cong: "(\<And>va. mapping m' pgdir va = mapping m pgdir va) \<Longrightarrow> frames_inj m' pgdir = frames_inj m pgdir"
  by (simp add: frames_inj_def)

lemma frame_of_aligned [simp]: "page_aligned (frame_of e)"
  by (simp add: frame_of_def PTE_ADDR_PGROUNDDOWN)

lemma vm_inv_kfreed:
  assumes inv: "vm_inv c s ps pgdir" and v: "kpage s v" "v \<notin> set ps" "v \<notin> tables (mem s) pgdir"
  shows "vm_inv c (kfreed v s) (v # ps) pgdir" and "mapping (mem (kfreed v s)) pgdir va = mapping (mem s) pgdir va"
    and "tables (mem (kfreed v s)) pgdir = tables (mem s) pgdir" and "i < 1024 \<Longrightarrow> pt_at (mem (kfreed v s)) pgdir i = pt_at (mem s) pgdir i"
proof -
  have ok: "pdir_ok (mem s) pgdir" and k: "kmem_inv c s ps" using inv by (auto simp: vm_inv_def)
  have al: "page_aligned v" using v(1) by (simp add: kpage_def)
  have "mem (kfreed v s) a = mem s a" if "PGROUNDDOWN a \<in> tables (mem s) pgdir" for a
    using that v(3) al by (intro mem_kfreed) auto
  note c = pdir_cong [OF ok this]
  show "mapping (mem (kfreed v s)) pgdir va = mapping (mem s) pgdir va"
    and "tables (mem (kfreed v s)) pgdir = tables (mem s) pgdir"
    and "i < 1024 \<Longrightarrow> pt_at (mem (kfreed v s)) pgdir i = pt_at (mem s) pgdir i" using c by simp_all
  have "kpage (kfreed v s) = kpage s" by (simp add: kpage_def kfreed_def fun_eq_iff)
  then show "vm_inv c (kfreed v s) (v # ps) pgdir"
    using inv v c kmem_inv_kfreed [OF k v(1,2)] by (auto simp: vm_inv_def)
qed

lemma vm_frame_kfreed [simp]: "vm_frame s (kfreed v t) = vm_frame s t"
  by (simp add: kfreed_def)

text \<open>Taking one user page away.\<close>

lemma user_free_one:
  assumes inv: "user_inv c s ps pgdir" and a: "a < KERNBASE" and tb: "pt_at (mem s) pgdir (PDX a) = Some tb"
    and m: "mapping (mem s) pgdir a = Some e"
  defines "s1 \<equiv> kfreed (frame_of e) s"
  defines "s2 \<equiv> s1\<lparr>mem := st32 (mem s1) (tb + 4 * PTX a) 0\<rparr>"
  shows "kfree (frame_of e) s = Ret () s1 \<and> user_inv c s2 (frame_of e # ps) pgdir \<and> vm_frame s s2
    \<and> tables (mem s2) pgdir = tables (mem s) pgdir
    \<and> (\<forall>va. mapping (mem s2) pgdir va = (if PGROUNDDOWN va = PGROUNDDOWN a then None else mapping (mem s) pgdir va))
    \<and> (\<forall>x. PGROUNDDOWN x \<notin> tables (mem s) pgdir \<longrightarrow> PGROUNDDOWN x \<noteq> frame_of e \<longrightarrow> mem s2 x = mem s x)"
proof -
  have vm: "vm_inv c s ps pgdir" and f: "kpage s (frame_of e)" "frame_of e \<notin> set ps" "frame_of e \<notin> tables (mem s) pgdir"
    using inv a m by (auto simp: user_inv_def)
  have inj: "PGROUNDDOWN va = PGROUNDDOWN vb" if "va < KERNBASE" "vb < KERNBASE"
      "mapping (mem s) pgdir va = Some e1" "mapping (mem s) pgdir vb = Some e2" "frame_of e1 = frame_of e2" for va vb e1 e2
    using inv that unfolding user_inv_def frames_inj_def by blast
  note k = vm_inv_kfreed [OF vm f, folded s1_def]
  have tb1: "pt_at (mem s1) pgdir (PDX a) = Some tb" using k(4) tb by simp
  note st = vm_store [OF k(1) tb1, of 0, folded s2_def]
  have map: "mapping (mem s2) pgdir va = (if PGROUNDDOWN va = PGROUNDDOWN a then None else mapping (mem s) pgdir va)" for va
    using st k(2) by (simp add: present_def)
  have tabs: "tables (mem s2) pgdir = tables (mem s) pgdir" using st k(3) by simp
  have kp: "kpage s2 = kpage s" by (simp add: s2_def s1_def kpage_def kfreed_def fun_eq_iff)
  have "user_inv c s2 (frame_of e # ps) pgdir"
    unfolding user_inv_def frames_inj_def
  proof (intro conjI allI impI)
    show "vm_inv c s2 (frame_of e # ps) pgdir" using st by simp
    fix va e' assume va: "va < KERNBASE" "mapping (mem s2) pgdir va = Some e'"
    then have o: "mapping (mem s) pgdir va = Some e'" "PGROUNDDOWN va \<noteq> PGROUNDDOWN a" using map by (auto split: if_splits)
    then have "frame_of e' \<noteq> frame_of e" using inj [OF va(1) a o(1) m] by auto
    then show "kpage s2 (frame_of e')" "frame_of e' \<notin> tables (mem s2) pgdir" "frame_of e' \<notin> set (frame_of e # ps)"
      using inv va(1) o(1) by (auto simp: user_inv_def kp tabs)
  next
    fix va vb e1 e2
    assume "va < KERNBASE" "vb < KERNBASE" "mapping (mem s2) pgdir va = Some e1"
      "mapping (mem s2) pgdir vb = Some e2" "frame_of e1 = frame_of e2"
    moreover from this have "mapping (mem s) pgdir va = Some e1" "mapping (mem s) pgdir vb = Some e2"
      using map [of va] map [of vb] by (simp_all split: if_splits)
    ultimately show "PGROUNDDOWN va = PGROUNDDOWN vb" using inj by blast
  qed
  moreover have "kfree (frame_of e) s = Ret () s1"
    using kfree_eq [of c s ps "frame_of e"] vm f(1) by (simp add: vm_inv_def s1_def)
  moreover have "mem s2 x = mem s x" if "PGROUNDDOWN x \<notin> tables (mem s) pgdir" "PGROUNDDOWN x \<noteq> frame_of e" for x
    using st that k(3) mem_kfreed [of "frame_of e" x s] by (auto simp: s1_def)
  moreover have "vm_frame s s2" by (simp add: s2_def s1_def)
  ultimately show ?thesis using map tabs by blast
qed

section \<open>Shrinking\<close>

lemma unat_PDX: "unat (PDX va) = unat va div 2 ^ 22"
proof -
  have "PDX va = take_bit 10 (drop_bit 22 va)"
    unfolding PDX_def mask_10 by (simp only: take_bit_eq_mask)
  then have "unat (PDX va) = (unat va div 2 ^ 22) mod 2 ^ 10"
    by (simp add: take_bit_eq_mod drop_bit_eq_div unat_mod unat_div)
  moreover have "unat va < 2 ^ 32" using unsigned_less [of va] by simp
  then have "unat va div 2 ^ 22 < 2 ^ 10" by (simp add: less_mult_imp_div_less)
  ultimately show ?thesis by simp
qed

text \<open>The address \<open>deallocuvm\<close> goes on with when there is no page table: the start of the next one.\<close>

lemma next_table:
  assumes "a < KERNBASE" and "page_aligned a"
  defines "b \<equiv> PGADDR (PDX a + 1) 0 0 - PGSIZE + PGSIZE"
  shows "page_aligned b" and "unat a + 4096 \<le> unat b" and "b \<le> KERNBASE"
    and "a \<le> PGROUNDDOWN va \<Longrightarrow> PGROUNDDOWN va < b \<Longrightarrow> PDX va = PDX a"
proof -
  have a: "unat a < 2 ^ 31" using assms(1) by (simp add: KERNBASE_def word_less_nat_alt)
  then have d: "unat a div 2 ^ 22 < 2 ^ 9" by (simp add: less_mult_imp_div_less)
  have p: "unat (PDX a + 1) = unat a div 2 ^ 22 + 1" "unat (0x400000 :: u32) = 2 ^ 22"
    using d by (simp_all add: unat_word_ariths unat_PDX)
  then have "unat (PDX a + 1) * unat (0x400000 :: u32) < 2 ^ LENGTH(32)" using d by simp
  then have "unat ((PDX a + 1) * 0x400000) = unat (PDX a + 1) * unat (0x400000 :: u32)"
    by (rule iffD1 [OF unat_mult_lem])
  moreover have "b = (PDX a + 1) * 0x400000" by (simp add: b_def PGADDR_def push_bit_eq_mult)
  ultimately have b: "unat b = (unat a div 2 ^ 22 + 1) * 2 ^ 22"
    by (simp only: p)
  have "(4096 :: nat) dvd 2 ^ 22" by (rule dvdI [of _ _ 1024]) simp
  then show "page_aligned b" unfolding page_aligned_unat b by (rule dvd_mult)
  show "b \<le> KERNBASE" using b d by (simp add: KERNBASE_def word_le_nat_alt)
  have "4096 dvd unat a" using assms(2) by (simp add: page_aligned_unat)
  then obtain k where k: "unat a = 4096 * k" by (elim dvdE)
  have "unat a div 2 ^ 22 = k div 1024" using k by (simp add: div_mult2_eq [of _ 4096 1024, simplified])
  then have "unat b = 4096 * ((k div 1024 + 1) * 1024)" using b by simp
  moreover have "k + 1 \<le> (k div 1024 + 1) * 1024" by simp
  ultimately show "unat a + 4096 \<le> unat b" using k by simp
  show "PDX va = PDX a" if "a \<le> PGROUNDDOWN va" "PGROUNDDOWN va < b"
  proof -
    have "unat (PGROUNDDOWN va) div 2 ^ 22 = unat a div 2 ^ 22"
    proof (rule le_antisym)
      show "unat a div 2 ^ 22 \<le> unat (PGROUNDDOWN va) div 2 ^ 22"
        using that(1) by (intro div_le_mono) (simp add: word_le_nat_alt)
      have "unat (PGROUNDDOWN va) < (unat a div 2 ^ 22 + 1) * 2 ^ 22"
        using that(2) b by (simp add: word_less_nat_alt)
      then have "unat (PGROUNDDOWN va) div 2 ^ 22 < unat a div 2 ^ 22 + 1" by (rule less_mult_imp_div_less)
      then show "unat (PGROUNDDOWN va) div 2 ^ 22 \<le> unat a div 2 ^ 22" by simp
    qed
    then have "unat (PDX (PGROUNDDOWN va)) = unat (PDX a)" by (simp only: unat_PDX)
    then have "PDX (PGROUNDDOWN va) = PDX a" by (simp add: word_unat_eq_iff)
    moreover have "PDX va = PDX (PGROUNDDOWN va)" using same_page_iff [of va "PGROUNDDOWN va"] by simp
    ultimately show ?thesis by simp
  qed
qed

definition in_range :: "u32 \<Rightarrow> u32 \<Rightarrow> u32 \<Rightarrow> bool" where
  "in_range a b va \<longleftrightarrow> a \<le> PGROUNDDOWN va \<and> PGROUNDDOWN va < b"

definition frames :: "mem \<Rightarrow> u32 \<Rightarrow> (u32 \<Rightarrow> bool) \<Rightarrow> u32 set" where
  "frames m pgdir P = {frame_of e |va e. P va \<and> mapping m pgdir va = Some e}"

definition dealloc_post ::
  "nat \<Rightarrow> u32 \<Rightarrow> u32 list \<Rightarrow> 'a kmem_scheme \<Rightarrow> (u32 \<Rightarrow> bool) \<Rightarrow> 'a kmem_scheme \<Rightarrow> bool" where
  "dealloc_post c pgdir ps s P t \<longleftrightarrow> vm_frame s t \<and> tables (mem t) pgdir = tables (mem s) pgdir
     \<and> (\<exists>fs. user_inv c t (fs @ ps) pgdir \<and> set fs = frames (mem s) pgdir P)
     \<and> (\<forall>va. mapping (mem t) pgdir va = (if P va then None else mapping (mem s) pgdir va))
     \<and> (\<forall>x. PGROUNDDOWN x \<notin> tables (mem s) pgdir \<longrightarrow> PGROUNDDOWN x \<notin> frames (mem s) pgdir P
          \<longrightarrow> mem t x = mem s x)"

lemma dealloc_post_none:
  assumes "user_inv c s ps pgdir" and "\<And>va. P va \<Longrightarrow> mapping (mem s) pgdir va = None"
  shows "dealloc_post c pgdir ps s P s"
  using assms by (auto simp: dealloc_post_def frames_def intro!: exI [of _ "[]"])

lemma dealloc_post_trans:
  assumes 1: "dealloc_post c pgdir ps s P t"
    and fs: "set fs = frames (mem s) pgdir P" and 2: "dealloc_post c pgdir (fs @ ps) t Q u"
    and R: "\<And>va. R va \<longleftrightarrow> P va \<or> Q va"
  shows "dealloc_post c pgdir ps s R u"
proof -
  obtain gs where gs: "user_inv c u (gs @ fs @ ps) pgdir" "set gs = frames (mem t) pgdir Q"
    using 2 by (auto simp: dealloc_post_def)
  have m1: "mapping (mem t) pgdir va = (if P va then None else mapping (mem s) pgdir va)" for va
    using 1 by (simp add: dealloc_post_def)
  have fr: "frames (mem s) pgdir R = frames (mem t) pgdir Q \<union> frames (mem s) pgdir P"
    by (auto simp: frames_def R m1)
  have "mapping (mem u) pgdir va = (if R va then None else mapping (mem s) pgdir va)" for va
    using 2 m1 [of va] by (auto simp: dealloc_post_def R)
  moreover have "user_inv c u ((gs @ fs) @ ps) pgdir \<and> set (gs @ fs) = frames (mem s) pgdir R"
    using gs fs fr by auto
  then have "\<exists>hs. user_inv c u (hs @ ps) pgdir \<and> set hs = frames (mem s) pgdir R" by blast
  ultimately show ?thesis
    using 1 2 fr by (auto simp: dealloc_post_def intro: vm_frame_trans)
qed

lemma dealloc_post_cong: "dealloc_post c pgdir ps s P t \<Longrightarrow> (\<And>va. P va = Q va) \<Longrightarrow> dealloc_post c pgdir ps s Q t"
  by (subgoal_tac "P = Q") auto

text \<open>One page taken away, as a special case of the postcondition.\<close>

lemma dealloc_post_one:
  assumes inv: "user_inv c s ps pgdir" and a: "a < KERNBASE" "page_aligned a" and tb: "pt_at (mem s) pgdir (PDX a) = Some tb"
    and m: "mapping (mem s) pgdir a = Some e"
  shows "kfree (frame_of e) s = Ret () (kfreed (frame_of e) s) \<and>
    dealloc_post c pgdir ps s (\<lambda>va. PGROUNDDOWN va = a)
      ((kfreed (frame_of e) s)\<lparr>mem := st32 (mem (kfreed (frame_of e) s)) (tb + 4 * PTX a) 0\<rparr>)" (is "_ \<and> dealloc_post _ _ _ _ _ ?t")
proof -
  note f = user_free_one [OF inv a(1) tb m]
  have fr: "frames (mem s) pgdir (\<lambda>va. PGROUNDDOWN va = a) = {frame_of e}"
  proof -
    have "mapping (mem s) pgdir va = Some e" if "PGROUNDDOWN va = a" for va
      using mapping_page [of va a "mem s" pgdir] that a(2) m by simp
    then show ?thesis using a(2) by (auto simp: frames_def intro: exI [of _ a])
  qed
  have "user_inv c ?t ([frame_of e] @ ps) pgdir \<and> set [frame_of e] = frames (mem s) pgdir (\<lambda>va. PGROUNDDOWN va = a)"
    using f fr by simp
  then have "\<exists>fs. user_inv c ?t (fs @ ps) pgdir \<and> set fs = frames (mem s) pgdir (\<lambda>va. PGROUNDDOWN va = a)" by blast
  moreover have "PGROUNDDOWN a = a" using a(2) by simp
  ultimately show ?thesis unfolding dealloc_post_def fr using f by auto
qed

lemma dealloc_post_extend:
  assumes 1: "dealloc_post c pgdir ps s P t" and R: "\<And>va. P va \<Longrightarrow> R va"
    "\<And>va. R va \<Longrightarrow> \<not> P va \<Longrightarrow> mapping (mem s) pgdir va = None"
  shows "dealloc_post c pgdir ps s R t"
proof -
  have fr: "frames (mem s) pgdir R = frames (mem s) pgdir P"
    using R by (fastforce simp: frames_def)
  have "mapping (mem t) pgdir va = (if R va then None else mapping (mem s) pgdir va)" for va
    using 1 R [of va] by (auto simp: dealloc_post_def)
  then show ?thesis using 1 by (simp add: dealloc_post_def fr)
qed

lemma in_range_step:
  assumes "page_aligned a" and "a < KERNBASE" and "a < b"
  shows "in_range a b va \<longleftrightarrow> PGROUNDDOWN va = a \<or> in_range (a + PGSIZE) b va"
    and "unat (a + PGSIZE) = unat a + 4096" and "a + PGSIZE \<le> KERNBASE"
proof -
  obtain k where k: "unat a = 4096 * k" using assms(1) by (auto simp: page_aligned_unat elim: dvdE)
  have lt: "unat a < 2 ^ 31" using assms(2) by (simp add: KERNBASE_def word_less_nat_alt)
  then show s: "unat (a + PGSIZE) = unat a + 4096" by (simp add: PGSIZE_def unat_word_ariths)
  have "k < 524288" using lt k by simp
  then show "a + PGSIZE \<le> KERNBASE" using s k by (simp add: KERNBASE_def word_le_nat_alt)
  obtain l where l: "unat (PGROUNDDOWN va) = 4096 * l"
    using page_aligned_PGROUNDDOWN [of va] by (auto simp: page_aligned_unat elim: dvdE)
  have "PGROUNDDOWN va = a \<longleftrightarrow> k = l" using k l by (auto simp: word_unat_eq_iff)
  then show "in_range a b va \<longleftrightarrow> PGROUNDDOWN va = a \<or> in_range (a + PGSIZE) b va"
    using k l s assms(3) by (auto simp: in_range_def word_le_nat_alt word_less_nat_alt)
qed

lemma frame_not_first:
  assumes "user_inv c s ps pgdir" and "KERNBASE < kend s" and "a < KERNBASE" and "mapping (mem s) pgdir a = Some e"
  shows "PTE_ADDR e \<noteq> 0"
proof
  assume "PTE_ADDR e = 0"
  then have "frame_of e = KERNBASE" by (simp add: frame_of_def P2V_def)
  moreover have "kend s \<le> frame_of e" using assms by (auto simp: user_inv_def kpage_def)
  ultimately show False using assms(2) by simp
qed

lemma deallocuvm_loop_wp:
  assumes "user_inv c s ps pgdir" and "KERNBASE < kend s" and "page_aligned a" and "a \<le> KERNBASE" and "b \<le> KERNBASE"
    and "unat b \<le> unat a + 4096 * f"
  shows "wp (deallocuvm_loop (Suc f) pgdir a b s) (\<lambda>_ t. dealloc_post c pgdir ps s (in_range a b) t)"
  using assms
proof (induction f arbitrary: s a ps)
  case 0
  then have "\<not> a < b" by (simp add: word_less_nat_alt)
  with 0 show ?case by (auto simp: in_range_def intro!: dealloc_post_none)
next
  case (Suc f)
  show ?case
  proof (cases "a < b")
    case False
    with Suc.prems show ?thesis by (auto simp: in_range_def intro!: dealloc_post_none)
  next
    case True
    then have ak: "a < KERNBASE" using Suc.prems(5) by simp
    note st = in_range_step [OF Suc.prems(3) ak True]
    have al: "page_aligned (a + PGSIZE)" using Suc.prems(3) by (rule page_aligned_add)
    have fuel: "unat b \<le> unat (a + PGSIZE) + 4096 * f" using st(2) Suc.prems(6) by simp
    note IH1 = Suc.IH [OF _ _ al st(3) Suc.prems(5) fuel]
    show ?thesis
    proof (cases "pt_at (mem s) pgdir (PDX a)")
      case None
      let ?n = "PGADDR (PDX a + 1) 0 0 - PGSIZE + PGSIZE"
      note nt = next_table [OF ak Suc.prems(3)]
      have "unat b \<le> unat ?n + 4096 * f" using nt(2) Suc.prems(6) by simp
      note IH = Suc.IH [OF Suc.prems(1,2) nt(1,3) Suc.prems(5) this]
      have "dealloc_post c pgdir ps s (in_range a b) t" if "dealloc_post c pgdir ps s (in_range ?n b) t" for t
        using that
      proof (rule dealloc_post_extend)
        show "in_range a b va" if "in_range ?n b va" for va
          using that nt(2) by (auto simp: in_range_def word_le_nat_alt)
        show "mapping (mem s) pgdir va = None" if "in_range a b va" "\<not> in_range ?n b va" for va
          using that nt(4) [of va] None by (auto simp: in_range_def mapping_def not_le)
      qed
      from wp_mono [OF IH this] True show ?thesis
        by (simp add: walkpgdir_absent [OF None] Let_def del: deallocuvm_loop.simps add: deallocuvm_loop.simps(2) [of "Suc f"])
    next
      case (Some tb)
      have nz: "tb + 4 * PTX a \<noteq> 0"
        using table_word_nonzero [OF _ pt_at_tables [OF Some]] Suc.prems(1) by (auto simp: user_inv_def)
      note ent = present_entry [OF Some]
      show ?thesis
      proof (cases "mapping (mem s) pgdir a")
        case None
        then have np: "ld32 (mem s) (tb + 4 * PTX a) AND PTE_P = 0" using ent by (auto simp: present_def split: if_splits)
        have "dealloc_post c pgdir ps s (in_range a b) t" if "dealloc_post c pgdir ps s (in_range (a + PGSIZE) b) t" for t
        proof (rule dealloc_post_extend [OF that])
          show "mapping (mem s) pgdir va = None" if "in_range a b va" "\<not> in_range (a + PGSIZE) b va" for va
            using that None st(1) [of va] mapping_page [of va a "mem s" pgdir] Suc.prems(3) by simp
        qed (use st(1) in blast)
        from wp_mono [OF IH1 [OF Suc.prems(1,2)] this] True np nz show ?thesis
          by (simp add: walkpgdir_existing [OF Some] Let_def del: deallocuvm_loop.simps add: deallocuvm_loop.simps(2) [of "Suc f"])
      next
        case (Some e)
        then have e: "ld32 (mem s) (tb + 4 * PTX a) = e" "e AND PTE_P \<noteq> 0" using ent by (auto simp: present_def split: if_splits)
        let ?t = "(kfreed (frame_of e) s)\<lparr>mem := st32 (mem (kfreed (frame_of e) s)) (tb + 4 * PTX a) 0\<rparr>"
        note one = dealloc_post_one [OF Suc.prems(1) ak Suc.prems(3) \<open>pt_at _ _ _ = Some tb\<close> Some]
        obtain fs where fs: "user_inv c ?t (fs @ ps) pgdir" "set fs = frames (mem s) pgdir (\<lambda>va. PGROUNDDOWN va = a)"
          using one by (auto simp: dealloc_post_def)
        have kend: "KERNBASE < kend ?t" using Suc.prems(2) by (simp add: kfreed_def)
        have "dealloc_post c pgdir ps s (in_range a b) t" if "dealloc_post c pgdir (fs @ ps) ?t (in_range (a + PGSIZE) b) t" for t
          using dealloc_post_trans [OF conjunct2 [OF one] fs(2) that st(1)] .
        from wp_mono [OF IH1 [OF fs(1) kend] this] one True e nz frame_not_first [OF Suc.prems(1,2) ak Some] show ?thesis
          by (simp add: walkpgdir_existing [OF \<open>pt_at _ _ _ = Some tb\<close>] Let_def frame_of_def
              del: deallocuvm_loop.simps add: deallocuvm_loop.simps(2) [of "Suc f"])
      qed
    qed
  qed
qed

lemma deallocuvm_wp:
  assumes "user_inv c s ps pgdir" and "KERNBASE < kend s" and "oldsz \<le> KERNBASE" and "newsz < oldsz"
  shows "wp (deallocuvm pgdir oldsz newsz s) (\<lambda>r t. r = newsz
    \<and> dealloc_post c pgdir ps s (in_range (PGROUNDUP newsz) oldsz) t)"
proof -
  have lt: "unat newsz < unat oldsz" "unat oldsz \<le> 2 ^ 31"
    using assms(3,4) by (simp_all add: word_less_nat_alt word_le_nat_alt KERNBASE_def)
  then have up: "unat (PGROUNDUP newsz) = (unat newsz + 4095) div 4096 * 4096" by (intro unat_PGROUNDUP) simp
  then have "PGROUNDUP newsz \<le> KERNBASE" using lt by (simp add: KERNBASE_def word_le_nat_alt)
  then have "wp (deallocuvm_loop (Suc (unat oldsz div 4096 + 1)) pgdir (PGROUNDUP newsz) oldsz s)
      (\<lambda>_ t. dealloc_post c pgdir ps s (in_range (PGROUNDUP newsz) oldsz) t)"
    using assms by (intro deallocuvm_loop_wp) simp_all
  moreover have "\<not> oldsz \<le> newsz" using assms(4) by simp
  ultimately show ?thesis
    by (simp add: deallocuvm_def Let_def del: deallocuvm_loop.simps)
qed

section \<open>Growing\<close>

definition USER_PAGE :: u32 where "USER_PAGE = PTE_P OR PTE_W OR PTE_U"

text \<open>The pages satisfying \<open>P\<close> got writable, zero-filled user pages from the free list.\<close>

definition grown ::
  "nat \<Rightarrow> u32 \<Rightarrow> u32 list \<Rightarrow> 'a kmem_scheme \<Rightarrow> (u32 \<Rightarrow> bool) \<Rightarrow> 'a kmem_scheme \<Rightarrow> u32 list \<Rightarrow> bool" where
  "grown c pgdir ps s P t ps' \<longleftrightarrow> vm_frame s t \<and> user_inv c t ps' pgdir \<and> (\<exists>us. ps = us @ ps')
     \<and> (\<forall>va. \<not> P va \<longrightarrow> mapping (mem t) pgdir va = mapping (mem s) pgdir va)
     \<and> (\<forall>va. P va \<longrightarrow> (\<exists>e. mapping (mem t) pgdir va = Some e \<and> PTE_FLAGS e = USER_PAGE \<and> frame_of e \<in> set ps
          \<and> (\<forall>x. PGROUNDDOWN x = frame_of e \<longrightarrow> mem t x = 0)))
     \<and> tables (mem t) pgdir \<subseteq> tables (mem s) pgdir \<union> set ps
     \<and> (\<forall>x. PGROUNDDOWN x \<notin> tables (mem t) pgdir \<longrightarrow> PGROUNDDOWN x \<notin> set ps \<longrightarrow> mem t x = mem s x)
     \<and> tables (mem s) pgdir \<subseteq> tables (mem t) pgdir"

lemma grown_none: "user_inv c s ps pgdir \<Longrightarrow> (\<And>va. \<not> P va) \<Longrightarrow> grown c pgdir ps s P s ps"
  by (simp add: grown_def)

lemma grown_new:
  assumes "grown c pgdir ps s P t ps'" and "P va"
  obtains e where "mapping (mem t) pgdir va = Some e" "PTE_FLAGS e = USER_PAGE" "frame_of e \<in> set ps"
    "\<And>x. PGROUNDDOWN x = frame_of e \<Longrightarrow> mem t x = 0"
proof -
  have "\<exists>e. mapping (mem t) pgdir va = Some e \<and> PTE_FLAGS e = USER_PAGE \<and> frame_of e \<in> set ps
      \<and> (\<forall>x. PGROUNDDOWN x = frame_of e \<longrightarrow> mem t x = 0)" using assms by (simp add: grown_def)
  then show ?thesis using that by blast
qed

lemma grown_trans:
  assumes 1: "grown c pgdir ps s P t ps'" and 2: "grown c pgdir ps' t Q u ps''"
    and R: "\<And>va. R va \<longleftrightarrow> P va \<or> Q va" and PQ: "\<And>va. P va \<Longrightarrow> va < KERNBASE \<and> \<not> Q va"
  shows "grown c pgdir ps s R u ps''"
proof -
  obtain us where us: "ps = us @ ps'" using 1 by (auto simp: grown_def)
  obtain vs where vs: "ps' = vs @ ps''" using 2 by (auto simp: grown_def)
  have P: "\<exists>e. mapping (mem u) pgdir va = Some e \<and> PTE_FLAGS e = USER_PAGE \<and> frame_of e \<in> set ps
      \<and> (\<forall>x. PGROUNDDOWN x = frame_of e \<longrightarrow> mem u x = 0)" if pv: "P va" for va
  proof -
    obtain e where e: "mapping (mem t) pgdir va = Some e" "PTE_FLAGS e = USER_PAGE" "frame_of e \<in> set ps"
      "\<And>x. PGROUNDDOWN x = frame_of e \<Longrightarrow> mem t x = 0" using grown_new [OF 1 pv] by blast
    have eu: "mapping (mem u) pgdir va = Some e" using 2 PQ [OF that] e(1) by (simp add: grown_def)
    have "frame_of e \<notin> tables (mem u) pgdir" "frame_of e \<notin> set ps'"
      using 1 2 PQ [OF that] e(1) eu by (auto simp: grown_def user_inv_def)
    then have "mem u x = mem t x" if "PGROUNDDOWN x = frame_of e" for x using 2 that by (auto simp: grown_def)
    with e eu show ?thesis by simp
  qed
  have Q: "\<exists>e. mapping (mem u) pgdir va = Some e \<and> PTE_FLAGS e = USER_PAGE \<and> frame_of e \<in> set ps
      \<and> (\<forall>x. PGROUNDDOWN x = frame_of e \<longrightarrow> mem u x = 0)" if "Q va" for va
    using grown_new [OF 2 that] us by (metis Un_iff set_append)
  have N: "mapping (mem u) pgdir va = mapping (mem s) pgdir va" if "\<not> R va" for va
    using 1 2 that by (simp add: grown_def R)
  have M: "mem u x = mem s x" if "PGROUNDDOWN x \<notin> tables (mem u) pgdir" "PGROUNDDOWN x \<notin> set ps" for x
  proof -
    have "PGROUNDDOWN x \<notin> tables (mem t) pgdir" "PGROUNDDOWN x \<notin> set ps'" using that 2 us by (auto simp: grown_def)
    then show ?thesis using 1 2 that by (auto simp: grown_def)
  qed
  have "vm_frame s u" using 1 2 by (auto simp: grown_def intro: vm_frame_trans)
  moreover have "ps = (us @ vs) @ ps''" using us vs by simp
  moreover have "tables (mem u) pgdir \<subseteq> tables (mem s) pgdir \<union> set ps" "tables (mem s) pgdir \<subseteq> tables (mem u) pgdir"
    using 1 2 us by (auto simp: grown_def)
  moreover have "user_inv c u ps'' pgdir" using 2 by (simp add: grown_def)
  ultimately show ?thesis
    using P Q N M R unfolding grown_def by blast
qed

text \<open>Where the pages of \<open>ps\<close> have gone that are no longer free: each has become a page table, or a page that satisfies \<open>P\<close>, or is in \<open>H\<close>.
  Page tables have been added exactly where they were missing.\<close>

definition spent :: "u32 \<Rightarrow> u32 set \<Rightarrow> u32 list \<Rightarrow> 'a kmem_scheme \<Rightarrow> (u32 \<Rightarrow> bool) \<Rightarrow> 'a kmem_scheme \<Rightarrow> u32 list \<Rightarrow> bool" where
  "spent pgdir H ps s P t ps' \<longleftrightarrow>
     set ps \<subseteq> set ps' \<union> (tables (mem t) pgdir - tables (mem s) pgdir) \<union> frames (mem t) pgdir P \<union> H
     \<and> covered (mem t) pgdir = covered (mem s) pgdir \<union> PDX ` {va. P va}"

lemma spent_none: "(\<And>va. \<not> P va) \<Longrightarrow> spent pgdir H ps s P s ps"
  by (auto simp: spent_def)

lemma spent_trans:
  assumes 1: "spent pgdir {} ps s P t ps'" and 2: "spent pgdir H ps' t Q u ps''"
    and g: "grown c pgdir ps s P t ps'" "grown c pgdir ps' t Q u ps''" and R: "\<And>va. R va \<longleftrightarrow> P va \<or> Q va" and PQ: "\<And>va. P va \<Longrightarrow> \<not> Q va"
  shows "spent pgdir H ps s R u ps''"
proof -
  have "mapping (mem u) pgdir va = mapping (mem t) pgdir va" if "P va" for va using g(2) PQ [OF that] by (simp add: grown_def)
  then have fr: "frames (mem t) pgdir P \<subseteq> frames (mem u) pgdir R" "frames (mem u) pgdir Q \<subseteq> frames (mem u) pgdir R"
    using R unfolding frames_def subset_iff mem_Collect_eq by metis+
  have tb: "tables (mem s) pgdir \<subseteq> tables (mem t) pgdir" "tables (mem t) pgdir \<subseteq> tables (mem u) pgdir" using g by (simp_all add: grown_def)
  have "q \<in> set ps'' \<union> (tables (mem u) pgdir - tables (mem s) pgdir) \<union> frames (mem u) pgdir R \<union> H" if "q \<in> set ps" for q
  proof -
    have "q \<in> set ps' \<or> q \<in> tables (mem t) pgdir - tables (mem s) pgdir \<or> q \<in> frames (mem t) pgdir P" using 1 that by (auto simp: spent_def)
    moreover have "q \<in> set ps' \<Longrightarrow> q \<in> set ps'' \<or> q \<in> tables (mem u) pgdir - tables (mem t) pgdir \<or> q \<in> frames (mem u) pgdir Q \<or> q \<in> H"
      using 2 by (auto simp: spent_def)
    ultimately show ?thesis using fr tb by (elim disjE) auto
  qed
  moreover have "PDX ` {va. R va} = PDX ` {va. P va} \<union> PDX ` {va. Q va}" using R by auto
  ultimately show ?thesis using 1 2 by (simp add: spent_def subset_iff Un_assoc)
qed

text \<open>A page that is neither free nor part of the address space.\<close>

definition fresh :: "'a kmem_scheme \<Rightarrow> u32 list \<Rightarrow> u32 \<Rightarrow> u32 \<Rightarrow> bool" where
  "fresh s ps pgdir m \<longleftrightarrow> kpage s m \<and> m \<notin> set ps \<and> m \<notin> tables (mem s) pgdir
     \<and> (\<forall>va e. va < KERNBASE \<longrightarrow> mapping (mem s) pgdir va = Some e \<longrightarrow> frame_of e \<noteq> m)"

lemma user_entry:
  assumes "page_aligned m" and "perm < 4096"
  shows "frame_of (V2P m OR perm OR PTE_P) = m" and "PTE_FLAGS (V2P m OR perm OR PTE_P) = perm OR PTE_P"
proof -
  show "frame_of (V2P m OR perm OR PTE_P) = m" using assms by (simp add: frame_of_def PTE_ADDR_flags)
  have al: "page_aligned (V2P m)" using assms(1) by simp
  show "PTE_FLAGS (V2P m OR perm OR PTE_P) = perm OR PTE_P"
  proof (rule bit_word_eqI)
    fix n
    show "bit (PTE_FLAGS (V2P m OR perm OR PTE_P)) n = bit (perm OR PTE_P) n"
      unfolding PTE_FLAGS_def mask_12
      using page_aligned_bit [OF al, of n] small_bit [OF assms(2), of n]
      by (auto simp: bit_simps PTE_P_def)
  qed
qed

lemma user_inv_map_post:
  assumes inv: "user_inv c s ps pgdir" and post: "map_post c pgdir ps s t ps'"
    and m: "\<And>va e. va < KERNBASE \<Longrightarrow> mapping (mem t) pgdir va = Some e \<Longrightarrow>
      mapping (mem s) pgdir va = Some e \<or> PGROUNDDOWN va = a \<and> fresh s ps pgdir (frame_of e) \<and> frame_of e = frame_of d"
  shows "user_inv c t ps' pgdir"
  unfolding user_inv_def frames_inj_def
proof (intro conjI allI impI)
  obtain us where us: "ps = us @ ps'" "tables (mem t) pgdir = tables (mem s) pgdir \<union> set us"
    using post by (auto simp: map_post_def)
  have kp: "kpage t = kpage s" using post vm_frame_fields(5) by (auto simp: map_post_def)
  show "vm_inv c t ps' pgdir" using post by (simp add: map_post_def)
  fix va e assume va: "va < KERNBASE" "mapping (mem t) pgdir va = Some e"
  then have "kpage s (frame_of e) \<and> frame_of e \<notin> tables (mem s) pgdir \<and> frame_of e \<notin> set ps"
    using m [OF va] inv by (auto simp: user_inv_def fresh_def)
  then show "kpage t (frame_of e)" "frame_of e \<notin> tables (mem t) pgdir" "frame_of e \<notin> set ps'"
    using us kp by auto
next
  fix va vb e1 e2
  assume va: "va < KERNBASE" "mapping (mem t) pgdir va = Some e1"
    and vb: "vb < KERNBASE" "mapping (mem t) pgdir vb = Some e2" and eq: "frame_of e1 = frame_of e2"
  have inj: "PGROUNDDOWN va = PGROUNDDOWN vb" if "mapping (mem s) pgdir va = Some e1" "mapping (mem s) pgdir vb = Some e2"
    using inv that va vb eq unfolding user_inv_def frames_inj_def by blast
  have fr: "frame_of e \<noteq> frame_of d" if "w < KERNBASE" "mapping (mem s) pgdir w = Some e" "fresh s ps pgdir (frame_of d)" for w e
    using that unfolding fresh_def by blast
  show "PGROUNDDOWN va = PGROUNDDOWN vb"
    using m [OF va] m [OF vb] inj fr [OF va(1), of e1] fr [OF vb(1), of e2] eq by metis
qed

text \<open>Taking a page from the free list and clearing it.\<close>

lemma user_inv_alloc:
  assumes inv: "user_inv c s (m # ps) pgdir"
  defines "t \<equiv> s\<lparr>freelist := ld32 (mem s) m, mem := memset (mem s) m 0 PGSIZE\<rparr>"
  shows "user_inv c t ps pgdir \<and> fresh t ps pgdir m \<and> (\<forall>va. mapping (mem t) pgdir va = mapping (mem s) pgdir va)
    \<and> tables (mem t) pgdir = tables (mem s) pgdir \<and> (\<forall>x. mem t x = (if PGROUNDDOWN x = m then 0 else mem s x))
    \<and> m \<noteq> 0 \<and> kalloc s = Ret m (s\<lparr>freelist := ld32 (mem s) m\<rparr>) \<and> page_aligned m"
proof -
  have vm: "vm_inv c s (m # ps) pgdir" using inv by (simp add: user_inv_def)
  then have k: "kmem_inv c s (m # ps)" and ok: "pdir_ok (mem s) pgdir"
    and disj: "tables (mem s) pgdir \<inter> set (m # ps) = {}" by (auto simp: vm_inv_def)
  have km: "kpage s m" "m \<notin> set ps" using k by (auto simp: kmem_inv_def)
  have al: "page_aligned m" using km(1) by (simp add: kpage_def)
  have mem: "mem t x = (if PGROUNDDOWN x = m then 0 else mem s x)" for x
    unfolding t_def using memset_zero_page [OF al] by simp
  then have same: "mem t x = mem s x" if "PGROUNDDOWN x \<in> tables (mem s) pgdir" for x using disj that by auto
  note p = pdir_cong [OF ok same]
  have kp: "kpage t = kpage s" by (simp add: t_def fun_eq_iff)
  have "kmem_inv c (s\<lparr>freelist := ld32 (mem s) m, mem := mem t\<rparr>) ps"
    using kmem_inv_kalloc_Cons(2) [OF k] mem km(2) by (intro kmem_inv_mem) auto
  then have "kmem_inv c t ps" by (simp add: t_def)
  then have "vm_inv c t ps pgdir" using vm p by (simp add: vm_inv_def kp)
  then have "user_inv c t ps pgdir" 
    using inv p(2,3) kp frames_inj_cong [of "mem t" pgdir "mem s"] unfolding user_inv_def by auto
  moreover have "fresh t ps pgdir m"
    using km disj inv p(2,3) kp by (auto simp: fresh_def user_inv_def)
  ultimately show ?thesis
    using p(2,3) mem kpage_nonzero [OF km(1)] kmem_inv_kalloc_Cons(1) [OF k] al by blast
qed

lemma USER_PAGE_flags: "(PTE_W OR PTE_U) OR PTE_P = USER_PAGE" "(PTE_W OR PTE_U) < (4096 :: u32)"
  by (simp_all add: USER_PAGE_def PTE_P_def PTE_W_def PTE_U_def)

text \<open>The body of the loop of \<open>allocuvm\<close> once it has a page: it is mapped, or the page tables could not
  be extended and the page is still in hand.\<close>

lemma wp_returns: "wp m Q \<Longrightarrow> (\<And>x s. m = Ret x s \<Longrightarrow> Q x s \<Longrightarrow> R x s) \<Longrightarrow> wp m R"
  by (cases m) auto

lemma grow_one_spent:
  fixes s :: "'a kmem_scheme"
  assumes inv: "user_inv c s (m # ps) pgdir" and a: "page_aligned a" "a < KERNBASE" and none: "mapping (mem s) pgdir a = None"
  defines "s1 \<equiv> s\<lparr>freelist := ld32 (mem s) m, mem := memset (mem s) m 0 PGSIZE\<rparr>"
  shows "wp (mappages pgdir a PGSIZE (V2P m) (PTE_W OR PTE_U) s1) (\<lambda>r t.
    r = 0 \<and> (\<exists>ps'. grown c pgdir (m # ps) s (\<lambda>va. PGROUNDDOWN va = a) t ps' \<and> spent pgdir {} (m # ps) s (\<lambda>va. PGROUNDDOWN va = a) t ps')
    \<or> r = - 1 \<and> fresh t [] pgdir m \<and> grown c pgdir (m # ps) s (\<lambda>_. False) t [] \<and> spent pgdir {m} (m # ps) s (\<lambda>_. False) t []
      \<and> PDX a \<notin> covered (mem t) pgdir)"
proof -
  note al = user_inv_alloc [OF inv, folded s1_def]
  have cov: "covered (mem s1) pgdir = covered (mem s) pgdir"
  proof (rule covered_cong, rule pdir_cong(1))
    show "pdir_ok (mem s) pgdir" using inv by (simp add: user_inv_def vm_inv_def)
    have "m \<notin> tables (mem s) pgdir" using inv by (auto simp: user_inv_def vm_inv_def)
    then show "mem s1 x = mem s x" if "PGROUNDDOWN x \<in> tables (mem s) pgdir" for x using that al by auto
  qed
  have PDXa: "PDX ` {va. PGROUNDDOWN va = a} = {PDX a}"
  proof -
    have "PDX va = PDX a" if "PGROUNDDOWN va = a" for va using that same_page_iff [of va a] a(1) by simp
    moreover have "PGROUNDDOWN a = a" using a(1) by simp
    ultimately show ?thesis by blast
  qed
  have vm: "vm_inv c s1 ps pgdir" using al by (simp add: user_inv_def)
  let ?e = "V2P m OR (PTE_W OR PTE_U) OR PTE_P"
  have e: "frame_of ?e = m" "PTE_FLAGS ?e = USER_PAGE"
    using user_entry [OF _ USER_PAGE_flags(2), of m] al USER_PAGE_flags(1) by auto
  have fr: "vm_frame s s1" by (simp add: s1_def)
  have tabs: "tables (mem t) pgdir \<subseteq> tables (mem s) pgdir \<union> set (m # ps) \<and> tables (mem s) pgdir \<subseteq> tables (mem t) pgdir
      \<and> m \<notin> tables (mem t) pgdir \<and> (\<exists>us. m # ps = us @ ps')
      \<and> (\<forall>x. PGROUNDDOWN x \<notin> tables (mem t) pgdir \<longrightarrow> PGROUNDDOWN x \<notin> set (m # ps) \<longrightarrow> mem t x = mem s x)
      \<and> (\<forall>x. PGROUNDDOWN x = m \<longrightarrow> mem t x = 0) \<and> vm_frame s t \<and> kpage t m
      \<and> set ps \<subseteq> set ps' \<union> (tables (mem t) pgdir - tables (mem s) pgdir)"
    if post: "map_post c pgdir ps s1 t ps'" for t ps'
  proof -
    obtain us where us: "ps = us @ ps'" "tables (mem t) pgdir = tables (mem s1) pgdir \<union> set us"
      using post by (auto simp: map_post_def)
    have "m \<notin> tables (mem t) pgdir" using us al by (auto simp: fresh_def)
    moreover have "m # ps = (m # us) @ ps'" using us by simp
    moreover have "kpage t m" using al post vm_frame_fields(5) [of s1 t] by (auto simp: map_post_def fresh_def)
    moreover have "vm_frame s t" using fr post by (auto simp: map_post_def intro: vm_frame_trans)
    moreover have "set ps \<inter> tables (mem s) pgdir = {}" using inv by (auto simp: user_inv_def vm_inv_def)
    ultimately show ?thesis using us al post by (auto simp: map_post_def)
  qed
  show ?thesis
  proof (rule wp_returns [OF mappages_page_wp [OF vm a(1)]])
    show "mapping (mem s1) pgdir a = None" using al none by simp
    fix r t
    assume ret: "mappages pgdir a PGSIZE (V2P m) (PTE_W OR PTE_U) s1 = Ret r t"
    note cv = mappages_page_covered [OF vm a(1) ret, unfolded cov]
    assume "\<exists>ps'. map_post c pgdir ps s1 t ps' \<and>
      (r = 0 \<and> (\<forall>va. mapping (mem t) pgdir va = (if PGROUNDDOWN va = a then Some ?e else mapping (mem s1) pgdir va))
       \<or> r = - 1 \<and> ps' = [] \<and> (\<forall>va. mapping (mem t) pgdir va = mapping (mem s1) pgdir va))"
    then obtain ps' where post: "map_post c pgdir ps s1 t ps'" and
      "(r = 0 \<and> (\<forall>va. mapping (mem t) pgdir va = (if PGROUNDDOWN va = a then Some ?e else mapping (mem s1) pgdir va))
       \<or> r = - 1 \<and> ps' = [] \<and> (\<forall>va. mapping (mem t) pgdir va = mapping (mem s1) pgdir va))" by blast
    then show "r = 0 \<and> (\<exists>ps'. grown c pgdir (m # ps) s (\<lambda>va. PGROUNDDOWN va = a) t ps' \<and> spent pgdir {} (m # ps) s (\<lambda>va. PGROUNDDOWN va = a) t ps')
      \<or> r = - 1 \<and> fresh t [] pgdir m \<and> grown c pgdir (m # ps) s (\<lambda>_. False) t [] \<and> spent pgdir {m} (m # ps) s (\<lambda>_. False) t []
        \<and> PDX a \<notin> covered (mem t) pgdir"
    proof (elim disjE conjE)
      assume "r = 0" and m: "\<forall>va. mapping (mem t) pgdir va = (if PGROUNDDOWN va = a then Some ?e else mapping (mem s1) pgdir va)"
      have "user_inv c t ps' pgdir"
        using al post m e by (intro user_inv_map_post [of c s1 ps pgdir t ps' a ?e]) (auto split: if_splits)
      then have "grown c pgdir (m # ps) s (\<lambda>va. PGROUNDDOWN va = a) t ps'"
        using tabs [OF post] al m e by (simp add: grown_def)
      moreover have "frames (mem t) pgdir (\<lambda>va. PGROUNDDOWN va = a) = {m}"
        using m e(1) a(1) by (auto simp: frames_def intro!: exI [of _ a])
      then have "spent pgdir {} (m # ps) s (\<lambda>va. PGROUNDDOWN va = a) t ps'"
        using tabs [OF post] cv \<open>r = 0\<close> PDXa by (auto simp: spent_def)
      ultimately show ?thesis using \<open>r = 0\<close> by blast
    next
      assume "r = - 1" and ps': "ps' = []" and m: "\<forall>va. mapping (mem t) pgdir va = mapping (mem s1) pgdir va"
      have "user_inv c t [] pgdir"
        using al post m ps' by (intro user_inv_map_post [of c s1 ps pgdir t "[]" a ?e]) auto
      moreover have "fresh t [] pgdir m" using tabs [OF post] al m by (simp add: fresh_def)
      moreover have "spent pgdir {m} (m # ps) s (\<lambda>_. False) t []" "PDX a \<notin> covered (mem t) pgdir"
        using tabs [OF post] cv \<open>r = - 1\<close> ps' by (auto simp: spent_def)
      ultimately show ?thesis
        using tabs [OF post] al m \<open>r = - 1\<close> ps' by (simp add: grown_def)
    qed
  qed
qed

lemma grow_one:
  fixes s :: "'a kmem_scheme"
  assumes inv: "user_inv c s (m # ps) pgdir" and a: "page_aligned a" "a < KERNBASE" and none: "mapping (mem s) pgdir a = None"
  shows "wp (mappages pgdir a PGSIZE (V2P m) (PTE_W OR PTE_U) (s\<lparr>freelist := ld32 (mem s) m, mem := memset (mem s) m 0 PGSIZE\<rparr>)) (\<lambda>r t.
    r = 0 \<and> (\<exists>ps'. grown c pgdir (m # ps) s (\<lambda>va. PGROUNDDOWN va = a) t ps')
    \<or> r = - 1 \<and> fresh t [] pgdir m \<and> grown c pgdir (m # ps) s (\<lambda>_. False) t [])"
  by (rule wp_mono [OF grow_one_spent [OF assms]]) blast

lemma klog_frame [simp]:
  "mem (klog_msg msg s) = mem s" "kend (klog_msg msg s) = kend s" "user_inv c (klog_msg msg s) ps pgdir = user_inv c s ps pgdir"
  "fresh (klog_msg msg s) ps pgdir m = fresh s ps pgdir m"
proof -
  have k: "kpage (klog_msg msg s) = kpage s" by (simp add: kpage_def klog_msg_def fun_eq_iff)
  have "kmem_inv c (klog_msg msg s) ps = kmem_inv c s ps"
    unfolding kmem_inv_def k
    by (simp add: klog_msg_def calm_def cpu_ok_def this_cpu_def lock_free_def)
  moreover show m: "mem (klog_msg msg s) = mem s" "kend (klog_msg msg s) = kend s" by (simp_all add: klog_msg_def)
  ultimately show "user_inv c (klog_msg msg s) ps pgdir = user_inv c s ps pgdir"
    by (simp add: user_inv_def vm_inv_def k)
  show "fresh (klog_msg msg s) ps pgdir m = fresh s ps pgdir m" by (simp add: fresh_def k m)
qed

lemma user_inv_kfreed:
  assumes inv: "user_inv c s ps pgdir" and m: "fresh s ps pgdir m"
  shows "kfree m s = Ret () (kfreed m s)" and "user_inv c (kfreed m s) (m # ps) pgdir"
    and "mapping (mem (kfreed m s)) pgdir va = mapping (mem s) pgdir va"
    and "PGROUNDDOWN x \<noteq> m \<Longrightarrow> mem (kfreed m s) x = mem s x" and "vm_frame s (kfreed m s)"
proof -
  have vm: "vm_inv c s ps pgdir" using inv by (simp add: user_inv_def)
  note k = vm_inv_kfreed [OF vm, of m]
  have kp: "kpage (kfreed m s) = kpage s" by (simp add: kpage_def kfreed_def fun_eq_iff)
  show "kfree m s = Ret () (kfreed m s)" using kfree_eq [of c s ps m] vm m by (simp add: vm_inv_def fresh_def)
  show mp: "mapping (mem (kfreed m s)) pgdir va = mapping (mem s) pgdir va" for va using k m by (simp add: fresh_def)
  show "user_inv c (kfreed m s) (m # ps) pgdir"
    using inv m k mp frames_inj_cong [of "mem (kfreed m s)" pgdir "mem s"] by (auto simp: user_inv_def fresh_def kp)
  show "PGROUNDDOWN x \<noteq> m \<Longrightarrow> mem (kfreed m s) x = mem s x" using m by (intro mem_kfreed) (auto simp: fresh_def kpage_def)
  show "vm_frame s (kfreed m s)" by simp
qed

text \<open>Nothing happened to user memory. Each page that was free is free again, or has become a page table, or is in \<open>H\<close>.\<close>

definition undone :: "nat \<Rightarrow> u32 \<Rightarrow> u32 set \<Rightarrow> u32 list \<Rightarrow> 'a kmem_scheme \<Rightarrow> 'a kmem_scheme \<Rightarrow> u32 list \<Rightarrow> bool" where
  "undone c pgdir H ps s t qs \<longleftrightarrow> vm_frame s t \<and> user_inv c t qs pgdir \<and> tables (mem s) pgdir \<subseteq> tables (mem t) pgdir
     \<and> set ps = H \<union> set qs \<union> (tables (mem t) pgdir - tables (mem s) pgdir)
     \<and> (\<forall>va. mapping (mem t) pgdir va = mapping (mem s) pgdir va)
     \<and> (\<forall>va e x. va < KERNBASE \<longrightarrow> mapping (mem s) pgdir va = Some e \<longrightarrow> PGROUNDDOWN x = frame_of e \<longrightarrow> mem t x = mem s x)"

lemma fresh_dealloc:
  assumes "fresh s ps pgdir m" and "dealloc_post c pgdir ps s P t" and "\<And>va. P va \<Longrightarrow> va < KERNBASE"
  obtains fs where "user_inv c t (fs @ ps) pgdir" and "set fs = frames (mem s) pgdir P" and "fresh t (fs @ ps) pgdir m"
proof -
  obtain fs where fs: "user_inv c t (fs @ ps) pgdir" "set fs = frames (mem s) pgdir P"
    using assms(2) by (auto simp: dealloc_post_def)
  have "m \<notin> set fs" using fs(2) assms(1,3) by (auto simp: frames_def fresh_def)
  moreover have "kpage t = kpage s" using assms(2) vm_frame_fields(5) by (auto simp: dealloc_post_def)
  ultimately have "fresh t (fs @ ps) pgdir m"
    using assms(1,2) by (auto simp: fresh_def dealloc_post_def split: if_splits)
  with fs that show ?thesis by blast
qed

lemma grown_then_dealloc:
  assumes inv: "user_inv c s ps pgdir" and g: "grown c pgdir ps s P t ps'"
    and d: "dealloc_post c pgdir ps' t R u" and PR: "\<And>va. P va \<Longrightarrow> R va" and R: "\<And>va. R va \<Longrightarrow> va < KERNBASE"
    and none: "\<And>va. R va \<Longrightarrow> mapping (mem s) pgdir va = None"
    and fs: "user_inv c u (fs @ ps') pgdir" "set fs = frames (mem t) pgdir R" and sp: "spent pgdir H ps s P t ps'" and H: "H \<subseteq> set ps"
  shows "undone c pgdir H ps s u (fs @ ps')"
proof -
  have old: "mapping (mem t) pgdir va = mapping (mem s) pgdir va" if "\<not> P va" for va
    using g that by (simp add: grown_def)
  have m: "mapping (mem u) pgdir va = mapping (mem s) pgdir va" for va
    using d PR old none by (auto simp: dealloc_post_def)
  have Pfr: "frame_of e \<in> set ps" if "R va" "mapping (mem t) pgdir va = Some e" for va e
  proof (cases "P va")
    case True
    with grown_new [OF g] that(2) show ?thesis by (metis option.inject)
  next
    case False
    with old none that show ?thesis by auto
  qed
  then have "set (fs @ ps') \<subseteq> set ps" using fs(2) g by (auto simp: frames_def grown_def)
  moreover have "frames (mem t) pgdir P \<subseteq> set fs" unfolding fs(2) frames_def using PR by blast
  moreover have tu: "tables (mem u) pgdir = tables (mem t) pgdir" using d by (simp add: dealloc_post_def)
  moreover have "tables (mem t) pgdir - tables (mem s) pgdir \<subseteq> set ps" "tables (mem s) pgdir \<subseteq> tables (mem t) pgdir" using g by (auto simp: grown_def)
  ultimately have part: "set ps = H \<union> set (fs @ ps') \<union> (tables (mem u) pgdir - tables (mem s) pgdir)" "tables (mem s) pgdir \<subseteq> tables (mem u) pgdir"
    using sp H unfolding spent_def by auto
  have "mem u x = mem s x"
    if va: "va < KERNBASE" "mapping (mem s) pgdir va = Some e" and x: "PGROUNDDOWN x = frame_of e" for va e x
  proof -
    have e: "frame_of e \<notin> tables (mem s) pgdir" "frame_of e \<notin> set ps" using inv va by (auto simp: user_inv_def)
    then have "frame_of e \<notin> tables (mem t) pgdir" using g by (auto simp: grown_def)
    moreover have "frame_of e \<notin> frames (mem t) pgdir R" using Pfr e(2) by (auto simp: frames_def)
    ultimately show ?thesis using x d g e(2) by (auto simp: dealloc_post_def grown_def)
  qed
  moreover have "vm_frame s u" using g d by (auto simp: grown_def dealloc_post_def intro: vm_frame_trans)
  ultimately show ?thesis using m fs(1) part unfolding undone_def by blast
qed

text \<open>How many free pages it takes to map the pages that satisfy \<open>P\<close>: one for each, and one for each page table that is missing.\<close>

definition pages_needed :: "mem \<Rightarrow> u32 \<Rightarrow> (u32 \<Rightarrow> bool) \<Rightarrow> nat" where
  "pages_needed m pgdir P = card (PGROUNDDOWN ` {va. P va}) + card (PDX ` {va. P va} - covered m pgdir)"

lemma new_tables_count:
  assumes "user_inv c s ps pgdir" and g: "grown c pgdir ps s P t ps'" and sp: "spent pgdir H ps s P t ps'"
  shows "card (tables (mem t) pgdir - tables (mem s) pgdir) = card (PDX ` {va. P va} - covered (mem s) pgdir)"
    and "finite (tables (mem t) pgdir)"
proof -
  have ok: "pdir_ok (mem s) pgdir" "pdir_ok (mem t) pgdir" using assms(1) g by (simp_all add: grown_def user_inv_def vm_inv_def)
  have "tables (mem s) pgdir \<subseteq> tables (mem t) pgdir" using g by (simp add: grown_def)
  then have "card (tables (mem t) pgdir - tables (mem s) pgdir) = card (covered (mem t) pgdir) - card (covered (mem s) pgdir)"
    using card_tables [OF ok(1)] card_tables [OF ok(2)] by (simp add: card_Diff_subset)
  also have "\<dots> = card (covered (mem t) pgdir - covered (mem s) pgdir)" using sp by (subst card_Diff_subset) (auto simp: spent_def)
  also have "covered (mem t) pgdir - covered (mem s) pgdir = PDX ` {va. P va} - covered (mem s) pgdir" using sp by (auto simp: spent_def)
  finally show "card (tables (mem t) pgdir - tables (mem s) pgdir) = card (PDX ` {va. P va} - covered (mem s) pgdir)" .
  show "finite (tables (mem t) pgdir)" by (rule card_tables [OF ok(2)])
qed

lemma frames_image: "frames m pgdir P = (\<lambda>a. frame_of (the (mapping m pgdir a))) ` PGROUNDDOWN ` {va. P va}" if "\<And>va. P va \<Longrightarrow> mapping m pgdir va \<noteq> None"
proof -
  have "mapping m pgdir (PGROUNDDOWN va) = mapping m pgdir va" for va by (rule mapping_page) simp
  then show ?thesis using that by (force simp: frames_def image_iff)
qed

text \<open>When no page is free any more, all have been used.\<close>

lemma used_up:
  assumes inv: "user_inv c s ps pgdir" and g: "grown c pgdir ps s P t []" and sp: "spent pgdir H ps s P t []"
  shows "length ps \<le> pages_needed (mem s) pgdir P + card H"
proof -
  let ?T = "tables (mem t) pgdir - tables (mem s) pgdir"
  note n = new_tables_count [OF inv g sp]
  have "distinct ps" using inv by (simp add: user_inv_def vm_inv_def kmem_inv_def)
  then have "length ps = card (set ps)" by (simp add: distinct_card)
  also have "\<dots> \<le> card (?T \<union> frames (mem t) pgdir P \<union> H)" using sp n(2) by (intro card_mono) (auto simp: spent_def)
  also have "\<dots> \<le> card ?T + card (frames (mem t) pgdir P) + card H" by (meson add_mono card_Un_le le_trans order_refl)
  also have "card (frames (mem t) pgdir P) \<le> card (PGROUNDDOWN ` {va. P va})"
    using g by (subst frames_image) (auto simp: grown_def intro!: card_image_le)
  finally show ?thesis using n(1) by (simp add: pages_needed_def)
qed

text \<open>What has been mapped came from the free pages.\<close>

lemma enough_pages:
  assumes inv: "user_inv c s ps pgdir" and g: "grown c pgdir ps s P t ps'" and sp: "spent pgdir {} ps s P t ps'" and P: "\<And>va. P va \<Longrightarrow> va < KERNBASE"
  shows "pages_needed (mem s) pgdir P \<le> length ps"
proof -
  let ?T = "tables (mem t) pgdir - tables (mem s) pgdir" and ?F = "frames (mem t) pgdir P"
  note n = new_tables_count [OF inv g sp]
  have m: "mapping (mem t) pgdir va \<noteq> None" if "P va" for va using g that by (auto simp: grown_def)
  have it: "user_inv c t ps' pgdir" using g by (simp add: grown_def)
  have sub: "?T \<subseteq> set ps" "?F \<subseteq> set ps"
  proof -
    show "?T \<subseteq> set ps" using g by (auto simp: grown_def)
    show "?F \<subseteq> set ps" using g by (fastforce simp: grown_def frames_def)
  qed
  have disj: "?T \<inter> ?F = {}" using it P by (auto simp: user_inv_def frames_def)
  have "?F = (\<lambda>a. frame_of (the (mapping (mem t) pgdir a))) ` PGROUNDDOWN ` {va. P va}" using m by (rule frames_image)
  moreover have "inj_on (\<lambda>a. frame_of (the (mapping (mem t) pgdir a))) (PGROUNDDOWN ` {va. P va})"
  proof (rule inj_onI, clarify)
    fix va vb
    assume v: "P va" "P vb" "frame_of (the (mapping (mem t) pgdir (PGROUNDDOWN va))) = frame_of (the (mapping (mem t) pgdir (PGROUNDDOWN vb)))"
    have "mapping (mem t) pgdir (PGROUNDDOWN w) = mapping (mem t) pgdir w" for w by (rule mapping_page) simp
    with v m [OF v(1)] m [OF v(2)] it P show "PGROUNDDOWN va = PGROUNDDOWN vb" by (auto simp: user_inv_def frames_inj_def)
  qed
  ultimately have "card ?F = card (PGROUNDDOWN ` {va. P va})" by (simp add: card_image)
  then have "pages_needed (mem s) pgdir P = card (?F \<union> ?T)"
    using n disj sub by (simp add: pages_needed_def) (subst card_Un_disjoint, auto intro: finite_subset)
  also have "\<dots> \<le> card (set ps)" using sub by (intro card_mono) auto
  finally show ?thesis using card_length [of ps] by simp
qed

lemma in_range_snoc:
  assumes "page_aligned a" and "a < KERNBASE" and "a0 \<le> a"
  shows "in_range a0 (a + PGSIZE) va \<longleftrightarrow> in_range a0 a va \<or> PGROUNDDOWN va = a"
proof -
  have s: "unat (a + PGSIZE) = unat a + 4096" using in_range_step(2) [OF assms(1,2), of KERNBASE] assms(2) by simp
  obtain k where k: "unat a = 4096 * k" using assms(1) by (auto simp: page_aligned_unat elim: dvdE)
  obtain l where l: "unat (PGROUNDDOWN va) = 4096 * l"
    using page_aligned_PGROUNDDOWN [of va] by (auto simp: page_aligned_unat elim: dvdE)
  have "PGROUNDDOWN va = a \<longleftrightarrow> k = l" using k l by (auto simp: word_unat_eq_iff)
  then show ?thesis
    using k l s assms(3) by (auto simp: in_range_def word_le_nat_alt word_less_nat_alt)
qed

lemma in_range_below: "in_range a b va \<Longrightarrow> b \<le> KERNBASE \<Longrightarrow> va < KERNBASE"
proof -
  assume "in_range a b va" "b \<le> KERNBASE"
  then have "unat va div 4096 * 4096 < 2 ^ 31"
    by (auto simp: in_range_def word_less_nat_alt word_le_nat_alt unat_PGROUNDDOWN KERNBASE_def)
  then have "unat va < 2 ^ 31" by simp
  then show ?thesis by (simp add: word_less_nat_alt KERNBASE_def)
qed

lemma klog_blank:
  "(klog_msg msg t)\<lparr>freelist := f, mem := m\<rparr> = klog_msg msg (t\<lparr>freelist := f, mem := m\<rparr>)"
  by (simp add: klog_msg_def)

lemma grown_klog: "grown c pgdir ps s P t ps' \<Longrightarrow> grown c pgdir ps (klog_msg msg s) P (klog_msg msg t) ps'"
proof -
  assume g: "grown c pgdir ps s P t ps'"
  then have "vm_frame s t" by (simp add: grown_def)
  then have "vm_frame (klog_msg msg s) (klog_msg msg t)" by (simp only: vm_frame_def klog_blank)
  with g show ?thesis unfolding grown_def klog_frame by blast
qed

definition alloc_result ::
  "nat \<Rightarrow> u32 \<Rightarrow> u32 list \<Rightarrow> 'a vmst_scheme \<Rightarrow> u32 \<Rightarrow> u32 \<Rightarrow> u32 \<Rightarrow> 'a vmst_scheme \<Rightarrow> bool" where
  "alloc_result c pgdir ps s oldsz newsz r t \<longleftrightarrow>
     (if pages_needed (mem s) pgdir (in_range (PGROUNDUP oldsz) newsz) \<le> length ps
      then r = newsz \<and> (\<exists>ps'. grown c pgdir ps s (in_range (PGROUNDUP oldsz) newsz) t ps' \<and> spent pgdir {} ps s (in_range (PGROUNDUP oldsz) newsz) t ps')
      else r = 0 \<and> (\<exists>msg \<in> {''allocuvm out of memory'', ''allocuvm out of memory (2)''}. \<exists>qs. undone c pgdir {} ps (klog_msg msg s) t qs))"

lemma alloc_undo:
  assumes inv: "user_inv c s ps pgdir" and kend: "KERNBASE < kend s" and sz: "oldsz < newsz" "newsz \<le> KERNBASE"
    and g: "grown c pgdir ps s P t ps'" and P: "\<And>va. P va \<Longrightarrow> in_range (PGROUNDUP oldsz) newsz va"
    and none: "\<And>va. in_range (PGROUNDUP oldsz) newsz va \<Longrightarrow> mapping (mem s) pgdir va = None"
    and sp: "spent pgdir H ps s P t ps'" and H: "H \<subseteq> set ps"
  shows "wp (deallocuvm pgdir newsz oldsz (klog_msg msg t)) (\<lambda>_ u. \<exists>qs. undone c pgdir H ps (klog_msg msg s) u qs
    \<and> (fresh t ps' pgdir m \<longrightarrow> fresh u qs pgdir m))"
proof -
  let ?R = "in_range (PGROUNDUP oldsz) newsz"
  have R: "va < KERNBASE" if "?R va" for va using that sz(2) by (rule in_range_below)
  have g': "grown c pgdir ps (klog_msg msg s) P (klog_msg msg t) ps'" using g by (rule grown_klog)
  have inv': "user_inv c (klog_msg msg s) ps pgdir" "user_inv c (klog_msg msg t) ps' pgdir"
    using inv g by (simp_all add: grown_def)
  have kend': "KERNBASE < kend (klog_msg msg t)" using kend g vm_frame_fields(2) [of s t] by (simp add: grown_def)
  show ?thesis
  proof (rule wp_mono [OF deallocuvm_wp [OF inv'(2) kend' sz(2,1)]])
    fix r u
    assume "r = oldsz \<and> dealloc_post c pgdir ps' (klog_msg msg t) ?R u"
    then have d: "dealloc_post c pgdir ps' (klog_msg msg t) ?R u" by simp
    have sp': "spent pgdir H ps (klog_msg msg s) P (klog_msg msg t) ps'" using sp by (simp add: spent_def)
    have u: "undone c pgdir H ps (klog_msg msg s) u (fs @ ps')"
      if "user_inv c u (fs @ ps') pgdir" "set fs = frames (mem (klog_msg msg t)) pgdir ?R" for fs
      using grown_then_dealloc [OF inv'(1) g' d P R _ that sp' H] none by simp
    show "\<exists>qs. undone c pgdir H ps (klog_msg msg s) u qs \<and> (fresh t ps' pgdir m \<longrightarrow> fresh u qs pgdir m)"
    proof (cases "fresh t ps' pgdir m")
      case True
      then have "fresh (klog_msg msg t) ps' pgdir m" by simp
      from fresh_dealloc [OF this d R] u show ?thesis by metis
    next
      case False
      from d obtain fs where "user_inv c u (fs @ ps') pgdir" "set fs = frames (mem (klog_msg msg t)) pgdir ?R"
        by (auto simp: dealloc_post_def)
      with u False show ?thesis by blast
    qed
  qed
qed

lemma alloc_done:
  assumes "\<not> a < newsz" and "grown c pgdir ps s (in_range (PGROUNDUP oldsz) a) t ps'"
    and "\<And>va. in_range (PGROUNDUP oldsz) a va \<Longrightarrow> in_range (PGROUNDUP oldsz) newsz va"
    and "spent pgdir {} ps s (in_range (PGROUNDUP oldsz) a) t ps'" and "user_inv c s ps pgdir" and "newsz \<le> KERNBASE"
  shows "alloc_result c pgdir ps s oldsz newsz newsz t"
proof -
  have "in_range (PGROUNDUP oldsz) a = in_range (PGROUNDUP oldsz) newsz"
    using assms(1,3) by (auto simp: in_range_def fun_eq_iff)
  then have g: "grown c pgdir ps s (in_range (PGROUNDUP oldsz) newsz) t ps'" "spent pgdir {} ps s (in_range (PGROUNDUP oldsz) newsz) t ps'"
    using assms(2,4) by simp_all
  then show ?thesis using enough_pages [OF assms(5) g in_range_below [OF _ assms(6)]] by (auto simp: alloc_result_def)
qed

text \<open>Undoing when the page in hand could not be mapped: it goes back to the free list last.\<close>

lemma undone_kfreed:
  assumes "undone c pgdir {m} ps s u qs" and "fresh u qs pgdir m" and "m \<in> set ps" and "fresh s [] pgdir m"
  shows "kfree m u = Ret () (kfreed m u) \<and> undone c pgdir {} ps s (kfreed m u) (m # qs)"
proof -
  have inv: "user_inv c u qs pgdir" using assms(1) by (simp add: undone_def)
  note k = user_inv_kfreed [OF inv assms(2)]
  have "tables (mem (kfreed m u)) pgdir = tables (mem u) pgdir"
    using vm_inv_kfreed [of c u qs pgdir m] inv assms(2) by (simp add: user_inv_def fresh_def)
  then have part: "set ps = {} \<union> set (m # qs) \<union> (tables (mem (kfreed m u)) pgdir - tables (mem s) pgdir)"
    "tables (mem s) pgdir \<subseteq> tables (mem (kfreed m u)) pgdir" using assms(1) by (auto simp: undone_def)
  have "mem (kfreed m u) x = mem s x"
    if "va < KERNBASE" "mapping (mem s) pgdir va = Some e" "PGROUNDDOWN x = frame_of e" for va e x
  proof -
    have "frame_of e \<noteq> m" using assms(4) that(1,2) by (auto simp: fresh_def)
    then have "mem (kfreed m u) x = mem u x" using k(4) that(3) by simp
    with assms(1) that show ?thesis by (simp add: undone_def)
  qed
  moreover have "vm_frame s (kfreed m u)" using assms(1) by (simp add: undone_def)
  moreover have "\<forall>va. mapping (mem (kfreed m u)) pgdir va = mapping (mem s) pgdir va" using assms(1) k(3) by (simp add: undone_def)
  ultimately show ?thesis using part k(1,2) unfolding undone_def by blast
qed

lemma alloc_undo_kfree:
  assumes inv: "user_inv c s ps pgdir" and kend: "KERNBASE < kend s" and sz: "oldsz < newsz" "newsz \<le> KERNBASE"
    and g: "grown c pgdir ps s P t []" and P: "\<And>va. P va \<Longrightarrow> in_range (PGROUNDUP oldsz) newsz va"
    and none: "\<And>va. in_range (PGROUNDUP oldsz) newsz va \<Longrightarrow> mapping (mem s) pgdir va = None"
    and m: "fresh t [] pgdir m" "m \<in> set ps" and sp: "spent pgdir {m} ps s P t []"
    and less: "length ps < pages_needed (mem s) pgdir (in_range (PGROUNDUP oldsz) newsz)"
    and msg: "msg = ''allocuvm out of memory (2)''"
  shows "wp (then_do (deallocuvm pgdir newsz oldsz (klog_msg msg t)) (\<lambda>_ s. then_do (kfree m s) (\<lambda>_ s. Ret 0 s)))
    (alloc_result c pgdir ps s oldsz newsz)"
  unfolding wp_then_do
proof (rule wp_mono [OF alloc_undo [OF inv kend sz g P none sp]])
  show "{m} \<subseteq> set ps" using m(2) by simp
  have fs: "fresh (klog_msg msg s) [] pgdir m"
    using inv m(2) by (auto simp: fresh_def user_inv_def vm_inv_def kmem_inv_def kpage_def klog_msg_def)
  fix r u
  assume "\<exists>qs. undone c pgdir {m} ps (klog_msg msg s) u qs \<and> (fresh t [] pgdir m \<longrightarrow> fresh u qs pgdir m)"
  then obtain qs where "undone c pgdir {m} ps (klog_msg msg s) u qs" "fresh u qs pgdir m" using m(1) by blast
  from undone_kfreed [OF this m(2) fs]
  show "wp (kfree m u) (\<lambda>x s'. wp (Ret 0 s') (alloc_result c pgdir ps s oldsz newsz))"
    using less msg by (auto simp: alloc_result_def)
qed

text \<open>What the loop of \<open>allocuvm\<close> goes on with, once it has a page \<open>m\<close>.\<close>

definition alloc_rest :: "nat \<Rightarrow> u32 \<Rightarrow> u32 \<Rightarrow> u32 \<Rightarrow> u32 \<Rightarrow> u32 \<Rightarrow> int \<Rightarrow> 'a vmst_scheme \<Rightarrow> (u32, 'a vmst_scheme) outcome" where
  "alloc_rest f pgdir a oldsz newsz m r s = (if r < 0
     then then_do (deallocuvm pgdir newsz oldsz (klog_msg ''allocuvm out of memory (2)'' s)) (\<lambda>_ s.
       then_do (kfree m s) (\<lambda>_ s. Ret 0 s))
     else allocuvm_loop f pgdir (a + PGSIZE) oldsz newsz s)"

lemma allocuvm_loop_unfold:
  assumes "a < newsz" and "user_inv c t (m # qs) pgdir"
  shows "allocuvm_loop (Suc f) pgdir a oldsz newsz t
    = then_do (mappages pgdir a PGSIZE (V2P m) (PTE_W OR PTE_U)
        (t\<lparr>freelist := ld32 (mem t) m, mem := memset (mem t) m 0 PGSIZE\<rparr>)) (alloc_rest f pgdir a oldsz newsz m)"
  unfolding alloc_rest_def [abs_def] allocuvm_loop.simps Let_def using assms user_inv_alloc [OF assms(2)] by simp

lemma allocuvm_loop_full:
  assumes "a < newsz" and "user_inv c t [] pgdir"
  shows "allocuvm_loop (Suc f) pgdir a oldsz newsz t
    = then_do (deallocuvm pgdir newsz oldsz (klog_msg ''allocuvm out of memory'' t)) (\<lambda>_ s. Ret 0 s)"
  using assms kmem_inv_kalloc_Nil [of c t] by (simp add: user_inv_def vm_inv_def Let_def)

text \<open>One more page needs one more free page, or two when its page table is missing.\<close>

lemma needs_more:
  assumes sub: "\<And>va. P va \<Longrightarrow> R va" and "R a" and P: "\<And>va. P va \<Longrightarrow> PGROUNDDOWN va \<noteq> PGROUNDDOWN a"
  shows "pages_needed m pgdir P < pages_needed m pgdir R"
    and "PDX a \<notin> covered m pgdir \<union> PDX ` {va. P va} \<Longrightarrow> pages_needed m pgdir P + 1 < pages_needed m pgdir R"
proof -
  have pages: "card (PGROUNDDOWN ` {va. P va}) < card (PGROUNDDOWN ` {va. R va})"
  proof (rule psubset_card_mono)
    have "PGROUNDDOWN a \<in> PGROUNDDOWN ` {va. R va} - PGROUNDDOWN ` {va. P va}" using assms(2) P by fastforce
    moreover have "PGROUNDDOWN ` {va. P va} \<subseteq> PGROUNDDOWN ` {va. R va}" using sub by blast
    ultimately show "PGROUNDDOWN ` {va. P va} \<subset> PGROUNDDOWN ` {va. R va}" by blast
  qed simp
  have tabs: "PDX ` {va. P va} - covered m pgdir \<subseteq> PDX ` {va. R va} - covered m pgdir" using sub by blast
  then have "card (PDX ` {va. P va} - covered m pgdir) \<le> card (PDX ` {va. R va} - covered m pgdir)" by (intro card_mono) simp_all
  then show "pages_needed m pgdir P < pages_needed m pgdir R" using pages by (simp add: pages_needed_def)
  assume "PDX a \<notin> covered m pgdir \<union> PDX ` {va. P va}"
  then have "PDX a \<in> (PDX ` {va. R va} - covered m pgdir) - (PDX ` {va. P va} - covered m pgdir)" using assms(2) by blast
  then have "PDX ` {va. P va} - covered m pgdir \<subset> PDX ` {va. R va} - covered m pgdir" using tabs by blast
  then have "card (PDX ` {va. P va} - covered m pgdir) < card (PDX ` {va. R va} - covered m pgdir)" by (intro psubset_card_mono) simp_all
  then show "pages_needed m pgdir P + 1 < pages_needed m pgdir R" using pages by (simp add: pages_needed_def)
qed

lemma allocuvm_loop_wp:
  fixes s :: "'a vmst_scheme"
  assumes inv: "user_inv c s ps pgdir" and kend: "KERNBASE < kend s" and sz: "newsz < KERNBASE"
    and none: "\<And>va. in_range (PGROUNDUP oldsz) newsz va \<Longrightarrow> mapping (mem s) pgdir va = None"
    and g: "grown c pgdir ps s (in_range (PGROUNDUP oldsz) a) t ps'" and sp: "spent pgdir {} ps s (in_range (PGROUNDUP oldsz) a) t ps'"
    and a: "page_aligned a" "PGROUNDUP oldsz \<le> a" "oldsz \<le> a" and f: "unat newsz \<le> unat a + 4096 * f"
    and P: "\<And>va. in_range (PGROUNDUP oldsz) a va \<Longrightarrow> in_range (PGROUNDUP oldsz) newsz va"
  shows "wp (allocuvm_loop (Suc f) pgdir a oldsz newsz t) (alloc_result c pgdir ps s oldsz newsz)"
  using g a f P sp
proof (induction f arbitrary: a t ps')
  case 0
  then have "\<not> a < newsz" by (simp add: word_less_nat_alt)
  with 0 alloc_done [OF this 0(1,6,7) inv] sz show ?case by simp
next
  case (Suc f)
  let ?a0 = "PGROUNDUP oldsz"
  show ?case
  proof (cases "a < newsz")
    case False
    with Suc.prems alloc_done [OF False Suc.prems(1,6,7) inv] sz show ?thesis by simp
  next
    case True
    then have ak: "a < KERNBASE" and os: "oldsz < newsz" and sz': "newsz \<le> KERNBASE" using sz Suc.prems(4) by auto
    note snoc = in_range_snoc [OF Suc.prems(2) ak Suc.prems(3)]
    have below: "va < KERNBASE" if "in_range ?a0 a va" for va using in_range_below [OF Suc.prems(6) [OF that] sz'] .
    have new: "in_range ?a0 newsz a" "\<not> in_range ?a0 a a" using Suc.prems(2,3) True by (auto simp: in_range_def)
    have pg: "PGROUNDDOWN va \<noteq> PGROUNDDOWN a" if "in_range ?a0 a va" for va using that new(2) by (auto simp: in_range_def)
    note more = needs_more [of "in_range ?a0 a" "in_range ?a0 newsz" a "mem s" pgdir, OF Suc.prems(6) new(1) pg]
    from new Suc.prems(1) none have unm: "mapping (mem t) pgdir a = None" by (simp add: grown_def)
    have ut: "user_inv c t ps' pgdir" using Suc.prems(1) by (simp add: grown_def)
    show ?thesis
    proof (cases ps')
      case Nil
      show ?thesis
        unfolding allocuvm_loop_full [OF True ut [unfolded Nil]] wp_then_do
        by (rule wp_mono [OF alloc_undo [OF inv kend os sz' Suc.prems(1,6) none Suc.prems(7)]])
          (use used_up [OF inv Suc.prems(1,7) [unfolded Nil]] more(1) in \<open>auto simp: alloc_result_def\<close>)
    next
      case (Cons m qs)
      show ?thesis
        unfolding allocuvm_loop_unfold [OF True ut [unfolded Cons]] wp_then_do
      proof (rule wp_mono [OF grow_one_spent [OF ut [unfolded Cons] Suc.prems(2) ak unm]], elim disjE conjE exE)
        fix r and u :: "'a vmst_scheme" and qs'
        assume r: "r = (0 :: int)" and gu: "grown c pgdir (m # qs) t (\<lambda>va. PGROUNDDOWN va = a) u qs'"
          and su: "spent pgdir {} (m # qs) t (\<lambda>va. PGROUNDDOWN va = a) u qs'"
        then have g': "grown c pgdir ps s (in_range ?a0 (a + PGSIZE)) u qs'"
          using Cons below snoc by (intro grown_trans [OF Suc.prems(1)]) (auto simp: in_range_def)
        have s': "spent pgdir {} ps s (in_range ?a0 (a + PGSIZE)) u qs'"
          by (rule spent_trans [OF Suc.prems(7) [unfolded Cons] su Suc.prems(1) [unfolded Cons] gu snoc]) (auto simp: in_range_def)
        have "wp (allocuvm_loop (Suc f) pgdir (a + PGSIZE) oldsz newsz u) (alloc_result c pgdir ps s oldsz newsz)"
        proof (rule Suc.IH [OF g' page_aligned_add [OF Suc.prems(2)] _ _ _ _ s'])
          show "?a0 \<le> a + PGSIZE" "oldsz \<le> a + PGSIZE" "unat newsz \<le> unat (a + PGSIZE) + 4096 * f"
            using Suc.prems(3-5) in_range_step(2) [OF Suc.prems(2) ak True] by (simp_all add: word_le_nat_alt)
          show "in_range ?a0 newsz va" if "in_range ?a0 (a + PGSIZE) va" for va
            using that snoc Suc.prems(3,6) True by (auto simp: in_range_def)
        qed
        with r show "wp (alloc_rest (Suc f) pgdir a oldsz newsz m r u) (alloc_result c pgdir ps s oldsz newsz)"
          by (simp add: alloc_rest_def)
      next
        fix r and u :: "'a vmst_scheme"
        assume r: "r = (- 1 :: int)" and m: "fresh u [] pgdir m" and gu: "grown c pgdir (m # qs) t (\<lambda>_. False) u []"
          and su: "spent pgdir {m} (m # qs) t (\<lambda>_. False) u []" and cu: "PDX a \<notin> covered (mem u) pgdir"
        then have g': "grown c pgdir ps s (in_range ?a0 a) u []"
          using Cons below by (intro grown_trans [OF Suc.prems(1)]) auto
        have mp: "m \<in> set ps" using Suc.prems(1) Cons by (auto simp: grown_def)
        have s': "spent pgdir {m} ps s (in_range ?a0 a) u []"
          by (rule spent_trans [OF Suc.prems(7) [unfolded Cons] su Suc.prems(1) [unfolded Cons] gu]) auto
        have "PDX a \<notin> covered (mem s) pgdir \<union> PDX ` {va. in_range ?a0 a va}" using s' cu by (auto simp: spent_def)
        then have less: "length ps < pages_needed (mem s) pgdir (in_range ?a0 newsz)" using used_up [OF inv g' s'] more(2) by simp
        from alloc_undo_kfree [OF inv kend os sz' g' Suc.prems(6) none m mp s' less refl] r
        show "wp (alloc_rest (Suc f) pgdir a oldsz newsz m r u) (alloc_result c pgdir ps s oldsz newsz)"
          by (simp add: alloc_rest_def)
      qed
    qed
  qed
qed

lemma allocuvm_wp:
  assumes "user_inv c s ps pgdir" and "KERNBASE < kend s" and "oldsz \<le> newsz" and "newsz < KERNBASE"
    and "\<And>va. in_range (PGROUNDUP oldsz) newsz va \<Longrightarrow> mapping (mem s) pgdir va = None"
  shows "wp (allocuvm pgdir oldsz newsz s) (alloc_result c pgdir ps s oldsz newsz)"
proof -
  have "unat oldsz + 4095 < 2 ^ 32"
    using assms(3,4) by (simp add: KERNBASE_def word_le_nat_alt word_less_nat_alt)
  then have up: "oldsz \<le> PGROUNDUP oldsz" by (rule PGROUNDUP_ge)
  have "grown c pgdir ps s (in_range (PGROUNDUP oldsz) (PGROUNDUP oldsz)) s ps"
    using assms(1) by (intro grown_none) (auto simp: in_range_def)
  moreover have "spent pgdir {} ps s (in_range (PGROUNDUP oldsz) (PGROUNDUP oldsz)) s ps"
    by (intro spent_none) (auto simp: in_range_def)
  ultimately show ?thesis
    using allocuvm_loop_wp [OF assms(1,2,4,5) _ _ page_aligned_PGROUNDUP _ up, where f = "unat newsz div 4096 + 1"] assms(3,4)
    by (simp add: allocuvm_def in_range_def not_le [symmetric] del: allocuvm_loop.simps)
qed

section \<open>Properties\<close>

text \<open>A page directory without any entry, and two free pages.\<close>

definition demo_vm :: vmst where
  "demo_vm = kmem.extend (idle_kmem\<lparr>mem := st32 (\<lambda>_. 0) 0x80300000 0x80301000, freelist := 0x80300000\<rparr>)
     \<lparr>kpgdir = 0x80200000, data_addr = 0x80108000, klog = []\<rparr>"

lemma demo_vm_mem: "mem demo_vm = st32 (\<lambda>_. 0) 0x80300000 0x80301000"
  by (simp add: demo_vm_def kmem.defs)

lemma demo_vm_simps [simp]:
  "freelist demo_vm = 0x80300000" "kend demo_vm = 0x80110000"
  "kpage demo_vm p = kpage idle_kmem p"
  by (simp_all add: demo_vm_def kmem.defs idle_kmem_def kpage_def)

lemma demo_vm_page: "page_aligned p \<longleftrightarrow> p mod 4096 = 0" for p :: u32
  by (simp add: page_aligned_def PGSIZE_def)

lemma demo_vm_entry:
  assumes "i < 1024"
  shows "entry (mem demo_vm) 0x80200000 i = 0"
proof -
  have "entry (mem demo_vm) 0x80200000 i = entry (\<lambda>_. 0) 0x80200000 i"
    using assms by (intro entry_cong)
      (auto simp: demo_vm_page demo_vm_mem st32_page)
  then show ?thesis by (simp add: entry_def ld32_def)
qed

lemma demo_vm_tables [simp]: "tables (mem demo_vm) 0x80200000 = {0x80200000}" "mapping (mem demo_vm) 0x80200000 va = None"
  by (auto simp: tables_def mapping_def pt_at_def demo_vm_entry)

lemma user_inv_demo [simp]: "user_inv 0 demo_vm [0x80300000, 0x80301000] 0x80200000"
proof -
  have "kmem_inv 0 demo_vm [0x80300000, 0x80301000]"
  proof -
    have "ld32 (st32 (\<lambda>_. 0) 0x80300000 0x80301000) 0x80301000 = ld32 (\<lambda>_. 0 :: u8) 0x80301000"
      by (rule ld32_page_cong) (auto simp: demo_vm_page st32_page)
    then have "free_chain (mem demo_vm) (freelist demo_vm) [0x80300000, 0x80301000]"
      by (simp add: demo_vm_mem ld32_def [of "\<lambda>_. 0"])
    then show ?thesis
      by (simp add: kmem_inv_def)
         (simp add: demo_vm_def kmem.defs calm_def cpu_ok_def this_cpu_def find_idx_Some lock_free_def idle_kmem_def
           kpage_def demo_vm_page V2P_def KERNBASE_def PHYSTOP_def)
  qed
  moreover have "pdir_ok (mem demo_vm) 0x80200000"
    by (simp add: pdir_ok_def pt_at_def demo_vm_entry demo_vm_page)
  ultimately show ?thesis
    by (simp add: user_inv_def vm_inv_def frames_inj_def)
       (simp add: kpage_def idle_kmem_def demo_vm_page V2P_def KERNBASE_def PHYSTOP_def)
qed

text \<open>C39: \<open>mappages\<close> on a range of unmapped pages, from a sound page directory: either it returns 0 and every page
  of the range is mapped to its frame with the given permissions, or no free page is left for a page
  table and it returns -1 with a prefix of the range mapped. Mappings outside the range do not change,
  and the directory stays sound, its tables taken from the free list.\<close>

theorem mappages_correct:
  assumes "vm_inv c s ps pgdir" and "a = PGROUNDDOWN va" and "b = PGROUNDDOWN (va + sz - 1)"
    and "\<And>vb. PGROUNDDOWN vb - a \<le> b - a \<Longrightarrow> mapping (mem s) pgdir vb = None"
  shows "wp (mappages pgdir va sz pa perm s) (\<lambda>r t. \<exists>us ps'. ps = us @ ps' \<and> vm_inv c t ps' pgdir
    \<and> tables (mem t) pgdir = tables (mem s) pgdir \<union> set us
    \<and> (r = 0 \<and> (\<forall>vb. mapping (mem t) pgdir vb = (if PGROUNDDOWN vb - a \<le> b - a
           then Some ((pa + (PGROUNDDOWN vb - a)) OR perm OR PTE_P) else mapping (mem s) pgdir vb))
      \<or> r = - 1 \<and> ps' = [] \<and> (\<exists>e \<le> b - a. \<forall>vb. mapping (mem t) pgdir vb = (if PGROUNDDOWN vb - a < e
           then Some ((pa + (PGROUNDDOWN vb - a)) OR perm OR PTE_P) else mapping (mem s) pgdir vb))))"
proof (rule wp_mono [OF mappages_wp [OF assms(1), of va sz pa perm, folded assms(2,3)]])
  fix r t
  assume "loop_post c pgdir ps s a b pa perm r t"
  then show "\<exists>us ps'. ps = us @ ps' \<and> vm_inv c t ps' pgdir \<and> tables (mem t) pgdir = tables (mem s) pgdir \<union> set us
    \<and> (r = 0 \<and> (\<forall>vb. mapping (mem t) pgdir vb = (if PGROUNDDOWN vb - a \<le> b - a
           then Some ((pa + (PGROUNDDOWN vb - a)) OR perm OR PTE_P) else mapping (mem s) pgdir vb))
      \<or> r = - 1 \<and> ps' = [] \<and> (\<exists>e \<le> b - a. \<forall>vb. mapping (mem t) pgdir vb = (if PGROUNDDOWN vb - a < e
           then Some ((pa + (PGROUNDDOWN vb - a)) OR perm OR PTE_P) else mapping (mem s) pgdir vb)))"
    unfolding loop_post_def map_post_def target_def by blast
qed (fact assms(4))

theorem mappages_correct_witness:
  "wp (mappages 0x80200000 0x1000 0x2000 0x400000 6 demo_vm) (\<lambda>r t. \<exists>us ps'. [0x80300000, 0x80301000] = us @ ps'
    \<and> vm_inv 0 t ps' 0x80200000 \<and> tables (mem t) 0x80200000 = {0x80200000} \<union> set us
    \<and> (r = 0 \<and> mapping (mem t) 0x80200000 0x2004 = Some 0x401007 \<or> r = - 1 \<and> ps' = []))"
proof -
  have v: "vm_inv 0 demo_vm [0x80300000, 0x80301000] 0x80200000" using user_inv_demo by (simp add: user_inv_def del: user_inv_demo)
  have p: "PGROUNDDOWN 0x1000 = 0x1000" "PGROUNDDOWN (0x1000 + 0x2000 - 1) = 0x2000" "PGROUNDDOWN 0x2004 = 0x2000"
    by (simp_all add: PGROUNDDOWN_def PGSIZE_def)
  have e: "(0x401000 :: u32) OR 6 OR PTE_P = 0x401007" by (simp add: PTE_P_def)
  show ?thesis
    by (rule wp_mono [OF mappages_correct [OF v p(1,2) [symmetric], where pa = "0x400000" and perm = 6]])
       (auto simp: p e, blast+)
qed

text \<open>C37: \<open>allocuvm\<close> from a sound user address space, with the pages between the two sizes unmapped. A size in
  kernel space gives 0 and a smaller size gives the old one, with nothing changed. Otherwise let the
  pages needed be one for each page of the difference and one for each page table missing there. When
  that many pages are free it returns the new size: every page of the difference is mapped to its own
  zero-filled, writable user page, every page gone from the free list is one of these or one of the
  missing page tables, and all other mappings and the contents of all other pages are unchanged. When
  fewer are free it prints one of the two out-of-memory messages and returns 0: every mapping and the
  content of every user page is as before, and every page that was free is free again or is a page
  table, so that no page is lost.\<close>

theorem allocuvm_correct:
  assumes "user_inv c s ps pgdir" and "KERNBASE < kend s"
    and "\<And>va. in_range (PGROUNDUP oldsz) newsz va \<Longrightarrow> mapping (mem s) pgdir va = None"
  shows "wp (allocuvm pgdir oldsz newsz s) (\<lambda>r t.
     if KERNBASE \<le> newsz then r = 0 \<and> t = s
     else if newsz < oldsz then r = oldsz \<and> t = s
     else if pages_needed (mem s) pgdir (in_range (PGROUNDUP oldsz) newsz) \<le> length ps
     then r = newsz \<and> (\<exists>ps'. grown c pgdir ps s (in_range (PGROUNDUP oldsz) newsz) t ps'
        \<and> spent pgdir {} ps s (in_range (PGROUNDUP oldsz) newsz) t ps')
     else r = 0 \<and> (\<exists>msg \<in> {''allocuvm out of memory'', ''allocuvm out of memory (2)''}. \<exists>qs.
        undone c pgdir {} ps (klog_msg msg s) t qs))"
proof (cases "KERNBASE \<le> newsz \<or> newsz < oldsz")
  case True
  then show ?thesis by (auto simp: allocuvm_def)
next
  case False
  then have "oldsz \<le> newsz" "newsz < KERNBASE" by auto
  from allocuvm_wp [OF assms(1,2) this assms(3)] False show ?thesis by (simp add: alloc_result_def [abs_def] del: bex_simps)
qed

theorem allocuvm_correct_witness:
  "wp (allocuvm 0x80200000 0 0x1000 demo_vm) (\<lambda>r t. r = 0x1000
     \<and> (\<exists>ps'. grown 0 0x80200000 [0x80300000, 0x80301000] demo_vm (in_range 0 0x1000) t ps'))
   \<and> wp (allocuvm 0x80200000 0 0x3000 demo_vm) (\<lambda>r t. r = 0)"
proof -
  have p: "PGROUNDUP 0 = 0" "PGROUNDDOWN 0x1000 = 0x1000" "PGROUNDDOWN 0x2000 = 0x2000" "PGROUNDDOWN 0 = 0"
    by (simp_all add: PGROUNDUP_def PGROUNDDOWN_def PGSIZE_def)
  have one: "va < 0x1000" if "in_range 0 0x1000 va" for va
    using that by (simp add: in_range_def word_less_nat_alt unat_PGROUNDDOWN)
  have 1: "PGROUNDDOWN va = 0" "drop_bit 22 va = 0" if "in_range 0 0x1000 va" for va
    using one [OF that] by (simp_all add: word_unat_eq_iff unat_PGROUNDDOWN word_less_nat_alt unat_drop_bit_eq drop_bit_nat_def)
  have "PGROUNDDOWN ` {va. in_range 0 0x1000 va} \<subseteq> {0}" "PDX ` {va. in_range 0 0x1000 va} - covered (mem demo_vm) 0x80200000 \<subseteq> {0}"
    using 1 by (auto simp: PDX_def)
  from card_mono [OF _ this(1)] card_mono [OF _ this(2)]
  have one: "pages_needed (mem demo_vm) 0x80200000 (in_range 0 0x1000) \<le> 2" by (simp add: pages_needed_def)
  have "{0, 0x1000, 0x2000} \<subseteq> PGROUNDDOWN ` {va. in_range 0 0x3000 va}"
    using p by (auto simp: in_range_def image_iff intro: exI [of _ 0] exI [of _ "0x1000"] exI [of _ "0x2000"])
  from card_mono [OF _ this]
  have "\<not> pages_needed (mem demo_vm) 0x80200000 (in_range 0 0x3000) \<le> 2" by (simp add: pages_needed_def)
  with one allocuvm_correct [of 0 demo_vm "[0x80300000, 0x80301000]" "0x80200000" 0 "0x1000"]
    allocuvm_correct [of 0 demo_vm "[0x80300000, 0x80301000]" "0x80200000" 0 "0x3000"]
  show ?thesis by (auto simp: KERNBASE_def p elim!: wp_mono)
qed

text \<open>C38: \<open>deallocuvm\<close> from a sound user address space, shrinking it: it returns the new size, the pages
  between the rounded-up new size and the old one are unmapped, exactly their frames go back to the
  free list, and mappings and contents of all other pages are unchanged. Pages that were never
  mapped, as lazy allocation leaves them, are skipped.\<close>

theorem deallocuvm_correct:
  assumes "user_inv c s ps pgdir" and "KERNBASE < kend s" and "oldsz \<le> KERNBASE" and "newsz < oldsz"
  shows "wp (deallocuvm pgdir oldsz newsz s) (\<lambda>r t. r = newsz \<and> (\<exists>fs. user_inv c t (fs @ ps) pgdir
      \<and> set fs = frames (mem s) pgdir (in_range (PGROUNDUP newsz) oldsz)
      \<and> (\<forall>x. PGROUNDDOWN x \<notin> tables (mem s) pgdir \<longrightarrow> PGROUNDDOWN x \<notin> set fs \<longrightarrow> mem t x = mem s x))
    \<and> (\<forall>va. mapping (mem t) pgdir va =
         (if in_range (PGROUNDUP newsz) oldsz va then None else mapping (mem s) pgdir va)))"
  by (rule wp_mono [OF deallocuvm_wp [OF assms]]) (auto simp: dealloc_post_def)

theorem deallocuvm_correct_witness:
  "wp (deallocuvm 0x80200000 0x3000 0x800 demo_vm) (\<lambda>r t. r = 0x800 \<and> mapping (mem t) 0x80200000 0x1000 = None
    \<and> (\<exists>fs. user_inv 0 t (fs @ [0x80300000, 0x80301000]) 0x80200000))"
  by (rule wp_mono [OF deallocuvm_correct [of 0 demo_vm "[0x80300000, 0x80301000]" "0x80200000" "0x3000" "0x800"]])
     (auto simp: KERNBASE_def)

end
