(* ===== verification/Proc.thy ===== *)
theory Proc
  imports Vm
begin

text \<open>
  Processes and scheduling: the process table of \<open>proc.h\<close>/\<open>proc.c\<close>, its ten priority queues, and the
  operations that move processes between states. Pointers to processes are indices into the
  table (\<open>None\<close> for null). A context switch (\<open>swtch\<close>) ends one operation and starts another, so a
  function that switches is modelled by two definitions: up to the switch (\<open>_enter\<close>,
  \<open>scheduler_pick\<close>) and from the moment control comes back (\<open>_resume\<close>).
\<close>

section \<open>State\<close>

definition NPROC :: nat where "NPROC = 64"
definition NPRIO :: nat where "NPRIO = 10"
definition KSTACKSIZE :: u32 where "KSTACKSIZE = 4096"
definition NOFILE :: nat where "NOFILE = 16"

datatype procstate = UNUSED | EMBRYO | SLEEPING | RUNNABLE | RUNNING | ZOMBIE

record proc =
  p_sz :: u32
  p_pgdir :: u32
  p_kstack :: u32
  p_state :: procstate
  p_pid :: u32
  p_parent :: "nat option"
  p_tf :: u32
  p_context :: u32
  p_chan :: "chan option"
  p_killed :: bool
  p_ofile :: "nat \<Rightarrow> nat option"
  p_cwd :: "nat option"
  p_name :: "u8 list"
  p_status :: u32
  p_prio :: u32
  p_sigprio :: "nat option"

record priotable =
  primero :: "nat option"
  ultimo :: "nat option"

text \<open>\<open>trapret_addr\<close> and \<open>forkret_addr\<close> are the addresses of the two entry points that \<open>allocproc\<close> puts on
  a new kernel stack.\<close>

record ptab = vmst +
  procs :: "nat \<Rightarrow> proc"
  priot :: "nat \<Rightarrow> priotable"
  initproc :: "nat option"
  nextpid :: u32
  trapret_addr :: u32
  forkret_addr :: u32

definition upd_proc :: "nat \<Rightarrow> (proc \<Rightarrow> proc) \<Rightarrow> 'a ptab_scheme \<Rightarrow> 'a ptab_scheme" where
  "upd_proc p f s = s\<lparr>procs := (procs s)(p := f (procs s p))\<rparr>"

definition upd_prio :: "nat \<Rightarrow> (priotable \<Rightarrow> priotable) \<Rightarrow> 'a ptab_scheme \<Rightarrow> 'a ptab_scheme" where
  "upd_prio i f s = s\<lparr>priot := (priot s)(i := f (priot s i))\<rparr>"

definition upd_cpu :: "nat \<Rightarrow> (cpu \<Rightarrow> cpu) \<Rightarrow> 'a machine_scheme \<Rightarrow> 'a machine_scheme" where
  "upd_cpu c f s = s\<lparr>cpus := (cpus s)(c := f (cpus s c))\<rparr>"

section \<open>Priority queues\<close>

definition insertProc :: "nat \<Rightarrow> u32 \<Rightarrow> 'a ptab_scheme \<Rightarrow> (int, 'a ptab_scheme) outcome" where
  "insertProc proc prio s =
     (let prt = unat prio in
      if prt \<ge> NPRIO then Fault ''ptable.priotable index''
      else case ultimo (priot s prt) of
        None \<Rightarrow>
          let s = upd_prio prt (primero_update (\<lambda>_. Some proc)) s;
              s = upd_prio prt (ultimo_update (\<lambda>_. Some proc)) s;
              s = upd_proc proc (p_sigprio_update (\<lambda>_. None)) s
          in Ret 1 s
      | Some tmp \<Rightarrow>
          let s = upd_proc tmp (p_sigprio_update (\<lambda>_. Some proc)) s;
              s = upd_prio prt (ultimo_update (\<lambda>_. Some proc)) s;
              s = upd_proc proc (p_sigprio_update (\<lambda>_. None)) s
          in Ret 1 s)"

definition quitarProc :: "nat \<Rightarrow> u32 \<Rightarrow> 'a ptab_scheme \<Rightarrow> (int, 'a ptab_scheme) outcome" where
  "quitarProc proc prio s =
     (let prt = unat prio in
      if prt \<ge> NPRIO then Fault ''ptable.priotable index''
      else if primero (priot s prt) \<noteq> Some proc then Ret 0 s
      else
        let tmp2 = p_sigprio (procs s proc);
            s = upd_prio prt (primero_update (\<lambda>_. tmp2)) s;
            s = upd_proc proc (p_sigprio_update (\<lambda>_. None)) s;
            s = (if ultimo (priot s prt) = Some proc then upd_prio prt (ultimo_update (\<lambda>_. None)) s else s)
        in Ret 1 s)"

definition getProcbyPID :: "u32 \<Rightarrow> 'a ptab_scheme \<Rightarrow> (nat option, 'a ptab_scheme) outcome" where
  "getProcbyPID pid s =
     then_do (acquire PtableLock s) (\<lambda>_ s.
     case find_idx (\<lambda>p. p_pid (procs s p) = pid) NPROC of
       None \<Rightarrow> Ret None s
     | Some p \<Rightarrow> then_do (release PtableLock s) (\<lambda>_ s. Ret (Some p) s))"

text \<open>The loop of \<open>setNewPrio\<close> that walks to \<open>p\<close>; it returns \<open>anterior\<close>.\<close>

fun setNewPrio_walk ::
  "nat \<Rightarrow> nat option \<Rightarrow> nat option \<Rightarrow> nat \<Rightarrow> 'a ptab_scheme \<Rightarrow> (nat option, 'a ptab_scheme) outcome" where
  "setNewPrio_walk 0 anterior actual p s = Diverge"
| "setNewPrio_walk (Suc fuel) anterior actual p s =
     (if actual = Some p then Ret anterior s
      else case actual of
        None \<Rightarrow> Fault ''setNewPrio: actual->sigprio''
      | Some a \<Rightarrow> setNewPrio_walk fuel (Some a) (p_sigprio (procs s a)) p s)"

definition setNewPrio :: "nat \<Rightarrow> u32 \<Rightarrow> 'a ptab_scheme \<Rightarrow> (int, 'a ptab_scheme) outcome" where
  "setNewPrio p prio s =
     (let prt = unat (p_prio (procs s p)) in
      then_do (acquire PtableLock s) (\<lambda>_ s.
      if prt \<ge> NPRIO then Fault ''ptable.priotable index''
      else if primero (priot s prt) = Some p then
        then_do (quitarProc p (p_prio (procs s p)) s) (\<lambda>_ s.
        then_do (insertProc p prio s) (\<lambda>_ s.
        let s = upd_proc p (p_prio_update (\<lambda>_. prio)) s in
        then_do (release PtableLock s) (\<lambda>_ s. Ret 1 s)))
      else case primero (priot s prt) of
        None \<Rightarrow> Fault ''setNewPrio: prt->primero->sigprio''
      | Some first \<Rightarrow>
        then_do (setNewPrio_walk (Suc NPROC) (p_sigprio (procs s first)) (Some first) p s) (\<lambda>anterior s.
        case anterior of
          None \<Rightarrow> Fault ''setNewPrio: anterior->sigprio''
        | Some anterior \<Rightarrow>
          let actual = p;
              s = upd_proc anterior (p_sigprio_update (\<lambda>_. p_sigprio (procs s actual))) s;
              s = (if p_sigprio (procs s anterior) = None
                   then upd_prio prt (ultimo_update (\<lambda>_. p_sigprio (procs s anterior))) s else s);
              s = upd_proc actual (p_sigprio_update (\<lambda>_. None)) s;
              s = upd_proc actual (p_prio_update (\<lambda>_. prio)) s in
          then_do (insertProc p (p_prio (procs s actual)) s) (\<lambda>_ s.
          then_do (release PtableLock s) (\<lambda>_ s. Ret 1 s)))))"

section \<open>Processes\<close>

definition pinit :: "'a ptab_scheme \<Rightarrow> 'a ptab_scheme" where
  "pinit s = initlock PtableLock s"

definition myproc :: "'a machine_scheme \<Rightarrow> (nat option, 'a machine_scheme) outcome" where
  "myproc s =
     then_do (pushcli s) (\<lambda>_ s.
     then_do (mycpu s) (\<lambda>c s.
     let p = cpu_proc (cpus s c) in
     then_do (popcli s) (\<lambda>_ s. Ret p s)))"

text \<open>Sizes of \<open>struct trapframe\<close> and \<open>struct context\<close>, and the offset of \<open>eip\<close> in the latter.\<close>

definition sizeof_trapframe :: u32 where "sizeof_trapframe = 76"
definition sizeof_context :: u32 where "sizeof_context = 20"
definition context_eip :: u32 where "context_eip = 16"

definition allocproc :: "'a ptab_scheme \<Rightarrow> (nat option, 'a ptab_scheme) outcome" where
  "allocproc s =
     then_do (acquire PtableLock s) (\<lambda>_ s.
     case find_idx (\<lambda>p. p_state (procs s p) = UNUSED) NPROC of
       None \<Rightarrow> then_do (release PtableLock s) (\<lambda>_ s. Ret None s)
     | Some p \<Rightarrow>
       let s = upd_proc p (p_state_update (\<lambda>_. EMBRYO)) s;
           s = upd_proc p (p_pid_update (\<lambda>_. nextpid s)) s;
           s = s\<lparr>nextpid := nextpid s + 1\<rparr>;
           s = upd_proc p (p_prio_update (\<lambda>_. 5)) s in
       then_do (release PtableLock s) (\<lambda>_ s.
       then_do (kalloc s) (\<lambda>k s.
       let s = upd_proc p (p_kstack_update (\<lambda>_. k)) s in
       if k = 0 then Ret None (upd_proc p (p_state_update (\<lambda>_. UNUSED)) s)
       else
         let sp = k + KSTACKSIZE;
             sp = sp - sizeof_trapframe;
             s = upd_proc p (p_tf_update (\<lambda>_. sp)) s;
             sp = sp - 4;
             s = s\<lparr>mem := st32 (mem s) sp (trapret_addr s)\<rparr>;
             sp = sp - sizeof_context;
             s = upd_proc p (p_context_update (\<lambda>_. sp)) s;
             s = s\<lparr>mem := memset (mem s) sp 0 sizeof_context\<rparr>;
             s = s\<lparr>mem := st32 (mem s) (sp + context_eip) (forkret_addr s)\<rparr>
         in Ret (Some p) s)))"

text \<open>Of the task state only the kernel stack pointer is modelled, not the segment descriptors.\<close>

definition switchuvm :: "nat option \<Rightarrow> 'a ptab_scheme \<Rightarrow> (unit, 'a ptab_scheme) outcome" where
  "switchuvm pp s =
     (case pp of
        None \<Rightarrow> Panic ''switchuvm: no process''
      | Some p \<Rightarrow>
        if p_kstack (procs s p) = 0 then Panic ''switchuvm: no kstack''
        else if p_pgdir (procs s p) = 0 then Panic ''switchuvm: no pgdir''
        else then_do (pushcli s) (\<lambda>_ s.
          then_do (mycpu s) (\<lambda>c s.
          let s = upd_cpu c (cpu_esp0_update (\<lambda>_. p_kstack (procs s p) + KSTACKSIZE)) s;
              s = s\<lparr>cr3 := V2P (p_pgdir (procs s p))\<rparr> in
          popcli s)))"

section \<open>Scheduling\<close>

fun scheduler_scan :: "nat \<Rightarrow> nat list \<Rightarrow> 'a ptab_scheme \<Rightarrow> (nat option, 'a ptab_scheme) outcome" where
  "scheduler_scan c [] s = Ret None s"
| "scheduler_scan c (pi # pis) s =
     (case primero (priot s pi) of
        None \<Rightarrow> scheduler_scan c pis s
      | Some p \<Rightarrow>
        if p_state (procs s p) \<noteq> RUNNABLE then scheduler_scan c pis s
        else
          let s = upd_cpu c (cpu_proc_update (\<lambda>_. Some p)) s in
          then_do (switchuvm (Some p) s) (\<lambda>_ s.
          let s = upd_proc p (p_state_update (\<lambda>_. RUNNING)) s in
          then_do (quitarProc p (p_prio (procs s p)) s) (\<lambda>_ s.
          Ret (Some p) s)))"

text \<open>What \<open>scheduler\<close> does before its endless loop; the result is the local variable \<open>c\<close>.\<close>

definition scheduler_start :: "'a ptab_scheme \<Rightarrow> (nat, 'a ptab_scheme) outcome" where
  "scheduler_start s =
     then_do (mycpu s) (\<lambda>c s. Ret c (upd_cpu c (cpu_proc_update (\<lambda>_. None)) s))"

text \<open>One round of \<open>scheduler\<close> on CPU \<open>c\<close>: either it switches to the process returned, still holding
  \<open>ptable.lock\<close>, or it finds nothing to run and releases the lock. \<open>scheduler_resume\<close> is what the
  scheduler does when the process has switched back to it.\<close>

definition scheduler_pick :: "nat \<Rightarrow> 'a ptab_scheme \<Rightarrow> (nat option, 'a ptab_scheme) outcome" where
  "scheduler_pick c s =
     then_do (acquire PtableLock (sti s)) (\<lambda>_ s.
     then_do (scheduler_scan c [0..<NPRIO] s) (\<lambda>r s.
     case r of
       None \<Rightarrow> then_do (release PtableLock s) (\<lambda>_ s. Ret None s)
     | Some p \<Rightarrow> Ret (Some p) s))"

definition scheduler_resume :: "nat \<Rightarrow> 'a ptab_scheme \<Rightarrow> (unit, 'a ptab_scheme) outcome" where
  "scheduler_resume c s =
     (let s = switchkvm s;
          s = upd_cpu c (cpu_proc_update (\<lambda>_. None)) s
      in release PtableLock s)"

text \<open>\<open>sched\<close> up to its \<open>swtch\<close>; the result is the local variable \<open>intena\<close>.\<close>

definition sched_enter :: "'a ptab_scheme \<Rightarrow> (bool, 'a ptab_scheme) outcome" where
  "sched_enter s =
     then_do (myproc s) (\<lambda>p s.
     then_do (holding PtableLock s) (\<lambda>h s.
     if \<not> h then Panic ''sched ptable.lock''
     else then_do (mycpu s) (\<lambda>c s.
       if cpu_ncli (cpus s c) \<noteq> 1 then Panic ''sched locks''
       else case p of
         None \<Rightarrow> Fault ''sched: p->state''
       | Some p \<Rightarrow>
         if p_state (procs s p) = RUNNING then Panic ''sched running''
         else if readeflags_if s then Panic ''sched interruptible''
         else Ret (cpu_intena (cpus s c)) s)))"

definition sched_resume :: "bool \<Rightarrow> 'a ptab_scheme \<Rightarrow> (unit, 'a ptab_scheme) outcome" where
  "sched_resume intena s =
     then_do (mycpu s) (\<lambda>c s. Ret () (upd_cpu c (cpu_intena_update (\<lambda>_. intena)) s))"

definition yield_enter :: "'a ptab_scheme \<Rightarrow> (bool, 'a ptab_scheme) outcome" where
  "yield_enter s =
     then_do (acquire PtableLock s) (\<lambda>_ s.
     then_do (myproc s) (\<lambda>p s.
     case p of
       None \<Rightarrow> Fault ''yield: myproc()->state''
     | Some p \<Rightarrow>
       let s = upd_proc p (p_state_update (\<lambda>_. RUNNABLE)) s in
       then_do (myproc s) (\<lambda>p1 s.
       then_do (myproc s) (\<lambda>p2 s.
       then_do (case (p1, p2) of
                  (Some p1, Some p2) \<Rightarrow> insertProc p1 (p_prio (procs s p2)) s
                | _ \<Rightarrow> Fault ''yield: myproc()->prio'') (\<lambda>_ s.
       sched_enter s)))))"

definition yield_resume :: "bool \<Rightarrow> 'a ptab_scheme \<Rightarrow> (unit, 'a ptab_scheme) outcome" where
  "yield_resume intena s = then_do (sched_resume intena s) (\<lambda>_ s. release PtableLock s)"

definition sleep_enter :: "chan \<Rightarrow> lockid \<Rightarrow> 'a ptab_scheme \<Rightarrow> (bool, 'a ptab_scheme) outcome" where
  "sleep_enter chan lk s =
     then_do (myproc s) (\<lambda>p s.
     case p of
       None \<Rightarrow> Panic ''sleep''
     | Some p \<Rightarrow>
       then_do (if lk \<noteq> PtableLock
                then then_do (acquire PtableLock s) (\<lambda>_ s. release lk s)
                else Ret () s) (\<lambda>_ s.
       let s = upd_proc p (p_chan_update (\<lambda>_. Some chan)) s;
           s = upd_proc p (p_state_update (\<lambda>_. SLEEPING)) s in
       sched_enter s))"

definition sleep_resume :: "nat \<Rightarrow> bool \<Rightarrow> lockid \<Rightarrow> 'a ptab_scheme \<Rightarrow> (unit, 'a ptab_scheme) outcome" where
  "sleep_resume p intena lk s =
     then_do (sched_resume intena s) (\<lambda>_ s.
     let s = upd_proc p (p_chan_update (\<lambda>_. None)) s in
     if lk \<noteq> PtableLock
     then then_do (release PtableLock s) (\<lambda>_ s. acquire lk s)
     else Ret () s)"

text \<open>A lock is always an object of \<^typ>\<open>lockid\<close>, so the check \<open>lk == 0\<close> has no branch here. A call of
  \<open>sleep\<close> as its callers see it: the caller is suspended on the channel.\<close>

definition ksleep :: "chan \<Rightarrow> lockid \<Rightarrow> 'a ptab_scheme \<Rightarrow> ('b, 'a ptab_scheme) outcome" where
  "ksleep chan lk s = then_do (sleep_enter chan lk s) (\<lambda>_ s. Sleep chan s)"

text \<open>The channel of \<open>wakeup1\<close> may be null: \<open>exit\<close> passes \<open>curproc->parent\<close>.\<close>

definition wakeup1 :: "chan option \<Rightarrow> 'a ptab_scheme \<Rightarrow> (unit, 'a ptab_scheme) outcome" where
  "wakeup1 chan s =
     for_each (\<lambda>p s.
       if p_state (procs s p) = SLEEPING \<and> p_chan (procs s p) = chan then
         let s = upd_proc p (p_state_update (\<lambda>_. RUNNABLE)) s in
         then_do (insertProc p (p_prio (procs s p)) s) (\<lambda>_ s. Ret () s)
       else Ret () s) [0..<NPROC] s"

definition wakeup :: "chan \<Rightarrow> 'a ptab_scheme \<Rightarrow> (unit, 'a ptab_scheme) outcome" where
  "wakeup chan s =
     then_do (acquire PtableLock s) (\<lambda>_ s.
     then_do (wakeup1 (Some chan) s) (\<lambda>_ s.
     release PtableLock s))"

definition kill :: "u32 \<Rightarrow> 'a ptab_scheme \<Rightarrow> (int, 'a ptab_scheme) outcome" where
  "kill pid s =
     then_do (acquire PtableLock s) (\<lambda>_ s.
     case find_idx (\<lambda>p. p_pid (procs s p) = pid) NPROC of
       None \<Rightarrow> then_do (release PtableLock s) (\<lambda>_ s. Ret (- 1) s)
     | Some p \<Rightarrow>
       let s = upd_proc p (p_killed_update (\<lambda>_. True)) s in
       then_do (if p_state (procs s p) = SLEEPING then
                  let s = upd_proc p (p_state_update (\<lambda>_. RUNNABLE)) s in
                  insertProc p (p_prio (procs s p)) s
                else Ret 0 s) (\<lambda>_ s.
       then_do (release PtableLock s) (\<lambda>_ s. Ret 0 s)))"

end
