(* ===== verification/Prioqueue.thy ===== *)
theory Prioqueue
  imports Proc
begin

text \<open>
  The ten priority queues of \<open>proc.c\<close> as lists. \<open>queues_rep s Q\<close> says that the links \<open>primero\<close>,
  \<open>ultimo\<close> and \<open>sigprio\<close> of state \<open>s\<close> represent the family of lists \<open>Q\<close>; \<open>insertProc\<close> is then an append
  at the end and \<open>quitarProc\<close> the removal of the head. The locale \<open>fifo_queues\<close> states this as an
  interface, from which first-in-first-out order follows; it is interpreted on the two functions.
  Last come the two ways \<open>setNewPrio\<close> goes: the repositioning it is meant for, and the removal of
  the last element of a queue, after which the queue loses its members.
\<close>

section \<open>Representation\<close>

primrec qchain :: "(nat \<Rightarrow> proc) \<Rightarrow> nat option \<Rightarrow> nat list \<Rightarrow> bool" where
  "qchain f h [] \<longleftrightarrow> h = None"
| "qchain f h (x # xs) \<longleftrightarrow> h = Some x \<and> qchain f (p_sigprio (f x)) xs"

definition queue_rep :: "(nat \<Rightarrow> proc) \<Rightarrow> priotable \<Rightarrow> nat list \<Rightarrow> bool" where
  "queue_rep f t xs \<longleftrightarrow> qchain f (primero t) xs
     \<and> ultimo t = (if xs = [] then None else Some (last xs)) \<and> distinct xs"

definition queues_rep :: "'a ptab_scheme \<Rightarrow> (nat \<Rightarrow> nat list) \<Rightarrow> bool" where
  "queues_rep s Q \<longleftrightarrow> (\<forall>i < NPRIO. queue_rep (procs s) (priot s i) (Q i))
     \<and> (\<forall>i < NPRIO. \<forall>j < NPRIO. i \<noteq> j \<longrightarrow> set (Q i) \<inter> set (Q j) = {})"

definition enqueued :: "(nat \<Rightarrow> nat list) \<Rightarrow> nat \<Rightarrow> bool" where
  "enqueued Q p \<longleftrightarrow> (\<exists>i < NPRIO. p \<in> set (Q i))"

text \<open>All that a queue operation changes: queue heads and tails, and the \<open>sigprio\<close> links.\<close>

definition links_only :: "'a ptab_scheme \<Rightarrow> 'a ptab_scheme \<Rightarrow> bool" where
  "links_only s t \<longleftrightarrow> t = s\<lparr>procs := procs t, priot := priot t\<rparr>
     \<and> (\<forall>q. procs t q = (procs s q)\<lparr>p_sigprio := p_sigprio (procs t q)\<rparr>)"

lemma links_only_refl [simp]: "links_only s s"
  by (simp add: links_only_def)

lemma links_only_proc:
  assumes "links_only s t"
  shows "p_state (procs t q) = p_state (procs s q)" "p_prio (procs t q) = p_prio (procs s q)"
    "p_pid (procs t q) = p_pid (procs s q)" "p_chan (procs t q) = p_chan (procs s q)"
    "p_killed (procs t q) = p_killed (procs s q)" "p_parent (procs t q) = p_parent (procs s q)"
    "p_kstack (procs t q) = p_kstack (procs s q)" "p_pgdir (procs t q) = p_pgdir (procs s q)"
proof -
  from assms have "procs t q = (procs s q)\<lparr>p_sigprio := p_sigprio (procs t q)\<rparr>"
    by (simp add: links_only_def)
  from arg_cong [OF this, of p_state] arg_cong [OF this, of p_prio] arg_cong [OF this, of p_pid]
    arg_cong [OF this, of p_chan] arg_cong [OF this, of p_killed] arg_cong [OF this, of p_parent]
    arg_cong [OF this, of p_kstack] arg_cong [OF this, of p_pgdir]
  show "p_state (procs t q) = p_state (procs s q)" "p_prio (procs t q) = p_prio (procs s q)"
    "p_pid (procs t q) = p_pid (procs s q)" "p_chan (procs t q) = p_chan (procs s q)"
    "p_killed (procs t q) = p_killed (procs s q)" "p_parent (procs t q) = p_parent (procs s q)"
    "p_kstack (procs t q) = p_kstack (procs s q)" "p_pgdir (procs t q) = p_pgdir (procs s q)"
    by simp_all
qed

lemma links_only_rest:
  assumes "links_only s t"
  shows "cpus t = cpus s" "locks t = locks s" "mem t = mem s" "lapicid t = lapicid s" "ncpu t = ncpu s"
    "eflags_if t = eflags_if s" "nextpid t = nextpid s" "initproc t = initproc s" "freelist t = freelist s"
    "use_lock t = use_lock s" "kend t = kend s" "cr3 t = cr3 s"
proof -
  from assms have "t = s\<lparr>procs := procs t, priot := priot t\<rparr>" by (simp add: links_only_def)
  then obtain f g where "t = s\<lparr>procs := f, priot := g\<rparr>" by blast
  then show "cpus t = cpus s" "locks t = locks s" "mem t = mem s" "lapicid t = lapicid s" "ncpu t = ncpu s"
    "eflags_if t = eflags_if s" "nextpid t = nextpid s" "initproc t = initproc s" "freelist t = freelist s"
    "use_lock t = use_lock s" "kend t = kend s" "cr3 t = cr3 s"
    by simp_all
qed

lemma links_only_trans:
  assumes "links_only s t" and "links_only t u"
  shows "links_only s u"
proof -
  from assms obtain f g f' g' where
    t: "t = s\<lparr>procs := f, priot := g\<rparr>" and u: "u = t\<lparr>procs := f', priot := g'\<rparr>"
    unfolding links_only_def by blast
  have "procs u q = (procs s q)\<lparr>p_sigprio := p_sigprio (procs u q)\<rparr>" for q
  proof -
    have "procs u q = (procs t q)\<lparr>p_sigprio := p_sigprio (procs u q)\<rparr>"
      "procs t q = (procs s q)\<lparr>p_sigprio := p_sigprio (procs t q)\<rparr>"
      using assms by (auto simp: links_only_def)
    then show ?thesis by (metis proc.update_convs(16) proc.surjective)
  qed
  with t u show ?thesis by (simp add: links_only_def)
qed

lemma qchain_cong:
  "(\<And>x. x \<in> set xs \<Longrightarrow> p_sigprio (f x) = p_sigprio (g x)) \<Longrightarrow> qchain f h xs = qchain g h xs"
  by (induction xs arbitrary: h) auto

lemma qchain_upd_other [simp]: "x \<notin> set xs \<Longrightarrow> qchain (f(x := v)) h xs = qchain f h xs"
  by (rule qchain_cong) auto

lemma last_notin_butlast: "distinct xs \<Longrightarrow> last xs \<in> set (butlast xs) \<Longrightarrow> False"
  by (induction xs) (auto split: if_splits)

lemma qchain_append:
  assumes "qchain f h xs" and "distinct xs" and "xs \<noteq> []" and "p \<notin> set xs"
    and "p_sigprio (g (last xs)) = Some p" and "p_sigprio (g p) = None"
    and "\<And>x. x \<in> set (butlast xs) \<Longrightarrow> p_sigprio (g x) = p_sigprio (f x)"
  shows "qchain g h (xs @ [p])"
  using assms
proof (induction xs arbitrary: h)
  case (Cons x xs)
  show ?case
  proof (cases "xs = []")
    case False
    with Cons.prems have "qchain g (p_sigprio (f x)) (xs @ [p])"
      by (intro Cons.IH) auto
    with Cons.prems False show ?thesis by auto
  qed (use Cons.prems in auto)
qed simp

lemma queue_rep_cong:
  "(\<And>x. x \<in> set xs \<Longrightarrow> p_sigprio (f x) = p_sigprio (g x)) \<Longrightarrow> queue_rep f t xs = queue_rep g t xs"
  unfolding queue_rep_def using qchain_cong [of xs f g] by auto

lemma queue_rep_upd_other [simp]: "x \<notin> set xs \<Longrightarrow> queue_rep (f(x := v)) t xs = queue_rep f t xs"
  by (rule queue_rep_cong) auto

text \<open>The representation only reads links, so it survives a change of any other part of the state.\<close>

lemma queues_rep_cong:
  assumes "priot t = priot s" and "\<And>q. p_sigprio (procs t q) = p_sigprio (procs s q)"
  shows "queues_rep t Q = queues_rep s Q"
  using assms(1) queue_rep_cong [of _ "procs t" "procs s"] assms(2) by (simp add: queues_rep_def)

section \<open>Refinement\<close>

lemma insertProc_refines:
  assumes Q: "queues_rep s Q" and i: "unat prio < NPRIO" and p: "\<not> enqueued Q p"
  shows "wp (insertProc p prio s) (\<lambda>r t. r = 1 \<and> links_only s t
    \<and> queues_rep t (Q(unat prio := Q (unat prio) @ [p])))"
proof -
  let ?i = "unat prio"
  have qi: "queue_rep (procs s) (priot s ?i) (Q ?i)" using Q i by (simp add: queues_rep_def)
  have notin: "p \<notin> set (Q j)" if "j < NPRIO" for j using p that by (auto simp: enqueued_def)
  have dis: "set (Q j) \<inter> set (Q k) = {}" if "j < NPRIO" "k < NPRIO" "j \<noteq> k" for j k
    using Q that by (simp add: queues_rep_def)
  show ?thesis
  proof (cases "ultimo (priot s ?i)")
    case None
    then have e: "Q ?i = []" using qi by (auto simp: queue_rep_def split: if_splits)
    let ?f = "(procs s)(p := (procs s p)\<lparr>p_sigprio := None\<rparr>)"
    have "queue_rep ?f (priot s j) (Q j)" if "j < NPRIO" for j
      using Q that notin [OF that] by (simp add: queues_rep_def)
    moreover have "queue_rep ?f \<lparr>primero = Some p, ultimo = Some p\<rparr> [p]" by (simp add: queue_rep_def)
    ultimately show ?thesis
      using None i e notin dis
      by (auto simp: insertProc_def Let_def upd_prio_def upd_proc_def links_only_def queues_rep_def queue_rep_def)
  next
    case (Some l)
    then have ne: "Q ?i \<noteq> []" and l: "l = last (Q ?i)"
      using qi by (auto simp: queue_rep_def split: if_splits)
    have lp: "l \<noteq> p" using ne l notin [OF i] by auto
    let ?f = "(procs s)(l := (procs s l)\<lparr>p_sigprio := Some p\<rparr>, p := (procs s p)\<lparr>p_sigprio := None\<rparr>)"
    have "queue_rep ?f (priot s j) (Q j)" if "j < NPRIO" "j \<noteq> ?i" for j
    proof -
      have "l \<notin> set (Q j)" using dis [OF that(1) i that(2)] ne l by auto
      then show ?thesis
        using Q that notin [OF that(1)] by (simp add: queues_rep_def)
    qed
    moreover have "qchain ?f (primero (priot s ?i)) (Q ?i @ [p])"
      using qi ne notin [OF i] lp l
      by (intro qchain_append [of "procs s"])
         (auto simp: queue_rep_def dest: in_set_butlastD last_notin_butlast)
    ultimately show ?thesis
      using Some i ne notin dis qi lp
      by (auto simp: insertProc_def Let_def upd_prio_def upd_proc_def links_only_def queues_rep_def queue_rep_def)
  qed
qed

lemma quitarProc_refines:
  assumes Q: "queues_rep s Q" and i: "unat prio < NPRIO" and p: "Q (unat prio) = p # xs"
  shows "wp (quitarProc p prio s) (\<lambda>r t. r = 1 \<and> links_only s t \<and> queues_rep t (Q(unat prio := xs)))"
proof -
  let ?i = "unat prio"
  have qi: "queue_rep (procs s) (priot s ?i) (p # xs)" using Q i p by (auto simp: queues_rep_def)
  have dis: "set (Q j) \<inter> set (Q k) = {}" if "j < NPRIO" "k < NPRIO" "j \<noteq> k" for j k
    using Q that by (simp add: queues_rep_def)
  let ?f = "(procs s)(p := (procs s p)\<lparr>p_sigprio := None\<rparr>)"
  have others: "queue_rep ?f (priot s j) (Q j)" if "j < NPRIO" "j \<noteq> ?i" for j
  proof -
    have "p \<notin> set (Q j)" using dis [OF that(1) i that(2)] p by auto
    then show ?thesis using Q that by (simp add: queues_rep_def)
  qed
  have "qchain ?f (p_sigprio (procs s p)) xs"
    using qi by (simp add: queue_rep_def)
  moreover have "set xs \<inter> set (Q j) = {}" if "j < NPRIO" "j \<noteq> ?i" for j
    using dis [OF i that(1)] that(2) p by auto
  ultimately show ?thesis
    using i p qi others dis
    by (auto simp: quitarProc_def Let_def upd_prio_def upd_proc_def links_only_def queues_rep_def queue_rep_def)
qed

lemma quitarProc_not_first:
  assumes Q: "queues_rep s Q" and i: "unat prio < NPRIO" and "\<And>xs. Q (unat prio) \<noteq> p # xs"
  shows "quitarProc p prio s = Ret 0 s"
proof -
  have "qchain (procs s) (primero (priot s (unat prio))) (Q (unat prio))"
    using Q i by (simp add: queues_rep_def queue_rep_def)
  with assms(3) i show ?thesis
    by (cases "Q (unat prio)") (auto simp: quitarProc_def Let_def)
qed

section \<open>The queue interface\<close>

locale fifo_queues =
  fixes ins :: "nat \<Rightarrow> u32 \<Rightarrow> 's \<Rightarrow> (int, 's) outcome"
    and del :: "nat \<Rightarrow> u32 \<Rightarrow> 's \<Rightarrow> (int, 's) outcome"
    and rep :: "'s \<Rightarrow> (nat \<Rightarrow> nat list) \<Rightarrow> bool"
  assumes ins_law: "rep s Q \<Longrightarrow> unat i < NPRIO \<Longrightarrow> \<not> enqueued Q p
      \<Longrightarrow> wp (ins p i s) (\<lambda>r t. r = 1 \<and> rep t (Q(unat i := Q (unat i) @ [p])))"
    and del_law: "rep s Q \<Longrightarrow> unat i < NPRIO \<Longrightarrow> Q (unat i) = p # xs
      \<Longrightarrow> wp (del p i s) (\<lambda>r t. r = 1 \<and> rep t (Q(unat i := xs)))"
begin

lemma ins_all_appends:
  assumes "rep s Q" and "unat i < NPRIO" and "distinct ps" and "\<forall>p \<in> set ps. \<not> enqueued Q p"
  shows "wp (for_each (\<lambda>p s. then_do (ins p i s) (\<lambda>_ s. Ret () s)) ps s)
    (\<lambda>_ t. rep t (Q(unat i := Q (unat i) @ ps)))" (is "wp (?f ps s) _")
  using assms
proof (induction ps arbitrary: s Q)
  case Nil
  then show ?case by (simp del: fun_upd_apply)
next
  case (Cons p ps)
  have rest: "wp (?f ps t) (\<lambda>_ u. rep u (Q(unat i := Q (unat i) @ p # ps)))"
    if r: "r = (1::int) \<and> rep t (Q(unat i := Q (unat i) @ [p]))" for r t
  proof -
    have "\<forall>q \<in> set ps. \<not> enqueued (Q(unat i := Q (unat i) @ [p])) q"
      using Cons.prems by (auto simp: enqueued_def)
    from Cons.IH [OF conjunct2 [OF r] Cons.prems(2) _ this] Cons.prems(3) show ?thesis
      by (simp only: distinct.simps fun_upd_upd fun_upd_same append_assoc append.simps simp_thms)
  qed
  have "\<not> enqueued Q p" using Cons.prems(4) by simp
  from wp_mono [OF ins_law [OF Cons.prems(1,2) this] rest] show ?case
    unfolding for_each.simps wp_then_do wp.simps .
qed

lemma del_all_drains:
  assumes "rep s Q" and "unat i < NPRIO" and "Q (unat i) = ps @ rest"
  shows "wp (for_each (\<lambda>p s. then_do (del p i s) (\<lambda>r s. if r = 1 then Ret () s else Panic msg)) ps s)
    (\<lambda>_ t. rep t (Q(unat i := rest)))" (is "wp (?f ps s) _")
  using assms
proof (induction ps arbitrary: s Q)
  case Nil
  then have "Q(unat i := rest) = Q" by (intro fun_upd_idem) simp
  with Nil show ?case by (simp del: fun_upd_apply)
next
  case (Cons p ps)
  have rest: "wp (then_do (if r = 1 then Ret () t else Panic msg) (\<lambda>_ t. ?f ps t)) (\<lambda>_ u. rep u (Q(unat i := rest)))"
    if r: "r = (1::int) \<and> rep t (Q(unat i := ps @ rest))" for r t
    using Cons.IH [OF conjunct2 [OF r] Cons.prems(2)] r by (simp only: fun_upd_upd fun_upd_same if_True then_do.simps simp_thms)
  have "Q (unat i) = p # (ps @ rest)" using Cons.prems(3) by simp
  from wp_mono [OF del_law [OF Cons.prems(1,2) this] rest] show ?case
    unfolding for_each.simps then_do_assoc wp_then_do [of "del p i s"] .
qed

text \<open>First in, first out: what was in the queue and what is then inserted leaves in that order,
  every removal succeeding.\<close>

lemma fifo:
  assumes "rep s Q" and "unat i < NPRIO" and "distinct ps" and "\<forall>p \<in> set ps. \<not> enqueued Q p"
  shows "wp (for_each (\<lambda>p s. then_do (ins p i s) (\<lambda>_ s. Ret () s)) ps s) (\<lambda>_ t.
     wp (for_each (\<lambda>p s. then_do (del p i s) (\<lambda>r s. if r = 1 then Ret () s else Panic msg)) (Q (unat i) @ ps) t)
       (\<lambda>_ u. rep u (Q(unat i := []))))"
proof (rule wp_mono [OF ins_all_appends [OF assms]])
  fix t
  assume "rep t (Q(unat i := Q (unat i) @ ps))"
  from del_all_drains [OF this assms(2), of "Q (unat i) @ ps" "[]"]
  show "wp (for_each (\<lambda>p s. then_do (del p i s) (\<lambda>r s. if r = 1 then Ret () s else Panic msg)) (Q (unat i) @ ps) t)
       (\<lambda>_ u. rep u (Q(unat i := [])))"
    by (simp only: fun_upd_same fun_upd_upd append_Nil2 simp_thms)
qed

end

interpretation pq: fifo_queues insertProc quitarProc "\<lambda>s Q. queues_rep s Q \<and> links_only s0 s" for s0
proof
  fix s :: "'a ptab_scheme" and Q :: "nat \<Rightarrow> nat list" and i :: u32 and p :: nat and xs :: "nat list"
  assume s: "queues_rep s Q \<and> links_only s0 s" and i: "unat i < NPRIO"
  show "wp (insertProc p i s)
      (\<lambda>r t. r = 1 \<and> queues_rep t (Q(unat i := Q (unat i) @ [p])) \<and> links_only s0 t)" if "\<not> enqueued Q p"
    by (rule wp_mono [OF insertProc_refines [of s Q i p]]) (use s i that links_only_trans in blast)+
  show "wp (quitarProc p i s) (\<lambda>r t. r = 1 \<and> queues_rep t (Q(unat i := xs)) \<and> links_only s0 t)"
    if "Q (unat i) = p # xs"
    by (rule wp_mono [OF quitarProc_refines [of s Q i p xs]]) (use s i that links_only_trans in blast)+
qed

section \<open>The scheduler's invariant on the table\<close>

text \<open>The queues hold exactly the runnable processes, each in the queue of its own priority.\<close>

definition sched_rep :: "'a ptab_scheme \<Rightarrow> (nat \<Rightarrow> nat list) \<Rightarrow> bool" where
  "sched_rep s Q \<longleftrightarrow> queues_rep s Q
     \<and> (\<forall>i < NPRIO. \<forall>p. p \<in> set (Q i) \<longleftrightarrow> p < NPROC \<and> p_state (procs s p) = RUNNABLE \<and> unat (p_prio (procs s p)) = i)
     \<and> (\<forall>p < NPROC. p_state (procs s p) \<noteq> UNUSED \<longrightarrow> unat (p_prio (procs s p)) < NPRIO)"

lemma sched_rep_cong:
  assumes "priot t = priot s" and "procs t = procs s"
  shows "sched_rep t Q = sched_rep s Q"
  using assms queues_rep_cong [of t s Q] by (simp add: sched_rep_def)

lemma sched_rep_length:
  assumes "sched_rep s Q" and "i < NPRIO"
  shows "length (Q i) \<le> NPROC"
proof -
  have "set (Q i) \<subseteq> {..<NPROC}" using assms by (auto simp: sched_rep_def)
  moreover have "distinct (Q i)" using assms by (simp add: sched_rep_def queues_rep_def queue_rep_def)
  ultimately show ?thesis using distinct_card [of "Q i"] card_mono [of "{..<NPROC}" "set (Q i)"] by simp
qed

section \<open>Changing the priority of a queued process\<close>

lemma setNewPrio_walk_finds:
  assumes "qchain (procs s) h (xs @ a # p # ys)" and "distinct (xs @ a # p # ys)" and "length xs + 2 < fuel"
  shows "setNewPrio_walk fuel ant h p s = Ret (Some a) s"
  using assms
proof (induction xs arbitrary: h ant fuel)
  case Nil
  then obtain f where "fuel = Suc (Suc f)" by (cases fuel; cases "fuel - 1") auto
  with Nil show ?case by auto
next
  case (Cons x xs)
  then obtain f where "fuel = Suc f" by (cases fuel) auto
  with Cons show ?case by auto
qed

lemma qchain_unlink:
  assumes "qchain f h (xs @ a # p # ys)" and "distinct (xs @ a # p # ys)"
    and "p_sigprio (g a) = p_sigprio (f p)" and "\<And>x. x \<noteq> a \<Longrightarrow> x \<noteq> p \<Longrightarrow> p_sigprio (g x) = p_sigprio (f x)"
  shows "qchain g h (xs @ a # ys)"
  using assms
proof (induction xs arbitrary: h)
  case Nil
  have "p_sigprio (g x) = p_sigprio (f x)" if "x \<in> set ys" for x
    using Nil.prems(2) that by (intro Nil.prems(4)) auto
  then have "qchain g (p_sigprio (f p)) ys = qchain f (p_sigprio (f p)) ys"
    by (rule qchain_cong)
  with Nil show ?case by auto
qed auto


text \<open>The state \<open>setNewPrio\<close> has built when it calls \<open>insertProc\<close> in its second part.\<close>

definition unlinked :: "nat \<Rightarrow> nat \<Rightarrow> u32 \<Rightarrow> 'a ptab_scheme \<Rightarrow> 'a ptab_scheme" where
  "unlinked a p prio s = s\<lparr>procs := (procs s)(
     a := (procs s a)\<lparr>p_sigprio := p_sigprio (procs s p)\<rparr>,
     p := (procs s p)\<lparr>p_sigprio := None, p_prio := prio\<rparr>)\<rparr>"

lemma queues_rep_unlinked:
  assumes Q: "queues_rep s Q" and i: "i < NPRIO" and q: "Q i = xs @ a # p # ys" and "ys \<noteq> []"
  shows "queues_rep (unlinked a p prio s) (Q(i := xs @ a # ys))"
proof -
  have qi: "queue_rep (procs s) (priot s i) (xs @ a # p # ys)" using Q i q by (auto simp: queues_rep_def)
  have dis: "set (Q j) \<inter> set (Q k) = {}" if "j < NPRIO" "k < NPRIO" "j \<noteq> k" for j k
    using Q that by (simp add: queues_rep_def)
  let ?g = "procs (unlinked a p prio s)"
  have "queue_rep ?g (priot s j) (Q j)" if "j < NPRIO" "j \<noteq> i" for j
  proof -
    have "a \<notin> set (Q j)" "p \<notin> set (Q j)" using dis [OF that(1) i that(2)] q by auto
    then show ?thesis using Q that by (simp add: queues_rep_def unlinked_def)
  qed
  moreover have "queue_rep ?g (priot s i) (xs @ a # ys)"
    using qi \<open>ys \<noteq> []\<close> qchain_unlink [of "procs s" _ xs a p ys ?g]
    by (auto simp: queue_rep_def unlinked_def)
  moreover have "set (xs @ a # ys) \<inter> set (Q j) = {}" if "j < NPRIO" "j \<noteq> i" for j
    using dis [OF that(1) i that(2)] q by auto
  ultimately show ?thesis
    using dis by (auto simp: queues_rep_def unlinked_def)
qed

lemma ptab_frame [simp]:
  "procs (enter lk c s) = procs s" "priot (enter lk c s) = priot s"
  "procs (leave lk c s) = procs s" "priot (leave lk c s) = priot s"
  by (simp_all add: enter_def leave_def)

lemma links_only_core: "links_only s t \<Longrightarrow> same_core s t"
  by (simp add: links_only_rest same_core_def)

lemma upd_core [simp]:
  "same_core s (upd_proc p f t) = same_core s t" "same_core s (upd_prio i g t) = same_core s t"
  "same_core s (unlinked a p prio t) = same_core s t"
  "same_core s (t\<lparr>procs := h\<rparr>) = same_core s t" "same_core s (t\<lparr>priot := k\<rparr>) = same_core s t"
  by (simp_all add: same_core_def upd_proc_def upd_prio_def unlinked_def)

text \<open>Whatever way \<open>p\<close> was taken out of its queue, the insertion puts it in its new one.\<close>

lemma setNewPrio_insert:
  fixes s u :: "'a ptab_scheme"
  assumes "sched_rep s Q" and p: "p < NPROC" "p_state (procs s p) = RUNNABLE" and j: "unat prio < NPRIO"
    and u: "queues_rep u R" and R: "\<And>k. k < NPRIO \<Longrightarrow> set (R k) = set (Q k) - {p}"
    and same: "\<And>q. p_state (procs u q) = p_state (procs s q)" "\<And>q. q \<noteq> p \<Longrightarrow> p_prio (procs u q) = p_prio (procs s q)"
  shows "wp (insertProc p prio u) (\<lambda>r t. r = 1 \<and> links_only u t
    \<and> (\<forall>w :: 'a ptab_scheme. priot w = priot t \<longrightarrow> procs w = (procs t)(p := (procs t p)\<lparr>p_prio := prio\<rparr>)
         \<longrightarrow> sched_rep w (R(unat prio := R (unat prio) @ [p]))))"
    (is "wp _ (\<lambda>r t. r = 1 \<and> links_only u t \<and> (\<forall>w. _ \<longrightarrow> _ \<longrightarrow> sched_rep w ?R))")
proof -
  have mem: "q \<in> set (Q k) \<longleftrightarrow> q < NPROC \<and> p_state (procs s q) = RUNNABLE \<and> unat (p_prio (procs s q)) = k"
    if "k < NPRIO" for q k using assms(1) that by (simp add: sched_rep_def)
  have ne: "\<not> enqueued R p" using R by (auto simp: enqueued_def)
  have "sched_rep w ?R"
    if t: "links_only u t" "queues_rep t ?R"
      and w: "priot w = priot t" "procs w = (procs t)(p := (procs t p)\<lparr>p_prio := prio\<rparr>)"
    for t :: "'a ptab_scheme" and w :: "'a ptab_scheme"
  proof -
    have st: "p_state (procs w q) = p_state (procs s q)"
      and pr: "p_prio (procs w q) = (if q = p then prio else p_prio (procs s q))" for q
      using links_only_proc [OF t(1)] w same by auto
    have "set (?R k) = (if k = unat prio then insert p (set (Q k)) else set (Q k) - {p})" if "k < NPRIO" for k
      using R [OF that] by auto
    then have "q \<in> set (?R k) \<longleftrightarrow> q < NPROC \<and> p_state (procs w q) = RUNNABLE \<and> unat (p_prio (procs w q)) = k"
      if "k < NPRIO" for q k
      using mem [OF that] p that by (auto simp: st pr)
    moreover have "unat (p_prio (procs w q)) < NPRIO" if "q < NPROC" "p_state (procs w q) \<noteq> UNUSED" for q
      using that assms(1) j by (auto simp: st pr sched_rep_def)
    moreover have "queues_rep w ?R"
      using t(2) queues_rep_cong [of w t ?R] w by simp
    ultimately show ?thesis by (simp add: sched_rep_def)
  qed
  then show ?thesis
    by (intro wp_mono [OF insertProc_refines [OF u j ne]]) blast
qed

text \<open>The position \<open>p\<close> has in its queue, as \<open>setNewPrio\<close> distinguishes it.\<close>

lemma sched_rep_queue:
  assumes "sched_rep s Q" and "p < NPROC" and "p_state (procs s p) = RUNNABLE"
  obtains i where "i = unat (p_prio (procs s p))" and "i < NPRIO" and "p \<in> set (Q i)"
    and "queue_rep (procs s) (priot s i) (Q i)"
proof
  show "unat (p_prio (procs s p)) < NPRIO" using assms by (auto simp: sched_rep_def)
  then show "p \<in> set (Q (unat (p_prio (procs s p))))"
    and "queue_rep (procs s) (priot s (unat (p_prio (procs s p)))) (Q (unat (p_prio (procs s p))))"
    using assms by (auto simp: sched_rep_def queues_rep_def)
qed simp

lemma predecessor:
  assumes "p \<in> set xs" and "hd xs \<noteq> p"
  obtains ys a zs where "xs = ys @ a # p # zs"
proof -
  from assms(1) obtain us vs where u: "xs = us @ p # vs" by (meson split_list)
  with assms(2) have "us \<noteq> []" by auto
  then have "xs = butlast us @ last us # p # vs" using u by simp
  with that show ?thesis by blast
qed

lemma setNewPrio_first:
  fixes s :: "'a ptab_scheme"
  assumes c: "calm c s" "lock_free PtableLock s" and s: "sched_rep s Q"
    and p: "p < NPROC" "p_state (procs s p) = RUNNABLE" and j: "unat prio < NPRIO"
    and i: "i = unat (p_prio (procs s p))" "Q i = p # xs"
  shows "wp (setNewPrio p prio s) (\<lambda>r t. r = 1 \<and> same_core s t \<and> p_prio (procs t p) = prio
    \<and> sched_rep t ((Q(i := xs))(unat prio := (Q(i := xs)) (unat prio) @ [p])))"
proof -
  let ?e = "enter PtableLock c s" and ?R = "Q(i := xs)"
  obtain k where k: "k = i" "k < NPRIO" "queue_rep (procs s) (priot s k) (Q k)"
    using sched_rep_queue [OF s p] i(1) by metis
  have e: "queues_rep ?e Q" using s queues_rep_cong [of ?e s Q] by (simp add: sched_rep_def)
  have first: "primero (priot s i) = Some p" using k i(2) by (simp add: queue_rep_def)
  have R: "set (?R k') = set (Q k') - {p}" if "k' < NPRIO" for k'
  proof (cases "k' = i")
    case True
    then show ?thesis using k i(2) by (auto simp: queue_rep_def)
  next
    case False
    then have "p \<notin> set (Q k')" using s that i(1) by (auto simp: sched_rep_def)
    with False show ?thesis by auto
  qed
  have ins: "wp (insertProc p prio u) (\<lambda>r t. wp (release PtableLock (upd_proc p (p_prio_update (\<lambda>_. prio)) t))
      (\<lambda>_ t. same_core s t \<and> p_prio (procs t p) = prio \<and> sched_rep t (?R(unat prio := ?R (unat prio) @ [p]))))"
    if u: "links_only ?e u" "queues_rep u ?R" for u
  proof (rule wp_mono [OF setNewPrio_insert [OF s p j u(2) R]])
    fix r t
    assume t: "r = 1 \<and> links_only u t \<and> (\<forall>w :: 'a ptab_scheme. priot w = priot t \<longrightarrow>
        procs w = (procs t)(p := (procs t p)\<lparr>p_prio := prio\<rparr>) \<longrightarrow> sched_rep w (?R(unat prio := ?R (unat prio) @ [p])))"
    then have "same_core ?e t" using u(1) by (blast intro: same_core_trans links_only_core)
    then show "wp (release PtableLock (upd_proc p (p_prio_update (\<lambda>_. prio)) t))
        (\<lambda>_ t. same_core s t \<and> p_prio (procs t p) = prio \<and> sched_rep t (?R(unat prio := ?R (unat prio) @ [p])))"
      using t by (intro wp_release_section [OF c]) (simp_all add: upd_proc_def)
  qed (use links_only_proc [OF u(1)] in simp_all)
  have "unat (p_prio (procs s p)) < NPRIO" using k i(1) by simp
  from wp_mono [OF quitarProc_refines [OF e this, of p xs]] ins i k first show ?thesis
    by (simp add: setNewPrio_def acquire_calm [OF c] Let_def del: fun_upd_apply)
qed

lemma qchain_next:
  assumes "qchain f h (xs @ p # ys)"
  shows "p_sigprio (f p) = (if ys = [] then None else Some (hd ys))"
  using assms by (induction xs arbitrary: h) (cases ys; simp)+

lemma setNewPrio_middle:
  fixes s :: "'a ptab_scheme"
  assumes c: "calm c s" "lock_free PtableLock s" and s: "sched_rep s Q"
    and p: "p < NPROC" "p_state (procs s p) = RUNNABLE" and j: "unat prio < NPRIO"
    and i: "i = unat (p_prio (procs s p))" "Q i = xs @ a # p # ys" and ys: "ys \<noteq> []"
  shows "wp (setNewPrio p prio s) (\<lambda>r t. r = 1 \<and> same_core s t \<and> p_prio (procs t p) = prio
    \<and> sched_rep t ((Q(i := xs @ a # ys))(unat prio := (Q(i := xs @ a # ys)) (unat prio) @ [p])))"
proof -
  let ?e = "enter PtableLock c s" and ?R = "Q(i := xs @ a # ys)"
  let ?u = "unlinked a p prio ?e"
  obtain k where k: "k = i" "k < NPRIO" "queue_rep (procs s) (priot s k) (Q k)"
    using sched_rep_queue [OF s p] i(1) by metis
  then have q: "qchain (procs s) (primero (priot s i)) (xs @ a # p # ys)" "distinct (xs @ a # p # ys)"
    using i(2) by (auto simp: queue_rep_def)
  have e: "queues_rep ?e Q" using s queues_rep_cong [of ?e s Q] by (simp add: sched_rep_def)
  have ap: "a \<noteq> p" using q(2) by auto
  have R: "set (?R k') = set (Q k') - {p}" if "k' < NPRIO" for k'
  proof (cases "k' = i")
    case True
    then show ?thesis using q(2) i(2) by auto
  next
    case False
    then have "p \<notin> set (Q k')" using s that i(1) by (auto simp: sched_rep_def)
    with False show ?thesis by auto
  qed
  obtain f where f: "primero (priot s i) = Some f" "f \<noteq> p" using q by (cases xs) auto
  have len: "length xs + 2 < Suc NPROC" using sched_rep_length [OF s k(2)] k(1) i(2) ys by (cases ys) auto
  have walk: "setNewPrio_walk (Suc NPROC) ant (Some f) p ?e = Ret (Some a) ?e" for ant
    using q f(1) len by (intro setNewPrio_walk_finds [where xs = xs and ys = ys]) simp_all
  have pn: "p_sigprio (procs s p) = Some (hd ys)"
    using qchain_next [of "procs s" _ "xs @ [a]" p ys] q(1) ys by simp
  have ins: "wp (insertProc p prio ?u) (\<lambda>r t. wp (release PtableLock t)
      (\<lambda>_ t. same_core s t \<and> p_prio (procs t p) = prio \<and> sched_rep t (?R(unat prio := ?R (unat prio) @ [p]))))"
  proof (rule wp_mono [OF setNewPrio_insert [OF s p j queues_rep_unlinked [OF e _ i(2) ys] R]])
    fix r t
    assume t: "r = 1 \<and> links_only ?u t \<and> (\<forall>w :: 'a ptab_scheme. priot w = priot t \<longrightarrow>
        procs w = (procs t)(p := (procs t p)\<lparr>p_prio := prio\<rparr>) \<longrightarrow> sched_rep w (?R(unat prio := ?R (unat prio) @ [p])))"
    then have "same_core ?e t" using links_only_core [of ?u t] by (simp add: same_core_def unlinked_def)
    moreover have pp: "p_prio (procs t p) = prio" using t links_only_proc(2) [of ?u t p] by (simp add: unlinked_def)
    then have "(procs t)(p := (procs t p)\<lparr>p_prio := prio\<rparr>) = procs t" by (intro fun_upd_idem) simp
    ultimately show "wp (release PtableLock t)
        (\<lambda>_ t. same_core s t \<and> p_prio (procs t p) = prio \<and> sched_rep t (?R(unat prio := ?R (unat prio) @ [p])))"
      using t pp by (intro wp_release_section [OF c]) simp_all
  qed (use k in \<open>simp_all add: unlinked_def\<close>)
  show ?thesis
    using ins i(1) k(1,2) f walk pn ap
    by (simp add: setNewPrio_def acquire_calm [OF c] Let_def upd_proc_def unlinked_def fun_upd_twist
        del: setNewPrio_walk.simps)
qed

text \<open>When \<open>p\<close> is the last of several, \<open>ultimo\<close> is set to the null link of its predecessor.\<close>

lemma setNewPrio_last:
  fixes s :: "'a ptab_scheme"
  assumes c: "calm c s" "lock_free PtableLock s" and s: "sched_rep s Q"
    and p: "p < NPROC" "p_state (procs s p) = RUNNABLE" and j: "unat prio < NPRIO" "unat prio \<noteq> i"
    and i: "i = unat (p_prio (procs s p))" "Q i = xs @ [a, p]"
  shows "wp (setNewPrio p prio s) (\<lambda>r t. r = 1 \<and> ultimo (priot t i) = None
    \<and> (\<forall>x. p_state (procs t x) = p_state (procs s x) \<and> (x \<noteq> p \<longrightarrow> p_prio (procs t x) = p_prio (procs s x))))"
proof -
  let ?e = "enter PtableLock c s"
  obtain k where k: "k = i" "k < NPRIO" "queue_rep (procs s) (priot s k) (Q k)"
    using sched_rep_queue [OF s p] i(1) by metis
  then have q: "qchain (procs s) (primero (priot s i)) (xs @ a # p # [])" "distinct (xs @ a # p # [])"
    using i(2) by (auto simp: queue_rep_def)
  obtain f where f: "primero (priot s i) = Some f" "f \<noteq> p" using q by (cases xs) auto
  have len: "length xs + 2 < Suc NPROC" using sched_rep_length [OF s k(2)] k(1) i(2) by auto
  have walk: "setNewPrio_walk (Suc NPROC) ant (Some f) p ?e = Ret (Some a) ?e" for ant
    using q f(1) len by (intro setNewPrio_walk_finds [where xs = xs and ys = "[]"]) simp_all
  have pn: "p_sigprio (procs s p) = None"
    using qchain_next [of "procs s" _ "xs @ [a]" p "[]"] q(1) by simp
  let ?u = "unlinked a p prio (?e\<lparr>priot := (priot s)(i := (priot s i)\<lparr>ultimo := None\<rparr>)\<rparr>)"
  have ins: "wp (insertProc p prio ?u) (\<lambda>r t. same_core ?e t \<and> ultimo (priot t i) = None
    \<and> (\<forall>x. p_state (procs t x) = p_state (procs s x) \<and> (x \<noteq> p \<longrightarrow> p_prio (procs t x) = p_prio (procs s x))))"
    using j by (auto simp: insertProc_def Let_def upd_prio_def upd_proc_def unlinked_def same_core_def
        split: option.splits)
  have "wp (insertProc p prio ?u) (\<lambda>r t. wp (release PtableLock t) (\<lambda>_ t. ultimo (priot t i) = None
    \<and> (\<forall>x. p_state (procs t x) = p_state (procs s x) \<and> (x \<noteq> p \<longrightarrow> p_prio (procs t x) = p_prio (procs s x)))))"
    by (rule wp_mono [OF ins], rule wp_release_section [OF c]) auto
  moreover have "a \<noteq> p" using q(2) by auto
  ultimately show ?thesis
    using i(1) k(1,2) f walk pn
    by (simp add: setNewPrio_def acquire_calm [OF c] Let_def upd_proc_def upd_prio_def unlinked_def fun_upd_twist
        del: setNewPrio_walk.simps)
qed

section \<open>Properties\<close>

text \<open>Three runnable processes of priority 5, queued in the order of the table, on an idle machine with
  one CPU.\<close>

definition demo_proc :: "nat \<Rightarrow> proc" where
  "demo_proc i = \<lparr>p_sz = 4096, p_pgdir = 0x80200000, p_kstack = 0x80300000,
     p_state = (if i < 3 then RUNNABLE else UNUSED), p_pid = (if i < 3 then of_nat i + 1 else 0), p_parent = None,
     p_tf = 0x80300FB4, p_context = 0x80300F9C, p_chan = None, p_killed = False, p_ofile = (\<lambda>_. None),
     p_cwd = None, p_name = [], p_status = 0, p_prio = 5, p_sigprio = (if i < 2 then Some (i + 1) else None)\<rparr>"

definition demo_ptab :: ptab where
  "demo_ptab = vmst.extend (kmem.extend idle_kmem \<lparr>kpgdir = 0x80400000, data_addr = 0x80108000, klog = []\<rparr>)
    \<lparr>procs = demo_proc,
     priot = (\<lambda>i. if i = 5 then \<lparr>primero = Some 0, ultimo = Some 2\<rparr> else \<lparr>primero = None, ultimo = None\<rparr>),
     initproc = Some 0, nextpid = 4, trapret_addr = 0x80106000, forkret_addr = 0x80103000\<rparr>"

definition demo_queues :: "nat \<Rightarrow> nat list" where
  "demo_queues i = (if i = 5 then [0, 1, 2] else [])"

lemma demo_ptab_simps [simp]:
  "procs demo_ptab = demo_proc" "mem demo_ptab = mem idle_kmem" "cpus demo_ptab = cpus idle_kmem"
  "ncpu demo_ptab = 1" "locks demo_ptab = locks idle_kmem" "lapicid demo_ptab = 0" "eflags_if demo_ptab"
  "priot demo_ptab = (\<lambda>i. if i = 5 then \<lparr>primero = Some 0, ultimo = Some 2\<rparr> else \<lparr>primero = None, ultimo = None\<rparr>)"
  by (simp_all add: demo_ptab_def kmem.defs vmst.defs idle_kmem_def)

lemma calm_demo [simp]: "calm 0 demo_ptab" "lock_free lk demo_ptab"
  by (simp_all add: calm_def cpu_ok_def this_cpu_def find_idx_Some lock_free_def) (simp_all add: idle_kmem_def)

lemma queues_rep_demo [simp]: "queues_rep demo_ptab demo_queues"
  by (auto simp: queues_rep_def queue_rep_def demo_queues_def demo_proc_def NPRIO_def)

lemma sched_rep_demo [simp]: "sched_rep demo_ptab demo_queues"
  by (auto simp: sched_rep_def) (auto simp: demo_queues_def demo_proc_def NPRIO_def NPROC_def split: if_splits)

text \<open>C4: The priority queues are first-in-first-out: from a table whose links represent the lists \<open>Q\<close>,
  inserting processes that are in no queue into queue \<open>i\<close> and then removing, the processes leave in the
  order of the old queue followed by the insertions, each removal finding its process at the
  head; at the end queue \<open>i\<close> is empty, the other queues and everything but the links is as before.\<close>

theorem prio_queue_fifo:
  assumes "queues_rep s Q" and "unat i < NPRIO" and "distinct ps" and "\<forall>p \<in> set ps. \<not> enqueued Q p"
  shows "wp (for_each (\<lambda>p s. then_do (insertProc p i s) (\<lambda>_ s. Ret () s)) ps s) (\<lambda>_ t.
     wp (for_each (\<lambda>p s. then_do (quitarProc p i s) (\<lambda>r s. if r = 1 then Ret () s else Panic ''not first''))
          (Q (unat i) @ ps) t)
       (\<lambda>_ u. queues_rep u (Q(unat i := [])) \<and> links_only s u))"
  using pq.fifo [of s Q s i ps "''not first''"] assms by (simp only: links_only_refl simp_thms)

theorem prio_queue_fifo_witness:
  "wp (for_each (\<lambda>p s. then_do (insertProc p 5 s) (\<lambda>_ s. Ret () s)) [7, 4] demo_ptab) (\<lambda>_ t.
     wp (for_each (\<lambda>p s. then_do (quitarProc p 5 s) (\<lambda>r s. if r = 1 then Ret () s else Panic ''not first''))
          [0, 1, 2, 7, 4] t)
       (\<lambda>_ u. queues_rep u (demo_queues(5 := [])) \<and> links_only demo_ptab u))"
proof -
  have "demo_queues (unat (5::u32)) @ [7, 4] = [0, 1, 2, 7, 4]" by (simp add: demo_queues_def)
  then show ?thesis
    using prio_queue_fifo [of demo_ptab demo_queues 5 "[7, 4]"]
    by (simp add: NPRIO_def enqueued_def demo_queues_def del: for_each.simps)
qed

text \<open>C3: \<open>setNewPrio\<close> on a runnable process that heads its queue or has a successor in it, with a valid new
  priority: it returns 1, gives the process the new priority, moves it from its old queue to the end
  of the new one, and keeps the scheduler's invariant; CPUs and locks are as before the call.\<close>

theorem setNewPrio_correct:
  assumes "calm c s" and "lock_free PtableLock s" and "sched_rep s Q"
    and "p < NPROC" and "p_state (procs s p) = RUNNABLE" and "unat prio < NPRIO"
    and "i = unat (p_prio (procs s p))" and "hd (Q i) = p \<or> last (Q i) \<noteq> p"
  shows "wp (setNewPrio p prio s) (\<lambda>r t. r = 1 \<and> same_core s t \<and> p_prio (procs t p) = prio
    \<and> sched_rep t ((Q(i := remove1 p (Q i)))(unat prio := (Q(i := remove1 p (Q i))) (unat prio) @ [p])))"
proof -
  obtain k where k: "k = i" "p \<in> set (Q k)" "queue_rep (procs s) (priot s k) (Q k)"
    using sched_rep_queue [OF assms(3-5)] assms(7) by metis
  show ?thesis
  proof (cases "hd (Q i) = p")
    case True
    then have q: "Q i = p # remove1 p (Q i)" using k by (cases "Q i") auto
    show ?thesis using setNewPrio_first [OF assms(1-7) q] .
  next
    case False
    with k obtain xs a ys where q: "Q i = xs @ a # p # ys" by (metis predecessor)
    with False assms(8) have "ys \<noteq> []" by auto
    moreover have "remove1 p (Q i) = xs @ a # ys"
      using q k by (auto simp: queue_rep_def remove1_append)
    ultimately show ?thesis using setNewPrio_middle [OF assms(1-7) q] by simp
  qed
qed

theorem setNewPrio_correct_witness:
  "wp (setNewPrio 1 3 demo_ptab) (\<lambda>r t. r = 1 \<and> same_core demo_ptab t \<and> p_prio (procs t 1) = 3
    \<and> sched_rep t (demo_queues(5 := [0, 2], 3 := [1])))"
proof -
  have "demo_queues 5 = [0, 1, 2]" "demo_queues 3 = []" by (simp_all add: demo_queues_def)
  then show ?thesis
    using setNewPrio_correct [of 0 demo_ptab demo_queues 1 3 5]
    by (simp add: NPROC_def NPRIO_def demo_proc_def)
qed

text \<open>C5: \<open>setNewPrio\<close> on the last of several processes of a queue, moving it to another queue: it returns
  1, but leaves \<open>ultimo\<close> of the old queue null although its other members are still runnable. No
  family of lists is then represented by the table, and the next insertion into the old queue
  makes the inserted process its only member.\<close>

theorem setNewPrio_last_corrupts:
  assumes "calm c s" and "lock_free PtableLock s" and "sched_rep s Q"
    and "p < NPROC" and "p_state (procs s p) = RUNNABLE" and "unat prio < NPRIO"
    and "i = unat (p_prio (procs s p))" and "unat prio \<noteq> i" and "Q i = xs @ [a, p]"
  shows "wp (setNewPrio p prio s) (\<lambda>r t. r = 1 \<and> (\<forall>Q'. \<not> sched_rep t Q')
    \<and> (\<forall>x. wp (insertProc x (p_prio (procs s p)) t) (\<lambda>_ u. queue_rep (procs u) (priot u i) [x])))"
proof (rule wp_mono [OF setNewPrio_last [OF assms(1-6,8,7,9)]])
  fix r t
  assume t: "r = 1 \<and> ultimo (priot t i) = None
    \<and> (\<forall>x. p_state (procs t x) = p_state (procs s x) \<and> (x \<noteq> p \<longrightarrow> p_prio (procs t x) = p_prio (procs s x)))"
  have il: "i < NPRIO" using assms(3-5,7) by (auto simp: sched_rep_def)
  then have "a \<in> set (Q i)" "distinct (Q i)" using assms(3,9) by (auto simp: sched_rep_def queues_rep_def queue_rep_def)
  moreover from this have "a < NPROC \<and> p_state (procs s a) = RUNNABLE \<and> unat (p_prio (procs s a)) = i"
    using assms(3) il unfolding sched_rep_def by blast
  ultimately have a: "a \<noteq> p" "a < NPROC" "p_state (procs t a) = RUNNABLE" "unat (p_prio (procs t a)) = i"
    using t assms(9) by auto
  have "\<not> sched_rep t Q'" for Q'
  proof
    assume r: "sched_rep t Q'"
    with a il have "a \<in> set (Q' i)" by (auto simp: sched_rep_def)
    moreover have "Q' i = []" using r t il by (auto simp: sched_rep_def queues_rep_def queue_rep_def split: if_splits)
    ultimately show False by simp
  qed
  moreover have "wp (insertProc x (p_prio (procs s p)) t) (\<lambda>_ u. queue_rep (procs u) (priot u i) [x])" for x
    using t il assms(7) by (simp add: insertProc_def Let_def upd_prio_def upd_proc_def queue_rep_def)
  ultimately show "r = 1 \<and> (\<forall>Q'. \<not> sched_rep t Q')
      \<and> (\<forall>x. wp (insertProc x (p_prio (procs s p)) t) (\<lambda>_ u. queue_rep (procs u) (priot u i) [x]))"
    using t by blast
qed

theorem setNewPrio_last_corrupts_witness:
  "wp (setNewPrio 2 3 demo_ptab) (\<lambda>r t. r = 1 \<and> (\<forall>Q'. \<not> sched_rep t Q')
    \<and> (\<forall>x. wp (insertProc x 5 t) (\<lambda>_ u. queue_rep (procs u) (priot u 5) [x])))"
  using setNewPrio_last_corrupts [of 0 demo_ptab demo_queues 2 3 5 "[0]" 1]
  by (simp add: NPROC_def NPRIO_def demo_proc_def demo_queues_def)

end
