(* ===== verification/Sched.thy ===== *)
theory Sched
  imports Prioqueue
begin

text \<open>
  Sleep, wakeup, kill and the scheduler proper, on top of the queues of \<open>Prioqueue\<close>. Every operation
  is shown to keep the invariant \<open>sched_rep\<close> (the queues hold exactly the runnable processes) and to do
  what it promises; the step relation \<open>kstep\<close> interleaves them on several CPUs.
\<close>

section \<open>States that differ in scheduling only\<close>

definition unsched :: "'a ptab_scheme \<Rightarrow> 'a ptab_scheme" where
  "unsched s = s\<lparr>procs := (\<lambda>p. (procs s p)\<lparr>p_state := UNUSED, p_sigprio := None\<rparr>),
     priot := (\<lambda>_. \<lparr>primero = None, ultimo = None\<rparr>)\<rparr>"

definition sched_eq :: "'a ptab_scheme \<Rightarrow> 'a ptab_scheme \<Rightarrow> bool" where
  "sched_eq s t \<longleftrightarrow> unsched s = unsched t"

lemma sched_eq_refl [simp]: "sched_eq s s" by (simp add: sched_eq_def)

lemma sched_eq_sym: "sched_eq s t \<Longrightarrow> sched_eq t s" by (simp add: sched_eq_def)

lemma sched_eq_trans: "sched_eq s t \<Longrightarrow> sched_eq t u \<Longrightarrow> sched_eq s u" by (simp add: sched_eq_def)

lemma unsched_proc: "p_prio (procs (unsched s) q) = p_prio (procs s q)" "p_pid (procs (unsched s) q) = p_pid (procs s q)"
    "p_chan (procs (unsched s) q) = p_chan (procs s q)" "p_killed (procs (unsched s) q) = p_killed (procs s q)"
    "p_kstack (procs (unsched s) q) = p_kstack (procs s q)" "p_pgdir (procs (unsched s) q) = p_pgdir (procs s q)"
    "p_sz (procs (unsched s) q) = p_sz (procs s q)" "p_parent (procs (unsched s) q) = p_parent (procs s q)"
    "p_ofile (procs (unsched s) q) = p_ofile (procs s q)" "p_cwd (procs (unsched s) q) = p_cwd (procs s q)"
    "p_tf (procs (unsched s) q) = p_tf (procs s q)" "p_context (procs (unsched s) q) = p_context (procs s q)"
  by (simp_all add: unsched_def)

lemma unsched_fields: "cpus (unsched s) = cpus s" "locks (unsched s) = locks s" "mem (unsched s) = mem s"
    "lapicid (unsched s) = lapicid s" "ncpu (unsched s) = ncpu s" "eflags_if (unsched s) = eflags_if s"
    "cr3 (unsched s) = cr3 s" "use_lock (unsched s) = use_lock s" "freelist (unsched s) = freelist s"
    "kend (unsched s) = kend s" "nextpid (unsched s) = nextpid s" "initproc (unsched s) = initproc s"
    "ptab.more (unsched s) = ptab.more s"
  by (simp_all add: unsched_def)

lemma sched_eq_proc:
  assumes "sched_eq s t"
  shows "p_prio (procs t q) = p_prio (procs s q)" "p_pid (procs t q) = p_pid (procs s q)"
    "p_chan (procs t q) = p_chan (procs s q)" "p_killed (procs t q) = p_killed (procs s q)"
    "p_kstack (procs t q) = p_kstack (procs s q)" "p_pgdir (procs t q) = p_pgdir (procs s q)"
    "p_sz (procs t q) = p_sz (procs s q)" "p_parent (procs t q) = p_parent (procs s q)"
    "p_ofile (procs t q) = p_ofile (procs s q)" "p_cwd (procs t q) = p_cwd (procs s q)"
    "p_tf (procs t q) = p_tf (procs s q)" "p_context (procs t q) = p_context (procs s q)"
  using unsched_proc [of s q] unsched_proc [of t q] assms unfolding sched_eq_def by metis+

lemma sched_eq_fields:
  assumes "sched_eq s t"
  shows "cpus t = cpus s" "locks t = locks s" "mem t = mem s"
    "lapicid t = lapicid s" "ncpu t = ncpu s" "eflags_if t = eflags_if s"
    "cr3 t = cr3 s" "use_lock t = use_lock s" "freelist t = freelist s"
    "kend t = kend s" "nextpid t = nextpid s" "initproc t = initproc s" "ptab.more t = ptab.more s"
  using unsched_fields [of s] unsched_fields [of t] assms unfolding sched_eq_def by metis+

lemma sched_eq_core: "sched_eq s t \<Longrightarrow> same_core s t"
  by (simp add: same_core_def sched_eq_fields)

lemma links_only_sched_eq:
  assumes "links_only s t"
  shows "sched_eq s t"
proof -
  from assms have t: "t = s\<lparr>procs := procs t, priot := priot t\<rparr>"
    and q: "\<And>q. procs t q = (procs s q)\<lparr>p_sigprio := p_sigprio (procs t q)\<rparr>" by (auto simp: links_only_def)
  have "(procs t q)\<lparr>p_state := UNUSED, p_sigprio := None\<rparr> = (procs s q)\<lparr>p_state := UNUSED, p_sigprio := None\<rparr>" for q
    by (subst q) simp
  then have "unsched (s\<lparr>procs := procs t, priot := priot t\<rparr>) = unsched s" by (simp add: unsched_def)
  with t show ?thesis by (simp add: sched_eq_def)
qed

lemma sched_eq_state [simp]: "sched_eq s (upd_proc p (p_state_update f) t) = sched_eq s t"
proof -
  have "unsched (upd_proc p (p_state_update f) t) = unsched t"
    by (auto simp: unsched_def upd_proc_def fun_eq_iff)
  then show ?thesis by (simp add: sched_eq_def)
qed

text \<open>Both sides of a lock operation agree on scheduling when the states do.\<close>

lemma unsched_enter: "unsched (enter lk c s) = enter lk c (unsched s)"
  by (simp add: unsched_def enter_def)

lemma unsched_leave: "unsched (leave lk c s) = leave lk c (unsched s)"
  by (simp add: unsched_def leave_def)

lemma sched_eq_section:
  assumes "calm c s" and "lock_free lk s" and "sched_eq (enter lk c s) t"
  shows "sched_eq s (leave lk c t)"
proof -
  have "unsched (leave lk c t) = leave lk c (unsched (enter lk c s))"
    using assms(3) by (simp add: unsched_leave sched_eq_def)
  also have "\<dots> = unsched (leave lk c (enter lk c s))" by (simp only: unsched_leave)
  also have "leave lk c (enter lk c s) = s" using enter_then_leave [OF assms(1,2)] .
  finally show ?thesis by (simp add: sched_eq_def)
qed

section \<open>Making a process runnable\<close>

lemma sched_rep_notin:
  assumes "sched_rep s Q" and "p_state (procs s p) \<noteq> RUNNABLE"
  shows "\<not> enqueued Q p"
  using assms unfolding sched_rep_def enqueued_def by blast

lemma make_runnable:
  assumes s: "sched_rep s Q" and p: "p < NPROC" "p_state (procs s p) \<noteq> RUNNABLE" "p_state (procs s p) \<noteq> UNUSED"
  defines "u \<equiv> upd_proc p (p_state_update (\<lambda>_. RUNNABLE)) s"
  defines "i \<equiv> unat (p_prio (procs s p))"
  shows "wp (insertProc p (p_prio (procs u p)) u) (\<lambda>r t. r = 1 \<and> sched_rep t (Q(i := Q i @ [p])) \<and> sched_eq s t
    \<and> (\<forall>q. p_state (procs t q) = (if q = p then RUNNABLE else p_state (procs s q))))"
proof -
  have pr: "p_prio (procs u q) = p_prio (procs s q)" for q by (simp add: u_def upd_proc_def)
  have i: "unat (p_prio (procs u p)) < NPRIO" using s p by (simp add: pr sched_rep_def)
  have u: "queues_rep u Q" using s queues_rep_cong [of u s Q] by (simp add: u_def upd_proc_def sched_rep_def)
  have "sched_rep t (Q(i := Q i @ [p])) \<and> sched_eq s t
      \<and> (\<forall>q. p_state (procs t q) = (if q = p then RUNNABLE else p_state (procs s q)))"
    if t: "links_only u t" "queues_rep t (Q(i := Q i @ [p]))" for t
  proof (intro conjI allI)
    have st: "p_state (procs t q) = (if q = p then RUNNABLE else p_state (procs s q))" for q
      using links_only_proc(1) [OF t(1), of q] by (simp add: u_def upd_proc_def)
    then show "p_state (procs t q) = (if q = p then RUNNABLE else p_state (procs s q))" for q .
    have pt: "p_prio (procs t q) = p_prio (procs s q)" for q using links_only_proc(2) [OF t(1), of q] pr by simp
    have "q \<in> set ((Q(i := Q i @ [p])) k) \<longleftrightarrow>
        q < NPROC \<and> p_state (procs t q) = RUNNABLE \<and> unat (p_prio (procs t q)) = k" if "k < NPRIO" for k q
      using s p that by (auto simp: sched_rep_def st pt i_def)
    with s t(2) p(1,3) show "sched_rep t (Q(i := Q i @ [p]))"
      by (auto simp: sched_rep_def st pt)
    show "sched_eq s t" using links_only_sched_eq [OF t(1)] by (simp add: u_def sched_eq_def)
       (metis sched_eq_def sched_eq_refl sched_eq_state)
  qed
  then show ?thesis
    by (intro wp_mono [OF insertProc_refines [OF u i sched_rep_notin [OF s p(2)]]]) (simp add: i_def pr)
qed

section \<open>Wakeup and kill\<close>

definition sleeps_on :: "chan option \<Rightarrow> proc \<Rightarrow> bool" where
  "sleeps_on ch x \<longleftrightarrow> p_state x = SLEEPING \<and> p_chan x = ch"

definition woken :: "chan option \<Rightarrow> nat list \<Rightarrow> 'a ptab_scheme \<Rightarrow> 'a ptab_scheme \<Rightarrow> bool" where
  "woken ch ps s t \<longleftrightarrow> sched_eq s t \<and> (\<exists>Q. sched_rep t Q) \<and> (\<forall>q. p_state (procs t q) =
     (if q \<in> set ps \<and> sleeps_on ch (procs s q) then RUNNABLE else p_state (procs s q)))"

lemma wakeup1_wp:
  assumes "sched_rep s Q"
  shows "wp (wakeup1 ch s) (\<lambda>_ t. woken ch [0..<NPROC] s t)"
  unfolding wakeup1_def
proof (rule for_each_wp [where I = "\<lambda>ps t. woken ch ps s t"])
  show "woken ch [] s s" using assms by (auto simp: woken_def)
next
  fix ps p todo t
  assume split: "[0..<NPROC] = ps @ p # todo" and t: "woken ch ps s t"
  have p: "p < NPROC" "p \<notin> set ps"
  proof -
    have "p \<in> set [0..<NPROC]" unfolding split by simp
    then show "p < NPROC" by simp
    have "distinct (ps @ p # todo)" unfolding split [symmetric] by simp
    then show "p \<notin> set ps" by simp
  qed
  obtain Q where Q: "sched_rep t Q" and eq: "sched_eq s t" using t by (auto simp: woken_def)
  have st: "p_state (procs t q) =
      (if q \<in> set ps \<and> sleeps_on ch (procs s q) then RUNNABLE else p_state (procs s q))" for q
    using t by (simp add: woken_def)
  have ch: "p_chan (procs t q) = p_chan (procs s q)" for q using sched_eq_proc [OF eq] by simp
  show "wp (if p_state (procs t p) = SLEEPING \<and> p_chan (procs t p) = ch
      then let s = upd_proc p (p_state_update (\<lambda>_. RUNNABLE)) t
           in then_do (insertProc p (p_prio (procs s p)) s) (\<lambda>_ s. Ret () s)
      else Ret () t) (\<lambda>_ u. woken ch (ps @ [p]) s u)"
  proof (cases "sleeps_on ch (procs s p)")
    case True
    then have r: "p_state (procs t p) \<noteq> RUNNABLE" "p_state (procs t p) \<noteq> UNUSED"
      using st [of p] p(2) by (simp_all add: sleeps_on_def)
    have "wp (insertProc p (p_prio (procs (upd_proc p (p_state_update (\<lambda>_. RUNNABLE)) t) p))
        (upd_proc p (p_state_update (\<lambda>_. RUNNABLE)) t)) (\<lambda>_ u. woken ch (ps @ [p]) s u)"
      by (rule wp_mono [OF make_runnable [OF Q p(1) r]])
         (use True eq st in \<open>auto simp: woken_def intro: sched_eq_trans\<close>)
    with True st [of p] p(2) ch show ?thesis by (simp add: sleeps_on_def Let_def)
  next
    case False
    then show ?thesis
      using t st [of p] p(2) ch by (auto simp: woken_def sleeps_on_def)
  qed
qed

lemma sched_rep_section [simp]:
  "sched_rep (enter lk c s) Q = sched_rep s Q" "sched_rep (leave lk c s) Q = sched_rep s Q"
  by (rule sched_rep_cong; simp)+

lemma woken_section:
  assumes "calm c s" and "lock_free PtableLock s" and "woken ch ps (enter PtableLock c s) t"
  shows "woken ch ps s (leave PtableLock c t)"
  using assms sched_eq_section [OF assms(1,2)] by (auto simp: woken_def)

lemma wakeup_wp:
  assumes "calm c s" and "lock_free PtableLock s" and "sched_rep s Q"
  shows "wp (wakeup ch s) (\<lambda>_ t. woken (Some ch) [0..<NPROC] s t \<and> calm c t \<and> lock_free PtableLock t)"
proof -
  have "sched_rep (enter PtableLock c s) Q" using assms(3) by simp
  from wakeup1_wp [OF this, of "Some ch"]
  have "wp (wakeup1 (Some ch) (enter PtableLock c s)) (\<lambda>_ t. wp (release PtableLock t)
      (\<lambda>_ u. woken (Some ch) [0..<NPROC] s u \<and> calm c u \<and> lock_free PtableLock u))"
  proof (rule wp_mono)
    fix t assume t: "woken (Some ch) [0..<NPROC] (enter PtableLock c s) t"
    then have core: "same_core (enter PtableLock c s) t" by (simp add: woken_def sched_eq_core)
    show "wp (release PtableLock t) (\<lambda>_ u. woken (Some ch) [0..<NPROC] s u \<and> calm c u \<and> lock_free PtableLock u)"
    proof (rule wp_release_section [OF assms(1,2) core])
      assume "same_core s (leave PtableLock c t)"
      with woken_section [OF assms(1,2) t] assms(1,2)
      show "woken (Some ch) [0..<NPROC] s (leave PtableLock c t) \<and> calm c (leave PtableLock c t)
          \<and> lock_free PtableLock (leave PtableLock c t)"
        by (simp add: same_coreD)
    qed
  qed
  then show ?thesis by (simp add: wakeup_def acquire_calm [OF assms(1,2)])
qed

lemma sched_rep_killed [simp]: "sched_rep (upd_proc p (p_killed_update f) s) Q = sched_rep s Q"
proof -
  have "queues_rep (upd_proc p (p_killed_update f) s) Q = queues_rep s Q"
    by (rule queues_rep_cong) (auto simp: upd_proc_def)
  then show ?thesis by (auto simp: sched_rep_def upd_proc_def)
qed

definition killed_effect :: "nat \<Rightarrow> 'a ptab_scheme \<Rightarrow> 'a ptab_scheme \<Rightarrow> bool" where
  "killed_effect p s t \<longleftrightarrow> sched_eq (upd_proc p (p_killed_update (\<lambda>_. True)) s) t \<and> (\<exists>Q. sched_rep t Q)
     \<and> (\<forall>q. p_state (procs t q) = (if q = p \<and> p_state (procs s p) = SLEEPING then RUNNABLE else p_state (procs s q)))"

lemma upd_proc_section: "upd_proc p f (enter lk c s) = enter lk c (upd_proc p f s)"
  by (simp add: upd_proc_def enter_def)

lemma killed_section:
  assumes "calm c s" and "lock_free PtableLock s" and "killed_effect p (enter PtableLock c s) t"
  shows "killed_effect p s (leave PtableLock c t)"
proof -
  let ?u = "upd_proc p (p_killed_update (\<lambda>_. True)) s"
  have "same_core s ?u" by simp
  then have "calm c ?u" "lock_free PtableLock ?u" using assms(1,2) by (simp_all only: same_coreD)
  moreover have "sched_eq (enter PtableLock c ?u) t" using assms(3) by (simp add: killed_effect_def upd_proc_section)
  ultimately show ?thesis using assms(3) sched_eq_section [of c ?u PtableLock t] by (simp add: killed_effect_def)
qed

lemma kill_wp:
  assumes s: "calm c s" "lock_free PtableLock s" "sched_rep s Q"
    and p: "find_idx (\<lambda>p. p_pid (procs s p) = pid) NPROC = Some p"
  shows "wp (kill pid s) (\<lambda>r t. r = 0 \<and> killed_effect p s t \<and> calm c t \<and> lock_free PtableLock t)"
proof -
  let ?e = "enter PtableLock c s"
  let ?k = "upd_proc p (p_killed_update (\<lambda>_. True)) ?e"
  have k: "sched_rep ?k Q" "p < NPROC" using s(3) p by (simp_all add: find_idx_Some)
  have fin: "wp (release PtableLock t) (\<lambda>_ t. killed_effect p s t \<and> calm c t \<and> lock_free PtableLock t)"
    if t: "killed_effect p ?e t" for t
  proof -
    have "same_core ?e t" using t sched_eq_core [of ?k t] by (simp add: killed_effect_def same_core_def)
       (simp add: upd_proc_def)
    from wp_release_section [OF s(1,2) this] killed_section [OF s(1,2) t] s(1,2) show ?thesis
      by (simp add: same_coreD)
  qed
  have "wp (if p_state (procs ?k p) = SLEEPING then insertProc p (p_prio (procs (upd_proc p (p_state_update (\<lambda>_. RUNNABLE)) ?k) p))
      (upd_proc p (p_state_update (\<lambda>_. RUNNABLE)) ?k) else Ret 0 ?k) (\<lambda>_ t. killed_effect p ?e t)"
  proof (cases "p_state (procs ?k p) = SLEEPING")
    case True
    have "wp (insertProc p (p_prio (procs (upd_proc p (p_state_update (\<lambda>_. RUNNABLE)) ?k) p))
      (upd_proc p (p_state_update (\<lambda>_. RUNNABLE)) ?k)) (\<lambda>_ t. killed_effect p ?e t)"
      using True by (intro wp_mono [OF make_runnable [OF k]]) (auto simp: killed_effect_def upd_proc_def)
    with True show ?thesis by simp
  next
    case False
    with k show ?thesis by (auto simp: killed_effect_def upd_proc_def)
  qed
  then show ?thesis
    using p acquire_calm [OF s(1,2)] fin by (auto simp: kill_def Let_def intro: wp_mono)
qed

section \<open>Inside and outside the critical section of the process table\<close>

definition in_section :: "nat \<Rightarrow> 'a machine_scheme \<Rightarrow> bool" where
  "in_section c s \<longleftrightarrow> this_cpu s = Some c \<and> \<not> eflags_if s \<and> cpu_ncli (cpus s c) = 1 \<and> lock_mine PtableLock c s"

definition out_section :: "nat \<Rightarrow> 'a machine_scheme \<Rightarrow> bool" where
  "out_section c s \<longleftrightarrow> this_cpu s = Some c \<and> cpu_ncli (cpus s c) = 0 \<and> lock_free PtableLock s"

lemma acquire_out:
  assumes "out_section c s"
  shows "acquire PtableLock s = Ret () (enter PtableLock c s)" and "in_section c (enter PtableLock c s)"
  using assms acquire_eq [of c s PtableLock] by (auto simp: out_section_def in_section_def cpu_ok_def)

lemma release_in:
  assumes "in_section c s"
  shows "release PtableLock s = Ret () (leave PtableLock c s)" and "out_section c (leave PtableLock c s)"
  using assms release_eq [of c s PtableLock]
  by (auto simp: out_section_def in_section_def cpu_ok_def) (simp_all add: leave_def lock_free_def)

lemma in_section_ok: "in_section c s \<Longrightarrow> cpu_ok c s \<and> calm c s"
  by (auto simp: in_section_def calm_def cpu_ok_def)

lemma in_section_core: "same_core s t \<Longrightarrow> in_section c t = in_section c s"
  by (simp add: in_section_def same_coreD)

lemma in_section_upd [simp]:
  "in_section c (upd_proc p f s) = in_section c s" "in_section c (upd_prio i g s) = in_section c s"
  "in_section c (s\<lparr>cr3 := v\<rparr>) = in_section c s"
  by (simp_all add: in_section_def upd_proc_def upd_prio_def this_cpu_def lock_mine_def)

lemma in_section_cpu [simp]:
  "in_section c (upd_cpu d (cpu_proc_update f) s) = in_section c s"
  "in_section c (upd_cpu d (cpu_esp0_update g) s) = in_section c s"
  "in_section c (upd_cpu d (cpu_intena_update h) s) = in_section c s"
  by (auto simp: in_section_def upd_cpu_def lock_mine_def)

lemma out_section_sti [simp]: "out_section c (sti s) = out_section c s"
  by (auto simp: out_section_def sti_def this_cpu_def lock_free_def)

lemma myproc_calm: "calm c s \<Longrightarrow> myproc s = Ret (cpu_proc (cpus s c)) s"
  using myproc_core [of c s] by (simp add: myproc_def Let_def)

lemma sched_enter_eq:
  assumes "in_section c s" and "cpu_proc (cpus s c) = Some p" and "p_state (procs s p) \<noteq> RUNNING"
  shows "sched_enter s = Ret (cpu_intena (cpus s c)) s"
proof -
  have "cpu_ok c s" "calm c s" using in_section_ok [OF assms(1)] by simp_all
  moreover have "mycpu s = Ret c s" using assms(1) by (simp add: in_section_def mycpu_eq)
  moreover have "holding PtableLock s = Ret True s"
    using assms(1) holding_eq [OF \<open>cpu_ok c s\<close>] by (simp add: in_section_def lock_mine_def synced_calm [OF \<open>calm c s\<close>])
  ultimately show ?thesis
    using assms by (simp add: sched_enter_def myproc_calm in_section_def readeflags_if_def)
qed

lemma switchuvm_eq:
  assumes "in_section c s" and "p_kstack (procs s p) \<noteq> 0" and "p_pgdir (procs s p) \<noteq> 0"
  shows "switchuvm (Some p) s = Ret () ((upd_cpu c (cpu_esp0_update (\<lambda>_. p_kstack (procs s p) + KSTACKSIZE)) s)
     \<lparr>cr3 := V2P (p_pgdir (procs s p))\<rparr>)"
proof -
  let ?t = "(upd_cpu c (cpu_esp0_update (\<lambda>_. p_kstack (procs s p) + KSTACKSIZE)) (pushed c s))\<lparr>cr3 := V2P (p_pgdir (procs s p))\<rparr>"
  have "calm c s" using in_section_ok [OF assms(1)] by simp
  then have "pushcli s = Ret () (pushed c s)" "mycpu (pushed c s) = Ret c (pushed c s)"
    using myproc_core by blast+
  moreover have "this_cpu ?t = this_cpu s" by (rule this_cpu_cong) (simp_all add: upd_cpu_def pushed_def)
  with assms(1) have "popcli ?t = Ret () (popped c ?t)"
    by (intro popcli_eq) (auto simp: in_section_def upd_cpu_def pushed_def)
  moreover have "popped c ?t = (upd_cpu c (cpu_esp0_update (\<lambda>_. p_kstack (procs s p) + KSTACKSIZE)) s)
     \<lparr>cr3 := V2P (p_pgdir (procs s p))\<rparr>"
    using assms(1) by (intro ptab.equality)
      (auto simp: popped_def pushed_def upd_cpu_def in_section_def cpu_push_def intro!: ext cpu.equality)
  moreover have "procs (pushed c s) = procs s" by (simp add: pushed_def)
  ultimately show ?thesis using assms(2,3) by (simp add: switchuvm_def Let_def upd_cpu_def)
qed

section \<open>One scheduling round\<close>

text \<open>The most urgent queue that is not empty.\<close>

definition best :: "(nat \<Rightarrow> nat list) \<Rightarrow> nat option" where
  "best Q = find_idx (\<lambda>i. Q i \<noteq> []) NPRIO"

definition sans_link :: "proc \<Rightarrow> proc" where
  "sans_link x = x\<lparr>p_sigprio := None\<rparr>"

text \<open>The state at the moment CPU \<open>c\<close> switches to process \<open>p\<close>, but for the links of the queues.\<close>

definition dispatch :: "nat \<Rightarrow> nat \<Rightarrow> 'a ptab_scheme \<Rightarrow> 'a ptab_scheme" where
  "dispatch c p s = upd_proc p (p_state_update (\<lambda>_. RUNNING))
     ((upd_cpu c (\<lambda>x. x\<lparr>cpu_proc := Some p, cpu_esp0 := p_kstack (procs s p) + KSTACKSIZE\<rparr>) s)
        \<lparr>cr3 := V2P (p_pgdir (procs s p))\<rparr>)"

lemma links_only_sans: "links_only s t \<Longrightarrow> sans_link (procs t q) = sans_link (procs s q)"
  unfolding links_only_def sans_link_def by (metis proc.update_convs(16) proc.surjective)

lemma sched_rep_head:
  assumes "sched_rep s Q" and "i < NPRIO"
  shows "primero (priot s i) = (case Q i of [] \<Rightarrow> None | p # _ \<Rightarrow> Some p)"
proof -
  have "qchain (procs s) (primero (priot s i)) (Q i)"
    using assms by (simp add: sched_rep_def queues_rep_def queue_rep_def)
  then show ?thesis by (cases "Q i") auto
qed

lemma sched_repD:
  assumes "sched_rep s Q" and "i < NPRIO" and "p \<in> set (Q i)"
  shows "p < NPROC" "p_state (procs s p) = RUNNABLE" "unat (p_prio (procs s p)) = i"
  using assms unfolding sched_rep_def by blast+

lemma scheduler_scan_skip:
  assumes "sched_rep s Q" and "\<forall>j \<in> set js. j < NPRIO \<and> Q j = []"
  shows "scheduler_scan c (js @ is) s = scheduler_scan c is s"
  using assms(2) by (induction js) (auto simp: sched_rep_head [OF assms(1)])

lemma ptab_upd_cpu [simp]: "procs (upd_cpu c f s) = procs s" "priot (upd_cpu c f s) = priot s"
  by (simp_all add: upd_cpu_def)

lemma cpus_upd_proc [simp]: "cpus (upd_proc p f s) = cpus s"
  by (simp add: upd_proc_def)

lemma scheduler_scan_hit:
  assumes "in_section c s" and "sched_rep s Q" and "i < NPRIO" and "Q i = p # xs"
    and "p_kstack (procs s p) \<noteq> 0" and "p_pgdir (procs s p) \<noteq> 0"
  shows "wp (scheduler_scan c (i # is) s)
    (\<lambda>r t. r = Some p \<and> links_only (dispatch c p s) t \<and> sched_rep t (Q(i := xs)))"
proof -
  have p: "p < NPROC" "p_state (procs s p) = RUNNABLE" "unat (p_prio (procs s p)) = i" "queues_rep s Q"
    using sched_repD [OF assms(2,3), of p] assms(2,4) by (auto simp: sched_rep_def)
  let ?d = "dispatch c p s"
  have d: "queues_rep ?d Q"
    using p(4) queues_rep_cong [of ?d s Q] by (simp add: dispatch_def upd_proc_def upd_cpu_def)
  have pr: "p_prio (procs ?d q) = p_prio (procs s q)"
    "p_state (procs ?d q) = (if q = p then RUNNING else p_state (procs s q))" for q
    by (simp_all add: dispatch_def upd_proc_def upd_cpu_def)
  have "distinct (Q i)" using assms(2,3) by (simp add: sched_rep_def queues_rep_def queue_rep_def)
  then have dist: "distinct (p # xs)" using assms(4) by simp
  have other: "p \<notin> set (Q j)" if "j < NPRIO" "j \<noteq> i" for j
    using sched_repD(3) [OF assms(2) that(1), of p] p(3) that(2) by blast
  have "sched_rep t (Q(i := xs))" if t: "links_only ?d t" "queues_rep t (Q(i := xs))" for t
  proof -
    have "q \<in> set ((Q(i := xs)) j) \<longleftrightarrow> q < NPROC \<and> p_state (procs t q) = RUNNABLE \<and> unat (p_prio (procs t q)) = j"
      if "j < NPRIO" for j q
    proof -
      have "q \<in> set ((Q(i := xs)) j) \<longleftrightarrow> q \<in> set (Q j) \<and> q \<noteq> p"
        using dist assms(4) other [OF that] by auto
      with assms(2) that show ?thesis by (auto simp: sched_rep_def links_only_proc [OF t(1)] pr)
    qed
    with t assms(2) p show ?thesis by (auto simp: sched_rep_def links_only_proc [OF t(1)] pr split: if_splits)
  qed
  then have "wp (quitarProc p (p_prio (procs s p)) ?d) (\<lambda>r t. links_only ?d t \<and> sched_rep t (Q(i := xs)))"
    using quitarProc_refines [OF d, of "p_prio (procs s p)" p xs] p(3) assms(3,4) by (auto intro: wp_mono)
  moreover have "scheduler_scan c (i # is) s
      = then_do (quitarProc p (p_prio (procs s p)) ?d) (\<lambda>_ s. Ret (Some p) s)"
  proof -
    let ?u = "upd_cpu c (cpu_proc_update (\<lambda>_. Some p)) s"
    have "switchuvm (Some p) ?u = Ret () ((upd_cpu c (cpu_esp0_update (\<lambda>_. p_kstack (procs s p) + KSTACKSIZE)) ?u)
        \<lparr>cr3 := V2P (p_pgdir (procs s p))\<rparr>)"
      using switchuvm_eq [of c ?u p] assms(1,5,6) by simp
    then show ?thesis
      using p assms(2-4) sched_rep_head [OF assms(2,3)]
      by (simp add: Let_def) (simp add: dispatch_def upd_cpu_def upd_proc_def)
  qed
  ultimately show ?thesis by simp
qed

lemma in_section_dispatch: "in_section c (dispatch c p s) = in_section c s"
  by (auto simp: in_section_def dispatch_def upd_proc_def upd_cpu_def lock_mine_def this_cpu_def)
     (auto simp: find_idx_Some)

definition runnable_ok :: "'a ptab_scheme \<Rightarrow> bool" where
  "runnable_ok s \<longleftrightarrow> (\<forall>p < NPROC. p_state (procs s p) = RUNNABLE \<longrightarrow>
     p_kstack (procs s p) \<noteq> 0 \<and> p_pgdir (procs s p) \<noteq> 0)"

lemma sti_frame [simp]: "procs (sti s) = procs s" "priot (sti s) = priot s" "sched_rep (sti s) Q = sched_rep s Q"
proof -
  show "procs (sti s) = procs s" "priot (sti s) = priot s" by (simp_all add: sti_def)
  then show "sched_rep (sti s) Q = sched_rep s Q" by (intro sched_rep_cong)
qed

lemma scheduler_pick_wp:
  assumes "out_section c s" and "sched_rep s Q" and "runnable_ok s" and "best Q = Some i" and "Q i = p # xs"
  shows "wp (scheduler_pick c s) (\<lambda>r t. r = Some p \<and> in_section c t
     \<and> links_only (dispatch c p (enter PtableLock c (sti s))) t \<and> sched_rep t (Q(i := xs)))"
proof -
  let ?e = "enter PtableLock c (sti s)"
  have i: "i < NPRIO" "\<forall>j < i. Q j = []" using assms(4) by (auto simp: best_def find_idx_Some)
  have e: "acquire PtableLock (sti s) = Ret () ?e" "in_section c ?e" using acquire_out [of c "sti s"] assms(1) by simp_all
  have p: "p_kstack (procs ?e p) \<noteq> 0" "p_pgdir (procs ?e p) \<noteq> 0"
    using sched_repD [OF assms(2) i(1), of p] assms(3,5) by (auto simp: runnable_ok_def)
  have split: "[0..<NPRIO] = [0..<i] @ i # [Suc i..<NPRIO]"
    using i(1) upt_add_eq_append [of 0 i "NPRIO - i"] upt_conv_Cons [of i NPRIO] by simp
  have "scheduler_scan c [0..<NPRIO] ?e = scheduler_scan c (i # [Suc i..<NPRIO]) ?e"
    unfolding split using i assms(2) by (intro scheduler_scan_skip [of _ Q]) auto
  moreover have "wp (scheduler_scan c (i # [Suc i..<NPRIO]) ?e) (\<lambda>r t. r = Some p \<and> in_section c t
     \<and> links_only (dispatch c p ?e) t \<and> sched_rep t (Q(i := xs)))"
  proof (rule wp_mono [OF scheduler_scan_hit [of c ?e Q i p xs]])
    show "in_section c ?e" "sched_rep ?e Q" "i < NPRIO" "Q i = p # xs" using e(2) assms(2,5) i(1) by simp_all
    show "p_kstack (procs ?e p) \<noteq> 0" "p_pgdir (procs ?e p) \<noteq> 0" by (fact p)+
    fix r t
    assume t: "r = Some p \<and> links_only (dispatch c p ?e) t \<and> sched_rep t (Q(i := xs))"
    then have "in_section c t" using in_section_core [OF links_only_core] e(2) in_section_dispatch by blast
    with t show "r = Some p \<and> in_section c t \<and> links_only (dispatch c p ?e) t \<and> sched_rep t (Q(i := xs))" by simp
  qed
  ultimately show ?thesis
    by (auto simp: scheduler_pick_def e(1) intro: wp_mono)
qed

lemma scheduler_pick_none:
  assumes "out_section c s" and "sched_rep s Q" and "best Q = None"
  shows "scheduler_pick c s = Ret None (synced c (sti s))"
proof -
  let ?e = "enter PtableLock c (sti s)"
  have e: "acquire PtableLock (sti s) = Ret () ?e" "in_section c ?e" using acquire_out [of c "sti s"] assms(1) by simp_all
  have "scheduler_scan c ([0..<NPRIO] @ []) ?e = scheduler_scan c [] ?e"
    using assms(2,3) by (intro scheduler_scan_skip [of _ Q]) (auto simp: best_def find_idx_None)
  then show ?thesis
    using e release_in [OF e(2)] assms(1) leave_enter [of c "sti s" PtableLock]
    by (simp add: scheduler_pick_def) (simp add: out_section_def sti_def cpu_ok_def lock_free_def)
qed

section \<open>A time slice\<close>

text \<open>One turn of a process on a CPU: the scheduler picks it, the process comes back from the call of
  \<open>sched\<close> in \<open>yield\<close> that suspended it (with the flag \<open>intena\<close> saved there), and at the next clock tick
  yields again, which takes the CPU back to the scheduler loop. The result is the process that ran.\<close>

definition slice :: "nat \<Rightarrow> bool \<Rightarrow> 'a ptab_scheme \<Rightarrow> (nat option, 'a ptab_scheme) outcome" where
  "slice c intena s =
     then_do (scheduler_pick c s) (\<lambda>r s.
     if r = None then Ret None s
     else then_do (yield_resume intena s) (\<lambda>_ s.
       then_do (yield_enter s) (\<lambda>_ s.
       then_do (scheduler_resume c s) (\<lambda>_ s. Ret r s))))"

primrec slices :: "nat \<Rightarrow> bool list \<Rightarrow> 'a ptab_scheme \<Rightarrow> (nat option list, 'a ptab_scheme) outcome" where
  "slices c [] s = Ret [] s"
| "slices c (b # bs) s = then_do (slice c b s) (\<lambda>r s. then_do (slices c bs s) (\<lambda>rs s. Ret (r # rs) s))"

lemma yield_resume_eq:
  assumes "in_section c s"
  shows "yield_resume b s = Ret () (leave PtableLock c (upd_cpu c (cpu_intena_update (\<lambda>_. b)) s))"
  using assms release_in(1) [of c "upd_cpu c (cpu_intena_update (\<lambda>_. b)) s"]
  by (simp add: yield_resume_def sched_resume_def mycpu_eq in_section_def [of c s])

lemma yield_enter_wp:
  assumes s: "out_section c s" "sched_rep s Q" and p: "cpu_proc (cpus s c) = Some p" "p < NPROC"
    and r: "p_state (procs s p) = RUNNING"
  defines "i \<equiv> unat (p_prio (procs s p))"
  shows "wp (yield_enter s) (\<lambda>_ t. in_section c t \<and> sched_rep t (Q(i := Q i @ [p])) \<and> sched_eq (enter PtableLock c s) t
    \<and> (\<forall>q. p_state (procs t q) = (if q = p then RUNNABLE else p_state (procs s q))))"
proof -
  let ?e = "enter PtableLock c s"
  let ?u = "upd_proc p (p_state_update (\<lambda>_. RUNNABLE)) ?e"
  have e: "acquire PtableLock s = Ret () ?e" "in_section c ?e" using acquire_out [OF s(1)] .
  have m: "myproc ?e = Ret (Some p) ?e" "myproc ?u = Ret (Some p) ?u"
    using in_section_ok [of c ?e] in_section_ok [of c ?u] e(2) p(1) by (simp_all add: myproc_calm [of c])
  have "wp (insertProc p (p_prio (procs ?u p)) ?u) (\<lambda>_ t. in_section c t \<and> cpu_proc (cpus t c) = Some p
      \<and> sched_rep t (Q(i := Q i @ [p])) \<and> sched_eq ?e t
      \<and> (\<forall>q. p_state (procs t q) = (if q = p then RUNNABLE else p_state (procs s q))))"
  proof (rule wp_mono [OF make_runnable [of ?e Q p]])
    show "sched_rep ?e Q" "p < NPROC" using s p by simp_all
    show "p_state (procs ?e p) \<noteq> RUNNABLE" "p_state (procs ?e p) \<noteq> UNUSED" using r by simp_all
    fix x t
    assume t: "x = 1 \<and> sched_rep t (Q(unat (p_prio (procs ?e p)) := Q (unat (p_prio (procs ?e p))) @ [p])) \<and> sched_eq ?e t
      \<and> (\<forall>q. p_state (procs t q) = (if q = p then RUNNABLE else p_state (procs ?e q)))"
    then show "in_section c t \<and> cpu_proc (cpus t c) = Some p \<and> sched_rep t (Q(i := Q i @ [p])) \<and> sched_eq ?e t
      \<and> (\<forall>q. p_state (procs t q) = (if q = p then RUNNABLE else p_state (procs s q)))"
      using in_section_core [of ?e t] e(2) p(1) sched_eq_fields(1) [of ?e t] by (simp add: sched_eq_core i_def)
  qed
  then have "wp (insertProc p (p_prio (procs ?u p)) ?u) (\<lambda>_ t. wp (sched_enter t) (\<lambda>_ t. in_section c t
      \<and> sched_rep t (Q(i := Q i @ [p])) \<and> sched_eq ?e t
      \<and> (\<forall>q. p_state (procs t q) = (if q = p then RUNNABLE else p_state (procs s q)))))"
    by (rule wp_mono) (auto simp: sched_enter_eq)
  then show ?thesis by (simp add: yield_enter_def e(1) m Let_def)
qed

lemma sched_eq_procs:
  "sched_eq s t \<Longrightarrow> (procs t q)\<lparr>p_state := UNUSED, p_sigprio := None\<rparr> = (procs s q)\<lparr>p_state := UNUSED, p_sigprio := None\<rparr>"
proof -
  assume "sched_eq s t"
  then have "procs (unsched t) q = procs (unsched s) q" by (simp add: sched_eq_def)
  then show ?thesis by (simp add: unsched_def)
qed

lemma sans_link_eqI:
  "x\<lparr>p_state := UNUSED, p_sigprio := None\<rparr> = y\<lparr>p_state := UNUSED, p_sigprio := None\<rparr> \<Longrightarrow> p_state x = p_state y
    \<Longrightarrow> sans_link x = sans_link y"
  by (cases x; cases y) (simp add: sans_link_def)

text \<open>What a turn leaves of the table: everything but the links.\<close>

definition turn_inv :: "nat \<Rightarrow> 'a ptab_scheme \<Rightarrow> (nat \<Rightarrow> nat list) \<Rightarrow> 'a ptab_scheme \<Rightarrow> bool" where
  "turn_inv c s Q t \<longleftrightarrow> out_section c t \<and> sched_rep t Q \<and> (\<forall>q. sans_link (procs t q) = sans_link (procs s q))"

lemma slice_wp:
  assumes s: "out_section c s" "sched_rep s Q" "runnable_ok s" and "best Q = Some i" and q: "Q i = p # xs"
  shows "wp (slice c b s) (\<lambda>r t. r = Some p \<and> turn_inv c s (Q(i := xs @ [p])) t)"
proof -
  let ?e = "enter PtableLock c (sti s)"
  have i: "i < NPRIO" using assms(4) by (simp add: best_def find_idx_Some)
  have p: "p < NPROC" "p_state (procs s p) = RUNNABLE" "unat (p_prio (procs s p)) = i"
    using sched_repD [OF s(2) i, of p] q by simp_all
  have "wp (yield_resume b t) (\<lambda>_ t. wp (yield_enter t) (\<lambda>_ t. wp (scheduler_resume c t)
      (\<lambda>_ t. turn_inv c s (Q(i := xs @ [p])) t)))"
    if t: "in_section c t" "links_only (dispatch c p ?e) t" "sched_rep t (Q(i := xs))" for t
  proof -
    let ?v = "upd_cpu c (cpu_intena_update (\<lambda>_. b)) t"
    let ?w = "leave PtableLock c ?v"
    have v: "in_section c ?v" using t(1) by simp
    have st: "p_state (procs t q) = (if q = p then RUNNING else p_state (procs s q))"
      "p_prio (procs t q) = p_prio (procs s q)" for q
      by (simp_all add: links_only_proc [OF t(2)] dispatch_def upd_proc_def)
    have cp: "cpu_proc (cpus ?w c) = Some p"
      using links_only_rest(1) [OF t(2)] by (simp add: leave_def upd_cpu_def dispatch_def upd_proc_def)
    have "wp (yield_enter ?w) (\<lambda>_ u. wp (scheduler_resume c u) (\<lambda>_ t. turn_inv c s (Q(i := xs @ [p])) t))"
    proof (rule wp_mono [OF yield_enter_wp [where Q = "Q(i := xs)"]])
      show "out_section c ?w" by (rule release_in(2) [OF v])
      show "sched_rep ?w (Q(i := xs))" using t(3) sched_rep_cong [of ?v t] by simp
      show "cpu_proc (cpus ?w c) = Some p" "p < NPROC" "p_state (procs ?w p) = RUNNING" using cp p(1) st by simp_all
      let ?i = "unat (p_prio (procs ?w p))"
      have pi: "?i = i" using p(3) st by simp
      fix x u
      assume "in_section c u \<and> sched_rep u ((Q(i := xs))(?i := (Q(i := xs)) ?i @ [p]))
        \<and> sched_eq (enter PtableLock c ?w) u \<and> (\<forall>q. p_state (procs u q) = (if q = p then RUNNABLE else p_state (procs ?w q)))"
      then have u: "in_section c u" "sched_rep u (Q(i := xs @ [p]))" "sched_eq (enter PtableLock c ?w) u"
        "p_state (procs u q) = p_state (procs s q)" for q
        using pi st p(2) by (auto split: if_splits)
      let ?z = "upd_cpu c (cpu_proc_update (\<lambda>_. None)) (switchkvm u)"
      have z: "in_section c ?z" using u(1) by (simp add: switchkvm_def)
      have "procs ?z = procs u" "priot ?z = priot u" by (simp_all add: switchkvm_def)
      then have "sched_rep (leave PtableLock c ?z) (Q(i := xs @ [p]))" using u(2) sched_rep_cong [of ?z u] by simp
      moreover have "sans_link (procs u q) = sans_link (procs s q)" for q
      proof (rule sans_link_eqI)
        have "(procs u q)\<lparr>p_state := UNUSED, p_sigprio := None\<rparr> = (procs t q)\<lparr>p_state := UNUSED, p_sigprio := None\<rparr>"
          using sched_eq_procs [OF u(3), of q] by simp
        also have "\<dots> = (procs s q)\<lparr>p_state := UNUSED, p_sigprio := None\<rparr>"
          using sched_eq_procs [OF links_only_sched_eq [OF t(2)], of q] by (simp add: dispatch_def upd_proc_def)
        finally show "(procs u q)\<lparr>p_state := UNUSED, p_sigprio := None\<rparr>
            = (procs s q)\<lparr>p_state := UNUSED, p_sigprio := None\<rparr>" .
      qed (rule u(4))
      ultimately have "turn_inv c s (Q(i := xs @ [p])) (leave PtableLock c ?z)"
        using release_in(2) [OF z] by (simp add: turn_inv_def switchkvm_def)
      then show "wp (scheduler_resume c u) (\<lambda>_ t. turn_inv c s (Q(i := xs @ [p])) t)"
        using release_in(1) [OF z] by (simp add: scheduler_resume_def Let_def)
    qed
    then show ?thesis by (simp add: yield_resume_eq [OF t(1)])
  qed
  then show ?thesis
    using scheduler_pick_wp [OF s assms(4) q] by (auto simp: slice_def intro: wp_mono)
qed

lemma sans_link_proc:
  assumes "sans_link x = sans_link y"
  shows "p_state x = p_state y" "p_kstack x = p_kstack y" "p_pgdir x = p_pgdir y"
  using assms by (cases x; cases y; simp add: sans_link_def)+

lemma best_rotate [simp]: "best (Q(i := rotate1 (Q i))) = best Q"
  unfolding best_def by (rule find_idx_cong) simp

lemma turn_inv_trans: "turn_inv c s Q t \<Longrightarrow> turn_inv c t Q' u \<Longrightarrow> turn_inv c s Q' u"
  by (simp add: turn_inv_def)

lemma turn_inv_runnable: "turn_inv c s Q t \<Longrightarrow> runnable_ok s \<Longrightarrow> runnable_ok t"
  unfolding turn_inv_def runnable_ok_def using sans_link_proc by metis

lemma slices_wp:
  assumes "out_section c s" "sched_rep s Q" "runnable_ok s" and "best Q = Some i"
  shows "wp (slices c bs s) (\<lambda>rs t. rs = map (\<lambda>k. Some (Q i ! (k mod length (Q i)))) [0..<length bs]
     \<and> turn_inv c s (Q(i := rotate (length bs) (Q i))) t)"
  using assms
proof (induction bs arbitrary: s Q)
  case Nil
  then show ?case by (simp add: turn_inv_def)
next
  case (Cons b bs)
  have ne: "Q i \<noteq> []" using Cons.prems(4) by (simp add: best_def find_idx_Some)
  then obtain p xs where q: "Q i = p # xs" by (cases "Q i") auto
  let ?Q = "Q(i := rotate1 (Q i))"
  have eq: "?Q = Q(i := xs @ [p])" by (simp add: q)
  show ?case
    unfolding slices.simps wp_then_do
  proof (rule wp_mono [OF slice_wp [OF Cons.prems q]])
    fix r t
    assume "r = Some p \<and> turn_inv c s (Q(i := xs @ [p])) t"
    then have r: "r = Some p" and t: "turn_inv c s ?Q t" unfolding eq by simp_all
    have shift: "rotate1 (Q i) ! (k mod length (Q i)) = Q i ! (Suc k mod length (Q i))" for k
      using nth_rotate [of "k mod length (Q i)" "Q i" 1] ne by (simp add: mod_Suc_eq)
    have "wp (slices c bs t) (\<lambda>rs u. rs = map (\<lambda>k. Some (?Q i ! (k mod length (?Q i)))) [0..<length bs]
        \<and> turn_inv c t (?Q(i := rotate (length bs) (?Q i))) u)"
      using t turn_inv_runnable [OF t Cons.prems(3)] Cons.prems(4)
      by (intro Cons.IH [of t ?Q]) (simp_all add: turn_inv_def del: fun_upd_apply)
    then show "wp (slices c bs t) (\<lambda>rs u. wp (Ret (r # rs) u) (\<lambda>rs t. rs = map (\<lambda>k. Some (Q i ! (k mod length (Q i)))) [0..<length (b # bs)]
        \<and> turn_inv c s (Q(i := rotate (length (b # bs)) (Q i))) t))"
    proof (rule wp_mono)
      fix rs u
      assume u: "rs = map (\<lambda>k. Some (?Q i ! (k mod length (?Q i)))) [0..<length bs]
        \<and> turn_inv c t (?Q(i := rotate (length bs) (?Q i))) u"
      then have "turn_inv c s (Q(i := rotate (length (b # bs)) (Q i))) u"
        using turn_inv_trans [OF t] by (simp add: rotate1_rotate_swap)
      moreover have "r # rs = map (\<lambda>k. Some (Q i ! (k mod length (Q i)))) (0 # map Suc [0..<length bs])"
      proof -
        have "r = Some (Q i ! (0 mod length (Q i)))" by (simp add: r q)
        moreover have "rs = map (\<lambda>k. Some (Q i ! (Suc k mod length (Q i)))) [0..<length bs]" using u by (simp add: shift)
        ultimately show ?thesis by simp
      qed
      ultimately show "wp (Ret (r # rs) u) (\<lambda>rs t. rs = map (\<lambda>k. Some (Q i ! (k mod length (Q i)))) [0..<length (b # bs)]
          \<and> turn_inv c s (Q(i := rotate (length (b # bs)) (Q i))) t)"
        by (simp add: upt_conv_Cons map_Suc_upt del: upt_Suc)
    qed
  qed
qed

section \<open>Properties\<close>

text \<open>The machine of \<open>Prioqueue\<close> with a further process asleep until the next clock tick.\<close>

definition demo_asleep :: ptab where
  "demo_asleep = upd_proc 3 (\<lambda>x. x\<lparr>p_state := SLEEPING, p_chan := Some ChTicks, p_pid := 4\<rparr>) demo_ptab"

lemma sched_rep_asleep [simp]: "sched_rep demo_asleep demo_queues"
proof -
  have "queues_rep demo_asleep demo_queues"
    using queues_rep_cong [of demo_asleep demo_ptab] by (simp add: demo_asleep_def upd_proc_def)
  then show ?thesis
    by (auto simp: sched_rep_def demo_asleep_def upd_proc_def)
       (auto simp: demo_queues_def demo_proc_def NPRIO_def NPROC_def split: if_splits)
qed

lemma procs_asleep [simp]: "procs demo_asleep = demo_proc(3 := (demo_proc 3)\<lparr>p_state := SLEEPING, p_chan := Some ChTicks, p_pid := 4\<rparr>)"
  by (simp add: demo_asleep_def upd_proc_def)

lemma demo_pid: "p_pid (demo_proc p) = k \<longleftrightarrow> (p = 0 \<and> k = 1 \<or> p = 1 \<and> k = 2 \<or> p = 2 \<and> k = 3 \<or> 3 \<le> p \<and> k = 0)"
proof -
  consider "p = 0" | "p = 1" | "p = 2" | "3 \<le> p" by linarith
  then show ?thesis by cases (auto simp: demo_proc_def)
qed

lemma calm_asleep [simp]: "calm 0 demo_asleep" "lock_free lk demo_asleep"
proof -
  have "same_core demo_ptab demo_asleep" by (simp add: demo_asleep_def)
  from same_coreD(3,4) [OF this] show "calm 0 demo_asleep" "lock_free lk demo_asleep" by simp_all
qed

lemma demo_section [simp]: "out_section 0 demo_ptab" "runnable_ok demo_ptab"
proof -
  show "out_section 0 demo_ptab" using calm_demo(1)
    by (simp add: out_section_def calm_def cpu_ok_def idle_kmem_def)
  show "runnable_ok demo_ptab" by (simp add: runnable_ok_def demo_proc_def)
qed

lemma best_demo [simp]: "best demo_queues = Some 5" "demo_queues 5 = [0, 1, 2]"
  by (simp_all add: best_def find_idx_Some demo_queues_def NPRIO_def)

text \<open>C1: The scheduler runs the most urgent process. In a table whose queues hold exactly the runnable
  processes, a round of \<open>scheduler\<close> takes the first process of the first queue that is not empty: it
  leaves that queue, becomes \<open>RUNNING\<close> and the process of this CPU, its page table is loaded and the
  lock of the process table stays held for the switch. Without runnable processes the round ends with the
  lock free. The queues keep holding exactly the runnable processes.\<close>

theorem scheduler_most_urgent:
  assumes "out_section c s" and "sched_rep s Q" and "runnable_ok s"
  shows "wp (scheduler_pick c s) (\<lambda>r t. case best Q of
      None \<Rightarrow> r = None \<and> out_section c t \<and> sched_rep t Q \<and> procs t = procs s
    | Some i \<Rightarrow> r = Some (hd (Q i)) \<and> in_section c t \<and> sched_rep t (Q(i := tl (Q i)))
        \<and> p_state (procs t (hd (Q i))) = RUNNING \<and> cpu_proc (cpus t c) = Some (hd (Q i))
        \<and> cr3 t = V2P (p_pgdir (procs s (hd (Q i))))
        \<and> (\<forall>q. q \<noteq> hd (Q i) \<longrightarrow> sans_link (procs t q) = sans_link (procs s q)))"
proof (cases "best Q")
  case None
  let ?t = "synced c (sti s)"
  have "procs ?t = procs s" "priot ?t = priot s" by (simp_all add: synced_def)
  then have "sched_rep ?t Q" using assms(2) sched_rep_cong [of ?t s Q] by simp
  moreover have "out_section c ?t"
    using assms(1) this_cpu_cong [of ?t s] by (simp add: out_section_def synced_def sti_def lock_free_def)
  ultimately show ?thesis
    using None scheduler_pick_none [OF assms(1,2) None] by (simp add: synced_def)
next
  case (Some i)
  then obtain p xs where q: "Q i = p # xs" by (cases "Q i") (auto simp: best_def find_idx_Some)
  let ?e = "enter PtableLock c (sti s)"
  show ?thesis
  proof (rule wp_mono [OF scheduler_pick_wp [OF assms Some q]])
    fix r t
    assume t: "r = Some p \<and> in_section c t \<and> links_only (dispatch c p ?e) t \<and> sched_rep t (Q(i := xs))"
    then have l: "links_only (dispatch c p ?e) t" by simp
    have "p_state (procs t p) = RUNNING" "cpu_proc (cpus t c) = Some p" "cr3 t = V2P (p_pgdir (procs s p))"
      using links_only_proc(1) [OF l] links_only_rest [OF l] by (simp_all add: dispatch_def upd_proc_def upd_cpu_def)
    moreover have "sans_link (procs t q) = sans_link (procs s q)" if "q \<noteq> p" for q
      using links_only_sans [OF l, of q] that by (simp add: dispatch_def upd_proc_def)
    ultimately show "case best Q of
        None \<Rightarrow> r = None \<and> out_section c t \<and> sched_rep t Q \<and> procs t = procs s
      | Some i \<Rightarrow> r = Some (hd (Q i)) \<and> in_section c t \<and> sched_rep t (Q(i := tl (Q i)))
        \<and> p_state (procs t (hd (Q i))) = RUNNING \<and> cpu_proc (cpus t c) = Some (hd (Q i))
        \<and> cr3 t = V2P (p_pgdir (procs s (hd (Q i))))
        \<and> (\<forall>q. q \<noteq> hd (Q i) \<longrightarrow> sans_link (procs t q) = sans_link (procs s q))"
      using t Some q by simp
  qed
qed

theorem scheduler_most_urgent_witness:
  "out_section 0 demo_ptab \<and> sched_rep demo_ptab demo_queues \<and> runnable_ok demo_ptab
   \<and> wp (scheduler_pick 0 demo_ptab) (\<lambda>r t. r = Some 0 \<and> sched_rep t (demo_queues(5 := [1, 2]))
       \<and> p_state (procs t 0) = RUNNING)"
proof -
  have "wp (scheduler_pick 0 demo_ptab) (\<lambda>r t. r = Some 0 \<and> sched_rep t (demo_queues(5 := [1, 2]))
       \<and> p_state (procs t 0) = RUNNING)"
    using scheduler_most_urgent [of 0 demo_ptab demo_queues] by (rule wp_mono) (simp_all del: fun_upd_apply)
  then show ?thesis by simp
qed

text \<open>C2: Round robin. When processes use their time slices up, one CPU runs the processes of the most urgent
  queue in turn: the \<open>k\<close>-th slice goes to process number \<open>k\<close> modulo the length of the queue, so within as
  many slices as the queue is long every one of its processes has run. No queue loses a process and the
  process table is otherwise unchanged. The flags \<open>bs\<close> are the saved interrupt flags of the processes.\<close>

theorem round_robin:
  assumes "out_section c s" and "sched_rep s Q" and "runnable_ok s" and "best Q = Some i"
  shows "wp (slices c bs s) (\<lambda>rs t. rs = map (\<lambda>k. Some (Q i ! (k mod length (Q i)))) [0..<length bs]
     \<and> (length (Q i) \<le> length bs \<longrightarrow> (\<forall>p \<in> set (Q i). Some p \<in> set rs))
     \<and> sched_rep t (Q(i := rotate (length bs) (Q i))) \<and> (\<forall>q. sans_link (procs t q) = sans_link (procs s q)))"
proof (rule wp_mono [OF slices_wp [OF assms]])
  fix rs t
  assume h: "rs = map (\<lambda>k. Some (Q i ! (k mod length (Q i)))) [0..<length bs]
     \<and> turn_inv c s (Q(i := rotate (length bs) (Q i))) t"
  have "Some p \<in> set rs" if "length (Q i) \<le> length bs" "p \<in> set (Q i)" for p
  proof -
    from that(2) obtain k where k: "k < length (Q i)" "p = Q i ! k" by (metis in_set_conv_nth)
    then have "rs ! k = Some p" "k < length rs" using h that(1) by simp_all
    then show ?thesis by (metis nth_mem)
  qed
  with h show "rs = map (\<lambda>k. Some (Q i ! (k mod length (Q i)))) [0..<length bs]
     \<and> (length (Q i) \<le> length bs \<longrightarrow> (\<forall>p \<in> set (Q i). Some p \<in> set rs))
     \<and> sched_rep t (Q(i := rotate (length bs) (Q i))) \<and> (\<forall>q. sans_link (procs t q) = sans_link (procs s q))"
    by (simp add: turn_inv_def)
qed

theorem round_robin_witness:
  "out_section 0 demo_ptab \<and> sched_rep demo_ptab demo_queues \<and> runnable_ok demo_ptab \<and> best demo_queues = Some 5
   \<and> wp (slices 0 [True, False, True, True] demo_ptab) (\<lambda>rs t. rs = [Some 0, Some 1, Some 2, Some 0])"
proof -
  have "wp (slices 0 [True, False, True, True] demo_ptab) (\<lambda>rs t. rs = [Some 0, Some 1, Some 2, Some 0])"
    by (rule wp_mono [OF round_robin [of 0 demo_ptab demo_queues 5]]) (simp_all add: upt_rec)
  then show ?thesis by simp
qed

text \<open>C29: \<open>wakeup\<close> makes runnable exactly the processes that sleep on the channel, each at the end of the
  queue of its priority, and changes nothing else; the lock of the process table is free again.\<close>

theorem wakeup_correct:
  assumes "calm c s" and "lock_free PtableLock s" and "sched_rep s Q"
  shows "wp (wakeup ch s) (\<lambda>_ t. sched_eq s t \<and> (\<exists>Q'. sched_rep t Q') \<and> calm c t \<and> lock_free PtableLock t
    \<and> (\<forall>q < NPROC. p_state (procs t q) =
         (if p_state (procs s q) = SLEEPING \<and> p_chan (procs s q) = Some ch then RUNNABLE else p_state (procs s q))))"
  by (rule wp_mono [OF wakeup_wp [OF assms]]) (auto simp: woken_def sleeps_on_def)

theorem wakeup_correct_witness:
  "calm 0 demo_asleep \<and> lock_free PtableLock demo_asleep \<and> sched_rep demo_asleep demo_queues
   \<and> wp (wakeup ChTicks demo_asleep) (\<lambda>_ t. p_state (procs t 3) = RUNNABLE \<and> (\<exists>Q. sched_rep t Q))"
proof -
  have "wp (wakeup ChTicks demo_asleep) (\<lambda>_ t. p_state (procs t 3) = RUNNABLE \<and> (\<exists>Q. sched_rep t Q))"
    by (rule wp_mono [OF wakeup_correct [of 0 demo_asleep demo_queues]])
       (auto simp: NPROC_def)
  then show ?thesis by simp
qed

text \<open>C30: \<open>kill\<close> marks the first process of the table with the given identifier as killed, makes it runnable
  if it was asleep, and returns 0; for an identifier that is not in the table it changes nothing and
  returns -1. Queues and lock are as they should be in either case.\<close>

theorem kill_correct:
  assumes "calm c s" and "lock_free PtableLock s" and "sched_rep s Q"
  shows "wp (kill pid s) (\<lambda>r t. calm c t \<and> lock_free PtableLock t \<and> (\<exists>Q'. sched_rep t Q')
    \<and> (case find_idx (\<lambda>p. p_pid (procs s p) = pid) NPROC of
         None \<Rightarrow> r = - 1 \<and> t = s
       | Some p \<Rightarrow> r = 0 \<and> sched_eq (upd_proc p (p_killed_update (\<lambda>_. True)) s) t
           \<and> (\<forall>q. p_state (procs t q) =
                (if q = p \<and> p_state (procs s p) = SLEEPING then RUNNABLE else p_state (procs s q)))))"
proof (cases "find_idx (\<lambda>p. p_pid (procs s p) = pid) NPROC")
  case None
  then have "kill pid s = Ret (- 1) s"
    using acquire_calm [OF assms(1,2)] release_section [OF assms(1,2)] enter_then_leave [OF assms(1,2)]
    by (simp add: kill_def)
  with None assms show ?thesis by auto
next
  case (Some p)
  show ?thesis
    by (rule wp_mono [OF kill_wp [OF assms Some]]) (auto simp: Some killed_effect_def)
qed

theorem kill_correct_witness:
  "calm 0 demo_asleep \<and> lock_free PtableLock demo_asleep \<and> sched_rep demo_asleep demo_queues
   \<and> wp (kill 4 demo_asleep) (\<lambda>r t. r = 0 \<and> p_killed (procs t 3) \<and> p_state (procs t 3) = RUNNABLE)"
proof -
  have f: "find_idx (\<lambda>p. p_pid (procs demo_asleep p) = 4) NPROC = Some 3"
    by (simp add: find_idx_Some demo_pid NPROC_def)
  have k: "p_killed (procs t 3)" if "sched_eq (upd_proc 3 (p_killed_update (\<lambda>_. True)) demo_asleep) t" for t
    using sched_eq_proc(4) [OF that, of 3] by (simp add: upd_proc_def)
  have "wp (kill 4 demo_asleep) (\<lambda>r t. r = 0 \<and> p_killed (procs t 3) \<and> p_state (procs t 3) = RUNNABLE)"
    by (rule wp_mono [OF kill_correct [of 0 demo_asleep demo_queues 4, unfolded f option.case]]) (simp_all add: k)
  then show ?thesis by simp
qed

text \<open>C31: \<open>getProcbyPID\<close> of an identifier that no process has returns null with the lock of the process table
  still held and interrupts off, so that the next attempt to take the lock on this CPU panics.\<close>

theorem getProcbyPID_keeps_lock:
  assumes "calm c s" and "lock_free PtableLock s" and "\<forall>p < NPROC. p_pid (procs s p) \<noteq> pid"
  shows "getProcbyPID pid s = Ret None (enter PtableLock c s)
    \<and> then_do (getProcbyPID pid s) (\<lambda>_ t. acquire PtableLock t) = Panic ''acquire''"
proof -
  have "find_idx (\<lambda>p. p_pid (procs (enter PtableLock c s) p) = pid) NPROC = None"
    using assms(3) by (simp add: find_idx_None)
  then have g: "getProcbyPID pid s = Ret None (enter PtableLock c s)"
    using acquire_calm [OF assms(1,2)] by (simp add: getProcbyPID_def)
  moreover have "acquire PtableLock (enter PtableLock c s) = Panic ''acquire''"
    using assms(1) acquire_held [of c "enter PtableLock c s" PtableLock] by (simp add: calm_def) (simp add: enter_def)
  ultimately show ?thesis by simp
qed

theorem getProcbyPID_keeps_lock_witness:
  "calm 0 demo_ptab \<and> lock_free PtableLock demo_ptab \<and> list_all (\<lambda>p. p_pid (procs demo_ptab p) \<noteq> 77) [0..<NPROC]
   \<and> then_do (getProcbyPID 77 demo_ptab) (\<lambda>_ t. acquire PtableLock t) = Panic ''acquire''"
proof -
  have h: "\<forall>p < NPROC. p_pid (procs demo_ptab p) \<noteq> 77"
    by (simp add: demo_pid)
  from getProcbyPID_keeps_lock [OF calm_demo h]
  have "then_do (getProcbyPID 77 demo_ptab) (\<lambda>_ t. acquire PtableLock t) = Panic ''acquire''" ..
  with h show ?thesis by (simp add: calm_demo list_all_iff)
qed

end
