(* ===== verification/Sleeplock.thy ===== *)
theory Sleeplock
  imports Sched
begin

text \<open>
  Sleep locks, after \<open>sleeplock.h\<close> and \<open>sleeplock.c\<close>. The kernel has one sleep lock in every buffer and in
  every cached inode; each contains a spin lock, and its address is the channel its waiters sleep on. The
  lemmas describe the operations of a process in the kernel that holds no spin lock: what it can take,
  when it has to wait, and that a release wakes the waiters.
\<close>

section \<open>State\<close>

datatype sleepid = BufSL nat | InodeSL nat

primrec sl_spin :: "sleepid \<Rightarrow> lockid" where
  "sl_spin (BufSL i) = BufSleepLk i"
| "sl_spin (InodeSL i) = InodeSleepLk i"

primrec sl_chan :: "sleepid \<Rightarrow> chan" where
  "sl_chan (BufSL i) = ChBufLock i"
| "sl_chan (InodeSL i) = ChInodeLock i"

record sleeplock =
  sl_locked :: bool
  sl_pid :: u32

record slst = ptab +
  sleeplks :: "sleepid \<Rightarrow> sleeplock"

definition upd_sleeplk :: "sleepid \<Rightarrow> (sleeplock \<Rightarrow> sleeplock) \<Rightarrow> 'a slst_scheme \<Rightarrow> 'a slst_scheme" where
  "upd_sleeplk i f s = s\<lparr>sleeplks := (sleeplks s)(i := f (sleeplks s i))\<rparr>"

section \<open>Operations\<close>

definition initsleeplock :: "sleepid \<Rightarrow> 'a slst_scheme \<Rightarrow> 'a slst_scheme" where
  "initsleeplock i s =
     (let s = initlock (sl_spin i) s;
          s = upd_sleeplk i (sl_locked_update (\<lambda>_. False)) s
      in upd_sleeplk i (sl_pid_update (\<lambda>_. 0)) s)"

text \<open>\<open>acquiresleep\<close> from the test of its loop on; a process that has slept comes back to it through
  \<open>acquiresleep_resume\<close>.\<close>

definition acquiresleep_test :: "sleepid \<Rightarrow> 'a slst_scheme \<Rightarrow> (unit, 'a slst_scheme) outcome" where
  "acquiresleep_test i s =
     (if sl_locked (sleeplks s i) then ksleep (sl_chan i) (sl_spin i) s
      else
        let s = upd_sleeplk i (sl_locked_update (\<lambda>_. True)) s in
        then_do (myproc s) (\<lambda>p s.
        case p of
          None \<Rightarrow> Fault ''acquiresleep: myproc()->pid''
        | Some p \<Rightarrow>
          let s = upd_sleeplk i (sl_pid_update (\<lambda>_. p_pid (procs s p))) s in
          release (sl_spin i) s))"

definition acquiresleep :: "sleepid \<Rightarrow> 'a slst_scheme \<Rightarrow> (unit, 'a slst_scheme) outcome" where
  "acquiresleep i s =
     then_do (acquire (sl_spin i) s) (\<lambda>_ s. acquiresleep_test i s)"

definition acquiresleep_resume :: "nat \<Rightarrow> bool \<Rightarrow> sleepid \<Rightarrow> 'a slst_scheme \<Rightarrow> (unit, 'a slst_scheme) outcome" where
  "acquiresleep_resume p intena i s =
     then_do (sleep_resume p intena (sl_spin i) s) (\<lambda>_ s. acquiresleep_test i s)"

definition releasesleep :: "sleepid \<Rightarrow> 'a slst_scheme \<Rightarrow> (unit, 'a slst_scheme) outcome" where
  "releasesleep i s =
     then_do (acquire (sl_spin i) s) (\<lambda>_ s.
     let s = upd_sleeplk i (sl_locked_update (\<lambda>_. False)) s;
         s = upd_sleeplk i (sl_pid_update (\<lambda>_. 0)) s in
     then_do (wakeup (sl_chan i) s) (\<lambda>_ s.
     release (sl_spin i) s))"

definition holdingsleep :: "sleepid \<Rightarrow> 'a slst_scheme \<Rightarrow> (bool, 'a slst_scheme) outcome" where
  "holdingsleep i s =
     then_do (acquire (sl_spin i) s) (\<lambda>_ s.
     then_do (if sl_locked (sleeplks s i) then
                then_do (myproc s) (\<lambda>p s.
                case p of
                  None \<Rightarrow> Fault ''holdingsleep: myproc()->pid''
                | Some p \<Rightarrow> Ret (sl_pid (sleeplks s i) = p_pid (procs s p)) s)
              else Ret False s) (\<lambda>r s.
     then_do (release (sl_spin i) s) (\<lambda>_ s. Ret r s)))"

section \<open>A process in the kernel\<close>

text \<open>Process \<open>p\<close> runs on CPU \<open>c\<close> in the kernel, no spin lock is held, and the queues hold the runnable processes.\<close>

definition quiet :: "nat \<Rightarrow> nat \<Rightarrow> 'a ptab_scheme \<Rightarrow> bool" where
  "quiet c p s \<longleftrightarrow> calm c s \<and> cpu_proc (cpus s c) = Some p \<and> (\<forall>lk. lock_free lk s) \<and> (\<exists>Q. sched_rep s Q)"

lemma quietD:
  assumes "quiet c p s"
  shows "calm c s" "lock_free lk s" "cpu_proc (cpus s c) = Some p" "myproc s = Ret (Some p) s" "\<exists>Q. sched_rep s Q"
  using assms myproc_calm [of c s] by (auto simp: quiet_def)

lemma quiet_sched_eq: "sched_eq s t \<Longrightarrow> quiet c p s \<Longrightarrow> sched_rep t Q \<Longrightarrow> quiet c p t"
  using sched_eq_core [of s t] by (auto simp: quiet_def same_coreD)

lemma quiet_cong: "same_core s t \<Longrightarrow> (\<And>Q. sched_rep t Q = sched_rep s Q) \<Longrightarrow> quiet c p t = quiet c p s"
  using same_coreD(3,4,6) [of s t] by (simp add: quiet_def)

lemma calm_enter: "calm c s \<Longrightarrow> calm c (enter lk c s)"
  by (auto simp: calm_def cpu_ok_def)

text \<open>A critical section: when the code inside leaves CPUs and locks alone, the whole returns.\<close>

lemma wp_section:
  assumes "calm c s" and "lock_free lk s"
    and "wp (f (enter lk c s)) (\<lambda>r t. same_core (enter lk c s) t \<and> R r (leave lk c t))"
  shows "wp (then_do (acquire lk s) (\<lambda>_ s. then_do (f s) (\<lambda>r s. then_do (release lk s) (\<lambda>_ s. Ret r s)))) R"
proof -
  have "wp (f (enter lk c s)) (\<lambda>r t. wp (release lk t) (\<lambda>_ u. R r u))"
    by (rule wp_mono [OF assms(3)]) (use release_section [OF assms(1,2)] in auto)
  then show ?thesis by (simp add: acquire_calm [OF assms(1,2)])
qed

lemma enter_fields [simp]: "sleeplks (enter lk c s) = sleeplks s" "sleeplks (leave lk c t) = sleeplks t"
  by (simp_all add: enter_def leave_def)

lemma sleeplks_commute [simp]:
  "enter lk c (s\<lparr>sleeplks := x\<rparr>) = (enter lk c s)\<lparr>sleeplks := x\<rparr>"
  "leave lk c (s\<lparr>sleeplks := x\<rparr>) = (leave lk c s)\<lparr>sleeplks := x\<rparr>"
  by (simp_all add: enter_def leave_def)

lemma sleeplks_core [simp]: "same_core s (t\<lparr>sleeplks := x\<rparr>) = same_core s t"
  by (simp add: same_core_def)

lemma sleeplks_sched [simp]: "sched_rep (s\<lparr>sleeplks := x\<rparr>) Q = sched_rep s Q"
  by (rule sched_rep_cong) simp_all

lemma quiet_sleeplks [simp]: "quiet c p (s\<lparr>sleeplks := x\<rparr>) = quiet c p s"
  by (rule quiet_cong) simp_all

lemma unsched_sleeplks: "sleeplks (unsched s) = sleeplks s" "slst.more (unsched s) = slst.more s"
  by (simp_all add: unsched_def)

lemma sched_eq_sleeplks: "sched_eq s t \<Longrightarrow> sleeplks t = sleeplks s" "sched_eq s t \<Longrightarrow> slst.more t = slst.more s"
  unfolding sched_eq_def by (metis unsched_sleeplks)+

definition set_sleep :: "sleepid \<Rightarrow> bool \<Rightarrow> u32 \<Rightarrow> 'a slst_scheme \<Rightarrow> 'a slst_scheme" where
  "set_sleep i b pid s = s\<lparr>sleeplks := (sleeplks s)(i := \<lparr>sl_locked = b, sl_pid = pid\<rparr>)\<rparr>"

lemma sleeplock_set_both [simp]: "(l :: sleeplock)\<lparr>sl_locked := a, sl_pid := b\<rparr> = \<lparr>sl_locked = a, sl_pid = b\<rparr>"
  by (cases l) simp

lemma upd_sleeplk_both:
  "upd_sleeplk i (sl_pid_update (\<lambda>_. pid)) (upd_sleeplk i (sl_locked_update (\<lambda>_. b)) s) = set_sleep i b pid s"
  by (simp add: upd_sleeplk_def set_sleep_def)

lemma acquiresleep_eq:
  assumes q: "quiet c p s" and free: "\<not> sl_locked (sleeplks s i)"
  shows "acquiresleep i s = Ret () (set_sleep i True (p_pid (procs s p)) s)"
proof -
  let ?lk = "sl_spin i"
  let ?e = "enter ?lk c s"
  let ?u = "upd_sleeplk i (sl_locked_update (\<lambda>_. True)) ?e"
  have core: "same_core ?e ?u" by (simp add: upd_sleeplk_def)
  have "calm c ?u" using calm_enter [OF quietD(1) [OF q]] core by (simp only: same_coreD)
  then have m: "myproc ?u = Ret (Some p) ?u"
    using myproc_calm [of c ?u] quietD(3) [OF q] by (simp add: upd_sleeplk_def)
  let ?t = "set_sleep i True (p_pid (procs s p)) ?e"
  have "same_core ?e ?t" by (simp add: set_sleep_def)
  from release_section [OF quietD(1,2) [OF q] this]
  have r: "release ?lk ?t = Ret () (leave ?lk c ?t)" by simp
  have "leave ?lk c ?t = set_sleep i True (p_pid (procs s p)) s"
    using enter_then_leave [OF quietD(1,2) [OF q]] by (simp add: set_sleep_def)
  moreover have "procs ?u = procs s" by (simp add: upd_sleeplk_def)
  ultimately show ?thesis
    using r free
    by (simp add: acquiresleep_def acquire_calm [OF quietD(1,2) [OF q]] acquiresleep_test_def Let_def m upd_sleeplk_both)
qed

lemma holdingsleep_eq:
  assumes q: "quiet c p s"
  shows "holdingsleep i s = Ret (sl_locked (sleeplks s i) \<and> sl_pid (sleeplks s i) = p_pid (procs s p)) s"
proof -
  let ?e = "enter (sl_spin i) c s"
  have m: "myproc ?e = Ret (Some p) ?e"
    using myproc_calm [OF calm_enter [OF quietD(1) [OF q]]] quietD(3) [OF q] by simp
  have "release (sl_spin i) ?e = Ret () s"
    using release_section [OF quietD(1,2) [OF q], of "sl_spin i" ?e] enter_then_leave [OF quietD(1,2) [OF q]] by simp
  then show ?thesis by (simp add: holdingsleep_def acquire_calm [OF quietD(1,2) [OF q]] m)
qed

lemma sl_spin_neq [simp]: "sl_spin i \<noteq> PtableLock" "PtableLock \<noteq> sl_spin i"
  by (cases i; simp)+

text \<open>Waking the sleepers of a channel at the end of a critical section.\<close>

lemma wakeup_section:
  assumes q: "quiet c p s" and lk: "lk \<noteq> PtableLock"
  shows "wp (wakeup ch (enter lk c s)) (\<lambda>_ t. sched_eq (enter lk c s) t \<and> quiet c p (leave lk c t)
    \<and> woken (Some ch) [0..<NPROC] s (leave lk c t))"
proof -
  obtain Q where "sched_rep s Q" using q by (auto simp: quiet_def)
  then have Q: "sched_rep (enter lk c s) Q" by simp
  have free: "lock_free PtableLock (enter lk c s)" using quietD(2) [OF q, of PtableLock] lk by (simp add: lock_free_def)
  show ?thesis
  proof (rule wp_mono [OF wakeup_wp [OF calm_enter [OF quietD(1) [OF q]] free Q]])
    fix x t
    assume t: "woken (Some ch) [0..<NPROC] (enter lk c s) t \<and> calm c t \<and> lock_free PtableLock t"
    then have eq: "sched_eq (enter lk c s) t" by (simp add: woken_def)
    have "sched_eq s (leave lk c t)" by (rule sched_eq_section [OF quietD(1,2) [OF q] eq])
    moreover obtain Q' where "sched_rep (leave lk c t) Q'" using t by (auto simp: woken_def)
    ultimately have "quiet c p (leave lk c t)" "woken (Some ch) [0..<NPROC] s (leave lk c t)"
      using quiet_sched_eq [OF _ q] t by (auto simp: woken_def)
    with eq show "sched_eq (enter lk c s) t \<and> quiet c p (leave lk c t) \<and> woken (Some ch) [0..<NPROC] s (leave lk c t)" by simp
  qed
qed

lemma wakeup_release_wp:
  assumes q: "quiet c p s" and lk: "lk \<noteq> PtableLock"
  shows "wp (wakeup ch (enter lk c s)) (\<lambda>_ t. wp (release lk t) (\<lambda>_ u. quiet c p u \<and> woken (Some ch) [0..<NPROC] s u))"
  by (rule wp_mono [OF wakeup_section [OF assms]])
     (intro wp_release_section [OF quietD(1,2) [OF q] sched_eq_core], simp_all)

lemma releasesleep_wp:
  assumes q: "quiet c p s"
  shows "wp (releasesleep i s) (\<lambda>_ t. quiet c p t \<and> woken (Some (sl_chan i)) [0..<NPROC] (set_sleep i False 0 s) t)"
proof -
  have "quiet c p (set_sleep i False 0 s)" using q by (simp add: set_sleep_def)
  note wakeup_release_wp [OF this sl_spin_neq(1), of "sl_chan i" i]
  moreover have "set_sleep i False 0 (enter (sl_spin i) c s) = enter (sl_spin i) c (set_sleep i False 0 s)"
    by (simp add: set_sleep_def)
  ultimately show ?thesis
    by (simp add: releasesleep_def acquire_calm [OF quietD(1,2) [OF q]] Let_def upd_sleeplk_both)
qed

text \<open>A state inside a critical section is the section entered from the state it will be left to.\<close>

lemma enter_of_leave:
  assumes "calm c s" and "lock_free lk s" and "same_core (enter lk c s) t"
  shows "enter lk c (leave lk c t) = t"
proof -
  have ok: "cpu_ok c s" using assms(1) by (simp add: calm_def)
  let ?y = "cpu_push (eflags_if s) (cpus s c)"
  have t: "cpus t = (cpus s)(c := ?y)" "locks t = (locks s)(lk := \<lparr>lk_locked = True, lk_cpu = Some c\<rparr>)" "\<not> eflags_if t"
    using assms(3) by (auto simp: same_core_def enter_def)
  have "cpu_push (cpu_ncli ?y = 1 \<and> cpu_intena ?y) (?y\<lparr>cpu_ncli := cpu_ncli ?y - 1\<rparr>) = ?y"
    using ok by (auto simp: cpu_push_def cpu_ok_def)
  with t show ?thesis by (simp add: enter_def leave_def)
qed

section \<open>Going to sleep\<close>

text \<open>The state in which a process that sleeps on \<open>ch\<close> switches to the scheduler: only the lock of the process
  table is held.\<close>

definition asleep :: "nat \<Rightarrow> chan \<Rightarrow> 'a ptab_scheme \<Rightarrow> 'a ptab_scheme" where
  "asleep p ch s = upd_proc p (\<lambda>x. x\<lparr>p_chan := Some ch, p_state := SLEEPING\<rparr>) s"

lemma lock_swap:
  assumes "calm c s" and "lock_free lk s" and "lk \<noteq> PtableLock"
  shows "leave lk c (enter PtableLock c (enter lk c s)) = enter PtableLock c s"
proof -
  have "(locks s)(PtableLock := x, lk := \<lparr>lk_locked = False, lk_cpu = None\<rparr>) = (locks s)(PtableLock := x)" for x
    using assms(2,3) by (auto simp: lock_free_def)
  with assms show ?thesis
    by (simp add: leave_def enter_def calm_def cpu_ok_def cpu_push_def fun_upd_twist [of lk PtableLock] add.commute)
qed

lemma ksleep_eq:
  assumes s: "calm c s" "lock_free lk s" "lock_free PtableLock s" "lk \<noteq> PtableLock"
    and n: "cpu_ncli (cpus s c) = 0" and p: "cpu_proc (cpus s c) = Some p"
  shows "ksleep ch lk (enter lk c s) = Sleep ch (asleep p ch (enter PtableLock c s))"
proof -
  let ?e = "enter lk c s"
  let ?t = "enter PtableLock c s"
  have calm: "calm c ?e" using calm_enter [OF s(1)] .
  have m: "myproc ?e = Ret (Some p) ?e" using myproc_calm [OF calm] p by simp
  have free: "lock_free PtableLock ?e" using s(3,4) by (simp add: lock_free_def)
  have a: "acquire PtableLock ?e = Ret () (enter PtableLock c ?e)" by (rule acquire_calm [OF calm free])
  have mine: "lock_mine lk c (enter PtableLock c ?e)"
    using s(4) by (simp add: lock_mine_def) (simp add: enter_def)
  have "1 \<le> cpu_ncli (cpus (enter PtableLock c ?e) c)" using n by simp
  then have r: "release lk (enter PtableLock c ?e) = Ret () ?t"
    using release_eq [OF _ _ mine] calm lock_swap [OF s(1,2,4)] by (simp add: calm_def)
  have sec: "in_section c (asleep p ch ?t)"
    using acquire_out(2) [of c s] s n by (simp add: asleep_def out_section_def calm_def cpu_ok_def)
  have "sched_enter (asleep p ch ?t) = Ret (cpu_intena (cpus (asleep p ch ?t) c)) (asleep p ch ?t)"
    using sched_enter_eq [OF sec, of p] p by (simp add: asleep_def) (simp add: upd_proc_def)
  moreover have "upd_proc p (p_state_update (\<lambda>_. SLEEPING)) (upd_proc p (p_chan_update (\<lambda>_. Some ch)) ?t) = asleep p ch ?t"
    by (simp add: upd_proc_def asleep_def)
  ultimately show ?thesis
    using s(4) by (simp add: ksleep_def sleep_enter_def m a r Let_def)
qed

text \<open>A sleeper that the scheduler has put back on a CPU gives up the lock of the process table and takes its own.\<close>

definition awake :: "nat \<Rightarrow> bool \<Rightarrow> nat \<Rightarrow> 'a ptab_scheme \<Rightarrow> 'a ptab_scheme" where
  "awake q b c s = leave PtableLock c (upd_proc q (p_chan_update (\<lambda>_. None)) (upd_cpu c (cpu_intena_update (\<lambda>_. b)) s))"

lemma sleep_resume_eq:
  assumes "in_section c s" and "lk \<noteq> PtableLock"
  shows "sleep_resume q b lk s = acquire lk (awake q b c s)"
  using assms release_in(1) [of c "upd_proc q (p_chan_update (\<lambda>_. None)) (upd_cpu c (cpu_intena_update (\<lambda>_. b)) s)"]
  by (simp add: sleep_resume_def sched_resume_def mycpu_eq in_section_def [of c s] awake_def Let_def)

section \<open>Properties\<close>

text \<open>C32: \<open>acquiresleep\<close>, called by a process that holds no spin lock: a free lock is taken in the name of the
  process, and nothing else changes; when the lock is held, the process is put to sleep on the lock's
  channel and leaves the CPU to the scheduler, holding no lock but that of the process table.\<close>

theorem acquiresleep_outcome:
  assumes "quiet c p s" and "cpu_ncli (cpus s c) = 0"
  shows "acquiresleep i s =
    (if sl_locked (sleeplks s i) then Sleep (sl_chan i) (asleep p (sl_chan i) (enter PtableLock c s))
     else Ret () (set_sleep i True (p_pid (procs s p)) s))"
proof (cases "sl_locked (sleeplks s i)")
  case True
  have "ksleep (sl_chan i) (sl_spin i) (enter (sl_spin i) c s) = Sleep (sl_chan i) (asleep p (sl_chan i) (enter PtableLock c s))"
    using quietD(1,2,3) [OF assms(1)] assms(2) by (intro ksleep_eq) simp_all
  with True show ?thesis
    by (simp add: acquiresleep_def acquire_calm [OF quietD(1,2) [OF assms(1)]] acquiresleep_test_def)
next
  case False
  with acquiresleep_eq [OF assms(1)] show ?thesis by simp
qed

text \<open>A machine on which process 0 runs in the kernel, the only process there is, and holds the lock of buffer 2.\<close>

definition run_ptab :: ptab where
  "run_ptab = demo_ptab\<lparr>
     procs := (\<lambda>i. (demo_proc i)\<lparr>p_state := (if i = 0 then RUNNING else UNUSED), p_sigprio := None\<rparr>),
     priot := (\<lambda>_. \<lparr>primero = None, ultimo = None\<rparr>),
     cpus := (\<lambda>i. (cpus demo_ptab i)\<lparr>cpu_proc := Some 0\<rparr>)\<rparr>"

definition run_slst :: slst where
  "run_slst = ptab.extend run_ptab
     \<lparr>sleeplks = (\<lambda>i. if i = BufSL 2 then \<lparr>sl_locked = True, sl_pid = 1\<rparr> else \<lparr>sl_locked = False, sl_pid = 0\<rparr>)\<rparr>"

lemma run_ptab_simps [simp]:
  "procs run_ptab = (\<lambda>i. (demo_proc i)\<lparr>p_state := (if i = 0 then RUNNING else UNUSED), p_sigprio := None\<rparr>)"
  "priot run_ptab = (\<lambda>_. \<lparr>primero = None, ultimo = None\<rparr>)" "locks run_ptab = locks demo_ptab"
  "cpus run_ptab = (\<lambda>i. (cpus demo_ptab i)\<lparr>cpu_proc := Some 0\<rparr>)" "eflags_if run_ptab" "lapicid run_ptab = 0" "ncpu run_ptab = 1"
  by (simp_all add: run_ptab_def)

text \<open>Whatever fields are added, and whatever the other fields hold, such a machine is quiet.\<close>

lemma quietI:
  assumes "procs s = procs run_ptab" "priot s = priot run_ptab" "cpus s = cpus run_ptab" "eflags_if s"
    "lapicid s = 0" "ncpu s = 1" "locks s = locks run_ptab"
  shows "quiet 0 0 s" "cpu_ncli (cpus s 0) = 0"
proof -
  have "queues_rep s (\<lambda>_. [])" using assms by (simp add: queues_rep_def queue_rep_def)
  then have "sched_rep s (\<lambda>_. [])" using assms by (auto simp: sched_rep_def demo_proc_def NPRIO_def)
  moreover have "this_cpu s = Some 0"
    using assms by (simp add: this_cpu_def find_idx_Some idle_kmem_def)
  moreover have "cpu_ncli (cpus s 0) = 0" "cpu_intena (cpus s 0)" using assms by (simp_all add: idle_kmem_def)
  moreover have "lock_free lk s" for lk using assms calm_demo(2) [of lk] by (simp add: lock_free_def)
  ultimately show "quiet 0 0 s" "cpu_ncli (cpus s 0) = 0"
    using assms by (auto simp: quiet_def calm_def cpu_ok_def)
qed

lemma quiet_run [simp]: "quiet 0 0 run_slst" "cpu_ncli (cpus run_slst 0) = 0"
  by (rule quietI; simp add: run_slst_def ptab.defs)+

theorem acquiresleep_outcome_witness:
  "quiet 0 0 run_slst \<and> cpu_ncli (cpus run_slst 0) = 0
   \<and> acquiresleep (BufSL 2) run_slst = Sleep (ChBufLock 2) (asleep 0 (ChBufLock 2) (enter PtableLock 0 run_slst))
   \<and> acquiresleep (InodeSL 2) run_slst = Ret () (set_sleep (InodeSL 2) True (p_pid (procs run_slst 0)) run_slst)"
  using acquiresleep_outcome [of 0 0 run_slst "BufSL 2"] acquiresleep_outcome [of 0 0 run_slst "InodeSL 2"] quiet_run
  by (simp add: run_slst_def ptab.defs)

text \<open>C33: \<open>releasesleep\<close> frees the lock and makes runnable exactly the processes that wait for it, so that no
  waiter is forgotten; apart from that it changes nothing.\<close>

theorem releasesleep_wakes:
  assumes "quiet c p s"
  shows "wp (releasesleep i s) (\<lambda>_ t. quiet c p t \<and> \<not> sl_locked (sleeplks t i)
    \<and> sched_eq (set_sleep i False 0 s) t
    \<and> (\<forall>q < NPROC. p_state (procs t q) = (if p_state (procs s q) = SLEEPING \<and> p_chan (procs s q) = Some (sl_chan i)
         then RUNNABLE else p_state (procs s q))))"
proof (rule wp_mono [OF releasesleep_wp [OF assms]])
  fix x t
  assume t: "quiet c p t \<and> woken (Some (sl_chan i)) [0..<NPROC] (set_sleep i False 0 s) t"
  then have "sleeplks t = sleeplks (set_sleep i False 0 s)" by (simp add: woken_def sched_eq_sleeplks)
  with t show "quiet c p t \<and> \<not> sl_locked (sleeplks t i) \<and> sched_eq (set_sleep i False 0 s) t
    \<and> (\<forall>q < NPROC. p_state (procs t q) = (if p_state (procs s q) = SLEEPING \<and> p_chan (procs s q) = Some (sl_chan i)
         then RUNNABLE else p_state (procs s q)))"
    by (simp add: woken_def sleeps_on_def set_sleep_def)
qed

theorem releasesleep_wakes_witness:
  "quiet 0 0 run_slst \<and> wp (releasesleep (BufSL 2) run_slst) (\<lambda>_ t. quiet 0 0 t \<and> \<not> sl_locked (sleeplks t (BufSL 2)))"
proof -
  have "wp (releasesleep (BufSL 2) run_slst) (\<lambda>_ t. quiet 0 0 t \<and> \<not> sl_locked (sleeplks t (BufSL 2)))"
    by (rule wp_mono [OF releasesleep_wakes [OF quiet_run(1)]]) simp
  then show ?thesis by simp
qed

end
