(* ===== verification/Bio.thy ===== *)
theory Bio
  imports Sleeplock
begin

text \<open>
  The buffer cache, after \<open>buf.h\<close> and \<open>bio.c\<close>, on the disk driver of \<open>memide.c\<close> (the kernel target
  \<open>kernelmemfs\<close>), which reads and writes blocks of a disk image in memory. Buffers are
  numbered; number \<open>NBUF\<close> is the list head \<open>bcache.head\<close>. \<open>disk\<close> maps block numbers to their contents;
  \<open>disk_writes\<close> is a ghost variable that records the block writes in the order in which they reach the
  disk, for the statements about crashes.
\<close>

section \<open>State\<close>

definition BSIZE :: nat where "BSIZE = 512"
definition NBUF :: nat where "NBUF = 30"
definition B_VALID :: u32 where "B_VALID = 2"
definition B_DIRTY :: u32 where "B_DIRTY = 4"

record buf =
  b_flags :: u32
  b_dev :: u32
  b_blockno :: u32
  b_refcnt :: u32
  b_prev :: nat
  b_next :: nat
  b_qnext :: "nat option"
  b_data :: "u8 list"

record biost = slst +
  bufs :: "nat \<Rightarrow> buf"
  disk :: "u32 \<Rightarrow> u8 list"
  disksize :: u32
  disk_writes :: "(u32 \<times> u8 list) list"

definition upd_buf :: "nat \<Rightarrow> (buf \<Rightarrow> buf) \<Rightarrow> 'a biost_scheme \<Rightarrow> 'a biost_scheme" where
  "upd_buf b f s = s\<lparr>bufs := (bufs s)(b := f (bufs s b))\<rparr>"

section \<open>The disk\<close>

definition ideinit :: "u32 \<Rightarrow> (u32 \<Rightarrow> u8 list) \<Rightarrow> 'a biost_scheme \<Rightarrow> 'a biost_scheme" where
  "ideinit imgsize img s = s\<lparr>disk := img, disksize := imgsize div of_nat BSIZE\<rparr>"

definition iderw :: "nat \<Rightarrow> 'a biost_scheme \<Rightarrow> (unit, 'a biost_scheme) outcome" where
  "iderw b s =
     then_do (holdingsleep (BufSL b) s) (\<lambda>h s.
     if \<not> h then Panic ''iderw: buf not locked''
     else if b_flags (bufs s b) AND (B_VALID OR B_DIRTY) = B_VALID then Panic ''iderw: nothing to do''
     else if b_dev (bufs s b) \<noteq> 1 then Panic ''iderw: request not for disk 1''
     else if b_blockno (bufs s b) \<ge> disksize s then Panic ''iderw: block out of range''
     else
       let n = b_blockno (bufs s b);
           s = (if b_flags (bufs s b) AND B_DIRTY \<noteq> 0 then
                  let s = upd_buf b (\<lambda>x. x\<lparr>b_flags := b_flags x AND NOT B_DIRTY\<rparr>) s
                  in s\<lparr>disk := (disk s)(n := b_data (bufs s b)), disk_writes := disk_writes s @ [(n, b_data (bufs s b))]\<rparr>
                else upd_buf b (\<lambda>x. x\<lparr>b_data := disk s n\<rparr>) s)
       in Ret () (upd_buf b (\<lambda>x. x\<lparr>b_flags := b_flags x OR B_VALID\<rparr>) s))"

section \<open>The cache\<close>

definition binit :: "'a biost_scheme \<Rightarrow> (unit, 'a biost_scheme) outcome" where
  "binit s =
     (let s = initlock BcacheLock s;
          s = upd_buf NBUF (b_prev_update (\<lambda>_. NBUF)) s;
          s = upd_buf NBUF (b_next_update (\<lambda>_. NBUF)) s in
      for_each (\<lambda>b s.
        let s = upd_buf b (b_next_update (\<lambda>_. b_next (bufs s NBUF))) s;
            s = upd_buf b (b_prev_update (\<lambda>_. NBUF)) s;
            s = initsleeplock (BufSL b) s;
            s = upd_buf (b_next (bufs s NBUF)) (b_prev_update (\<lambda>_. b)) s
        in Ret () (upd_buf NBUF (b_next_update (\<lambda>_. b)) s)) [0..<NBUF] s)"

text \<open>The two loops of \<open>bget\<close>: from the most recently used buffer along \<open>next\<close> for the block, and from the
  least recently used one along \<open>prev\<close> for a buffer that is not in use.\<close>

fun bget_cached :: "nat \<Rightarrow> nat \<Rightarrow> u32 \<Rightarrow> u32 \<Rightarrow> 'a biost_scheme \<Rightarrow> (nat option, 'a biost_scheme) outcome" where
  "bget_cached 0 b dev blockno s = Diverge"
| "bget_cached (Suc fuel) b dev blockno s =
     (if b = NBUF then Ret None s
      else if b_dev (bufs s b) = dev \<and> b_blockno (bufs s b) = blockno then Ret (Some b) s
      else bget_cached fuel (b_next (bufs s b)) dev blockno s)"

fun bget_unused :: "nat \<Rightarrow> nat \<Rightarrow> 'a biost_scheme \<Rightarrow> (nat option, 'a biost_scheme) outcome" where
  "bget_unused 0 b s = Diverge"
| "bget_unused (Suc fuel) b s =
     (if b = NBUF then Ret None s
      else if b_refcnt (bufs s b) = 0 \<and> b_flags (bufs s b) AND B_DIRTY = 0 then Ret (Some b) s
      else bget_unused fuel (b_prev (bufs s b)) s)"

definition bget :: "u32 \<Rightarrow> u32 \<Rightarrow> 'a biost_scheme \<Rightarrow> (nat, 'a biost_scheme) outcome" where
  "bget dev blockno s =
     then_do (acquire BcacheLock s) (\<lambda>_ s.
     then_do (bget_cached (Suc NBUF) (b_next (bufs s NBUF)) dev blockno s) (\<lambda>r s.
     case r of
       Some b \<Rightarrow>
         let s = upd_buf b (\<lambda>x. x\<lparr>b_refcnt := b_refcnt x + 1\<rparr>) s in
         then_do (release BcacheLock s) (\<lambda>_ s.
         then_do (acquiresleep (BufSL b) s) (\<lambda>_ s. Ret b s))
     | None \<Rightarrow>
         then_do (bget_unused (Suc NBUF) (b_prev (bufs s NBUF)) s) (\<lambda>r s.
         case r of
           Some b \<Rightarrow>
             let s = upd_buf b (b_dev_update (\<lambda>_. dev)) s;
                 s = upd_buf b (b_blockno_update (\<lambda>_. blockno)) s;
                 s = upd_buf b (b_flags_update (\<lambda>_. 0)) s;
                 s = upd_buf b (b_refcnt_update (\<lambda>_. 1)) s in
             then_do (release BcacheLock s) (\<lambda>_ s.
             then_do (acquiresleep (BufSL b) s) (\<lambda>_ s. Ret b s))
         | None \<Rightarrow> Panic ''bget: no buffers'')))"

definition bread :: "u32 \<Rightarrow> u32 \<Rightarrow> 'a biost_scheme \<Rightarrow> (nat, 'a biost_scheme) outcome" where
  "bread dev blockno s =
     then_do (bget dev blockno s) (\<lambda>b s.
     then_do (if b_flags (bufs s b) AND B_VALID = 0 then iderw b s else Ret () s) (\<lambda>_ s. Ret b s))"

definition bwrite :: "nat \<Rightarrow> 'a biost_scheme \<Rightarrow> (unit, 'a biost_scheme) outcome" where
  "bwrite b s =
     then_do (holdingsleep (BufSL b) s) (\<lambda>h s.
     if \<not> h then Panic ''bwrite''
     else iderw b (upd_buf b (\<lambda>x. x\<lparr>b_flags := b_flags x OR B_DIRTY\<rparr>) s))"

definition brelse :: "nat \<Rightarrow> 'a biost_scheme \<Rightarrow> (unit, 'a biost_scheme) outcome" where
  "brelse b s =
     then_do (holdingsleep (BufSL b) s) (\<lambda>h s.
     if \<not> h then Panic ''brelse''
     else
       then_do (releasesleep (BufSL b) s) (\<lambda>_ s.
       then_do (acquire BcacheLock s) (\<lambda>_ s.
       let s = upd_buf b (\<lambda>x. x\<lparr>b_refcnt := b_refcnt x - 1\<rparr>) s;
           s = (if b_refcnt (bufs s b) = 0 then
                  let s = upd_buf (b_next (bufs s b)) (b_prev_update (\<lambda>_. b_prev (bufs s b))) s;
                      s = upd_buf (b_prev (bufs s b)) (b_next_update (\<lambda>_. b_next (bufs s b))) s;
                      s = upd_buf b (b_next_update (\<lambda>_. b_next (bufs s NBUF))) s;
                      s = upd_buf b (b_prev_update (\<lambda>_. NBUF)) s;
                      s = upd_buf (b_next (bufs s NBUF)) (b_prev_update (\<lambda>_. b)) s
                  in upd_buf NBUF (b_next_update (\<lambda>_. b)) s
                else s)
       in release BcacheLock s)))"

end
