(* ===== verification/Bcache.thy ===== *)
theory Bcache
  imports Bio
begin

text \<open>
  Correctness of the buffer cache. The circular list through \<open>prev\<close> and \<open>next\<close> is a list of all buffers, most
  recently used first; a block is cached at most once; a buffer that nobody uses and that is not dirty
  agrees with the disk. Against the logical contents \<open>content s n\<close> of the blocks, \<open>bread\<close> returns what block
  \<open>n\<close> holds, \<open>bwrite\<close> puts it on the disk, and eviction loses nothing. The lemmas \<open>bread_wp\<close>, \<open>bwrite_wp\<close> and
  \<open>brelse_wp\<close> are the interface the log and the file system build on.
\<close>

section \<open>The list of buffers\<close>

primrec dseg :: "(nat \<Rightarrow> buf) \<Rightarrow> nat \<Rightarrow> nat list \<Rightarrow> nat \<Rightarrow> bool" where
  "dseg f a [] z \<longleftrightarrow> b_next (f a) = z \<and> b_prev (f z) = a"
| "dseg f a (x # xs) z \<longleftrightarrow> b_next (f a) = x \<and> b_prev (f x) = a \<and> dseg f x xs z"

definition ring :: "(nat \<Rightarrow> buf) \<Rightarrow> nat list \<Rightarrow> bool" where
  "ring f L \<longleftrightarrow> dseg f NBUF L NBUF \<and> distinct L \<and> set L = {..<NBUF}"

lemma dseg_append: "dseg f a (xs @ y # ys) z \<longleftrightarrow> dseg f a xs y \<and> dseg f y ys z"
  by (induction xs arbitrary: a) auto

lemma dseg_cong:
  "(\<And>x. x = a \<or> x \<in> set xs \<Longrightarrow> b_next (g x) = b_next (f x)) \<Longrightarrow>
   (\<And>x. x = z \<or> x \<in> set xs \<Longrightarrow> b_prev (g x) = b_prev (f x)) \<Longrightarrow> dseg g a xs z = dseg f a xs z"
proof (induction xs arbitrary: a)
  case (Cons x xs)
  have "dseg g x xs z = dseg f x xs z" using Cons.prems by (intro Cons.IH) auto
  with Cons.prems show ?case by simp
qed simp

lemma ring_cong:
  "(\<And>x. b_next (g x) = b_next (f x)) \<Longrightarrow> (\<And>x. b_prev (g x) = b_prev (f x)) \<Longrightarrow> ring g L = ring f L"
  using dseg_cong [of NBUF L g f NBUF] by (simp add: ring_def)

text \<open>What \<open>brelse\<close> does to the links.\<close>

definition relink :: "nat \<Rightarrow> (nat \<Rightarrow> buf) \<Rightarrow> nat \<Rightarrow> buf" where
  "relink b f =
     (let f = f(b_next (f b) := (f (b_next (f b)))\<lparr>b_prev := b_prev (f b)\<rparr>);
          f = f(b_prev (f b) := (f (b_prev (f b)))\<lparr>b_next := b_next (f b)\<rparr>);
          f = f(b := (f b)\<lparr>b_next := b_next (f NBUF)\<rparr>);
          f = f(b := (f b)\<lparr>b_prev := NBUF\<rparr>);
          f = f(b_next (f NBUF) := (f (b_next (f NBUF)))\<lparr>b_prev := b\<rparr>)
      in f(NBUF := (f NBUF)\<lparr>b_next := b\<rparr>))"

definition unhook :: "nat \<Rightarrow> (nat \<Rightarrow> buf) \<Rightarrow> nat \<Rightarrow> buf" where
  "unhook b f =
     (let f = f(b_next (f b) := (f (b_next (f b)))\<lparr>b_prev := b_prev (f b)\<rparr>)
      in f(b_prev (f b) := (f (b_prev (f b)))\<lparr>b_next := b_next (f b)\<rparr>))"

definition hook :: "nat \<Rightarrow> (nat \<Rightarrow> buf) \<Rightarrow> nat \<Rightarrow> buf" where
  "hook b f =
     (let f = f(b := (f b)\<lparr>b_next := b_next (f NBUF)\<rparr>);
          f = f(b := (f b)\<lparr>b_prev := NBUF\<rparr>);
          f = f(b_next (f NBUF) := (f (b_next (f NBUF)))\<lparr>b_prev := b\<rparr>)
      in f(NBUF := (f NBUF)\<lparr>b_next := b\<rparr>))"

lemma relink_eq: "relink b f = hook b (unhook b f)"
  unfolding relink_def hook_def unhook_def Let_def by (rule refl)

lemma unhook_dseg:
  assumes "dseg f NBUF (xs @ b # ys) NBUF" and "distinct (xs @ b # ys)" and "NBUF \<notin> set (xs @ b # ys)"
  shows "dseg (unhook b f) NBUF (xs @ ys) NBUF"
proof -
  have seg: "dseg f NBUF xs b" "dseg f b ys NBUF" using assms(1) by (simp_all add: dseg_append)
  show ?thesis
  proof (cases xs rule: rev_cases)
    case Nil
    then have p: "b_prev (f b) = NBUF" using seg(1) by simp
    show ?thesis
    proof (cases ys)
      case Nil
      then show ?thesis using \<open>xs = []\<close> p seg assms(2,3) by (simp add: unhook_def Let_def)
    next
      case (Cons n ys')
      then have "dseg (unhook b f) n ys' NBUF = dseg f n ys' NBUF"
        using p seg assms(2,3) \<open>xs = []\<close> by (intro dseg_cong) (auto simp: unhook_def Let_def)
      with Cons show ?thesis using \<open>xs = []\<close> p seg assms(2,3) by (auto simp: unhook_def Let_def)
    qed
  next
    case (snoc xs' q)
    then have p: "b_prev (f b) = q" "dseg f NBUF xs' q" using seg(1) by (simp_all add: dseg_append)
    show ?thesis
    proof (cases ys)
      case Nil
      then have n: "b_next (f b) = NBUF" using seg(2) by simp
      have "dseg (unhook b f) NBUF xs' q = dseg f NBUF xs' q"
        using p n assms(2,3) snoc by (intro dseg_cong) (auto simp: unhook_def Let_def)
      with Nil snoc p n assms(2,3) show ?thesis by (auto simp: dseg_append unhook_def Let_def)
    next
      case (Cons n ys')
      then have n: "b_next (f b) = n" "dseg f n ys' NBUF" using seg(2) by simp_all
      have "dseg (unhook b f) NBUF xs' q = dseg f NBUF xs' q"
        using p n assms(2,3) snoc Cons by (intro dseg_cong) (auto simp: unhook_def Let_def)
      moreover have "dseg (unhook b f) n ys' NBUF = dseg f n ys' NBUF"
        using p n assms(2,3) snoc Cons by (intro dseg_cong) (auto simp: unhook_def Let_def)
      ultimately show ?thesis using Cons snoc p n assms(2,3) by (auto simp: dseg_append unhook_def Let_def)
    qed
  qed
qed

lemma hook_dseg:
  assumes "dseg f NBUF xs NBUF" and "b \<notin> set xs" and "b \<noteq> NBUF" and "NBUF \<notin> set xs" and "distinct xs"
  shows "dseg (hook b f) NBUF (b # xs) NBUF"
proof (cases xs)
  case Nil
  then show ?thesis using assms by (simp add: hook_def Let_def)
next
  case (Cons n ys)
  have "dseg (hook b f) n ys NBUF = dseg f n ys NBUF"
    using assms Cons by (intro dseg_cong) (auto simp: hook_def Let_def)
  with Cons assms show ?thesis by (auto simp: hook_def Let_def)
qed

lemma relink_ring:
  assumes "ring f L" and "b < NBUF"
  shows "ring (relink b f) (b # remove1 b L)"
proof -
  have b: "b \<in> set L" using assms by (simp add: ring_def)
  then obtain xs ys where L: "L = xs @ b # ys" and nx: "b \<notin> set xs" by (metis split_list_first)
  have d: "distinct L" "set L = {..<NBUF}" "dseg f NBUF L NBUF" using assms(1) by (simp_all add: ring_def)
  then have "NBUF \<notin> set L" by simp
  have r: "remove1 b L = xs @ ys" using L nx by (simp add: remove1_append)
  have "dseg (unhook b f) NBUF (xs @ ys) NBUF" using d \<open>NBUF \<notin> set L\<close> unfolding L by (intro unhook_dseg)
  then have "dseg (hook b (unhook b f)) NBUF (b # xs @ ys) NBUF"
    using d \<open>NBUF \<notin> set L\<close> L assms(2) by (intro hook_dseg) auto
  moreover have "distinct (b # xs @ ys)" "set (b # xs @ ys) = {..<NBUF}" using d L by auto
  ultimately show ?thesis by (simp add: ring_def relink_eq r)
qed

text \<open>\<open>relink\<close> only changes links.\<close>

definition sans_links :: "buf \<Rightarrow> buf" where
  "sans_links x = x\<lparr>b_prev := 0, b_next := 0\<rparr>"

lemma unhook_sans: "sans_links (unhook b f x) = sans_links (f x)"
  by (simp add: unhook_def Let_def sans_links_def)

lemma hook_sans: "sans_links (hook b f x) = sans_links (f x)"
  by (simp add: hook_def Let_def sans_links_def)

lemma relink_sans: "sans_links (relink b f x) = sans_links (f x)"
  by (simp add: relink_eq hook_sans unhook_sans)

lemma bget_cached_eq:
  assumes "dseg (bufs s) a xs NBUF" and "NBUF \<notin> set xs" and "length xs < fuel"
  shows "bget_cached fuel (b_next (bufs s a)) dev n s
     = Ret (find (\<lambda>b. b_dev (bufs s b) = dev \<and> b_blockno (bufs s b) = n) xs) s"
  using assms
proof (induction xs arbitrary: a fuel)
  case Nil
  then show ?case by (cases fuel) auto
next
  case (Cons x xs)
  then show ?case by (cases fuel) auto
qed

lemma bget_unused_eq:
  assumes "dseg (bufs s) NBUF xs z" and "NBUF \<notin> set xs" and "length xs < fuel"
  shows "bget_unused fuel (b_prev (bufs s z)) s
     = Ret (find (\<lambda>b. b_refcnt (bufs s b) = 0 \<and> b_flags (bufs s b) AND B_DIRTY = 0) (rev xs)) s"
  using assms
proof (induction xs arbitrary: z fuel rule: rev_induct)
  case Nil
  then show ?case by (cases fuel) auto
next
  case (snoc x xs)
  then show ?case by (cases fuel) (auto simp: dseg_append)
qed

section \<open>Flags\<close>

definition valid :: "buf \<Rightarrow> bool" where
  "valid x \<longleftrightarrow> bit (b_flags x) 1"

definition dirty :: "buf \<Rightarrow> bool" where
  "dirty x \<longleftrightarrow> bit (b_flags x) 2"

lemma and_2_eq: "w AND 2 = 0 \<longleftrightarrow> \<not> bit w 1" for w :: u32
  using and_exp_eq_0_iff_not_bit [of w 1] by simp

lemma and_4_eq: "w AND 4 = 0 \<longleftrightarrow> \<not> bit w 2" for w :: u32
  using and_exp_eq_0_iff_not_bit [of w 2] by simp

lemma bit_2_4: "bit (2 :: u32) n \<longleftrightarrow> n = 1" "bit (4 :: u32) n \<longleftrightarrow> n = 2"
  using bit_exp_iff [where 'a = u32, of 1 n] bit_exp_iff [where 'a = u32, of 2 n] by auto

lemma and_6_eq: "w AND (2 OR 4) = 2 \<longleftrightarrow> bit w 1 \<and> \<not> bit w 2" for w :: u32
proof
  assume h: "w AND (2 OR 4) = 2"
  have "bit (w AND (2 OR 4)) 1 \<longleftrightarrow> bit w 1" "bit (w AND (2 OR 4)) 2 \<longleftrightarrow> bit w 2"
    by (simp_all only: bit_and_iff bit_or_iff bit_2_4 simp_thms)
  with h show "bit w 1 \<and> \<not> bit w 2" by (simp only: bit_2_4) simp
next
  assume "bit w 1 \<and> \<not> bit w 2"
  then show "w AND (2 OR 4) = 2"
    by (intro bit_word_eqI) (auto simp only: bit_and_iff bit_or_iff bit_2_4)
qed

lemma flag_tests:
  "b_flags x AND B_VALID = 0 \<longleftrightarrow> \<not> valid x" "b_flags x AND B_DIRTY = 0 \<longleftrightarrow> \<not> dirty x"
  "b_flags x AND (B_VALID OR B_DIRTY) = B_VALID \<longleftrightarrow> valid x \<and> \<not> dirty x"
  by (simp_all only: valid_def dirty_def B_VALID_def B_DIRTY_def and_2_eq and_4_eq and_6_eq)

lemma flag_updates [simp]:
  "valid (x\<lparr>b_flags := b_flags y OR B_DIRTY\<rparr>) = valid y" "dirty (x\<lparr>b_flags := b_flags y OR B_DIRTY\<rparr>)"
  "dirty (x\<lparr>b_flags := b_flags y OR B_VALID\<rparr>) = dirty y" "valid (x\<lparr>b_flags := b_flags y OR B_VALID\<rparr>)"
  "\<not> valid (x\<lparr>b_flags := 0\<rparr>)" "\<not> dirty (x\<lparr>b_flags := 0\<rparr>)"
  "\<not> dirty (x\<lparr>b_flags := b_flags y AND NOT B_DIRTY\<rparr>)"
  "valid (x\<lparr>b_flags := (w AND NOT B_DIRTY) OR B_VALID\<rparr>)" "\<not> dirty (x\<lparr>b_flags := (w AND NOT B_DIRTY) OR B_VALID\<rparr>)"
  using bit_2_4 [of 1] bit_2_4 [of 2]
  by (simp_all add: valid_def dirty_def B_VALID_def B_DIRTY_def bit_or_iff bit_and_iff bit_not_iff del: not_numeral_eq)

section \<open>Updates of buffers and disk, and the rest of the state\<close>

lemma bio_fields [simp]:
  "bufs (enter lk c s) = bufs s" "bufs (leave lk c t) = bufs t"
  "disk (enter lk c s) = disk s" "disk (leave lk c t) = disk t"
  by (simp_all add: enter_def leave_def)

lemma bio_commute [simp]:
  "leave lk c (s\<lparr>bufs := x\<rparr>) = (leave lk c s)\<lparr>bufs := x\<rparr>"
  "enter lk c (s\<lparr>bufs := x\<rparr>) = (enter lk c s)\<lparr>bufs := x\<rparr>"
  by (simp_all add: enter_def leave_def)

lemma bio_core [simp]:
  "same_core s (t\<lparr>bufs := x\<rparr>) = same_core s t" "same_core s (t\<lparr>disk := y\<rparr>) = same_core s t"
  "same_core s (t\<lparr>disk_writes := z\<rparr>) = same_core s t"
  by (simp_all add: same_core_def)

lemma bio_sched [simp]:
  "sched_rep (s\<lparr>bufs := x\<rparr>) Q = sched_rep s Q" "sched_rep (s\<lparr>disk := y\<rparr>) Q = sched_rep s Q"
  "sched_rep (s\<lparr>disk_writes := z\<rparr>) Q = sched_rep s Q"
  by (rule sched_rep_cong, simp_all)+

lemma quiet_bio [simp]:
  "quiet c p (s\<lparr>bufs := x\<rparr>) = quiet c p s" "quiet c p (s\<lparr>disk := y\<rparr>) = quiet c p s"
  "quiet c p (s\<lparr>disk_writes := z\<rparr>) = quiet c p s"
  by (rule quiet_cong; simp)+

text \<open>All that the operations of this theory change, apart from scheduling.\<close>

definition inode_locks :: "(sleepid \<Rightarrow> sleeplock) \<Rightarrow> sleepid \<Rightarrow> sleeplock" where
  "inode_locks f i = (case i of BufSL b \<Rightarrow> undefined | InodeSL k \<Rightarrow> f i)"

definition buf_blank :: "'a biost_scheme \<Rightarrow> 'a biost_scheme" where
  "buf_blank s = s\<lparr>sleeplks := inode_locks (sleeplks s), bufs := (\<lambda>_. undefined), disk := (\<lambda>_. []), disk_writes := []\<rparr>"

definition bio_blank :: "'a biost_scheme \<Rightarrow> 'a biost_scheme" where
  "bio_blank s = buf_blank (unsched s)"

lemma inode_locks_cong: "(\<And>k. f (InodeSL k) = g (InodeSL k)) \<Longrightarrow> inode_locks f = inode_locks g"
  by (simp add: inode_locks_def fun_eq_iff split: sleepid.split)

lemma inode_locks_upd [simp]: "inode_locks (f(BufSL b := w)) = inode_locks f"
  by (rule inode_locks_cong) simp

lemma unsched_sleep: "sleeplks (unsched s) = sleeplks s"
  by (simp add: unsched_def)

definition bio_frame :: "'a biost_scheme \<Rightarrow> 'a biost_scheme \<Rightarrow> bool" where
  "bio_frame s t \<longleftrightarrow> bio_blank s = bio_blank t"

lemma bio_frame_refl [simp]: "bio_frame s s"
  by (simp add: bio_frame_def)

lemma bio_frame_trans: "bio_frame s t \<Longrightarrow> bio_frame t u \<Longrightarrow> bio_frame s u"
  by (simp add: bio_frame_def)

lemma bio_frame_upds [simp]:
  "bio_frame s (t\<lparr>bufs := x\<rparr>) = bio_frame s t" "bio_frame s (t\<lparr>disk := y\<rparr>) = bio_frame s t"
  "bio_frame s (t\<lparr>disk_writes := z\<rparr>) = bio_frame s t" "inode_locks w = inode_locks (sleeplks t) \<Longrightarrow> bio_frame s (t\<lparr>sleeplks := w\<rparr>) = bio_frame s t"
  by (simp_all add: bio_frame_def bio_blank_def buf_blank_def unsched_def)

lemma sched_eq_bio: "sched_eq s t \<Longrightarrow> bio_frame s t"
  by (simp add: bio_frame_def bio_blank_def sched_eq_def)

lemma bio_blank_fields: "biost.more (bio_blank s) = biost.more s" "disksize (bio_blank s) = disksize s" "mem (bio_blank s) = mem s"
  "p_pid (procs (bio_blank s) q) = p_pid (procs s q)"
  by (simp_all add: bio_blank_def buf_blank_def unsched_def)

lemma bio_blank_sleep: "sleeplks (bio_blank s) (InodeSL k) = sleeplks s (InodeSL k)"
  by (simp add: bio_blank_def buf_blank_def unsched_sleep inode_locks_def)

lemma bio_frame_sleep: "bio_frame s t \<Longrightarrow> sleeplks t (InodeSL k) = sleeplks s (InodeSL k)"
  using bio_blank_sleep unfolding bio_frame_def by metis

lemma bio_frameD:
  assumes "bio_frame s t"
  shows "biost.more t = biost.more s" "disksize t = disksize s" "mem t = mem s" "p_pid (procs t q) = p_pid (procs s q)"
  using assms bio_blank_fields unfolding bio_frame_def by metis+

lemma unsched_bio_fields: "bufs (unsched s) = bufs s" "disk (unsched s) = disk s" "disk_writes (unsched s) = disk_writes s"
  by (simp_all add: unsched_def)

lemma sched_eq_bufs:
  assumes "sched_eq s t"
  shows "bufs t = bufs s" "disk t = disk s" "disk_writes t = disk_writes s"
  using assms unsched_bio_fields unfolding sched_eq_def by metis+

section \<open>The operations on a quiet machine\<close>

lemma release_bufs:
  assumes "quiet c p s"
  shows "release lk ((enter lk c s)\<lparr>bufs := x\<rparr>) = Ret () (s\<lparr>bufs := x\<rparr>)" "release lk (enter lk c s) = Ret () s"
  using release_section [OF quietD(1,2) [OF assms], of lk "(enter lk c s)\<lparr>bufs := x\<rparr>"]
    release_section [OF quietD(1,2) [OF assms], of lk "enter lk c s"] enter_then_leave [OF quietD(1,2) [OF assms]]
  by simp_all

lemma ring_head:
  assumes "ring (bufs s) L"
  shows "bget_cached (Suc NBUF) (b_next (bufs s NBUF)) dev n s
      = Ret (find (\<lambda>b. b_dev (bufs s b) = dev \<and> b_blockno (bufs s b) = n) L) s"
    and "bget_unused (Suc NBUF) (b_prev (bufs s NBUF)) s
      = Ret (find (\<lambda>b. b_refcnt (bufs s b) = 0 \<and> \<not> dirty (bufs s b)) (rev L)) s"
proof -
  have L: "dseg (bufs s) NBUF L NBUF" "NBUF \<notin> set L" "length L < Suc NBUF"
    using assms distinct_card [of L] by (auto simp: ring_def)
  show "bget_cached (Suc NBUF) (b_next (bufs s NBUF)) dev n s
      = Ret (find (\<lambda>b. b_dev (bufs s b) = dev \<and> b_blockno (bufs s b) = n) L) s"
    by (rule bget_cached_eq [OF L])
  show "bget_unused (Suc NBUF) (b_prev (bufs s NBUF)) s
      = Ret (find (\<lambda>b. b_refcnt (bufs s b) = 0 \<and> \<not> dirty (bufs s b)) (rev L)) s"
    using bget_unused_eq [OF L] by (simp add: flag_tests)
qed

declare bget_cached.simps [simp del] bget_unused.simps [simp del]

text \<open>A buffer taken by process \<open>p\<close>.\<close>

definition taken :: "nat \<Rightarrow> nat \<Rightarrow> buf \<Rightarrow> 'a biost_scheme \<Rightarrow> 'a biost_scheme" where
  "taken p b x s = set_sleep (BufSL b) True (p_pid (procs s p)) (s\<lparr>bufs := (bufs s)(b := x)\<rparr>)"

lemma taken_sleep:
  assumes "quiet c p s" and "\<not> sl_locked (sleeplks s (BufSL b))"
  shows "acquiresleep (BufSL b) (s\<lparr>bufs := (bufs s)(b := x)\<rparr>) = Ret () (taken p b x s)"
  using acquiresleep_eq [of c p "s\<lparr>bufs := (bufs s)(b := x)\<rparr>" "BufSL b"] assms by (simp add: taken_def)

lemma bget_hit:
  assumes q: "quiet c p s" and L: "ring (bufs s) L"
    and b: "find (\<lambda>b. b_dev (bufs s b) = dev \<and> b_blockno (bufs s b) = n) L = Some b"
    and "\<not> sl_locked (sleeplks s (BufSL b))"
  shows "bget dev n s = Ret b (taken p b ((bufs s b)\<lparr>b_refcnt := b_refcnt (bufs s b) + 1\<rparr>) s)"
  using ring_head(1) [of "enter BcacheLock c s" L dev n] L b taken_sleep [OF q assms(4)]
  by (simp add: bget_def acquire_calm [OF quietD(1,2) [OF q]] upd_buf_def release_bufs [OF q])

lemma bget_miss:
  assumes q: "quiet c p s" and L: "ring (bufs s) L"
    and "find (\<lambda>b. b_dev (bufs s b) = dev \<and> b_blockno (bufs s b) = n) L = None"
    and b: "find (\<lambda>b. b_refcnt (bufs s b) = 0 \<and> \<not> dirty (bufs s b)) (rev L) = Some b"
    and "\<not> sl_locked (sleeplks s (BufSL b))"
  shows "bget dev n s = Ret b (taken p b ((bufs s b)\<lparr>b_dev := dev, b_blockno := n, b_flags := 0, b_refcnt := 1\<rparr>) s)"
  using ring_head [of "enter BcacheLock c s" L] L assms(3) b taken_sleep [OF q assms(5)]
  by (simp add: bget_def acquire_calm [OF quietD(1,2) [OF q]] upd_buf_def release_bufs [OF q] Let_def)

lemma iderw_read:
  assumes q: "quiet c p s" and "sl_locked (sleeplks s (BufSL b))" "sl_pid (sleeplks s (BufSL b)) = p_pid (procs s p)"
    and "\<not> valid (bufs s b)" "\<not> dirty (bufs s b)" "b_dev (bufs s b) = 1" "b_blockno (bufs s b) < disksize s"
  shows "iderw b s = Ret () (s\<lparr>bufs := (bufs s)(b := (bufs s b)\<lparr>b_data := disk s (b_blockno (bufs s b)),
     b_flags := b_flags (bufs s b) OR B_VALID\<rparr>)\<rparr>)"
  using assms by (simp add: iderw_def holdingsleep_eq [OF q] flag_tests upd_buf_def Let_def linorder_not_le)

lemma iderw_write:
  assumes q: "quiet c p s" and "sl_locked (sleeplks s (BufSL b))" "sl_pid (sleeplks s (BufSL b)) = p_pid (procs s p)"
    and "dirty (bufs s b)" "b_dev (bufs s b) = 1" "b_blockno (bufs s b) < disksize s"
  shows "iderw b s = Ret () (s\<lparr>bufs := (bufs s)(b := (bufs s b)\<lparr>b_flags := (b_flags (bufs s b) AND NOT B_DIRTY) OR B_VALID\<rparr>),
     disk := (disk s)(b_blockno (bufs s b) := b_data (bufs s b)),
     disk_writes := disk_writes s @ [(b_blockno (bufs s b), b_data (bufs s b))]\<rparr>)"
  using assms by (simp add: iderw_def holdingsleep_eq [OF q] flag_tests upd_buf_def Let_def linorder_not_le)

lemma bwrite_eq:
  assumes q: "quiet c p s" and "sl_locked (sleeplks s (BufSL b))" "sl_pid (sleeplks s (BufSL b)) = p_pid (procs s p)"
    and "b_dev (bufs s b) = 1" "b_blockno (bufs s b) < disksize s"
  shows "bwrite b s = Ret () (s\<lparr>bufs := (bufs s)(b := (bufs s b)\<lparr>b_flags := ((b_flags (bufs s b) OR B_DIRTY) AND NOT B_DIRTY) OR B_VALID\<rparr>),
     disk := (disk s)(b_blockno (bufs s b) := b_data (bufs s b)),
     disk_writes := disk_writes s @ [(b_blockno (bufs s b), b_data (bufs s b))]\<rparr>)"
  using iderw_write [of c p "s\<lparr>bufs := (bufs s)(b := (bufs s b)\<lparr>b_flags := b_flags (bufs s b) OR B_DIRTY\<rparr>)\<rparr>" b] assms
  by (simp add: bwrite_def holdingsleep_eq [OF q] upd_buf_def)

section \<open>The invariant of the cache\<close>

text \<open>\<open>h\<close> says which buffers the current process holds, and for which block. A buffer on no device (as after
  \<open>binit\<close>) is neither held nor dirty; every other one is valid, and agrees with the disk unless it is held or
  dirty.\<close>

definition buf_ok :: "u32 \<Rightarrow> u32 option \<Rightarrow> sleeplock \<Rightarrow> u32 \<Rightarrow> (u32 \<Rightarrow> u8 list) \<Rightarrow> buf \<Rightarrow> bool" where
  "buf_ok pid hb sl sz d x \<longleftrightarrow>
     length (b_data x) = BSIZE \<and> sl_locked sl = (hb \<noteq> None) \<and> b_refcnt x = (if hb = None then 0 else 1)
     \<and> (case hb of None \<Rightarrow> b_dev x = 1 \<and> \<not> dirty x \<longrightarrow> b_data x = d (b_blockno x)
        | Some n \<Rightarrow> b_dev x = 1 \<and> b_blockno x = n \<and> sl_pid sl = pid)
     \<and> (b_dev x = 1 \<longrightarrow> valid x \<and> b_blockno x < sz) \<and> (dirty x \<longrightarrow> b_dev x = 1)"

definition caches :: "'a biost_scheme \<Rightarrow> nat \<Rightarrow> u32 \<Rightarrow> bool" where
  "caches s b n \<longleftrightarrow> b < NBUF \<and> b_dev (bufs s b) = 1 \<and> b_blockno (bufs s b) = n"

definition cache_ok :: "u32 \<Rightarrow> (nat \<rightharpoonup> u32) \<Rightarrow> 'a biost_scheme \<Rightarrow> bool" where
  "cache_ok pid h s \<longleftrightarrow>
     (\<exists>L. ring (bufs s) L) \<and> dom h \<subseteq> {..<NBUF} \<and> (\<forall>n. length (disk s n) = BSIZE)
     \<and> (\<forall>b < NBUF. buf_ok pid (h b) (sleeplks s (BufSL b)) (disksize s) (disk s) (bufs s b))
     \<and> (\<forall>b b' n. caches s b n \<longrightarrow> caches s b' n \<longrightarrow> b = b')"

text \<open>What the cache stands for: the contents of the blocks as the kernel sees them, and the blocks whose
  contents only the cache has.\<close>

definition content :: "'a biost_scheme \<Rightarrow> u32 \<Rightarrow> u8 list" where
  "content s n = (case find_idx (\<lambda>b. b_dev (bufs s b) = 1 \<and> b_blockno (bufs s b) = n) NBUF of
     Some b \<Rightarrow> b_data (bufs s b) | None \<Rightarrow> disk s n)"

definition pinned :: "'a biost_scheme \<Rightarrow> u32 set" where
  "pinned s = {b_blockno (bufs s b) |b. b < NBUF \<and> dirty (bufs s b)}"

definition bio_ok :: "nat \<Rightarrow> nat \<Rightarrow> (nat \<rightharpoonup> u32) \<Rightarrow> 'a biost_scheme \<Rightarrow> bool" where
  "bio_ok c p h s \<longleftrightarrow> quiet c p s \<and> cache_ok (p_pid (procs s p)) h s"

lemma content_cached:
  assumes "cache_ok pid h s" and "caches s b n"
  shows "content s n = b_data (bufs s b)"
proof (cases "find_idx (\<lambda>b. b_dev (bufs s b) = 1 \<and> b_blockno (bufs s b) = n) NBUF")
  case None
  then show ?thesis using assms(2) by (auto simp: find_idx_None caches_def)
next
  case (Some b')
  then have "caches s b' n" by (auto simp: caches_def find_idx_Some)
  then have "b' = b" using assms by (auto simp: cache_ok_def)
  with Some show ?thesis by (simp add: content_def)
qed

lemma content_uncached: "(\<And>b. \<not> caches s b n) \<Longrightarrow> content s n = disk s n"
  by (auto simp: content_def caches_def find_idx_Some split: option.split)

lemma cache_okD:
  assumes "cache_ok pid h s"
  shows "caches s b n \<Longrightarrow> caches s b' n \<Longrightarrow> b = b'" and "h b = Some n \<Longrightarrow> caches s b n"
    and "h b = Some n \<Longrightarrow> sl_locked (sleeplks s (BufSL b)) \<and> sl_pid (sleeplks s (BufSL b)) = pid \<and> b_refcnt (bufs s b) = 1"
    and "h b = Some n \<Longrightarrow> valid (bufs s b) \<and> n < disksize s"
    and "caches s b n \<Longrightarrow> valid (bufs s b) \<and> n < disksize s"
    and "caches s b n \<Longrightarrow> h b = None \<Longrightarrow> \<not> dirty (bufs s b) \<Longrightarrow> b_data (bufs s b) = disk s n"
    and "b < NBUF \<Longrightarrow> h b = None \<Longrightarrow> \<not> sl_locked (sleeplks s (BufSL b)) \<and> b_refcnt (bufs s b) = 0"
    and "b < NBUF \<Longrightarrow> length (b_data (bufs s b)) = BSIZE" and "length (disk s n) = BSIZE"
    and "b < NBUF \<Longrightarrow> dirty (bufs s b) \<Longrightarrow> caches s b (b_blockno (bufs s b))"
    and "b < NBUF \<Longrightarrow> buf_ok pid (h b) (sleeplks s (BufSL b)) (disksize s) (disk s) (bufs s b)"
proof -
  have B: "b < NBUF \<Longrightarrow> buf_ok pid (h b) (sleeplks s (BufSL b)) (disksize s) (disk s) (bufs s b)"
    and h: "h b = Some n \<Longrightarrow> b < NBUF" using assms by (auto simp: cache_ok_def)
  show "caches s b n \<Longrightarrow> caches s b' n \<Longrightarrow> b = b'" "length (disk s n) = BSIZE"
    using assms by (auto simp: cache_ok_def)
  show "h b = Some n \<Longrightarrow> caches s b n" using B h by (auto simp: buf_ok_def caches_def)
  show "h b = Some n \<Longrightarrow> sl_locked (sleeplks s (BufSL b)) \<and> sl_pid (sleeplks s (BufSL b)) = pid \<and> b_refcnt (bufs s b) = 1"
    "h b = Some n \<Longrightarrow> valid (bufs s b) \<and> n < disksize s"
    using B h by (auto simp: buf_ok_def)
  show "caches s b n \<Longrightarrow> valid (bufs s b) \<and> n < disksize s"
    "caches s b n \<Longrightarrow> h b = None \<Longrightarrow> \<not> dirty (bufs s b) \<Longrightarrow> b_data (bufs s b) = disk s n"
    using B by (auto simp: buf_ok_def caches_def)
  show "b < NBUF \<Longrightarrow> h b = None \<Longrightarrow> \<not> sl_locked (sleeplks s (BufSL b)) \<and> b_refcnt (bufs s b) = 0"
    "b < NBUF \<Longrightarrow> length (b_data (bufs s b)) = BSIZE"
    "b < NBUF \<Longrightarrow> dirty (bufs s b) \<Longrightarrow> caches s b (b_blockno (bufs s b))"
    "b < NBUF \<Longrightarrow> buf_ok pid (h b) (sleeplks s (BufSL b)) (disksize s) (disk s) (bufs s b)"
    using B by (auto simp: buf_ok_def caches_def)
qed

lemma sans_linksD:
  assumes "sans_links x = sans_links y"
  shows "b_data x = b_data y" "b_dev x = b_dev y" "b_blockno x = b_blockno y" "b_refcnt x = b_refcnt y"
    "b_flags x = b_flags y" "valid x = valid y" "dirty x = dirty y"
  using assms by (cases x; cases y; simp add: sans_links_def valid_def dirty_def)+

lemma buf_ok_cong:
  assumes "sans_links x = sans_links y" and "b_dev y = 1 \<Longrightarrow> d (b_blockno y) = d' (b_blockno y)"
  shows "buf_ok pid hb sl sz d x = buf_ok pid hb sl sz d' y"
  using assms(2) by (auto simp: buf_ok_def sans_linksD [OF assms(1)] split: option.splits)

text \<open>A step that changes one buffer \<open>b\<close>, its sleep-lock, the links, and on the disk at most the block of \<open>b\<close>.\<close>

definition one_buf :: "nat \<Rightarrow> 'a biost_scheme \<Rightarrow> 'a biost_scheme \<Rightarrow> bool" where
  "one_buf b s t \<longleftrightarrow> b < NBUF \<and> disksize t = disksize s \<and> (\<forall>m. length (disk t m) = BSIZE)
     \<and> (\<forall>x. x \<noteq> b \<longrightarrow> sans_links (bufs t x) = sans_links (bufs s x) \<and> sleeplks t (BufSL x) = sleeplks s (BufSL x))
     \<and> (\<forall>m. disk t m \<noteq> disk s m \<longrightarrow> caches t b m)
     \<and> (\<forall>x m. x \<noteq> b \<longrightarrow> caches s x m \<longrightarrow> \<not> caches t b m)"

lemma caches_other:
  assumes "one_buf b s t" and "x \<noteq> b"
  shows "caches t x m = caches s x m"
proof -
  have "sans_links (bufs t x) = sans_links (bufs s x)" using assms by (simp add: one_buf_def)
  from sans_linksD [OF this] show ?thesis by (simp add: caches_def)
qed

lemma cache_ok_step:
  assumes C: "cache_ok pid h s" and o: "one_buf b s t" and "ring (bufs t) L" and h: "\<And>x. x \<noteq> b \<Longrightarrow> h' x = h x"
    and bb: "buf_ok pid (h' b) (sleeplks t (BufSL b)) (disksize t) (disk t) (bufs t b)"
  shows "cache_ok pid h' t"
proof -
  have "buf_ok pid (h' x) (sleeplks t (BufSL x)) (disksize t) (disk t) (bufs t x)" if x: "x < NBUF" for x
  proof (cases "x = b")
    case False
    have "disk t m = disk s m" if "caches s x m" for m using o False that unfolding one_buf_def by blast
    then have "b_dev (bufs s x) = 1 \<Longrightarrow> disk t (b_blockno (bufs s x)) = disk s (b_blockno (bufs s x))"
      using x by (simp add: caches_def)
    moreover have "sans_links (bufs t x) = sans_links (bufs s x)" using o False by (simp add: one_buf_def)
    ultimately have "buf_ok pid (h x) (sleeplks s (BufSL x)) (disksize s) (disk t) (bufs t x)"
      using cache_okD(11) [OF C x] buf_ok_cong by metis
    with False o h show ?thesis by (simp add: one_buf_def)
  qed (simp add: bb)
  moreover have "\<not> caches t b m" if "x \<noteq> b" "caches t x m" for x m
    using that o caches_other [OF o that(1)] by (auto simp: one_buf_def)
  then have "x = y" if "caches t x m" "caches t y m" for x y m
    using that caches_other [OF o] cache_okD(1) [OF C] by metis
  moreover have "dom h' \<subseteq> {..<NBUF}"
  proof
    fix x assume "x \<in> dom h'"
    then have "x = b \<or> x \<in> dom h" using h [of x] by (cases "x = b") (auto simp: dom_def)
    moreover have "dom h \<subseteq> {..<NBUF}" "b < NBUF" using C o by (simp_all add: cache_ok_def one_buf_def)
    ultimately show "x \<in> {..<NBUF}" by blast
  qed
  ultimately show ?thesis using assms(3) o unfolding cache_ok_def one_buf_def by blast
qed

lemma content_step:
  assumes C: "cache_ok pid h s" "cache_ok pid h' t" and o: "one_buf b s t"
  shows "content t m = (if caches t b m then b_data (bufs t b) else if caches s b m then disk s m else content s m)"
proof (cases "caches t b m")
  case True
  with content_cached [OF C(2)] show ?thesis by simp
next
  case False
  then have d: "disk t m = disk s m" using o by (auto simp: one_buf_def)
  show ?thesis
  proof (cases "\<exists>x. x \<noteq> b \<and> caches s x m")
    case True
    then obtain x where x: "x \<noteq> b" "caches s x m" by blast
    then have "content t m = b_data (bufs t x)" using caches_other [OF o] content_cached [OF C(2)] by blast
    moreover have "b_data (bufs t x) = b_data (bufs s x)"
      using o x by (intro sans_linksD(1)) (simp add: one_buf_def)
    ultimately show ?thesis using x False content_cached [OF C(1)] cache_okD(1) [OF C(1)] by metis
  next
    case n: False
    then have "content t m = disk s m"
      using False d caches_other [OF o] by (metis content_uncached)
    then show ?thesis using False n by (metis content_uncached)
  qed
qed

lemma pinned_iff: "n \<in> pinned s \<longleftrightarrow> (\<exists>b < NBUF. dirty (bufs s b) \<and> b_blockno (bufs s b) = n)"
  by (auto simp: pinned_def)

lemma pinned_step:
  assumes C: "cache_ok pid h s" "cache_ok pid h' t" and o: "one_buf b s t"
  shows "m \<in> pinned t \<longleftrightarrow> (if caches t b m then dirty (bufs t b) else \<not> caches s b m \<and> m \<in> pinned s)"
proof -
  have s: "m \<in> pinned u \<longleftrightarrow> (\<exists>x. caches u x m \<and> dirty (bufs u x))" if "cache_ok pid k u" for k and u :: "'a biost_scheme"
    using cache_okD(10) [OF that] by (auto simp: pinned_iff caches_def)
  have d: "dirty (bufs t x) = dirty (bufs s x)" if "x \<noteq> b" for x
    using o that by (intro sans_linksD(7)) (simp add: one_buf_def)
  show ?thesis
  proof (cases "caches t b m")
    case True
    then show ?thesis using s [OF C(2)] cache_okD(1) [OF C(2)] by auto
  next
    case False
    then show ?thesis using s [OF C(1)] s [OF C(2)] d caches_other [OF o] cache_okD(1) [OF C(1)] by metis
  qed
qed

section \<open>Specifications of the operations\<close>

text \<open>A buffer is free for another block unless it is held or dirty.\<close>

lemma free_buffer:
  assumes C: "cache_ok pid h s" and "card (dom h) + card (pinned s) < NBUF"
  shows "\<exists>b < NBUF. h b = None \<and> \<not> dirty (bufs s b)"
proof (rule ccontr)
  assume n: "\<not> ?thesis"
  let ?D = "{b. b < NBUF \<and> dirty (bufs s b)}"
  have f: "finite (dom h)" using C finite_subset by (auto simp: cache_ok_def)
  have "{..<NBUF} \<subseteq> dom h \<union> ?D" using n by auto
  then have "NBUF \<le> card (dom h \<union> ?D)" using f card_mono [of "dom h \<union> ?D" "{..<NBUF}"] by simp
  also have "\<dots> \<le> card (dom h) + card ?D" by (rule card_Un_le)
  also have "card ?D = card ((\<lambda>b. b_blockno (bufs s b)) ` ?D)"
    using cache_okD(1,10) [OF C] by (intro card_image [symmetric] inj_onI) (metis (mono_tags, lifting) mem_Collect_eq)
  also have "(\<lambda>b. b_blockno (bufs s b)) ` ?D = pinned s" by (auto simp: pinned_def)
  finally show False using assms(2) by simp
qed

lemma taken_fields [simp]:
  "bufs (taken p b x s) = (bufs s)(b := x)" "disk (taken p b x s) = disk s" "disk_writes (taken p b x s) = disk_writes s"
  "disksize (taken p b x s) = disksize s" "procs (taken p b x s) = procs s"
  "sleeplks (taken p b x s) = (sleeplks s)(BufSL b := \<lparr>sl_locked = True, sl_pid = p_pid (procs s p)\<rparr>)"
  "bio_frame s (taken p b x s)"
  by (simp_all add: taken_def set_sleep_def)

lemma quiet_taken [simp]: "quiet c p (taken p b x s) = quiet c p s"
  by (simp add: taken_def set_sleep_def)

text \<open>States that stand for the same blocks.\<close>

definition same_store :: "'a biost_scheme \<Rightarrow> 'a biost_scheme \<Rightarrow> bool" where
  "same_store s t \<longleftrightarrow> content t = content s \<and> pinned t = pinned s \<and> disk t = disk s \<and> disk_writes t = disk_writes s
     \<and> bio_frame s t"

definition bread_post :: "nat \<Rightarrow> nat \<Rightarrow> (nat \<rightharpoonup> u32) \<Rightarrow> u32 \<Rightarrow> 'a biost_scheme \<Rightarrow> nat \<Rightarrow> 'a biost_scheme \<Rightarrow> bool" where
  "bread_post c p h n s b t \<longleftrightarrow> h b = None \<and> bio_ok c p (h(b \<mapsto> n)) t \<and> same_store s t"

text \<open>A buffer that held block \<open>m\<close> unmodified, or nothing, is given to block \<open>n\<close>.\<close>

lemma bread_postI:
  assumes ok: "bio_ok c p h s" and b: "b < NBUF" "h b = None" and r: "ring ((bufs s)(b := x)) L"
    and n: "n < disksize s" "\<And>y. y \<noteq> b \<Longrightarrow> \<not> caches s y n" "b_dev x = 1" "b_blockno x = n" "valid x" "b_refcnt x = 1"
    and d: "b_data x = content s n" "length (b_data x) = BSIZE" "dirty x = (n \<in> pinned s)"
    and o: "\<And>m. caches s b m \<Longrightarrow> m \<noteq> n \<Longrightarrow> \<not> dirty (bufs s b)"
  shows "bread_post c p h n s b (taken p b x s)"
proof -
  let ?t = "taken p b x s" and ?pid = "p_pid (procs s p)"
  have C: "cache_ok ?pid h s" using ok by (simp add: bio_ok_def)
  have tb: "caches ?t b m \<longleftrightarrow> m = n" for m using b n by (auto simp: caches_def)
  then have ob: "one_buf b s ?t"
    using b n(2) cache_okD(9) [OF C] by (auto simp: one_buf_def)
  have C': "cache_ok ?pid (h(b \<mapsto> n)) ?t"
    using r n d by (intro cache_ok_step [OF C ob]) (simp_all add: buf_ok_def)
  have "content ?t m = content s m" for m
    using content_step [OF C C' ob] tb d o cache_okD(6) [OF C _ b(2)] content_cached [OF C] by auto
  moreover have "m \<in> pinned ?t \<longleftrightarrow> m \<in> pinned s" for m
    using pinned_step [OF C C' ob, of m] tb d o [of m] b cache_okD(1,10) [OF C] by (auto simp: pinned_iff caches_def)
  ultimately show ?thesis
    using ok b C' by (auto simp: bread_post_def same_store_def bio_ok_def)
qed

lemma find_SomeD: "find P xs = Some x \<Longrightarrow> x \<in> set xs \<and> P x"
  by (auto simp: find_Some_iff)

lemma ring_same_links:
  assumes "ring f L" and "b_prev x = b_prev (f b)" and "b_next x = b_next (f b)"
  shows "ring (f(b := x)) L"
  using ring_cong [of "f(b := x)" f L] assms by simp

lemma bread_wp:
  assumes ok: "bio_ok c p h s" and n: "n < disksize s" "n \<notin> ran h"
    and r: "n \<in> pinned s \<or> card (dom h) + card (pinned s) < NBUF"
  shows "wp (bread 1 n s) (bread_post c p h n s)"
proof -
  have C: "cache_ok (p_pid (procs s p)) h s" and q: "quiet c p s" using ok by (simp_all add: bio_ok_def)
  then obtain L where L: "ring (bufs s) L" by (auto simp: cache_ok_def)
  have sL: "set L = {..<NBUF}" using L by (simp add: ring_def)
  show ?thesis
  proof (cases "find (\<lambda>b. b_dev (bufs s b) = 1 \<and> b_blockno (bufs s b) = n) L")
    case (Some b)
    then have b: "caches s b n" using sL by (auto simp: caches_def find_Some_iff)
    then have h: "h b = None" using n(2) cache_okD(2) [OF C, of b] by (cases "h b") (auto simp: caches_def ran_def)
    let ?x = "(bufs s b)\<lparr>b_refcnt := b_refcnt (bufs s b) + 1\<rparr>"
    have "bread 1 n s = Ret b (taken p b ?x s)"
      using bget_hit [OF q L Some] h b cache_okD(5,7) [OF C] by (simp add: bread_def caches_def flag_tests valid_def)
    moreover have "bread_post c p h n s b (taken p b ?x s)"
    proof (rule bread_postI [OF ok])
      show "dirty ?x = (n \<in> pinned s)" using b cache_okD(1,10) [OF C] by (auto simp: pinned_iff caches_def dirty_def)
      show "b_data ?x = content s n" using content_cached [OF C b] by simp
      show "\<not> caches s y n" if "y \<noteq> b" for y using that b cache_okD(1) [OF C] by blast
      show "ring ((bufs s)(b := ?x)) L" using L by (simp add: ring_same_links)
    qed (use b h n cache_okD(5,7,8) [OF C] in \<open>auto simp: caches_def valid_def\<close>)
    ultimately show ?thesis by simp
  next
    case None
    then have u: "\<not> caches s b n" for b using sL by (auto simp: caches_def find_None_iff)
    then have "n \<notin> pinned s" using cache_okD(10) [OF C] by (auto simp: pinned_iff)
    with r have r: "card (dom h) + card (pinned s) < NBUF" by blast
    obtain z where z: "z < NBUF" "h z = None" "\<not> dirty (bufs s z)" using free_buffer [OF C r] by blast
    have "find (\<lambda>b. b_refcnt (bufs s b) = 0 \<and> \<not> dirty (bufs s b)) (rev L) \<noteq> None"
      using z sL cache_okD(7) [OF C z(1,2)] by (auto simp: find_None_iff)
    then obtain b where F: "find (\<lambda>b. b_refcnt (bufs s b) = 0 \<and> \<not> dirty (bufs s b)) (rev L) = Some b" by blast
    then have b: "b < NBUF" "\<not> dirty (bufs s b)" "b_refcnt (bufs s b) = 0" using sL find_SomeD [OF F] by auto
    then have h: "h b = None" using cache_okD(3) [OF C, of b] by (cases "h b") auto
    let ?y = "(bufs s b)\<lparr>b_dev := 1, b_blockno := n, b_flags := 0, b_refcnt := 1\<rparr>"
    let ?x = "?y\<lparr>b_data := disk s n, b_flags := b_flags ?y OR B_VALID\<rparr>"
    have "iderw b (taken p b ?y s) = Ret () ((taken p b ?y s)\<lparr>bufs := (bufs s)(b := ?x)\<rparr>)"
      using q n(1) iderw_read [of c p "taken p b ?y s" b] by (simp add: valid_def dirty_def)
    moreover have "(taken p b ?y s)\<lparr>bufs := (bufs s)(b := ?x)\<rparr> = taken p b ?x s"
      by (simp add: taken_def set_sleep_def)
    ultimately have "bread 1 n s = Ret b (taken p b ?x s)"
      using bget_miss [OF q L None F] h b cache_okD(7) [OF C] by (simp add: bread_def)
    moreover have "bread_post c p h n s b (taken p b x s)" if x: "x = ?x" for x
    proof (rule bread_postI [OF ok b(1) h])
      have "n \<notin> pinned s" using u cache_okD(10) [OF C] by (auto simp: pinned_iff)
      then show "dirty x = (n \<in> pinned s)" using bit_2_4(1) [of 2] by (simp add: x dirty_def B_VALID_def)
      show "valid x" using bit_2_4(1) [of 1] by (simp add: x valid_def B_VALID_def)
      show "b_data x = content s n" by (simp add: x content_uncached [OF u])
      show "ring ((bufs s)(b := x)) L" using L by (simp add: x ring_same_links)
      show "length (b_data x) = BSIZE" using cache_okD(9) [OF C] by (simp add: x)
    qed (simp_all add: x b(2) u n(1))
    ultimately show ?thesis by simp
  qed
qed

lemma bwrite_wp:
  assumes ok: "bio_ok c p h s" and h: "h b = Some n"
  shows "wp (bwrite b s) (\<lambda>_ t. bio_ok c p h t \<and> content t = content s \<and> pinned t = pinned s - {n}
    \<and> disk t = (disk s)(n := content s n) \<and> disk_writes t = disk_writes s @ [(n, content s n)] \<and> bio_frame s t)"
proof -
  have C: "cache_ok (p_pid (procs s p)) h s" and q: "quiet c p s" using ok by (simp_all add: bio_ok_def)
  have b: "caches s b n" using cache_okD(2) [OF C h] .
  let ?x = "(bufs s b)\<lparr>b_flags := ((b_flags (bufs s b) OR B_DIRTY) AND NOT B_DIRTY) OR B_VALID\<rparr>"
  let ?t = "s\<lparr>bufs := (bufs s)(b := ?x), disk := (disk s)(n := content s n),
     disk_writes := disk_writes s @ [(n, content s n)]\<rparr>"
  have fl: "valid ?x" "\<not> dirty ?x" by simp_all
  have "bwrite b s = Ret () ?t"
    using bwrite_eq [OF q] cache_okD(3,4) [OF C h] b content_cached [OF C b] by (simp add: caches_def)
  moreover have tb: "caches ?t b m \<longleftrightarrow> m = n" for m using b by (auto simp: caches_def)
  have bn: "b < NBUF" "b_blockno (bufs s b) = n" "b_dev (bufs s b) = 1" using b by (simp_all add: caches_def)
  have l: "length (content s n) = BSIZE" using content_cached [OF C b] cache_okD(8) [OF C bn(1)] by simp
  have u: "\<not> caches s y n" if "y \<noteq> b" for y using cache_okD(1) [OF C b, of y] that by blast
  have ob: "one_buf b s ?t"
    unfolding one_buf_def tb using u by (auto simp: l bn cache_okD(9) [OF C])
  obtain L where "ring (bufs s) L" using C by (auto simp: cache_ok_def)
  then have "ring (bufs ?t) L" by (simp add: ring_same_links)
  then have C': "cache_ok (p_pid (procs s p)) h ?t"
    by (rule cache_ok_step [OF C ob]) (use h fl cache_okD(11) [OF C, of b] b in \<open>auto simp: buf_ok_def caches_def\<close>)
  have "content ?t m = content s m" for m
    using content_step [OF C C' ob, of m] tb content_cached [OF C b] b by (auto simp: caches_def)
  moreover have "m \<in> pinned ?t \<longleftrightarrow> m \<in> pinned s - {n}" for m
    using pinned_step [OF C C' ob, of m] tb fl b by (auto simp: caches_def)
  moreover have "bio_ok c p h ?t" using C' q by (simp add: bio_ok_def)
  ultimately show ?thesis by (auto simp: fun_eq_iff)
qed

lemma held_step:
  assumes ok: "bio_ok c p h s" and h: "h b = Some n"
    and x: "b_dev x = 1" "b_blockno x = n" "b_refcnt x = 1" "valid x" "length (b_data x) = BSIZE"
      "b_prev x = b_prev (bufs s b)" "b_next x = b_next (bufs s b)"
  shows "bio_ok c p h (s\<lparr>bufs := (bufs s)(b := x)\<rparr>)"
    and "content (s\<lparr>bufs := (bufs s)(b := x)\<rparr>) = (content s)(n := b_data x)"
    and "pinned (s\<lparr>bufs := (bufs s)(b := x)\<rparr>) = (if dirty x then insert n (pinned s) else pinned s - {n})"
proof -
  let ?t = "s\<lparr>bufs := (bufs s)(b := x)\<rparr>"
  have C: "cache_ok (p_pid (procs s p)) h s" and q: "quiet c p s" using ok by (simp_all add: bio_ok_def)
  have b: "caches s b n" using cache_okD(2) [OF C h] .
  then have bn: "b < NBUF" "b_blockno (bufs s b) = n" "b_dev (bufs s b) = 1" by (simp_all add: caches_def)
  have tb: "caches ?t b m \<longleftrightarrow> m = n" for m using x bn by (auto simp: caches_def)
  have sb: "caches s b m \<longleftrightarrow> m = n" for m using bn by (auto simp: caches_def)
  have "\<not> caches s y n" if "y \<noteq> b" for y using cache_okD(1) [OF C b, of y] that by blast
  then have ob: "one_buf b s ?t"
    unfolding one_buf_def tb by (auto simp: bn cache_okD(9) [OF C])
  obtain L where "ring (bufs s) L" using C by (auto simp: cache_ok_def)
  then have "ring (bufs ?t) L" using x by (simp add: ring_same_links)
  then have C': "cache_ok (p_pid (procs s p)) h ?t"
    by (rule cache_ok_step [OF C ob]) (use h x cache_okD(3,4) [OF C h] in \<open>simp_all add: buf_ok_def\<close>)
  then show "bio_ok c p h ?t" using q by (simp add: bio_ok_def)
  show "content ?t = (content s)(n := b_data x)"
    using content_step [OF C C' ob] tb sb by (auto simp: fun_eq_iff)
  show "pinned ?t = (if dirty x then insert n (pinned s) else pinned s - {n})"
    by (rule set_eqI) (simp add: pinned_step [OF C C' ob] tb sb)
qed

lemma held_peek:
  assumes "bio_ok c p h s" and "h b = Some n"
  shows "b_data (bufs s b) = content s n" "length (content s n) = BSIZE" "n < disksize s" "b_blockno (bufs s b) = n"
proof -
  have C: "cache_ok (p_pid (procs s p)) h s" using assms by (simp add: bio_ok_def)
  have b: "caches s b n" using cache_okD(2) [OF C assms(2)] .
  then show "b_data (bufs s b) = content s n" "b_blockno (bufs s b) = n" using content_cached [OF C b] by (simp_all add: caches_def)
  with b show "length (content s n) = BSIZE" "n < disksize s"
    using cache_okD(8) [OF C, of b] cache_okD(5) [OF C b] by (simp_all add: caches_def)
qed

text \<open>Writing into a held buffer, and marking it dirty so that it stays in the cache.\<close>

lemma poke_held:
  assumes "bio_ok c p h s" and "h b = Some n" and "length d = BSIZE"
  shows "bio_ok c p h (upd_buf b (\<lambda>x. x\<lparr>b_data := d\<rparr>) s)"
    and "content (upd_buf b (\<lambda>x. x\<lparr>b_data := d\<rparr>) s) = (content s)(n := d)"
    and "pinned (upd_buf b (\<lambda>x. x\<lparr>b_data := d\<rparr>) s) = pinned s"
proof -
  have C: "cache_ok (p_pid (procs s p)) h s" using assms by (simp add: bio_ok_def)
  have b: "b < NBUF" "b_dev (bufs s b) = 1" "b_blockno (bufs s b) = n"
    using cache_okD(2) [OF C assms(2)] by (simp_all add: caches_def)
  let ?x = "(bufs s b)\<lparr>b_data := d\<rparr>"
  have d: "dirty ?x = dirty (bufs s b)" "valid ?x = valid (bufs s b)" by (simp_all add: dirty_def valid_def)
  note k = held_step [OF assms(1,2), of ?x]
  show "bio_ok c p h (upd_buf b (\<lambda>x. x\<lparr>b_data := d\<rparr>) s)"
    "content (upd_buf b (\<lambda>x. x\<lparr>b_data := d\<rparr>) s) = (content s)(n := d)"
    using k(1,2) cache_okD(3,4) [OF C assms(2)] b d assms(3) by (simp_all add: upd_buf_def)
  have "n \<in> pinned s \<longleftrightarrow> dirty (bufs s b)" using b cache_okD(1,10) [OF C] by (auto simp: pinned_iff caches_def)
  then show "pinned (upd_buf b (\<lambda>x. x\<lparr>b_data := d\<rparr>) s) = pinned s"
    using k(3) cache_okD(3,4) [OF C assms(2)] b d assms(3) by (auto simp: upd_buf_def)
qed

lemma pin_held:
  assumes "bio_ok c p h s" and "h b = Some n"
  shows "bio_ok c p h (upd_buf b (\<lambda>x. x\<lparr>b_flags := b_flags x OR B_DIRTY\<rparr>) s)"
    and "content (upd_buf b (\<lambda>x. x\<lparr>b_flags := b_flags x OR B_DIRTY\<rparr>) s) = content s"
    and "pinned (upd_buf b (\<lambda>x. x\<lparr>b_flags := b_flags x OR B_DIRTY\<rparr>) s) = insert n (pinned s)"
proof -
  have C: "cache_ok (p_pid (procs s p)) h s" using assms by (simp add: bio_ok_def)
  have b: "b < NBUF" "b_dev (bufs s b) = 1" "b_blockno (bufs s b) = n"
    using cache_okD(2) [OF C assms(2)] by (simp_all add: caches_def)
  note k = held_step [OF assms, of "(bufs s b)\<lparr>b_flags := b_flags (bufs s b) OR B_DIRTY\<rparr>"]
  show "bio_ok c p h (upd_buf b (\<lambda>x. x\<lparr>b_flags := b_flags x OR B_DIRTY\<rparr>) s)"
    "content (upd_buf b (\<lambda>x. x\<lparr>b_flags := b_flags x OR B_DIRTY\<rparr>) s) = content s"
    "pinned (upd_buf b (\<lambda>x. x\<lparr>b_flags := b_flags x OR B_DIRTY\<rparr>) s) = insert n (pinned s)"
    using k cache_okD(3,4) [OF C assms(2)] cache_okD(8) [OF C b(1)] b held_peek(1) [OF assms] by (simp_all add: upd_buf_def)
qed

lemma move_front:
  "(let s = upd_buf (b_next (bufs s b)) (b_prev_update (\<lambda>_. b_prev (bufs s b))) s;
        s = upd_buf (b_prev (bufs s b)) (b_next_update (\<lambda>_. b_next (bufs s b))) s;
        s = upd_buf b (b_next_update (\<lambda>_. b_next (bufs s NBUF))) s;
        s = upd_buf b (b_prev_update (\<lambda>_. NBUF)) s;
        s = upd_buf (b_next (bufs s NBUF)) (b_prev_update (\<lambda>_. b)) s
    in upd_buf NBUF (b_next_update (\<lambda>_. b)) s) = s\<lparr>bufs := relink b (bufs s)\<rparr>"
  unfolding relink_def upd_buf_def Let_def by simp

lemma brelse_eq:
  "brelse b s =
     then_do (holdingsleep (BufSL b) s) (\<lambda>h s.
     if \<not> h then Panic ''brelse''
     else
       then_do (releasesleep (BufSL b) s) (\<lambda>_ s.
       then_do (acquire BcacheLock s) (\<lambda>_ s.
       let s = upd_buf b (\<lambda>x. x\<lparr>b_refcnt := b_refcnt x - 1\<rparr>) s
       in release BcacheLock (if b_refcnt (bufs s b) = 0 then s\<lparr>bufs := relink b (bufs s)\<rparr> else s))))"
  unfolding brelse_def move_front unfolding Let_def by (rule refl)

lemma bcache_release:
  assumes q: "quiet c p t" and "b_refcnt (bufs t b) = 1"
  shows "then_do (acquire BcacheLock t) (\<lambda>_ s.
       let s = upd_buf b (\<lambda>x. x\<lparr>b_refcnt := b_refcnt x - 1\<rparr>) s
       in release BcacheLock (if b_refcnt (bufs s b) = 0 then s\<lparr>bufs := relink b (bufs s)\<rparr> else s))
     = Ret () (t\<lparr>bufs := relink b ((bufs t)(b := (bufs t b)\<lparr>b_refcnt := 0\<rparr>))\<rparr>)"
  using assms(2) release_bufs(1) [OF q] by (simp add: acquire_calm [OF quietD(1,2) [OF q]] upd_buf_def)

lemma brelse_state:
  assumes ok: "bio_ok c p h s" and h: "h b = Some n" and n: "n \<in> pinned s \<or> content s n = disk s n"
    and t: "quiet c p t" "sched_eq (set_sleep (BufSL b) False 0 s) t"
    and u: "u = t\<lparr>bufs := relink b ((bufs t)(b := (bufs t b)\<lparr>b_refcnt := 0\<rparr>))\<rparr>"
  shows "bio_ok c p (h(b := None)) u \<and> same_store s u"
proof -
  have C: "cache_ok (p_pid (procs s p)) h s" and q: "quiet c p s" using ok by (simp_all add: bio_ok_def)
  have b: "caches s b n" using cache_okD(2) [OF C h] .
  then have bn: "b < NBUF" "b_blockno (bufs s b) = n" "b_dev (bufs s b) = 1" by (simp_all add: caches_def)
  have sb: "caches s b m \<longleftrightarrow> m = n" for m using bn by (auto simp: caches_def)
  obtain L where L: "ring (bufs s) L" using C by (auto simp: cache_ok_def)
  have pin: "n \<in> pinned s \<longleftrightarrow> dirty (bufs s b)"
    using bn cache_okD(1,10) [OF C] by (auto simp: pinned_iff caches_def)
  have fs: "bufs t = bufs s" "disk t = disk s" "disk_writes t = disk_writes s"
    "sleeplks t = (sleeplks s)(BufSL b := \<lparr>sl_locked = False, sl_pid = 0\<rparr>)"
    using sched_eq_bufs [OF t(2)] sched_eq_sleeplks [OF t(2)] by (simp_all add: set_sleep_def)
  have fr: "bio_frame s t" using sched_eq_bio [OF t(2)] by (simp add: set_sleep_def bio_frame_def bio_blank_def buf_blank_def unsched_def)
  have sl: "sans_links (bufs u x) = sans_links (((bufs s)(b := (bufs s b)\<lparr>b_refcnt := 0\<rparr>)) x)" for x
    using relink_sans by (simp add: u fs)
  have ub: "b_data (bufs u b) = b_data (bufs s b)" "b_dev (bufs u b) = 1" "b_blockno (bufs u b) = n" "b_refcnt (bufs u b) = 0"
    "valid (bufs u b) = valid (bufs s b)" "dirty (bufs u b) = dirty (bufs s b)"
    using sans_linksD [OF sl [of b]] bn by (simp_all add: valid_def dirty_def)
  have cu: "caches u b m \<longleftrightarrow> m = n" for m using ub bn by (auto simp: caches_def)
  have "\<not> caches s y n" if "y \<noteq> b" for y using cache_okD(1) [OF C b, of y] that by blast
  then have ob: "one_buf b s u"
    unfolding one_buf_def cu using bio_frameD(2) [OF fr] by (auto simp: bn u fs relink_sans cache_okD(9) [OF C])
  have "ring ((bufs s)(b := (bufs s b)\<lparr>b_refcnt := 0\<rparr>)) L" using L by (simp add: ring_same_links)
  then have ru: "ring (bufs u) (b # remove1 b L)" using relink_ring [OF _ bn(1)] by (simp add: u fs)
  have "buf_ok (p_pid (procs s p)) None (sleeplks u (BufSL b)) (disksize u) (disk u) (bufs u b)"
    using ub cache_okD(3,4) [OF C h] cache_okD(8) [OF C bn(1)] n pin content_cached [OF C b] bio_frameD(2) [OF fr]
    by (auto simp: buf_ok_def u fs)
  then have C': "cache_ok (p_pid (procs s p)) (h(b := None)) u" by (intro cache_ok_step [OF C ob ru]) simp_all
  have "content u = content s"
    by (rule ext) (simp add: content_step [OF C C' ob] cu sb ub content_cached [OF C b])
  moreover have "pinned u = pinned s"
    by (rule set_eqI) (auto simp: pinned_step [OF C C' ob] cu sb ub pin)
  ultimately show ?thesis using t fr C' bio_frameD(4) [OF fr] by (simp add: bio_ok_def same_store_def u fs)
qed

lemma brelse_wp:
  assumes ok: "bio_ok c p h s" and h: "h b = Some n" and n: "n \<in> pinned s \<or> content s n = disk s n"
  shows "wp (brelse b s) (\<lambda>_ t. bio_ok c p (h(b := None)) t \<and> same_store s t)"
proof -
  have C: "cache_ok (p_pid (procs s p)) h s" and q: "quiet c p s" using ok by (simp_all add: bio_ok_def)
  have "wp (releasesleep (BufSL b) s) (\<lambda>_ t. quiet c p t \<and> sched_eq (set_sleep (BufSL b) False 0 s) t)"
    by (rule wp_mono [OF releasesleep_wp [OF q]]) (simp add: woken_def)
  then obtain t where t: "releasesleep (BufSL b) s = Ret () t" "quiet c p t" "sched_eq (set_sleep (BufSL b) False 0 s) t"
    by (auto simp: wp_Ret_iff)
  have "b_refcnt (bufs t b) = 1" using sched_eq_bufs [OF t(3)] cache_okD(3) [OF C h] by (simp add: set_sleep_def)
  then show ?thesis
    using t brelse_state [OF assms t(2,3) refl] bcache_release [OF t(2)] cache_okD(3) [OF C h] holdingsleep_eq [OF q, of "BufSL b"]
    by (simp add: brelse_eq)
qed

lemma bread_no_buffers:
  assumes q: "quiet c p s" and L: "ring (bufs s) L"
    and "\<And>b. \<not> caches s b n" and "\<And>b. b < NBUF \<Longrightarrow> b_refcnt (bufs s b) \<noteq> 0 \<or> dirty (bufs s b)"
  shows "bread 1 n s = Panic ''bget: no buffers''"
proof -
  have "set L = {..<NBUF}" using L by (simp add: ring_def)
  then have "find (\<lambda>b. b_dev (bufs s b) = 1 \<and> b_blockno (bufs s b) = n) L = None"
    "find (\<lambda>b. b_refcnt (bufs s b) = 0 \<and> \<not> dirty (bufs s b)) (rev L) = None"
    using assms(3,4) by (auto simp: find_None_iff caches_def)
  then show ?thesis
    using ring_head [of "enter BcacheLock c s" L] L
    by (simp add: bread_def bget_def acquire_calm [OF quietD(1,2) [OF q]])
qed

section \<open>The block store as its clients see it\<close>

text \<open>The abstract state: the current contents of the blocks, the blocks that only the cache has, the disk, and
  the history of the writes to it.\<close>

record store =
  st_content :: "u32 \<Rightarrow> u8 list"
  st_pins :: "u32 set"
  st_disk :: "u32 \<Rightarrow> u8 list"
  st_trace :: "(u32 \<times> u8 list) list"

definition apply_writes :: "('n \<times> 'd) list \<Rightarrow> ('n \<Rightarrow> 'd) \<Rightarrow> 'n \<Rightarrow> 'd" where
  "apply_writes ws f = fold (\<lambda>(n, d) f. f(n := d)) ws f"

lemma apply_writes_simps [simp]:
  "apply_writes [] f = f" "apply_writes (w # ws) f = apply_writes ws (f(fst w := snd w))"
  "apply_writes (vs @ ws) f = apply_writes ws (apply_writes vs f)"
  by (simp_all add: apply_writes_def split_beta)

lemma apply_writes_other: "n \<notin> fst ` set ws \<Longrightarrow> apply_writes ws f n = f n"
  by (induction ws arbitrary: f) auto

lemma apply_writes_length:
  assumes "\<forall>w \<in> set ws. length (snd w) = k" and "\<And>n. length (f n) = k"
  shows "length (apply_writes ws f n) = k"
  using assms by (induction ws arbitrary: f) auto

lemma apply_writes_nth:
  assumes "distinct (map fst ws)" and "i < length ws"
  shows "apply_writes ws f (fst (ws ! i)) = snd (ws ! i)"
  using assms
proof (induction ws arbitrary: f i)
  case (Cons w ws)
  then show ?case by (cases i) (auto simp: apply_writes_other)
qed simp

definition store_poke :: "u32 \<Rightarrow> u8 list \<Rightarrow> store \<Rightarrow> store" where
  "store_poke n d V = V\<lparr>st_content := (st_content V)(n := d)\<rparr>"

definition store_pin :: "u32 \<Rightarrow> store \<Rightarrow> store" where
  "store_pin n V = V\<lparr>st_pins := insert n (st_pins V)\<rparr>"

definition store_write :: "u32 \<Rightarrow> store \<Rightarrow> store" where
  "store_write n V = V\<lparr>st_pins := st_pins V - {n}, st_disk := (st_disk V)(n := st_content V n),
     st_trace := st_trace V @ [(n, st_content V n)]\<rparr>"

text \<open>Blocks written through the cache to the disk.\<close>

definition store_writes :: "(u32 \<times> u8 list) list \<Rightarrow> store \<Rightarrow> store" where
  "store_writes ws V = \<lparr>st_content = apply_writes ws (st_content V), st_pins = st_pins V - fst ` set ws,
     st_disk = apply_writes ws (st_disk V), st_trace = st_trace V @ ws\<rparr>"

lemma store_writes_simps [simp]:
  "st_content (store_writes ws V) = apply_writes ws (st_content V)" "st_pins (store_writes ws V) = st_pins V - fst ` set ws"
  "st_disk (store_writes ws V) = apply_writes ws (st_disk V)" "st_trace (store_writes ws V) = st_trace V @ ws"
  "store_writes [] V = V" "store_writes ws (store_writes vs V) = store_writes (vs @ ws) V"
  by (auto simp: store_writes_def)

lemma store_write_poke: "store_write n (store_poke n d V) = store_writes [(n, d)] V"
  by (simp add: store_write_def store_poke_def store_writes_def)

text \<open>The contract between the cache and those who use it.\<close>

locale block_cache =
  fixes ok :: "('b \<rightharpoonup> u32) \<Rightarrow> 's \<Rightarrow> bool" and view :: "'s \<Rightarrow> store" and frame :: "'s \<Rightarrow> 's \<Rightarrow> bool" and nblocks :: "'s \<Rightarrow> u32"
    and nbuf :: nat and rd :: "u32 \<Rightarrow> 's \<Rightarrow> ('b, 's) outcome" and wr :: "'b \<Rightarrow> 's \<Rightarrow> (unit, 's) outcome"
    and rel :: "'b \<Rightarrow> 's \<Rightarrow> (unit, 's) outcome" and peek :: "'s \<Rightarrow> 'b \<Rightarrow> u8 list" and poke :: "'b \<Rightarrow> u8 list \<Rightarrow> 's \<Rightarrow> 's"
    and pin :: "'b \<Rightarrow> 's \<Rightarrow> 's"
  assumes ok_finite: "ok h s \<Longrightarrow> finite (dom h)" "ok h s \<Longrightarrow> finite (st_pins (view s))"
    and frame_refl: "frame s s" and frame_trans: "frame s t \<Longrightarrow> frame t u \<Longrightarrow> frame s u"
    and frame_nblocks: "frame s t \<Longrightarrow> nblocks t = nblocks s"
    and rd: "ok h s \<Longrightarrow> n < nblocks s \<Longrightarrow> n \<notin> ran h \<Longrightarrow> n \<in> st_pins (view s) \<or> card (dom h) + card (st_pins (view s)) < nbuf
      \<Longrightarrow> wp (rd n s) (\<lambda>b t. h b = None \<and> ok (h(b \<mapsto> n)) t \<and> view t = view s \<and> frame s t)"
    and wr: "ok h s \<Longrightarrow> h b = Some n \<Longrightarrow> wp (wr b s) (\<lambda>_ t. ok h t \<and> view t = store_write n (view s) \<and> frame s t)"
    and rel: "ok h s \<Longrightarrow> h b = Some n \<Longrightarrow> n \<in> st_pins (view s) \<or> st_content (view s) n = st_disk (view s) n
      \<Longrightarrow> wp (rel b s) (\<lambda>_ t. ok (h(b := None)) t \<and> view t = view s \<and> frame s t)"
    and peek: "ok h s \<Longrightarrow> h b = Some n \<Longrightarrow> peek s b = st_content (view s) n \<and> length (st_content (view s) n) = BSIZE"
    and poke: "ok h s \<Longrightarrow> h b = Some n \<Longrightarrow> length d = BSIZE
      \<Longrightarrow> ok h (poke b d s) \<and> view (poke b d s) = store_poke n d (view s) \<and> frame s (poke b d s)"
    and pin: "ok h s \<Longrightarrow> h b = Some n \<Longrightarrow> ok h (pin b s) \<and> view (pin b s) = store_pin n (view s) \<and> frame s (pin b s)"
begin

lemma frame_step:
  "wp m (\<lambda>_ v. A v \<and> view v = V \<and> frame u v) \<Longrightarrow> frame s u \<Longrightarrow> V = V' \<Longrightarrow> wp m (\<lambda>_ v. A v \<and> view v = V' \<and> frame s v)"
  by (elim wp_mono) (auto intro: frame_trans)

text \<open>Changing a held buffer and writing it through.\<close>

lemma poke_write:
  assumes "ok h s" and "h b = Some n" and "length d = BSIZE"
  shows "wp (wr b (poke b d s)) (\<lambda>_ t. ok h t \<and> view t = store_writes [(n, d)] (view s) \<and> frame s t)"
proof -
  note p = poke [OF assms]
  show ?thesis
    by (rule wp_mono [OF wr [of h _ b n]]) (use p assms frame_trans in \<open>auto simp: store_write_poke\<close>)
qed

text \<open>Reading a block and giving the buffer back.\<close>

lemma read_release:
  assumes "ok h s" and "n < nblocks s" "n \<notin> ran h" and "n \<in> st_pins (view s) \<or> card (dom h) + card (st_pins (view s)) < nbuf"
    and "n \<in> st_pins (view s) \<or> st_content (view s) n = st_disk (view s) n"
  shows "wp (rd n s) (\<lambda>b t. peek t b = st_content (view s) n \<and> frame s t
     \<and> wp (rel b t) (\<lambda>_ u. ok h u \<and> view u = view s \<and> frame s u))"
proof (rule wp_mono [OF rd [OF assms(1-4)]], intro conjI)
  fix b t
  assume b: "h b = None \<and> ok (h(b \<mapsto> n)) t \<and> view t = view s \<and> frame s t"
  then show "peek t b = st_content (view s) n" "frame s t" using peek [of "h(b \<mapsto> n)" t b n] by simp_all
  have k: "(h(b \<mapsto> n))(b := None) = h" using b by (auto simp: fun_eq_iff)
  have "wp (rel b t) (\<lambda>_ u. ok ((h(b \<mapsto> n))(b := None)) u \<and> view u = view t \<and> frame t u)"
    using b assms(5) by (intro rel) auto
  then show "wp (rel b t) (\<lambda>_ u. ok h u \<and> view u = view s \<and> frame s u)"
    unfolding k by (rule frame_step) (use b in simp_all)
qed

text \<open>Replacing the contents of a block.\<close>

lemma update_block:
  assumes "ok h s" and "n < nblocks s" "n \<notin> ran h" and "n \<in> st_pins (view s) \<or> card (dom h) + card (st_pins (view s)) < nbuf"
    and "\<And>d. length d = BSIZE \<Longrightarrow> length (f d) = BSIZE"
  shows "wp (rd n s) (\<lambda>b t. peek t b = st_content (view s) n \<and> frame s t
     \<and> wp (wr b (poke b (f (peek t b)) t)) (\<lambda>_ u. wp (rel b u)
     (\<lambda>_ v. ok h v \<and> view v = store_writes [(n, f (st_content (view s) n))] (view s) \<and> frame s v)))"
proof (rule wp_mono [OF rd [OF assms(1-4)]], intro conjI)
  fix b t
  assume b: "h b = None \<and> ok (h(b \<mapsto> n)) t \<and> view t = view s \<and> frame s t"
  have p: "peek t b = st_content (view s) n" "length (st_content (view s) n) = BSIZE" using b peek [of "h(b \<mapsto> n)" t b n] by simp_all
  then show "peek t b = st_content (view s) n" "frame s t" using b by simp_all
  have k: "(h(b \<mapsto> n))(b := None) = h" using b by (auto simp: fun_eq_iff)
  have "wp (wr b (poke b (f (peek t b)) t)) (\<lambda>_ u. ok (h(b \<mapsto> n)) u
      \<and> view u = store_writes [(n, f (peek t b))] (view t) \<and> frame t u)"
    using b p assms(5) by (intro poke_write) auto
  then show "wp (wr b (poke b (f (peek t b)) t)) (\<lambda>_ u. wp (rel b u)
     (\<lambda>_ v. ok h v \<and> view v = store_writes [(n, f (st_content (view s) n))] (view s) \<and> frame s v))"
  proof (rule wp_mono)
    fix x u
    assume u: "ok (h(b \<mapsto> n)) u \<and> view u = store_writes [(n, f (peek t b))] (view t) \<and> frame t u"
    then have "wp (rel b u) (\<lambda>_ v. ok ((h(b \<mapsto> n))(b := None)) v \<and> view v = view u \<and> frame u v)"
      by (intro rel) auto
    then show "wp (rel b u) (\<lambda>_ v. ok h v \<and> view v = store_writes [(n, f (st_content (view s) n))] (view s) \<and> frame s v)"
      unfolding k by (rule frame_step) (use b p u in \<open>auto intro: frame_trans\<close>)
  qed
qed

text \<open>Copying block \<open>n\<close> to block \<open>m\<close>, with the buffer of either read first.\<close>

lemma copy_held:
  assumes "ok h s" and b: "h b = Some n" "h b' = Some m" "n \<noteq> m"
    and "n \<in> st_pins (view s) \<or> st_content (view s) n = st_disk (view s) n"
  shows "wp (wr b' (poke b' (peek s b) s)) (\<lambda>_ t. wp (rel b t) (\<lambda>_ u. wp (rel b' u)
    (\<lambda>_ v. ok (h(b := None, b' := None)) v \<and> view v = store_writes [(m, st_content (view s) n)] (view s) \<and> frame s v)))"
proof -
  have bb: "b \<noteq> b'" using b by auto
  have p: "peek s b = st_content (view s) n" "length (st_content (view s) n) = BSIZE" using peek [OF assms(1,2)] by simp_all
  have "wp (wr b' (poke b' (peek s b) s)) (\<lambda>_ t. ok h t \<and> view t = store_writes [(m, st_content (view s) n)] (view s) \<and> frame s t)"
    unfolding p(1) by (rule poke_write [OF assms(1) b(2) p(2)])
  then show ?thesis
  proof (rule wp_mono)
    fix x t
    assume t: "ok h t \<and> view t = store_writes [(m, st_content (view s) n)] (view s) \<and> frame s t"
    have "wp (rel b t) (\<lambda>_ u. ok (h(b := None)) u \<and> view u = view t \<and> frame t u)"
      using t b assms(5) by (intro rel) auto
    then show "wp (rel b t) (\<lambda>_ u. wp (rel b' u) (\<lambda>_ v. ok (h(b := None, b' := None)) v
        \<and> view v = store_writes [(m, st_content (view s) n)] (view s) \<and> frame s v))"
    proof (rule wp_mono)
      fix x u
      assume u: "ok (h(b := None)) u \<and> view u = view t \<and> frame t u"
      have "wp (rel b' u) (\<lambda>_ v. ok (h(b := None, b' := None)) v \<and> view v = view u \<and> frame u v)"
        using u t b bb by (intro rel [of _ _ _ m]) auto
      then show "wp (rel b' u) (\<lambda>_ v. ok (h(b := None, b' := None)) v
          \<and> view v = store_writes [(m, st_content (view s) n)] (view s) \<and> frame s v)"
        by (rule frame_step) (use t u in \<open>auto intro: frame_trans\<close>)
    qed
  qed
qed

lemma read_two:
  assumes "ok Map.empty s" and "n < nblocks s" "m < nblocks s" "n \<noteq> m" and "card (st_pins (view s)) < nbuf" and "m \<in> st_pins (view s) \<or> card (st_pins (view s)) + 2 \<le> nbuf"
  shows "wp (rd n s) (\<lambda>b t. frame s t \<and> wp (rd m t) (\<lambda>b' u. b \<noteq> b' \<and> ok [b \<mapsto> n, b' \<mapsto> m] u \<and> view u = view s \<and> frame s u))"
proof -
  have "wp (rd n s) (\<lambda>b t. ok [b \<mapsto> n] t \<and> view t = view s \<and> frame s t)"
    using assms by (intro wp_mono [OF rd [of Map.empty s n]]) auto
  then show ?thesis
  proof (rule wp_mono)
    fix b t
    assume t: "ok [b \<mapsto> n] t \<and> view t = view s \<and> frame s t"
    have "wp (rd m t) (\<lambda>b' u. [b \<mapsto> n] b' = None \<and> ok [b \<mapsto> n, b' \<mapsto> m] u \<and> view u = view t \<and> frame t u)"
      using t assms(2-5) assms(6) [folded less_eq_Suc_le] frame_nblocks [of s t] rd [of "[b \<mapsto> n]" t m] by auto
    then have "wp (rd m t) (\<lambda>b' u. b \<noteq> b' \<and> ok [b \<mapsto> n, b' \<mapsto> m] u \<and> view u = view s \<and> frame s u)"
    proof (rule wp_mono)
      fix b' u
      assume "[b \<mapsto> n] b' = None \<and> ok [b \<mapsto> n, b' \<mapsto> m] u \<and> view u = view t \<and> frame t u"
      then show "b \<noteq> b' \<and> ok [b \<mapsto> n, b' \<mapsto> m] u \<and> view u = view s \<and> frame s u"
        using t frame_trans [of s t u] by (auto split: if_splits)
    qed
    with t show "frame s t \<and> wp (rd m t) (\<lambda>b' u. b \<noteq> b' \<and> ok [b \<mapsto> n, b' \<mapsto> m] u \<and> view u = view s \<and> frame s u)" by simp
  qed
qed

lemma copy_read:
  assumes "ok [b \<mapsto> n, b' \<mapsto> m] u" "b \<noteq> b'" "n \<noteq> m" "view u = view s" "frame s u"
    and "n \<in> st_pins (view s) \<or> st_content (view s) n = st_disk (view s) n"
  shows "wp (wr b' (poke b' (peek u b) u)) (\<lambda>_ t. wp (rel b t) (\<lambda>_ u. wp (rel b' u)
    (\<lambda>_ v. ok Map.empty v \<and> view v = store_writes [(m, st_content (view s) n)] (view s) \<and> frame s v)))"
proof -
  have "[b \<mapsto> n, b' \<mapsto> m](b := None, b' := None) = Map.empty" by (auto simp: fun_eq_iff)
  then show ?thesis
    using copy_held [OF assms(1), of b n b' m] assms by (auto intro: frame_trans elim!: wp_mono)
qed

lemma copy_from:
  assumes "ok Map.empty s" and "n < nblocks s" "m < nblocks s" "n \<noteq> m" and "card (st_pins (view s)) < nbuf"
    and "m \<in> st_pins (view s) \<or> card (st_pins (view s)) + 2 \<le> nbuf"
    and "n \<in> st_pins (view s) \<or> st_content (view s) n = st_disk (view s) n"
  shows "wp (rd n s) (\<lambda>b t. frame s t \<and> wp (rd m t) (\<lambda>b' u. frame s u \<and>
      wp (wr b' (poke b' (peek u b) u)) (\<lambda>_ t. wp (rel b t) (\<lambda>_ u. wp (rel b' u)
      (\<lambda>_ v. ok Map.empty v \<and> view v = store_writes [(m, st_content (view s) n)] (view s) \<and> frame s v)))))"
  by (rule wp_mono [OF read_two [OF assms(1-6)]]) (auto intro!: copy_read assms(4,7) elim!: wp_mono)

lemma copy_to:
  assumes "ok Map.empty s" and "n < nblocks s" "m < nblocks s" "n \<noteq> m" and "card (st_pins (view s)) < nbuf"
    and "n \<in> st_pins (view s) \<or> card (st_pins (view s)) + 2 \<le> nbuf"
    and "n \<in> st_pins (view s) \<or> st_content (view s) n = st_disk (view s) n"
  shows "wp (rd m s) (\<lambda>b' t. frame s t \<and> wp (rd n t) (\<lambda>b u. frame s u \<and>
      wp (wr b' (poke b' (peek u b) u)) (\<lambda>_ t. wp (rel b t) (\<lambda>_ u. wp (rel b' u)
      (\<lambda>_ v. ok Map.empty v \<and> view v = store_writes [(m, st_content (view s) n)] (view s) \<and> frame s v)))))"
proof -
  have s: "[b' \<mapsto> m, b \<mapsto> n] = [b \<mapsto> n, b' \<mapsto> m]" if "b \<noteq> b'" for b b' using that by (intro fun_upd_twist) simp
  show ?thesis
    by (rule wp_mono [OF read_two [OF assms(1,3,2) assms(4) [symmetric] assms(5,6)]])
      (auto intro!: copy_read assms(4,7) simp: s elim!: wp_mono)
qed

text \<open>A loop each of whose rounds writes one block.\<close>

lemma writes_loop:
  assumes "ok h s" and "\<And>ds i todo t. is = ds @ i # todo \<Longrightarrow> ok h t \<Longrightarrow> view t = store_writes (map w ds) (view s) \<Longrightarrow> frame s t
    \<Longrightarrow> wp (f i t) (\<lambda>_ u. ok h u \<and> view u = store_writes [w i] (view t) \<and> frame t u)"
  shows "wp (for_each f is s) (\<lambda>_ t. ok h t \<and> view t = store_writes (map w is) (view s) \<and> frame s t)"
proof (rule for_each_wp [where I = "\<lambda>ds t. ok h t \<and> view t = store_writes (map w ds) (view s) \<and> frame s t"])
  show "ok h s \<and> view s = store_writes (map w []) (view s) \<and> frame s s" using assms(1) frame_refl by simp
next
  fix ds i todo t
  assume i: "is = ds @ i # todo" and t: "ok h t \<and> view t = store_writes (map w ds) (view s) \<and> frame s t"
  from assms(2) [OF i] t have "wp (f i t) (\<lambda>_ u. ok h u \<and> view u = store_writes [w i] (view t) \<and> frame t u)" by blast
  then show "wp (f i t) (\<lambda>_ u. ok h u \<and> view u = store_writes (map w (ds @ [i])) (view s) \<and> frame s u)"
    by (rule frame_step) (use t in simp_all)
qed

end

text \<open>\<open>bio.c\<close> over the disk provides it.\<close>

definition store_of :: "'a biost_scheme \<Rightarrow> store" where
  "store_of s = \<lparr>st_content = content s, st_pins = pinned s, st_disk = disk s, st_trace = disk_writes s\<rparr>"

definition set_data :: "nat \<Rightarrow> u8 list \<Rightarrow> 'a biost_scheme \<Rightarrow> 'a biost_scheme" where
  "set_data b d = upd_buf b (\<lambda>x. x\<lparr>b_data := d\<rparr>)"

definition set_dirty :: "nat \<Rightarrow> 'a biost_scheme \<Rightarrow> 'a biost_scheme" where
  "set_dirty b = upd_buf b (\<lambda>x. x\<lparr>b_flags := b_flags x OR B_DIRTY\<rparr>)"

lemma upd_buf_store: "disk (upd_buf b f s) = disk s" "disk_writes (upd_buf b f s) = disk_writes s" "bio_frame s (upd_buf b f s)"
  by (simp_all add: upd_buf_def)

interpretation bc: block_cache "bio_ok c p" store_of bio_frame disksize NBUF "bread 1" bwrite brelse "\<lambda>s b. b_data (bufs s b)"
  set_data set_dirty for c p
proof
  show "finite (dom h)" if "bio_ok c p h s" for h s
    using that finite_subset [of "dom h" "{..<NBUF}"] by (simp add: bio_ok_def cache_ok_def)
  show "finite (st_pins (store_of s))" for s by (simp add: store_of_def pinned_def)
  show "bio_frame s s" for s by simp
  show "bio_frame s u" if "bio_frame s t" "bio_frame t u" for s t u by (rule bio_frame_trans [OF that])
  show "disksize t = disksize s" if "bio_frame s t" for s t by (rule bio_frameD [OF that])
  show "wp (bread 1 n s) (\<lambda>b t. h b = None \<and> bio_ok c p (h(b \<mapsto> n)) t \<and> store_of t = store_of s \<and> bio_frame s t)"
    if "bio_ok c p h s" "n < disksize s" "n \<notin> ran h" "n \<in> st_pins (store_of s) \<or> card (dom h) + card (st_pins (store_of s)) < NBUF" for h s n
    using bread_wp [OF that(1-3)] that(4) by (auto simp: store_of_def bread_post_def same_store_def elim!: wp_mono)
  show "wp (bwrite b s) (\<lambda>_ t. bio_ok c p h t \<and> store_of t = store_write n (store_of s) \<and> bio_frame s t)"
    if "bio_ok c p h s" "h b = Some n" for h s b n
    using bwrite_wp [OF that] by (auto simp: store_of_def store_write_def elim!: wp_mono)
  show "wp (brelse b s) (\<lambda>_ t. bio_ok c p (h(b := None)) t \<and> store_of t = store_of s \<and> bio_frame s t)"
    if "bio_ok c p h s" "h b = Some n" "n \<in> st_pins (store_of s) \<or> st_content (store_of s) n = st_disk (store_of s) n" for h s b n
    using brelse_wp [OF that(1,2)] that(3) by (auto simp: store_of_def same_store_def elim!: wp_mono)
  show "b_data (bufs s b) = st_content (store_of s) n \<and> length (st_content (store_of s) n) = BSIZE"
    if "bio_ok c p h s" "h b = Some n" for h s b n
    using held_peek [OF that] by (simp add: store_of_def)
  show "bio_ok c p h (set_data b d s) \<and> store_of (set_data b d s) = store_poke n d (store_of s) \<and> bio_frame s (set_data b d s)"
    if "bio_ok c p h s" "h b = Some n" "length d = BSIZE" for h s b n d
    using poke_held [OF that] by (simp add: store_of_def set_data_def store_poke_def upd_buf_store)
  show "bio_ok c p h (set_dirty b s) \<and> store_of (set_dirty b s) = store_pin n (store_of s) \<and> bio_frame s (set_dirty b s)"
    if "bio_ok c p h s" "h b = Some n" for h s b n
    using pin_held [OF that] by (simp add: store_of_def set_dirty_def store_pin_def upd_buf_store)
qed

section \<open>The initial cache\<close>

lemma binit_body:
  "(let s = upd_buf b (b_next_update (\<lambda>_. b_next (bufs s NBUF))) s;
        s = upd_buf b (b_prev_update (\<lambda>_. NBUF)) s;
        s = initsleeplock (BufSL b) s;
        s = upd_buf (b_next (bufs s NBUF)) (b_prev_update (\<lambda>_. b)) s
    in Ret () (upd_buf NBUF (b_next_update (\<lambda>_. b)) s))
   = Ret () ((initsleeplock (BufSL b) s)\<lparr>bufs := hook b (bufs s)\<rparr>)"
  unfolding hook_def upd_buf_def Let_def initsleeplock_def upd_sleeplk_def initlock_def by simp

lemma initsleeplock_fields [simp]:
  "bufs (initsleeplock i s) = bufs s" "disk (initsleeplock i s) = disk s" "disksize (initsleeplock i s) = disksize s"
  "sleeplks (initsleeplock i s) = (sleeplks s)(i := \<lparr>sl_locked = False, sl_pid = 0\<rparr>)"
  by (simp_all add: initsleeplock_def Let_def initlock_def upd_sleeplk_def)

definition zeroed :: "buf \<Rightarrow> bool" where
  "zeroed x \<longleftrightarrow> b_flags x = 0 \<and> b_dev x = 0 \<and> b_refcnt x = 0 \<and> length (b_data x) = BSIZE"

lemma zeroed_cache:
  assumes "ring (bufs s) L" and "\<And>n. length (disk s n) = BSIZE"
    and "\<And>b. b < NBUF \<Longrightarrow> zeroed (bufs s b) \<and> \<not> sl_locked (sleeplks s (BufSL b))"
  shows "cache_ok pid Map.empty s" "content s = disk s" "pinned s = {}"
proof -
  have n: "\<not> caches s b n" for b n using assms(3) [of b] by (auto simp: caches_def zeroed_def)
  then show "cache_ok pid Map.empty s"
    using assms by (auto simp: cache_ok_def buf_ok_def zeroed_def dirty_def)
  show "content s = disk s" using content_uncached n by blast
  show "pinned s = {}" using assms(3) by (auto simp: pinned_def zeroed_def dirty_def)
qed

lemma binit_wp:
  assumes "\<And>b. b < NBUF \<Longrightarrow> zeroed (bufs s b)" and "\<And>n. length (disk s n) = BSIZE"
  shows "wp (binit s) (\<lambda>_ t. ring (bufs t) (rev [0..<NBUF]) \<and> disk t = disk s \<and> disksize t = disksize s
    \<and> cache_ok pid Map.empty t \<and> content t = disk t \<and> pinned t = {})"
proof -
  let ?I = "\<lambda>ds t. dseg (bufs t) NBUF (rev ds) NBUF \<and> disk t = disk s \<and> disksize t = disksize s
    \<and> (\<forall>b < NBUF. sans_links (bufs t b) = sans_links (bufs s b)) \<and> (\<forall>b \<in> set ds. \<not> sl_locked (sleeplks t (BufSL b)))"
  have "wp (binit s) (\<lambda>_ t. ?I [0..<NBUF] t)"
    unfolding binit_def binit_body unfolding Let_def
  proof (rule for_each_wp [where I = ?I])
    show "?I [] (upd_buf NBUF (b_next_update (\<lambda>_. NBUF)) (upd_buf NBUF (b_prev_update (\<lambda>_. NBUF)) (initlock BcacheLock s)))"
      by (simp add: upd_buf_def initlock_def)
  next
    fix ds b todo t
    assume b: "[0..<NBUF] = ds @ b # todo" and t: "?I ds t"
    have d: "distinct (ds @ b # todo)" "set (ds @ b # todo) = {0..<NBUF}" unfolding b [symmetric] by simp_all
    then have "b \<notin> set (rev ds)" "b \<noteq> NBUF" "NBUF \<notin> set (rev ds)" "distinct (rev ds)" by auto
    then have "dseg (hook b (bufs t)) NBUF (b # rev ds) NBUF" using t by (intro hook_dseg) simp_all
    then have "?I (ds @ [b]) ((initsleeplock (BufSL b) t)\<lparr>bufs := hook b (bufs t)\<rparr>)"
      using t by (simp add: hook_sans)
    then show "wp (Ret () ((initsleeplock (BufSL b) t)\<lparr>bufs := hook b (bufs t)\<rparr>)) (\<lambda>_ t. ?I (ds @ [b]) t)" by simp
  qed
  then show ?thesis
  proof (rule wp_mono)
    fix x t
    assume t: "?I [0..<NBUF] t"
    have z: "zeroed (bufs t b) \<and> \<not> sl_locked (sleeplks t (BufSL b))" if "b < NBUF" for b
    proof -
      have "sans_links (bufs t b) = sans_links (bufs s b)" using t that by blast
      from sans_linksD [OF this] show ?thesis using t assms(1) [OF that] that by (simp add: zeroed_def)
    qed
    have "set (rev [0..<NBUF]) = {..<NBUF}" by auto
    then have r: "ring (bufs t) (rev [0..<NBUF])" using t by (simp add: ring_def)
    have "\<And>n. length (disk t n) = BSIZE" using t assms(2) by simp
    from zeroed_cache [OF r this z] r t show "ring (bufs t) (rev [0..<NBUF]) \<and> disk t = disk s \<and> disksize t = disksize s
      \<and> cache_ok pid Map.empty t \<and> content t = disk t \<and> pinned t = {}" by blast
  qed
qed

lemma pinned_finite: "finite (pinned s)" "card (pinned s) \<le> NBUF"
proof -
  have s: "pinned s \<subseteq> (\<lambda>b. b_blockno (bufs s b)) ` {..<NBUF}" by (auto simp: pinned_def)
  then show "finite (pinned s)" by (rule finite_subset) simp
  have "card (pinned s) \<le> card ((\<lambda>b. b_blockno (bufs s b)) ` {..<NBUF})" by (rule card_mono [OF _ s]) simp
  also have "\<dots> \<le> card {..<NBUF}" by (rule card_image_le) simp
  finally show "card (pinned s) \<le> NBUF" by simp
qed

section \<open>Which buffer is taken\<close>

lemma brelse_ring:
  assumes ok: "bio_ok c p h s" and h: "h b = Some n" and L: "ring (bufs s) L"
  shows "wp (brelse b s) (\<lambda>_ t. ring (bufs t) (b # remove1 b L))"
proof -
  have C: "cache_ok (p_pid (procs s p)) h s" and q: "quiet c p s" using ok by (simp_all add: bio_ok_def)
  have b: "b < NBUF" using cache_okD(2) [OF C h] by (simp add: caches_def)
  have "wp (releasesleep (BufSL b) s) (\<lambda>_ t. quiet c p t \<and> sched_eq (set_sleep (BufSL b) False 0 s) t)"
    by (rule wp_mono [OF releasesleep_wp [OF q]]) (simp add: woken_def)
  then obtain t where t: "releasesleep (BufSL b) s = Ret () t" "quiet c p t" "sched_eq (set_sleep (BufSL b) False 0 s) t"
    by (auto simp: wp_Ret_iff)
  have e: "bufs t = bufs s" using sched_eq_bufs [OF t(3)] by (simp add: set_sleep_def)
  have "ring ((bufs s)(b := (bufs s b)\<lparr>b_refcnt := 0\<rparr>)) L" using L by (simp add: ring_same_links)
  then show ?thesis
    using t e bcache_release [OF t(2)] cache_okD(3) [OF C h] holdingsleep_eq [OF q, of "BufSL b"] relink_ring [OF _ b]
    by (simp add: brelse_eq)
qed

lemma bget_oldest:
  assumes ok: "bio_ok c p h s" and L: "ring (bufs s) L" and "\<And>b. \<not> caches s b n"
    and b: "find (\<lambda>b. h b = None \<and> \<not> dirty (bufs s b)) (rev L) = Some b"
  shows "wp (bget 1 n s) (\<lambda>b' _. b' = b)"
proof -
  have C: "cache_ok (p_pid (procs s p)) h s" and q: "quiet c p s" using ok by (simp_all add: bio_ok_def)
  have sL: "set L = {..<NBUF}" using L by (simp add: ring_def)
  have "find (\<lambda>b. b_refcnt (bufs s b) = 0 \<and> \<not> dirty (bufs s b)) (rev L) = find (\<lambda>b. h b = None \<and> \<not> dirty (bufs s b)) (rev L)"
  proof (rule find_cong)
    fix x assume "x \<in> set (rev L)"
    then have "x < NBUF" using sL by auto
    then have "b_refcnt (bufs s x) = 0 \<longleftrightarrow> h x = None" using cache_okD(11) [OF C] by (simp add: buf_ok_def)
    then show "(b_refcnt (bufs s x) = 0 \<and> \<not> dirty (bufs s x)) = (h x = None \<and> \<not> dirty (bufs s x))" by simp
  qed simp
  then have F: "find (\<lambda>b. b_refcnt (bufs s b) = 0 \<and> \<not> dirty (bufs s b)) (rev L) = Some b" using b by simp
  have "find (\<lambda>b. b_dev (bufs s b) = 1 \<and> b_blockno (bufs s b) = n) L = None"
    using assms(3) sL by (auto simp: find_None_iff caches_def)
  moreover have "b < NBUF" "h b = None" using find_SomeD [OF b] sL by auto
  ultimately show ?thesis using bget_miss [OF q L _ F] cache_okD(7) [OF C] by simp
qed

section \<open>A concrete machine\<close>

definition demo_bufs :: "nat \<Rightarrow> buf" where
  "demo_bufs b = \<lparr>b_flags = 0, b_dev = 0, b_blockno = 0, b_refcnt = 0, b_prev = (if b = NBUF then 0 else Suc b),
     b_next = (if b = 0 then NBUF else b - 1), b_qnext = None, b_data = replicate BSIZE 0\<rparr>"

definition demo_bio :: biost where
  "demo_bio = slst.extend (ptab.extend run_ptab \<lparr>sleeplks = (\<lambda>_. \<lparr>sl_locked = False, sl_pid = 0\<rparr>)\<rparr>)
     \<lparr>bufs = demo_bufs, disk = (\<lambda>_. replicate BSIZE 0), disksize = 100, disk_writes = []\<rparr>"

lemma demo_bio_simps [simp]:
  "bufs demo_bio = demo_bufs" "disk demo_bio = (\<lambda>_. replicate BSIZE 0)" "disksize demo_bio = 100"
  "sleeplks demo_bio = (\<lambda>_. \<lparr>sl_locked = False, sl_pid = 0\<rparr>)"
  by (simp_all add: demo_bio_def slst.defs ptab.defs)

lemma demo_ring:
  assumes "\<And>b. b_prev (f b) = b_prev (demo_bufs b)" "\<And>b. b_next (f b) = b_next (demo_bufs b)"
  shows "ring f (rev [0..<NBUF])"
proof -
  have "dseg demo_bufs k (rev [0..<k]) NBUF" if "k \<le> NBUF" for k
    using that by (induction k) (simp_all add: demo_bufs_def)
  then have "dseg demo_bufs NBUF (rev [0..<NBUF]) NBUF" by blast
  then have "ring demo_bufs (rev [0..<NBUF])" by (auto simp: ring_def)
  then show ?thesis using ring_cong [of f demo_bufs] assms by simp
qed

lemma quiet_demo_bio: "quiet 0 0 demo_bio"
  by (rule quietI) (simp_all add: demo_bio_def slst.defs ptab.defs)

lemma demo_bio_ok: "bio_ok 0 0 Map.empty demo_bio" "content demo_bio = disk demo_bio" "pinned demo_bio = {}"
proof -
  have r: "ring (bufs demo_bio) (rev [0..<NBUF])" by (rule demo_ring) simp_all
  have z: "zeroed (bufs demo_bio b) \<and> \<not> sl_locked (sleeplks demo_bio (BufSL b))" for b
    by (simp add: zeroed_def demo_bufs_def)
  have d: "length (disk demo_bio n) = BSIZE" for n by simp
  show "bio_ok 0 0 Map.empty demo_bio" "content demo_bio = disk demo_bio" "pinned demo_bio = {}"
    using zeroed_cache [OF r d z] quiet_demo_bio by (simp_all add: bio_ok_def)
qed

text \<open>A machine whose buffers all hold blocks that the disk does not have yet.\<close>

definition full_bio :: biost where
  "full_bio = demo_bio\<lparr>bufs := (\<lambda>b. (demo_bufs b)\<lparr>b_flags := B_VALID OR B_DIRTY, b_dev := 1, b_blockno := of_nat b\<rparr>)\<rparr>"

section \<open>Properties\<close>

text \<open>\<open>binit\<close> on the zeroed buffers of a freshly loaded kernel links all buffers into the list and establishes
  the invariant of the cache: no buffer is held, nothing is pinned, and the blocks are those of the disk.\<close>

theorem binit_correct:
  assumes "\<And>b. b < NBUF \<Longrightarrow> zeroed (bufs s b)" and "\<And>n. length (disk s n) = BSIZE"
  shows "wp (binit s) (\<lambda>_ t. cache_ok pid Map.empty t \<and> ring (bufs t) (rev [0..<NBUF]) \<and> disk t = disk s
    \<and> content t = disk s \<and> pinned t = {})"
  by (rule wp_mono [OF binit_wp [OF assms]]) auto

theorem binit_correct_witness:
  "wp (binit demo_bio) (\<lambda>_ t. cache_ok 1 Map.empty t \<and> ring (bufs t) (rev [0..<NBUF]) \<and> disk t = disk demo_bio
    \<and> content t = disk demo_bio \<and> pinned t = {})"
  by (rule binit_correct) (simp_all add: zeroed_def demo_bufs_def)

text \<open>C23: \<open>bread\<close> of a block on the disk that the process does not hold yet, while a buffer can be had for it,
  returns a buffer that was not in use, now locked by the process, with the current contents of the block: those
  in the cache if it is there and those on the disk otherwise. No block changes, the pinned ones included.\<close>

theorem bread_correct:
  assumes "bio_ok c p h s" and "n < disksize s" and "n \<notin> ran h"
    and "n \<in> pinned s \<or> card (dom h) + card (pinned s) < NBUF"
  shows "wp (bread 1 n s) (\<lambda>b t. h b = None \<and> bio_ok c p (h(b \<mapsto> n)) t \<and> sl_locked (sleeplks t (BufSL b))
    \<and> b_data (bufs t b) = content s n \<and> same_store s t)"
proof (rule wp_mono [OF bread_wp [OF assms]])
  fix b t
  assume t: "bread_post c p h n s b t"
  then have ok: "bio_ok c p (h(b \<mapsto> n)) t" and "content t = content s" by (simp_all add: bread_post_def same_store_def)
  then have "b_data (bufs t b) = content s n" using held_peek [OF ok, of b n] by simp
  moreover have "sl_locked (sleeplks t (BufSL b))"
    using ok cache_okD(3) [of _ "h(b \<mapsto> n)" t b n] by (auto simp: bio_ok_def)
  ultimately show "h b = None \<and> bio_ok c p (h(b \<mapsto> n)) t \<and> sl_locked (sleeplks t (BufSL b))
    \<and> b_data (bufs t b) = content s n \<and> same_store s t"
    using t by (simp add: bread_post_def)
qed

theorem bread_correct_witness:
  "bio_ok 0 0 Map.empty demo_bio \<and> (7 :: u32) < disksize demo_bio
   \<and> wp (bread 1 7 demo_bio) (\<lambda>b t. b_data (bufs t b) = replicate BSIZE 0 \<and> same_store demo_bio t)"
proof -
  have "wp (bread 1 7 demo_bio) (\<lambda>b t. b_data (bufs t b) = replicate BSIZE 0 \<and> same_store demo_bio t)"
    by (rule wp_mono [OF bread_correct [OF demo_bio_ok(1), of 7]]) (simp_all add: demo_bio_ok NBUF_def)
  then show ?thesis by (simp add: demo_bio_ok)
qed

text \<open>C24: what is written to a block through the cache is on the disk when \<open>bwrite\<close> returns, and the next
  \<open>bread\<close> of the block gives it back; the other blocks keep their contents.\<close>

theorem block_write_read:
  assumes "bio_ok c p Map.empty s" and "n < disksize s" and "n \<in> pinned s \<or> card (pinned s) < NBUF" and "length d = BSIZE"
  shows "wp (then_do (bread 1 n s) (\<lambda>b s. then_do (bwrite b (upd_buf b (\<lambda>x. x\<lparr>b_data := d\<rparr>) s)) (\<lambda>_ s.
      then_do (brelse b s) (\<lambda>_ s. bread 1 n s))))
    (\<lambda>b t. b_data (bufs t b) = d \<and> disk t = (disk s)(n := d) \<and> content t = (content s)(n := d))"
proof -
  have r: "card (pinned s) < NBUF \<or> n \<in> pinned s" using assms(3) by blast
  have "wp (bread 1 n v) (\<lambda>b t. b_data (bufs t b) = d \<and> disk t = (disk s)(n := d) \<and> content t = (content s)(n := d))"
    if ok: "bio_ok c p Map.empty v" and v: "store_of v = store_writes [(n, d)] (store_of s)" and f: "bio_frame s v" for v
  proof -
    have e: "content v = (content s)(n := d)" "disk v = (disk s)(n := d)" "pinned v = pinned s - {n}"
      using v by (simp_all add: store_of_def store_writes_def)
    have "card (pinned s - {n}) < NBUF"
    proof (cases "n \<in> pinned s")
      case True
      then have "card (pinned s - {n}) < card (pinned s)" using pinned_finite(1) by (intro card_Diff1_less) simp_all
      then show ?thesis using pinned_finite(2) [of s] by simp
    qed (use r in simp)
    then show ?thesis
      using bread_wp [OF ok, of n] assms(2) bio_frameD(2) [OF f] e held_peek(1)
      by (fastforce simp: bread_post_def same_store_def elim!: wp_mono)
  qed
  then show ?thesis
    using bc.update_block [OF assms(1,2), where f = "\<lambda>_. d"] assms(3,4)
    by (auto simp: set_data_def store_of_def elim!: wp_mono)
qed

theorem block_write_read_witness:
  "bio_ok 0 0 Map.empty demo_bio \<and>
   wp (then_do (bread 1 7 demo_bio) (\<lambda>b s. then_do (bwrite b (upd_buf b (\<lambda>x. x\<lparr>b_data := replicate BSIZE 3\<rparr>) s)) (\<lambda>_ s.
      then_do (brelse b s) (\<lambda>_ s. bread 1 7 s))))
    (\<lambda>b t. b_data (bufs t b) = replicate BSIZE 3 \<and> disk t 7 = replicate BSIZE 3 \<and> disk t 8 = replicate BSIZE 0)"
proof -
  have "wp (then_do (bread 1 7 demo_bio) (\<lambda>b s. then_do (bwrite b (upd_buf b (\<lambda>x. x\<lparr>b_data := replicate BSIZE 3\<rparr>) s)) (\<lambda>_ s.
      then_do (brelse b s) (\<lambda>_ s. bread 1 7 s))))
    (\<lambda>b t. b_data (bufs t b) = replicate BSIZE 3 \<and> disk t 7 = replicate BSIZE 3 \<and> disk t 8 = replicate BSIZE 0)"
    by (rule wp_mono [OF block_write_read [OF demo_bio_ok(1)]]) (simp_all add: demo_bio_ok NBUF_def)
  then show ?thesis by (simp add: demo_bio_ok)
qed

text \<open>C25: the cache replaces the least recently used block. \<open>brelse\<close> moves the buffer to the front of the list;
  for a block that is not in the cache \<open>bget\<close> takes, counted from the other end of the list, the first buffer
  that is neither held nor dirty.\<close>

theorem cache_lru:
  assumes "bio_ok c p h s" and "ring (bufs s) L"
  shows "(h b = Some n \<longrightarrow> wp (brelse b s) (\<lambda>_ t. ring (bufs t) (b # remove1 b L)))
    \<and> ((\<forall>x. \<not> caches s x m) \<longrightarrow> find (\<lambda>x. h x = None \<and> \<not> dirty (bufs s x)) (rev L) = Some b
        \<longrightarrow> wp (bget 1 m s) (\<lambda>x _. x = b))"
  using brelse_ring [OF assms(1) _ assms(2)] bget_oldest [OF assms] by blast

theorem cache_lru_witness:
  "bio_ok 0 0 Map.empty demo_bio \<and> ring (bufs demo_bio) (rev [0..<NBUF]) \<and> wp (bget 1 5 demo_bio) (\<lambda>x _. x = 0)"
proof -
  have r: "ring (bufs demo_bio) (rev [0..<NBUF])" by (rule demo_ring) simp_all
  have "find (\<lambda>x. (Map.empty :: nat \<rightharpoonup> u32) x = None \<and> \<not> dirty (bufs demo_bio x)) (rev (rev [0..<NBUF])) = Some 0"
    by (simp add: NBUF_def upt_conv_Cons demo_bufs_def dirty_def)
  moreover have "\<forall>x. \<not> caches demo_bio x 5" by (simp add: caches_def demo_bufs_def)
  ultimately have "wp (bget 1 5 demo_bio) (\<lambda>x _. x = 0)"
    using cache_lru [OF demo_bio_ok(1) r, of 0 0 5] by blast
  with r show ?thesis by (simp add: demo_bio_ok)
qed

text \<open>when every buffer is held or dirty, reading a block that is not in the cache stops the kernel.\<close>

theorem bread_exhausted:
  assumes "quiet c p s" and "ring (bufs s) L" and "\<forall>b. \<not> caches s b n"
    and "\<forall>b < NBUF. b_refcnt (bufs s b) \<noteq> 0 \<or> dirty (bufs s b)"
  shows "bread 1 n s = Panic ''bget: no buffers''"
  using bread_no_buffers [OF assms(1,2)] assms(3,4) by blast

theorem bread_exhausted_witness:
  "quiet 0 0 full_bio \<and> ring (bufs full_bio) (rev [0..<NBUF]) \<and> bread 1 50 full_bio = Panic ''bget: no buffers''"
proof -
  have q: "quiet 0 0 full_bio" using quiet_demo_bio by (simp add: full_bio_def)
  have r: "ring (bufs full_bio) (rev [0..<NBUF])" by (rule demo_ring) (simp_all add: full_bio_def)
  have "\<not> caches full_bio b 50" for b
    by (auto simp: caches_def full_bio_def NBUF_def word_unat_eq_iff unat_of_nat)
  moreover have "dirty (bufs full_bio b)" for b
    using bit_2_4(2) [of 2] by (simp add: full_bio_def dirty_def B_DIRTY_def bit_or_iff)
  ultimately have "bread 1 50 full_bio = Panic ''bget: no buffers''" by (intro bread_exhausted [OF q r]) simp_all
  with q r show ?thesis by blast
qed

end
