(* ===== verification/Bytes.thy ===== *)
theory Bytes
  imports Machine
begin

text \<open>
  Structures inside a block of bytes. The kernel casts the data of a buffer to a pointer to a structure;
  here the 16- and 32-bit fields of such a structure are read and written by their byte offset, in the
  little-endian order of the machine. A field that has been written reads back, and the fields beside it
  are unchanged.
\<close>

definition get16 :: "u8 list \<Rightarrow> nat \<Rightarrow> u16" where
  "get16 xs i = ucast (xs ! i) OR push_bit 8 (ucast (xs ! (i + 1)))"

definition get32 :: "u8 list \<Rightarrow> nat \<Rightarrow> u32" where
  "get32 xs i = ucast (xs ! i) OR push_bit 8 (ucast (xs ! (i + 1)))
     OR push_bit 16 (ucast (xs ! (i + 2))) OR push_bit 24 (ucast (xs ! (i + 3)))"

definition bytes16 :: "u16 \<Rightarrow> u8 list" where
  "bytes16 v = [ucast v, ucast (drop_bit 8 v)]"

definition bytes32 :: "u32 \<Rightarrow> u8 list" where
  "bytes32 v = [ucast v, ucast (drop_bit 8 v), ucast (drop_bit 16 v), ucast (drop_bit 24 v)]"

text \<open>\<open>patch xs i ys\<close>: the bytes \<open>ys\<close> stored in \<open>xs\<close> from offset \<open>i\<close> on.\<close>

definition patch :: "u8 list \<Rightarrow> nat \<Rightarrow> u8 list \<Rightarrow> u8 list" where
  "patch xs i ys = take i xs @ ys @ drop (i + length ys) xs"

definition put16 :: "u8 list \<Rightarrow> nat \<Rightarrow> u16 \<Rightarrow> u8 list" where
  "put16 xs i v = patch xs i (bytes16 v)"

definition put32 :: "u8 list \<Rightarrow> nat \<Rightarrow> u32 \<Rightarrow> u8 list" where
  "put32 xs i v = patch xs i (bytes32 v)"

section \<open>Reading and writing fields\<close>

lemma length_bytes [simp]: "length (bytes16 v) = 2" "length (bytes32 w) = 4"
  by (simp_all add: bytes16_def bytes32_def)

lemma length_patch [simp]: "i + length ys \<le> length xs \<Longrightarrow> length (patch xs i ys) = length xs"
  by (simp add: patch_def)

lemma length_put [simp]:
  "i + 2 \<le> length xs \<Longrightarrow> length (put16 xs i v) = length xs"
  "i + 4 \<le> length xs \<Longrightarrow> length (put32 xs i w) = length xs"
  by (simp_all add: put16_def put32_def)

lemma nth_patch:
  assumes "i + length ys \<le> length xs" and "j < length xs"
  shows "patch xs i ys ! j = (if i \<le> j \<and> j < i + length ys then ys ! (j - i) else xs ! j)"
  using assms by (auto simp: patch_def nth_append)

lemma get32_bytes: "ys ! 0 = ucast v \<Longrightarrow> ys ! 1 = ucast (drop_bit 8 v) \<Longrightarrow> ys ! 2 = ucast (drop_bit 16 v)
    \<Longrightarrow> ys ! 3 = ucast (drop_bit 24 v) \<Longrightarrow> get32 ys 0 = v" for v :: u32
proof (rule bit_word_eqI)
  fix n :: nat
  assume y: "ys ! 0 = ucast v" "ys ! 1 = ucast (drop_bit 8 v)" "ys ! 2 = ucast (drop_bit 16 v)"
    "ys ! 3 = ucast (drop_bit 24 v)" and "n < LENGTH(32)"
  then consider "n < 8" | "8 \<le> n" "n < 16" | "16 \<le> n" "n < 24" | "24 \<le> n" "n < 32"
    by fastforce
  then show "bit (get32 ys 0) n = bit v n"
    by cases (auto simp: get32_def y [simplified] y(3) [unfolded numeral_2_eq_2] bit_simps)
qed

lemma get16_bytes: "ys ! 0 = ucast v \<Longrightarrow> ys ! 1 = ucast (drop_bit 8 v) \<Longrightarrow> get16 ys 0 = v" for v :: u16
proof (rule bit_word_eqI)
  fix n :: nat
  assume y: "ys ! 0 = ucast v" "ys ! 1 = ucast (drop_bit 8 v)" and "n < LENGTH(16)"
  then consider "n < 8" | "8 \<le> n" "n < 16" by fastforce
  then show "bit (get16 ys 0) n = bit v n"
    by cases (auto simp: get16_def y [simplified] bit_simps)
qed

lemma get32_drop: "i + 4 \<le> length xs \<Longrightarrow> get32 (drop i xs) 0 = get32 xs i"
  by (simp add: get32_def)

lemma get16_drop: "i + 2 \<le> length xs \<Longrightarrow> get16 (drop i xs) 0 = get16 xs i"
  by (simp add: get16_def)

lemma drop_patch: "i + length ys \<le> length xs \<Longrightarrow> drop i (patch xs i ys) = ys @ drop (i + length ys) xs"
  by (simp add: patch_def)

lemma get32_put32 [simp]:
  assumes "i + 4 \<le> length xs"
  shows "get32 (put32 xs i v) i = v"
proof -
  have "get32 (put32 xs i v) i = get32 (drop i (put32 xs i v)) 0" using assms by (simp add: get32_drop)
  also have "\<dots> = v" using assms by (intro get32_bytes) (simp_all add: put32_def drop_patch bytes32_def)
  finally show ?thesis .
qed

lemma get16_put16 [simp]:
  assumes "i + 2 \<le> length xs"
  shows "get16 (put16 xs i v) i = v"
proof -
  have "get16 (put16 xs i v) i = get16 (drop i (put16 xs i v)) 0" using assms by (simp add: get16_drop)
  also have "\<dots> = v" using assms by (intro get16_bytes) (simp_all add: put16_def drop_patch bytes16_def)
  finally show ?thesis .
qed

lemma get32_patch_other:
  "i + length ys \<le> length xs \<Longrightarrow> j + 4 \<le> length xs \<Longrightarrow> j + 4 \<le> i \<or> i + length ys \<le> j
   \<Longrightarrow> get32 (patch xs i ys) j = get32 xs j"
  by (auto simp: get32_def nth_patch)

lemma get16_patch_other:
  "i + length ys \<le> length xs \<Longrightarrow> j + 2 \<le> length xs \<Longrightarrow> j + 2 \<le> i \<or> i + length ys \<le> j
   \<Longrightarrow> get16 (patch xs i ys) j = get16 xs j"
  by (auto simp: get16_def nth_patch)

lemma get_put_other:
  "i + 4 \<le> length xs \<Longrightarrow> j + 4 \<le> length xs \<Longrightarrow> j + 4 \<le> i \<or> i + 4 \<le> j \<Longrightarrow> get32 (put32 xs i v) j = get32 xs j"
  "i + 2 \<le> length xs \<Longrightarrow> j + 4 \<le> length xs \<Longrightarrow> j + 4 \<le> i \<or> i + 2 \<le> j \<Longrightarrow> get32 (put16 xs i w) j = get32 xs j"
  "i + 4 \<le> length xs \<Longrightarrow> j + 2 \<le> length xs \<Longrightarrow> j + 2 \<le> i \<or> i + 4 \<le> j \<Longrightarrow> get16 (put32 xs i v) j = get16 xs j"
  "i + 2 \<le> length xs \<Longrightarrow> j + 2 \<le> length xs \<Longrightarrow> j + 2 \<le> i \<or> i + 2 \<le> j \<Longrightarrow> get16 (put16 xs i w) j = get16 xs j"
  by (simp_all add: put16_def put32_def get32_patch_other get16_patch_other)

end
