(* ===== verification/Log.thy ===== *)
theory Log
  imports Bio Bytes
begin

text \<open>
  The redo log, after \<open>log.c\<close>: transactions of several file system calls, whose modified blocks are pinned
  in the cache, written to the log area of the disk, committed by one write of the header block and then
  copied to their places. \<open>readsb\<close> of \<open>fs.c\<close>, which \<open>initlog\<close> uses, is here as well.
\<close>

section \<open>State\<close>

definition MAXOPBLOCKS :: nat where "MAXOPBLOCKS = 10"
definition LOGSIZE :: nat where "LOGSIZE = MAXOPBLOCKS * 3"

record superblock =
  sb_size :: u32
  sb_nblocks :: u32
  sb_ninodes :: u32
  sb_nlog :: u32
  sb_logstart :: u32
  sb_inodestart :: u32
  sb_bmapstart :: u32

record logheader =
  lh_n :: int
  lh_block :: "nat \<Rightarrow> u32"

record logst = biost +
  log_start :: u32
  log_size :: int
  log_outstanding :: int
  log_committing :: bool
  log_dev :: u32
  log_lh :: logheader

definition sizeof_logheader :: nat where "sizeof_logheader = 4 + 4 * LOGSIZE"

section \<open>The header block\<close>

definition readsb :: "u32 \<Rightarrow> 'a biost_scheme \<Rightarrow> (superblock, 'a biost_scheme) outcome" where
  "readsb dev s =
     then_do (bread dev 1 s) (\<lambda>bp s.
     let d = b_data (bufs s bp);
         sb = \<lparr>sb_size = get32 d 0, sb_nblocks = get32 d 4, sb_ninodes = get32 d 8, sb_nlog = get32 d 12,
               sb_logstart = get32 d 16, sb_inodestart = get32 d 20, sb_bmapstart = get32 d 24\<rparr> in
     then_do (brelse bp s) (\<lambda>_ s. Ret sb s))"

definition set_lh_n :: "int \<Rightarrow> 'a logst_scheme \<Rightarrow> 'a logst_scheme" where
  "set_lh_n n s = s\<lparr>log_lh := (log_lh s)\<lparr>lh_n := n\<rparr>\<rparr>"

definition set_lh_block :: "nat \<Rightarrow> u32 \<Rightarrow> 'a logst_scheme \<Rightarrow> 'a logst_scheme" where
  "set_lh_block i v s = s\<lparr>log_lh := (log_lh s)\<lparr>lh_block := (lh_block (log_lh s))(i := v)\<rparr>\<rparr>"

definition read_head :: "'a logst_scheme \<Rightarrow> (unit, 'a logst_scheme) outcome" where
  "read_head s =
     then_do (bread (log_dev s) (log_start s) s) (\<lambda>buf s.
     let lh = b_data (bufs s buf);
         s = set_lh_n (sint (get32 lh 0)) s in
     then_do (for_each (\<lambda>i s.
         if i \<ge> LOGSIZE then Fault ''read_head: log.lh.block[i]''
         else Ret () (set_lh_block i (get32 lh (4 + 4 * i)) s)) [0..<nat (lh_n (log_lh s))] s) (\<lambda>_ s.
     brelse buf s))"

definition write_head :: "'a logst_scheme \<Rightarrow> (unit, 'a logst_scheme) outcome" where
  "write_head s =
     then_do (bread (log_dev s) (log_start s) s) (\<lambda>buf s.
     let s = upd_buf buf (\<lambda>x. x\<lparr>b_data := put32 (b_data x) 0 (of_int (lh_n (log_lh s)))\<rparr>) s in
     then_do (for_each (\<lambda>i s.
         if i \<ge> LOGSIZE then Fault ''write_head: log.lh.block[i]''
         else Ret () (upd_buf buf (\<lambda>x. x\<lparr>b_data := put32 (b_data x) (4 + 4 * i) (lh_block (log_lh s) i)\<rparr>) s))
       [0..<nat (lh_n (log_lh s))] s) (\<lambda>_ s.
     then_do (bwrite buf s) (\<lambda>_ s.
     brelse buf s)))"

section \<open>Installing and recovering\<close>

definition install_trans :: "'a logst_scheme \<Rightarrow> (unit, 'a logst_scheme) outcome" where
  "install_trans s =
     for_each (\<lambda>tail s.
       then_do (bread (log_dev s) (log_start s + of_nat tail + 1) s) (\<lambda>lbuf s.
       then_do (if tail \<ge> LOGSIZE then Fault ''install_trans: log.lh.block[tail]''
                else bread (log_dev s) (lh_block (log_lh s) tail) s) (\<lambda>dbuf s.
       let s = upd_buf dbuf (b_data_update (\<lambda>_. b_data (bufs s lbuf))) s in
       then_do (bwrite dbuf s) (\<lambda>_ s.
       then_do (brelse lbuf s) (\<lambda>_ s.
       brelse dbuf s)))))
     [0..<nat (lh_n (log_lh s))] s"

definition recover_from_log :: "'a logst_scheme \<Rightarrow> (unit, 'a logst_scheme) outcome" where
  "recover_from_log s =
     then_do (read_head s) (\<lambda>_ s.
     then_do (install_trans s) (\<lambda>_ s.
     let s = set_lh_n 0 s in
     write_head s))"

definition initlog :: "u32 \<Rightarrow> 'a logst_scheme \<Rightarrow> (unit, 'a logst_scheme) outcome" where
  "initlog dev s =
     (if sizeof_logheader \<ge> BSIZE then Panic ''initlog: too big logheader''
      else
        let s = initlock LogLock s in
        then_do (readsb dev s) (\<lambda>sb s.
        let s = s\<lparr>log_start := sb_logstart sb\<rparr>;
            s = s\<lparr>log_size := sint (sb_nlog sb)\<rparr>;
            s = s\<lparr>log_dev := dev\<rparr> in
        recover_from_log s))"

section \<open>Transactions\<close>

text \<open>\<open>begin_op\<close> from the start of its loop on; a process that has slept comes back to it.\<close>

definition begin_op_loop :: "'a logst_scheme \<Rightarrow> (unit, 'a logst_scheme) outcome" where
  "begin_op_loop s =
     (if log_committing s then ksleep ChLog LogLock s
      else if lh_n (log_lh s) + (log_outstanding s + 1) * int MAXOPBLOCKS > int LOGSIZE
      then ksleep ChLog LogLock s
      else release LogLock (s\<lparr>log_outstanding := log_outstanding s + 1\<rparr>))"

definition begin_op :: "'a logst_scheme \<Rightarrow> (unit, 'a logst_scheme) outcome" where
  "begin_op s = then_do (acquire LogLock s) (\<lambda>_ s. begin_op_loop s)"

definition begin_op_resume :: "nat \<Rightarrow> bool \<Rightarrow> 'a logst_scheme \<Rightarrow> (unit, 'a logst_scheme) outcome" where
  "begin_op_resume p intena s =
     then_do (sleep_resume p intena LogLock s) (\<lambda>_ s. begin_op_loop s)"

definition write_log :: "'a logst_scheme \<Rightarrow> (unit, 'a logst_scheme) outcome" where
  "write_log s =
     for_each (\<lambda>tail s.
       then_do (bread (log_dev s) (log_start s + of_nat tail + 1) s) (\<lambda>to s.
       then_do (if tail \<ge> LOGSIZE then Fault ''write_log: log.lh.block[tail]''
                else bread (log_dev s) (lh_block (log_lh s) tail) s) (\<lambda>from s.
       let s = upd_buf to (b_data_update (\<lambda>_. b_data (bufs s from))) s in
       then_do (bwrite to s) (\<lambda>_ s.
       then_do (brelse from s) (\<lambda>_ s.
       brelse to s)))))
     [0..<nat (lh_n (log_lh s))] s"

definition commit :: "'a logst_scheme \<Rightarrow> (unit, 'a logst_scheme) outcome" where
  "commit s =
     (if lh_n (log_lh s) > 0 then
        then_do (write_log s) (\<lambda>_ s.
        then_do (write_head s) (\<lambda>_ s.
        then_do (install_trans s) (\<lambda>_ s.
        let s = set_lh_n 0 s in
        write_head s)))
      else Ret () s)"

definition end_op :: "'a logst_scheme \<Rightarrow> (unit, 'a logst_scheme) outcome" where
  "end_op s =
     then_do (acquire LogLock s) (\<lambda>_ s.
     let s = s\<lparr>log_outstanding := log_outstanding s - 1\<rparr> in
     if log_committing s then Panic ''log.committing''
     else
       then_do (if log_outstanding s = 0 then Ret True (s\<lparr>log_committing := True\<rparr>)
                else then_do (wakeup ChLog s) (\<lambda>_ s. Ret False s)) (\<lambda>do_commit s.
       then_do (release LogLock s) (\<lambda>_ s.
       if do_commit then
         then_do (commit s) (\<lambda>_ s.
         then_do (acquire LogLock s) (\<lambda>_ s.
         let s = s\<lparr>log_committing := False\<rparr> in
         then_do (wakeup ChLog s) (\<lambda>_ s.
         release LogLock s)))
       else Ret () s)))"

definition log_write :: "nat \<Rightarrow> 'a logst_scheme \<Rightarrow> (unit, 'a logst_scheme) outcome" where
  "log_write b s =
     (if lh_n (log_lh s) \<ge> int LOGSIZE \<or> lh_n (log_lh s) \<ge> log_size s - 1 then Panic ''too big a transaction''
      else if log_outstanding s < 1 then Panic ''log_write outside of trans''
      else
        then_do (acquire LogLock s) (\<lambda>_ s.
        let n = nat (lh_n (log_lh s));
            i = (case find_idx (\<lambda>i. lh_block (log_lh s) i = b_blockno (bufs s b)) n of Some i \<Rightarrow> i | None \<Rightarrow> n) in
        if i \<ge> LOGSIZE then Fault ''log_write: log.lh.block[i]''
        else
          let s = set_lh_block i (b_blockno (bufs s b)) s;
              s = (if int i = lh_n (log_lh s) then set_lh_n (lh_n (log_lh s) + 1) s else s);
              s = upd_buf b (\<lambda>x. x\<lparr>b_flags := b_flags x OR B_DIRTY\<rparr>) s
          in release LogLock s))"

end
