(* ===== verification/Logsafe.thy ===== *)
theory Logsafe
  imports Bcache Log
begin

text \<open>
  What the redo log of \<open>log.c\<close> guarantees. The block writes of \<open>commit\<close> are computed from the state of the
  log (\<open>commit_writes\<close>), those of \<open>recover_from_log\<close> from the disk alone (\<open>recover_writes\<close>), and whatever
  initial part of the former reaches the disk before a crash, recovery leaves either none of the transaction's
  blocks or all of them.
\<close>

section \<open>Fields of the log\<close>

lemma log_frameD:
  fixes s t :: "'a logst_scheme"
  assumes "bio_frame s t"
  shows "log_start t = log_start s" "log_dev t = log_dev s" "log_lh t = log_lh s" "log_size t = log_size s"
    "log_outstanding t = log_outstanding s" "log_committing t = log_committing s" "disksize t = disksize s"
proof -
  have "biost.more t = biost.more s" "disksize t = disksize s" by (rule bio_frameD [OF assms])+
  then show "log_start t = log_start s" "log_dev t = log_dev s" "log_lh t = log_lh s" "log_size t = log_size s"
    "log_outstanding t = log_outstanding s" "log_committing t = log_committing s" "disksize t = disksize s"
    by (cases s, cases t, simp)+
qed

lemma quiet_log [simp]:
  "quiet c p (s\<lparr>log_lh := x\<rparr>) = quiet c p s" "quiet c p (s\<lparr>log_outstanding := k\<rparr>) = quiet c p s"
  "quiet c p (s\<lparr>log_committing := z\<rparr>) = quiet c p s"
  by (intro quiet_cong sched_rep_cong; simp add: same_core_def)+

lemma cache_log [simp]:
  "cache_ok pid h (s\<lparr>log_lh := x\<rparr>) = cache_ok pid h s" "cache_ok pid h (s\<lparr>log_outstanding := k\<rparr>) = cache_ok pid h s"
  "cache_ok pid h (s\<lparr>log_committing := z\<rparr>) = cache_ok pid h s"
  by (simp_all add: cache_ok_def caches_def)

lemma bio_ok_log [simp]:
  "bio_ok c p h (s\<lparr>log_lh := x\<rparr>) = bio_ok c p h s" "bio_ok c p h (s\<lparr>log_outstanding := k\<rparr>) = bio_ok c p h s"
  "bio_ok c p h (s\<lparr>log_committing := z\<rparr>) = bio_ok c p h s"
  by (simp_all add: bio_ok_def)

lemma store_of_log [simp]:
  "store_of (s\<lparr>log_lh := x\<rparr>) = store_of s" "store_of (s\<lparr>log_outstanding := k\<rparr>) = store_of s"
  "store_of (s\<lparr>log_committing := z\<rparr>) = store_of s"
  by (simp_all add: store_of_def content_def pinned_def fun_eq_iff split: option.split)

lemma store_of_simps [simp]:
  "st_content (store_of s) = content s" "st_pins (store_of s) = pinned s" "st_disk (store_of s) = disk s"
  "st_trace (store_of s) = disk_writes s"
  by (simp_all add: store_of_def)

lemma content_log [simp]: "content (s\<lparr>log_lh := x\<rparr>) = content s" "pinned (s\<lparr>log_lh := x\<rparr>) = pinned s"
  using arg_cong [OF store_of_log(1) [of x s], of st_content] arg_cong [OF store_of_log(1) [of x s], of st_pins]
  by (simp_all del: store_of_log)

lemma bio_frame_lh:
  assumes "bio_frame s t"
  shows "bio_frame (s\<lparr>log_lh := x\<rparr>) (t\<lparr>log_lh := x\<rparr>)"
proof -
  have "bio_blank (u\<lparr>log_lh := x\<rparr>) = (bio_blank u)\<lparr>log_lh := x\<rparr>" for u :: "'a logst_scheme"
    by (simp add: bio_blank_def buf_blank_def unsched_def)
  with assms show ?thesis by (simp add: bio_frame_def)
qed

text \<open>With no buffer held, only pinned blocks differ from the disk.\<close>

lemma unpinned_clean:
  assumes "bio_ok c p Map.empty s" and "n \<notin> pinned s"
  shows "content s n = disk s n"
proof (cases "\<exists>b. caches s b n")
  case True
  have C: "cache_ok (p_pid (procs s p)) Map.empty s" using assms(1) by (simp add: bio_ok_def)
  from True obtain b where b: "caches s b n" by blast
  then have "\<not> dirty (bufs s b)" using assms(2) by (auto simp: pinned_iff caches_def)
  then show ?thesis using cache_okD(6) [OF C b] content_cached [OF C b] by simp
next
  case False
  then show ?thesis by (simp add: content_uncached)
qed

lemma disk_block: "bio_ok c p h s \<Longrightarrow> length (disk s n) = BSIZE"
  by (simp add: bio_ok_def cache_ok_def)

section \<open>The header block\<close>

definition head_bytes :: "logheader \<Rightarrow> u8 list \<Rightarrow> u8 list" where
  "head_bytes lh d = fold (\<lambda>i d. put32 d (4 + 4 * i) (lh_block lh i)) [0..<nat (lh_n lh)] (put32 d 0 (of_int (lh_n lh)))"

lemma head_fold:
  assumes "k \<le> LOGSIZE" and "length d = BSIZE"
  shows "length (fold (\<lambda>i d. put32 d (4 + 4 * i) (f i)) [0..<k] d) = BSIZE
    \<and> get32 (fold (\<lambda>i d. put32 d (4 + 4 * i) (f i)) [0..<k] d) 0 = get32 d 0
    \<and> (\<forall>i < k. get32 (fold (\<lambda>i d. put32 d (4 + 4 * i) (f i)) [0..<k] d) (4 + 4 * i) = f i)"
  using assms
proof (induction k)
  case (Suc k)
  then have k: "4 + 4 * k + 4 \<le> BSIZE" by (simp add: BSIZE_def LOGSIZE_def MAXOPBLOCKS_def)
  have "get32 (put32 x (4 + 4 * k) v) (4 + 4 * i) = (if i = k then v else get32 x (4 + 4 * i))"
    if "length x = BSIZE" "i \<le> k" for x v i
  proof (cases "i = k")
    case False
    then have "4 + 4 * i + 4 \<le> 4 + 4 * k" using that(2) by simp
    with False that k show ?thesis by (simp add: get_put_other)
  qed (use that k in simp)
  with Suc k show ?case by (auto simp: get_put_other less_Suc_eq)
qed simp

lemma head_bytes_fields:
  assumes "length d = BSIZE" and "nat (lh_n lh) \<le> LOGSIZE"
  shows "length (head_bytes lh d) = BSIZE" "get32 (head_bytes lh d) 0 = of_int (lh_n lh)"
    "i < nat (lh_n lh) \<Longrightarrow> get32 (head_bytes lh d) (4 + 4 * i) = lh_block lh i"
  using head_fold [OF assms(2), of "put32 d 0 (of_int (lh_n lh))" "lh_block lh"] assms(1)
  by (simp_all add: head_bytes_def BSIZE_def)

lemma put_data: "upd_buf b (\<lambda>x. x\<lparr>b_data := f (b_data x)\<rparr>) s = set_data b (f (b_data (bufs s b))) s"
  by (simp add: set_data_def upd_buf_def)

lemma set_data_twice [simp]: "set_data b d (set_data b d' s) = set_data b d s" "b_data (bufs (set_data b d s) b) = d"
  by (simp_all add: set_data_def upd_buf_def)

lemma set_data_log [simp]: "log_lh (set_data b d s) = log_lh s"
  by (simp add: set_data_def upd_buf_def)

lemma write_head_loop:
  assumes "k \<le> LOGSIZE"
  shows "for_each (\<lambda>i s. if i \<ge> LOGSIZE then Fault ''write_head: log.lh.block[i]''
         else Ret () (upd_buf b (\<lambda>x. x\<lparr>b_data := put32 (b_data x) (4 + 4 * i) (lh_block (log_lh s) i)\<rparr>) s)) [0..<k] (set_data b d s)
       = Ret () (set_data b (fold (\<lambda>i d. put32 d (4 + 4 * i) (lh_block (log_lh s) i)) [0..<k] d) s)"
  using assms
proof (induction k)
  case (Suc k)
  then show ?case by (simp add: for_each_append put_data [where f = "\<lambda>d. put32 d _ _"])
qed simp

lemma write_head_wp:
  fixes s :: "'a logst_scheme"
  assumes ok: "bio_ok c p Map.empty s" and dev: "log_dev s = 1" and "log_start s < disksize s" and "card (pinned s) < NBUF"
    and n: "nat (lh_n (log_lh s)) \<le> LOGSIZE"
  shows "wp (write_head s) (\<lambda>_ t. bio_ok c p Map.empty t
    \<and> store_of t = store_writes [(log_start s, head_bytes (log_lh s) (content s (log_start s)))] (store_of s) \<and> bio_frame s t)"
proof -
  have f: "length (head_bytes (log_lh s) d) = BSIZE" if "length d = BSIZE" for d
    using head_bytes_fields(1) [OF that n] .
  have W: "then_do (for_each (\<lambda>i s. if i \<ge> LOGSIZE then Fault ''write_head: log.lh.block[i]''
         else Ret () (upd_buf b (\<lambda>x. x\<lparr>b_data := put32 (b_data x) (4 + 4 * i) (lh_block (log_lh s) i)\<rparr>) s))
       [0..<nat (lh_n (log_lh t))] (set_data b (put32 d 0 (of_int (lh_n (log_lh t)))) t)) k
     = k () (set_data b (head_bytes (log_lh s) d) t)" if "bio_frame s t" for b d k and t :: "'a logst_scheme"
    using write_head_loop [of "nat (lh_n (log_lh t))" b _ t] n log_frameD(3) [OF that] by (simp add: head_bytes_def)
  show ?thesis
    unfolding write_head_def dev wp_then_do
    by (rule wp_mono [OF bc.update_block [OF ok, where f = "head_bytes (log_lh s)"]])
      (use assms f in \<open>auto simp: Let_def put_data [where f = "\<lambda>d. put32 d _ _"] W set_data_log\<close>)
qed

section \<open>The log area\<close>

definition log_slot :: "'a logst_scheme \<Rightarrow> nat \<Rightarrow> u32" where
  "log_slot s i = log_start s + of_nat i + 1"

text \<open>How many blocks a transaction may have: the header has room for \<open>LOGSIZE\<close>, and the area on the disk, of
  \<open>log.size\<close> blocks, holds the header block as well.\<close>

definition log_cap :: "'a logst_scheme \<Rightarrow> nat" where
  "log_cap s = min LOGSIZE (nat (log_size s - 1))"

definition log_area :: "'a logst_scheme \<Rightarrow> u32 set" where
  "log_area s = insert (log_start s) (log_slot s ` {..<log_cap s})"

definition lh_count :: "'a logst_scheme \<Rightarrow> nat" where
  "lh_count s = nat (lh_n (log_lh s))"

text \<open>The header names blocks of the disk outside the log area, and the area lies on the disk.\<close>

definition log_wf :: "'a logst_scheme \<Rightarrow> bool" where
  "log_wf s \<longleftrightarrow> log_dev s = 1 \<and> unat (log_start s) + log_cap s < unat (disksize s) \<and> lh_count s \<le> log_cap s
     \<and> (\<forall>i < lh_count s. lh_block (log_lh s) i < disksize s \<and> lh_block (log_lh s) i \<notin> log_area s)"

lemma log_area_lh [simp]:
  "log_cap (s\<lparr>log_lh := x\<rparr>) = log_cap s" "log_slot (s\<lparr>log_lh := x\<rparr>) = log_slot s" "log_area (s\<lparr>log_lh := x\<rparr>) = log_area s"
  by (simp_all add: log_cap_def log_area_def log_slot_def fun_eq_iff)

lemma log_wf_frame:
  fixes s t :: "'a logst_scheme"
  assumes "bio_frame s t"
  shows "log_wf t = log_wf s" "log_slot t i = log_slot s i" "log_area t = log_area s" "lh_count t = lh_count s"
proof -
  have "log_slot t = log_slot s" using log_frameD [OF assms] by (simp add: log_slot_def fun_eq_iff)
  then show "log_wf t = log_wf s" "log_slot t i = log_slot s i" "log_area t = log_area s" "lh_count t = lh_count s"
    using log_frameD [OF assms] by (simp_all add: log_wf_def log_area_def lh_count_def log_cap_def)
qed

lemma unat_log_slot:
  assumes "unat (log_start s) + log_cap s < unat (disksize s)" and "i < log_cap s"
  shows "unat (log_slot s i) = unat (log_start s) + i + 1"
proof -
  have "unat (disksize s) < 2 ^ 32" using unsigned_less [of "disksize s"] by simp
  then have "unat (log_start s) + (i + 1) < 2 ^ 32" using assms by linarith
  moreover have "log_slot s i = log_start s + of_nat (i + 1)" by (simp add: log_slot_def)
  ultimately show ?thesis by (simp only:) (simp add: unat_word_ariths unat_of_nat)
qed

lemma log_slots:
  assumes "log_wf s" and "i < log_cap s"
  shows "log_slot s i < disksize s" "log_slot s i \<noteq> log_start s" "log_slot s i \<in> log_area s"
    "j < log_cap s \<Longrightarrow> log_slot s i = log_slot s j \<longleftrightarrow> i = j"
proof -
  have r: "unat (log_start s) + log_cap s < unat (disksize s)" using assms(1) by (simp add: log_wf_def)
  note u = unat_log_slot [OF r assms(2)]
  show "log_slot s i < disksize s" using u r assms(2) by (simp add: word_less_nat_alt)
  show "log_slot s i \<noteq> log_start s" using u by (metis add_cancel_right_right add.assoc add_is_0 one_neq_zero)
  show "log_slot s i \<in> log_area s" using assms(2) by (simp add: log_area_def)
  show "log_slot s i = log_slot s j \<longleftrightarrow> i = j" if "j < log_cap s"
    using u unat_log_slot [OF r that] by (metis add_left_cancel add_right_cancel)
qed

lemma log_wf_start:
  assumes "log_wf s"
  shows "log_dev s = 1" "log_start s < disksize s" "lh_count s \<le> LOGSIZE" "log_start s \<in> log_area s"
  using assms by (simp_all add: log_wf_def log_cap_def log_area_def word_less_nat_alt)

section \<open>Copying to the log and from it\<close>

definition log_copies :: "'a logst_scheme \<Rightarrow> (u32 \<times> u8 list) list" where
  "log_copies s = map (\<lambda>i. (log_slot s i, content s (lh_block (log_lh s) i))) [0..<lh_count s]"

definition home_copies :: "'a logst_scheme \<Rightarrow> (u32 \<times> u8 list) list" where
  "home_copies s = map (\<lambda>i. (lh_block (log_lh s) i, content s (log_slot s i))) [0..<lh_count s]"

lemma set_data_alt: "upd_buf b (b_data_update (\<lambda>_. d)) = set_data b d"
  by (simp add: set_data_def)

lemma pins_card_le:
  assumes "store_of t = store_writes ws (store_of s)"
  shows "card (pinned t) \<le> card (pinned s)"
proof (rule card_mono)
  show "pinned t \<subseteq> pinned s" using arg_cong [OF assms, of st_pins] by auto
  show "finite (pinned s)" by (simp add: pinned_def)
qed

lemma upt_split: "[0..<n] = ds @ i # todo \<Longrightarrow> ds = [0..<i] \<and> i < n"
proof -
  assume a: "[0..<n] = ds @ i # todo"
  have "n = length ds + Suc (length todo)" using arg_cong [OF a, of length] by simp
  then have l: "length ds < n" by simp
  have "i = length ds" using arg_cong [OF a, of "\<lambda>xs. xs ! length ds"] l by simp
  moreover have "ds = [0..<length ds]" using arg_cong [OF a, of "take (length ds)"] l by (simp add: take_upt)
  ultimately show "ds = [0..<i] \<and> i < n" using l by simp
qed

lemma write_log_wp:
  fixes s :: "'a logst_scheme"
  assumes ok: "bio_ok c p Map.empty s" and wf: "log_wf s" and r: "card (pinned s) < NBUF"
    and pins: "\<And>i. i < lh_count s \<Longrightarrow> lh_block (log_lh s) i \<in> pinned s"
  shows "wp (write_log s) (\<lambda>_ t. bio_ok c p Map.empty t \<and> store_of t = store_writes (log_copies s) (store_of s) \<and> bio_frame s t)"
  unfolding write_log_def log_copies_def lh_count_def [symmetric]
proof (rule bc.writes_loop [OF ok])
  fix ds i todo and t :: "'a logst_scheme"
  assume i: "[0..<lh_count s] = ds @ i # todo" and t: "bio_ok c p Map.empty t" "bio_frame s t"
    and v: "store_of t = store_writes (map (\<lambda>i. (log_slot s i, content s (lh_block (log_lh s) i))) ds) (store_of s)"
  let ?src = "lh_block (log_lh s) i"
  have il: "ds = [0..<i]" "i < lh_count s" using upt_split [OF i] by simp_all
  have L: "lh_count s \<le> log_cap s" and src: "?src < disksize s" "?src \<notin> log_area s" using wf il(2) by (auto simp: log_wf_def)
  have n: "?src \<notin> fst ` set (map (\<lambda>i. (log_slot s i, content s (lh_block (log_lh s) i))) ds)"
    using src(2) il L by (auto simp: log_area_def)
  have ct: "content t ?src = content s ?src" "?src \<in> pinned t"
    using arg_cong [OF v, of st_content] arg_cong [OF v, of st_pins] apply_writes_other [OF n] n pins [OF il(2)] by simp_all
  have sl: "log_slot s i < disksize s" "log_slot s i \<noteq> ?src" using log_slots(1,3) [OF wf, of i] il(2) L src(2) by auto
  note fr = log_frameD [OF t(2)]
  have "wp (bread 1 (log_slot s i) t) (\<lambda>b' u. bio_frame t u \<and> wp (bread 1 ?src u) (\<lambda>b v. bio_frame t v \<and>
      wp (bwrite b' (set_data b' (b_data (bufs v b)) v)) (\<lambda>_ v. wp (brelse b v) (\<lambda>_ v. wp (brelse b' v) (\<lambda>_ v. bio_ok c p Map.empty v
        \<and> store_of v = store_writes [(log_slot s i, content s ?src)] (store_of t) \<and> bio_frame t v)))))"
    using bc.copy_to [OF t(1), of ?src "log_slot s i"] src(1) sl fr(7) ct r pins_card_le [OF v] by auto
  then show "wp (then_do (bread (log_dev t) (log_start t + of_nat i + 1) t) (\<lambda>to s.
       then_do (if i \<ge> LOGSIZE then Fault ''write_log: log.lh.block[tail]'' else bread (log_dev s) (lh_block (log_lh s) i) s) (\<lambda>from s.
       let s = upd_buf to (b_data_update (\<lambda>_. b_data (bufs s from))) s in
       then_do (bwrite to s) (\<lambda>_ s. then_do (brelse from s) (\<lambda>_ s. brelse to s)))))
     (\<lambda>_ u. bio_ok c p Map.empty u \<and> store_of u = store_writes [(log_slot s i, content s ?src)] (store_of t) \<and> bio_frame t u)"
    using fr wf il(2) log_wf_start(3) [OF wf]
    by (auto simp: Let_def set_data_alt log_slot_def log_wf_def log_frameD(2,3) elim!: wp_mono)
qed

lemma install_trans_wp:
  fixes s :: "'a logst_scheme"
  assumes ok: "bio_ok c p Map.empty s" and wf: "log_wf s"
    and r: "pinned s = {} \<or> card (pinned s) < NBUF \<and> inj_on (lh_block (log_lh s)) {..<lh_count s}
      \<and> lh_block (log_lh s) ` {..<lh_count s} \<subseteq> pinned s"
    and pins: "\<And>i. i < lh_count s \<Longrightarrow> log_slot s i \<notin> pinned s"
  shows "wp (install_trans s) (\<lambda>_ t. bio_ok c p Map.empty t \<and> store_of t = store_writes (home_copies s) (store_of s) \<and> bio_frame s t)"
  unfolding install_trans_def home_copies_def lh_count_def [symmetric]
proof (rule bc.writes_loop [OF ok])
  fix ds i todo and t :: "'a logst_scheme"
  assume i: "[0..<lh_count s] = ds @ i # todo" and t: "bio_ok c p Map.empty t" "bio_frame s t"
    and v: "store_of t = store_writes (map (\<lambda>i. (lh_block (log_lh s) i, content s (log_slot s i))) ds) (store_of s)"
  let ?dst = "lh_block (log_lh s) i"
  have il: "ds = [0..<i]" "i < lh_count s" using upt_split [OF i] by simp_all
  have L: "lh_count s \<le> log_cap s" and dst: "?dst < disksize s" "?dst \<notin> log_area s" using wf il(2) by (auto simp: log_wf_def)
  have sl: "log_slot s i < disksize s" "log_slot s i \<in> log_area s" using log_slots(1,3) [OF wf, of i] il(2) L by auto
  have ne: "log_slot s i \<noteq> ?dst" using dst(2) sl(2) by metis
  have n: "log_slot s i \<notin> fst ` set (map (\<lambda>i. (lh_block (log_lh s) i, content s (log_slot s i))) ds)"
    using wf sl(2) il by (auto simp: log_wf_def)
  have ct: "content t (log_slot s i) = content s (log_slot s i)" "log_slot s i \<notin> pinned t"
    using arg_cong [OF v, of st_content] arg_cong [OF v, of st_pins] apply_writes_other [OF n] pins [OF il(2)] by simp_all
  have room: "card (pinned t) < NBUF" "?dst \<in> pinned t \<or> Suc (Suc (card (pinned t))) \<le> NBUF"
  proof -
    have pt: "pinned t = pinned s - fst ` set (map (\<lambda>i. (lh_block (log_lh s) i, content s (log_slot s i))) ds)"
      using arg_cong [OF v, of st_pins] by simp
    show "card (pinned t) < NBUF" using r pins_card_le [OF v] by (auto simp: NBUF_def)
    show "?dst \<in> pinned t \<or> Suc (Suc (card (pinned t))) \<le> NBUF"
    proof (cases "pinned s = {}")
      case False
      then have j: "inj_on (lh_block (log_lh s)) {..<lh_count s}" "?dst \<in> pinned s" using r il(2) by auto
      have "lh_block (log_lh s) k \<noteq> ?dst" if "k < i" for k using inj_onD [OF j(1), of k i] that il(2) by auto
      then have "?dst \<in> pinned t" using j(2) unfolding pt il(1) by fastforce
      then show ?thesis ..
    qed (simp add: pt NBUF_def)
  qed
  note fr = log_frameD [OF t(2)]
  have "wp (bread 1 (log_slot s i) t) (\<lambda>b u. bio_frame t u \<and> wp (bread 1 ?dst u) (\<lambda>b' v. bio_frame t v \<and>
      wp (bwrite b' (set_data b' (b_data (bufs v b)) v)) (\<lambda>_ v. wp (brelse b v) (\<lambda>_ v. wp (brelse b' v) (\<lambda>_ v. bio_ok c p Map.empty v
        \<and> store_of v = store_writes [(?dst, content s (log_slot s i))] (store_of t) \<and> bio_frame t v)))))"
    using bc.copy_from [OF t(1), of "log_slot s i" ?dst] dst(1) sl(1) ne fr(7) ct(1) room unpinned_clean [OF t(1) ct(2)]
    by simp
  then show "wp (then_do (bread (log_dev t) (log_start t + of_nat i + 1) t) (\<lambda>lbuf s.
       then_do (if i \<ge> LOGSIZE then Fault ''install_trans: log.lh.block[tail]'' else bread (log_dev s) (lh_block (log_lh s) i) s) (\<lambda>dbuf s.
       let s = upd_buf dbuf (b_data_update (\<lambda>_. b_data (bufs s lbuf))) s in
       then_do (bwrite dbuf s) (\<lambda>_ s. then_do (brelse lbuf s) (\<lambda>_ s. brelse dbuf s)))))
     (\<lambda>_ u. bio_ok c p Map.empty u \<and> store_of u = store_writes [(?dst, content s (log_slot s i))] (store_of t) \<and> bio_frame t u)"
    using fr wf il(2) log_wf_start(3) [OF wf]
    by (auto simp: Let_def set_data_alt log_slot_def log_wf_def log_frameD(2,3) elim!: wp_mono)
qed

section \<open>Committing\<close>

text \<open>The state in which a transaction is committed: the pinned blocks are those of the header, and the header
  on the disk says that the log is empty.\<close>

definition log_ready :: "nat \<Rightarrow> nat \<Rightarrow> 'a logst_scheme \<Rightarrow> bool" where
  "log_ready c p s \<longleftrightarrow> bio_ok c p Map.empty s \<and> log_wf s \<and> 0 < lh_n (log_lh s)
     \<and> inj_on (lh_block (log_lh s)) {..<lh_count s} \<and> pinned s = lh_block (log_lh s) ` {..<lh_count s}
     \<and> get32 (disk s (log_start s)) 0 = 0"

definition new_head :: "'a logst_scheme \<Rightarrow> u8 list" where
  "new_head s = head_bytes (log_lh s) (content s (log_start s))"

definition new_blocks :: "'a logst_scheme \<Rightarrow> (u32 \<times> u8 list) list" where
  "new_blocks s = map (\<lambda>i. (lh_block (log_lh s) i, content s (lh_block (log_lh s) i))) [0..<lh_count s]"

definition commit_writes :: "'a logst_scheme \<Rightarrow> (u32 \<times> u8 list) list" where
  "commit_writes s = log_copies s @ (log_start s, new_head s) # new_blocks s @ [(log_start s, put32 (new_head s) 0 0)]"

lemma log_copies_at:
  assumes "log_wf s" and "i < lh_count s"
  shows "apply_writes (log_copies s) f (log_slot s i) = content s (lh_block (log_lh s) i)"
proof -
  have L: "lh_count s \<le> log_cap s" using assms(1) by (simp add: log_wf_def)
  have "distinct (map fst (log_copies s))"
    using log_slots(4) [OF assms(1)] L by (auto simp: log_copies_def distinct_map comp_def inj_on_def)
  then show ?thesis using apply_writes_nth [of "log_copies s" i f] assms(2) by (simp add: log_copies_def)
qed

lemma fst_copies:
  assumes "log_wf s"
  shows "log_start s \<notin> fst ` set (log_copies s)" "m \<notin> log_area s \<Longrightarrow> m \<notin> fst ` set (log_copies s)"
    "m \<in> log_area s \<Longrightarrow> m \<notin> fst ` set (new_blocks s)"
proof -
  have L: "lh_count s \<le> log_cap s" "\<And>i. i < lh_count s \<Longrightarrow> lh_block (log_lh s) i \<notin> log_area s" using assms by (simp_all add: log_wf_def)
  have S: "log_slot s i \<noteq> log_start s" "log_slot s i \<in> log_area s" if "i < lh_count s" for i
    using log_slots(2,3) [OF assms, of i] that L(1) by simp_all
  show "log_start s \<notin> fst ` set (log_copies s)"
  proof
    assume "log_start s \<in> fst ` set (log_copies s)"
    then obtain i where "i < lh_count s" "log_start s = log_slot s i" by (auto simp: log_copies_def)
    with S(1) show False by metis
  qed
  show "m \<notin> fst ` set (log_copies s)" if "m \<notin> log_area s" using that S(2) by (auto simp: log_copies_def)
  show "m \<notin> fst ` set (new_blocks s)" if "m \<in> log_area s" using that L(2) by (auto simp: new_blocks_def)
qed

lemma home_copies_eq:
  assumes "log_wf s" and "bio_frame s t" and "content t = apply_writes (log_copies s @ [(log_start s, d)]) f"
  shows "home_copies t = new_blocks s"
proof -
  have L: "lh_count s \<le> log_cap s" using assms(1) by (simp add: log_wf_def)
  have "content t (log_slot s i) = content s (lh_block (log_lh s) i)" if "i < lh_count s" for i
  proof -
    have "log_slot s i \<noteq> log_start s" using log_slots(2) [OF assms(1)] that L by simp
    then show ?thesis using log_copies_at [OF assms(1) that] by (simp add: assms(3))
  qed
  then show ?thesis
    using log_frameD [OF assms(2)] log_wf_frame [OF assms(2)] by (simp add: home_copies_def new_blocks_def)
qed

lemma pins_eq: "store_of t = store_writes ws (store_of s) \<Longrightarrow> pinned t = pinned s - fst ` set ws"
  by (metis store_of_simps(2) store_writes_simps(2))

lemma content_eq: "store_of t = store_writes ws (store_of s) \<Longrightarrow> content t = apply_writes ws (content s)"
  by (metis store_of_simps(1) store_writes_simps(1))

text \<open>The two halves of \<open>commit\<close>: up to the write of the header that makes the transaction permanent, and from there on.\<close>

lemma commit_first_half:
  fixes s :: "'a logst_scheme"
  assumes R: "log_ready c p s" and r: "card (pinned s) < NBUF"
  shows "wp (then_do (write_log s) (\<lambda>_. write_head)) (\<lambda>_ t. bio_ok c p Map.empty t
    \<and> store_of t = store_writes (log_copies s @ [(log_start s, new_head s)]) (store_of s) \<and> bio_frame s t)"
proof -
  have ok: "bio_ok c p Map.empty s" and wf: "log_wf s" using R by (simp_all add: log_ready_def)
  note L = log_wf_start(3) [OF wf]
  have "lh_block (log_lh s) i \<in> pinned s" if "i < lh_count s" for i using R that by (simp add: log_ready_def)
  note W = write_log_wp [OF ok wf r this]
  show ?thesis
    unfolding wp_then_do
  proof (rule wp_mono [OF W])
    fix x t
    assume t: "bio_ok c p Map.empty t \<and> store_of t = store_writes (log_copies s) (store_of s) \<and> bio_frame s t"
    then have v: "store_of t = store_writes (log_copies s) (store_of s)" and fr: "bio_frame s t" by simp_all
    have c: "content t (log_start s) = content s (log_start s)"
      using content_eq [OF v] fst_copies(1) [OF wf] by (simp add: apply_writes_other)
    have "log_dev s = 1" "log_start s < disksize s" using log_wf_start [OF wf] by simp_all
    then have "wp (write_head t) (\<lambda>_ u. bio_ok c p Map.empty u
        \<and> store_of u = store_writes [(log_start t, head_bytes (log_lh t) (content t (log_start t)))] (store_of t) \<and> bio_frame t u)"
      using t L r log_frameD [OF fr] pins_card_le [OF v] by (intro write_head_wp) (simp_all add: lh_count_def)
    then show "wp (write_head t) (\<lambda>_ u. bio_ok c p Map.empty u
        \<and> store_of u = store_writes (log_copies s @ [(log_start s, new_head s)]) (store_of s) \<and> bio_frame s u)"
      by (rule bc.frame_step) (use fr v c log_frameD [OF fr] in \<open>simp_all add: new_head_def\<close>)
  qed
qed

lemma commit_wp:
  fixes s :: "'a logst_scheme"
  assumes R: "log_ready c p s" and r: "card (pinned s) < NBUF"
  shows "wp (commit s) (\<lambda>_ t. bio_ok c p Map.empty t \<and> store_of t = store_writes (commit_writes s) (store_of s)
    \<and> bio_frame (set_lh_n 0 s) t)"
proof -
  have wf: "log_wf s" and L: "lh_count s \<le> log_cap s" and n: "0 < lh_n (log_lh s)"
    using R by (simp_all add: log_ready_def log_wf_def)
  obtain t where t: "then_do (write_log s) (\<lambda>_. write_head) = Ret () t" "bio_ok c p Map.empty t" "bio_frame s t"
    and v: "store_of t = store_writes (log_copies s @ [(log_start s, new_head s)]) (store_of s)"
    using commit_first_half [OF assms] by (auto simp: wp_Ret_iff)
  note f = log_frameD [OF t(3)] log_wf_frame [OF t(3)]
  have P: "pinned s \<inter> log_area s = {}" using R by (auto simp: log_ready_def log_wf_def)
  have "log_slot t i \<notin> pinned t" if "i < lh_count t" for i
  proof -
    have "log_slot s i \<in> log_area s" using log_slots(3) [OF wf, of i] that L f by simp
    then show ?thesis using P pins_eq [OF v] f by auto
  qed
  moreover have "m \<notin> fst ` set (log_copies s @ [(log_start s, new_head s)])" if "m \<in> pinned s" for m
  proof -
    have a: "m \<notin> log_area s" using P that by blast
    then show ?thesis using fst_copies(2) [OF wf a] by (simp add: log_area_def)
  qed
  then have "pinned t = pinned s" using pins_eq [OF v] by blast
  then have "card (pinned t) < NBUF \<and> inj_on (lh_block (log_lh t)) {..<lh_count t} \<and> lh_block (log_lh t) ` {..<lh_count t} \<subseteq> pinned t"
    using R r f by (simp add: log_ready_def)
  ultimately obtain u where u: "install_trans t = Ret () u" "bio_ok c p Map.empty u" "bio_frame t u"
    and w: "store_of u = store_writes (new_blocks s) (store_of t)"
    using install_trans_wp [OF t(2)] wf f home_copies_eq [OF wf t(3) content_eq [OF v]] by (auto simp: wp_Ret_iff)
  have w': "store_of u = store_writes (log_copies s @ (log_start s, new_head s) # new_blocks s) (store_of s)"
    using v w by simp
  have su: "bio_frame s u" by (rule bio_frame_trans [OF t(3) u(3)])
  note g = log_frameD [OF su]
  have "log_start s \<in> log_area s" by (simp add: log_area_def)
  then have cu: "content u (log_start s) = new_head s"
    using content_eq [OF w'] fst_copies(3) [OF wf] by (simp add: apply_writes_other)
  have "log_dev s = 1" "log_start s < disksize s" using log_wf_start [OF wf] by simp_all
  then have W: "wp (write_head (set_lh_n 0 u)) (\<lambda>_ t. bio_ok c p Map.empty t
      \<and> store_of t = store_writes (commit_writes s) (store_of s) \<and> bio_frame (set_lh_n 0 u) t)"
    using write_head_wp [of c p "set_lh_n 0 u"] u(2) g pins_card_le [OF w'] r cu w' store_of_log(1)
    by (simp add: set_lh_n_def head_bytes_def commit_writes_def)
  have "bio_frame (set_lh_n 0 s) (set_lh_n 0 u)"
    using bio_frame_lh [OF su] g by (simp add: set_lh_n_def)
  then show ?thesis
    using W t(1) u(1) n by (auto simp: commit_def then_do_assoc [symmetric] intro: bio_frame_trans elim!: wp_mono)
qed

section \<open>Recovery\<close>

text \<open>The header that \<open>read_head\<close> makes of the header block.\<close>

definition disk_head :: "u8 list \<Rightarrow> logheader \<Rightarrow> logheader" where
  "disk_head hb lh = lh\<lparr>lh_n := sint (get32 hb 0),
     lh_block := \<lambda>i. if i < nat (sint (get32 hb 0)) then get32 hb (4 + 4 * i) else lh_block lh i\<rparr>"

lemma read_head_loop:
  assumes "k \<le> LOGSIZE"
  shows "for_each (\<lambda>i s. if i \<ge> LOGSIZE then Fault ''read_head: log.lh.block[i]''
       else Ret () (set_lh_block i (get32 hb (4 + 4 * i)) s)) [0..<k] s
     = Ret () (s\<lparr>log_lh := (log_lh s)\<lparr>lh_block := \<lambda>i. if i < k then get32 hb (4 + 4 * i) else lh_block (log_lh s) i\<rparr>\<rparr>)"
  using assms
proof (induction k)
  case (Suc k)
  have "(\<lambda>i. if i < k then get32 hb (4 + 4 * i) else lh_block (log_lh s) i)(k := get32 hb (4 + 4 * k))
      = (\<lambda>i. if i < Suc k then get32 hb (4 + 4 * i) else lh_block (log_lh s) i)" by auto
  with Suc show ?case by (simp add: for_each_append set_lh_block_def)
qed simp

lemma read_head_wp:
  fixes s :: "'a logst_scheme"
  assumes ok: "bio_ok c p Map.empty s" and dev: "log_dev s = 1" and start: "log_start s < disksize s" "log_start s \<notin> pinned s"
    and r: "card (pinned s) < NBUF" and n: "nat (sint (get32 (disk s (log_start s)) 0)) \<le> LOGSIZE"
  shows "wp (read_head s) (\<lambda>_ t. bio_ok c p Map.empty t \<and> store_of t = store_of s
    \<and> bio_frame (s\<lparr>log_lh := disk_head (disk s (log_start s)) (log_lh s)\<rparr>) t)"
proof -
  let ?hd = "disk s (log_start s)"
  have cl: "content s (log_start s) = ?hd" by (rule unpinned_clean [OF ok start(2)])
  have "wp (bread 1 (log_start s) s) (\<lambda>b t. bio_ok c p [b \<mapsto> log_start s] t \<and> store_of t = store_of s \<and> bio_frame s t)"
    using bc.rd [OF ok start(1)] r by (auto elim!: wp_mono)
  then show ?thesis
    unfolding read_head_def dev wp_then_do
  proof (rule wp_mono)
    fix b t
    assume t: "bio_ok c p [b \<mapsto> log_start s] t \<and> store_of t = store_of s \<and> bio_frame s t"
    let ?u = "t\<lparr>log_lh := disk_head ?hd (log_lh s)\<rparr>"
    have d: "b_data (bufs t b) = ?hd" using bc.peek [of c p "[b \<mapsto> log_start s]" t b "log_start s"] t cl by simp
    have lh: "log_lh t = log_lh s" using t log_frameD(3) by blast
    have "content t = content s" "disk t = disk s" using t store_of_simps by metis+
    then have "wp (brelse b ?u) (\<lambda>_ v. bio_ok c p Map.empty v \<and> store_of v = store_of ?u \<and> bio_frame ?u v)"
      using bc.rel [of c p "[b \<mapsto> log_start s]" ?u b "log_start s"] t cl by simp
    then have W: "wp (brelse b ?u) (\<lambda>_ v. bio_ok c p Map.empty v \<and> store_of v = store_of s
        \<and> bio_frame (s\<lparr>log_lh := disk_head ?hd (log_lh s)\<rparr>) v)"
      by (rule bc.frame_step) (use t in \<open>simp_all add: bio_frame_lh\<close>)
    have "for_each (\<lambda>i s. if i \<ge> LOGSIZE then Fault ''read_head: log.lh.block[i]''
       else Ret () (set_lh_block i (get32 ?hd (4 + 4 * i)) s)) [0..<nat (sint (get32 ?hd 0))] (set_lh_n (sint (get32 ?hd 0)) t) = Ret () ?u"
      unfolding read_head_loop [OF n] by (simp add: set_lh_n_def disk_head_def lh cong: if_cong)
    then show "wp (let lh = b_data (bufs t b); s = set_lh_n (sint (get32 lh 0)) t
       in then_do (for_each (\<lambda>i s. if i \<ge> LOGSIZE then Fault ''read_head: log.lh.block[i]''
         else Ret () (set_lh_block i (get32 lh (4 + 4 * i)) s)) [0..<nat (lh_n (log_lh s))] s) (\<lambda>_ s. brelse b s))
      (\<lambda>_ t. bio_ok c p Map.empty t \<and> store_of t = store_of s \<and> bio_frame (s\<lparr>log_lh := disk_head ?hd (log_lh s)\<rparr>) t)"
      using W by (simp add: Let_def d) (simp add: set_lh_n_def)
  qed
qed

text \<open>The block writes of recovery, as the disk determines them.\<close>

definition recover_writes :: "'a logst_scheme \<Rightarrow> (u32 \<times> u8 list) list" where
  "recover_writes s = (let hb = disk s (log_start s) in
     map (\<lambda>i. (get32 hb (4 + 4 * i), disk s (log_slot s i))) [0..<nat (sint (get32 hb 0))] @ [(log_start s, put32 hb 0 0)])"

definition recoverable :: "nat \<Rightarrow> nat \<Rightarrow> 'a logst_scheme \<Rightarrow> bool" where
  "recoverable c p s \<longleftrightarrow> bio_ok c p Map.empty s \<and> pinned s = {}
     \<and> log_wf (s\<lparr>log_lh := disk_head (disk s (log_start s)) (log_lh s)\<rparr>)"

lemma recover_from_log_wp:
  fixes s :: "'a logst_scheme"
  assumes R: "recoverable c p s"
  shows "wp (recover_from_log s) (\<lambda>_ t. bio_ok c p Map.empty t \<and> store_of t = store_writes (recover_writes s) (store_of s)
    \<and> bio_frame (s\<lparr>log_lh := (disk_head (disk s (log_start s)) (log_lh s))\<lparr>lh_n := 0\<rparr>\<rparr>) t)"
proof -
  let ?hd = "disk s (log_start s)"
  let ?s = "s\<lparr>log_lh := disk_head ?hd (log_lh s)\<rparr>"
  have ok: "bio_ok c p Map.empty s" and wf: "log_wf ?s" and P: "pinned s = {}" using R by (simp_all add: recoverable_def)
  have st: "log_start s < disksize s" "log_dev s = 1" "lh_count ?s \<le> LOGSIZE"
    using log_wf_start [OF wf] by simp_all
  then have "nat (sint (get32 ?hd 0)) \<le> LOGSIZE" by (simp add: lh_count_def disk_head_def)
  then obtain t where t: "read_head s = Ret () t" "bio_ok c p Map.empty t" "store_of t = store_of s" "bio_frame ?s t"
    using read_head_wp [OF ok st(2,1)] P by (auto simp: wp_Ret_iff NBUF_def)
  note f = log_frameD [OF t(4)] log_wf_frame [OF t(4)]
  have pt: "pinned t = {}" "content t = disk s"
    using t(3) store_of_simps unpinned_clean [OF ok] P by (metis, metis ext empty_iff)
  have "home_copies t = map (\<lambda>i. (get32 ?hd (4 + 4 * i), disk s (log_slot s i))) [0..<nat (sint (get32 ?hd 0))]"
    using f pt by (auto simp: home_copies_def lh_count_def disk_head_def log_slot_def)
  then obtain u where u: "install_trans t = Ret () u" "bio_ok c p Map.empty u" "bio_frame t u"
    and w: "store_of u = store_writes (map (\<lambda>i. (get32 ?hd (4 + 4 * i), disk s (log_slot s i))) [0..<nat (sint (get32 ?hd 0))]) (store_of s)"
    using install_trans_wp [OF t(2)] wf f pt t(3) by (auto simp: wp_Ret_iff NBUF_def)
  have su: "bio_frame ?s u" by (rule bio_frame_trans [OF t(4) u(3)])
  note g = log_frameD [OF su]
  have "get32 ?hd (4 + 4 * i) \<noteq> log_start s" if "i < nat (sint (get32 ?hd 0))" for i
    using wf that by (auto simp: log_wf_def lh_count_def disk_head_def log_area_def)
  then have "log_start s \<notin> fst ` set (map (\<lambda>i. (get32 ?hd (4 + 4 * i), disk s (log_slot s i))) [0..<nat (sint (get32 ?hd 0))])"
    by fastforce
  then have cu: "content u (log_start s) = ?hd"
    using content_eq [OF w] unpinned_clean [OF ok] P by (simp add: apply_writes_other)
  have "pinned u = {}" using pins_eq [OF w] P by simp
  then have W: "wp (write_head (set_lh_n 0 u)) (\<lambda>_ t. bio_ok c p Map.empty t
      \<and> store_of t = store_writes (recover_writes s) (store_of s) \<and> bio_frame (set_lh_n 0 u) t)"
    using write_head_wp [of c p "set_lh_n 0 u"] u(2) g cu w store_of_log(1) st
    by (simp add: set_lh_n_def head_bytes_def recover_writes_def NBUF_def Let_def)
  have "bio_frame (s\<lparr>log_lh := (disk_head ?hd (log_lh s))\<lparr>lh_n := 0\<rparr>\<rparr>) (set_lh_n 0 u)"
    using bio_frame_lh [OF su] g by (simp add: set_lh_n_def)
  then show ?thesis
    using W t(1) u(1) by (auto simp: recover_from_log_def intro: bio_frame_trans elim!: wp_mono)
qed

section \<open>Crashes during a commit\<close>

text \<open>The machine comes up again, with an empty cache and the disk as the crash left it.\<close>

definition rebooted :: "nat \<Rightarrow> nat \<Rightarrow> 'a logst_scheme \<Rightarrow> (u32 \<Rightarrow> u8 list) \<Rightarrow> 'b logst_scheme \<Rightarrow> bool" where
  "rebooted c p s d r \<longleftrightarrow> bio_ok c p Map.empty r \<and> pinned r = {} \<and> disk r = d
     \<and> log_dev r = log_dev s \<and> log_size r = log_size s \<and> log_start r = log_start s \<and> disksize r = disksize s"

lemma rebooted_area: "rebooted c p s d r \<Longrightarrow> log_slot r = log_slot s \<and> log_area r = log_area s \<and> log_cap r = log_cap s"
  by (auto simp: rebooted_def log_slot_def log_area_def log_cap_def fun_eq_iff)

lemma sint_count:
  assumes "0 \<le> k" and "nat k \<le> LOGSIZE"
  shows "sint (of_int k :: u32) = k"
  using assms by (simp add: LOGSIZE_def MAXOPBLOCKS_def signed_of_int signed_take_bit_int_eq_self)

lemma new_blocks_at:
  assumes "log_ready c p s"
  shows "apply_writes (new_blocks s) f m = (if m \<in> pinned s then content s m else f m)"
proof (cases "m \<in> pinned s")
  case True
  then obtain i where i: "i < lh_count s" "m = lh_block (log_lh s) i" using assms by (auto simp: log_ready_def)
  have "distinct (map fst (new_blocks s))"
    using assms by (simp add: new_blocks_def distinct_map comp_def log_ready_def lessThan_atLeast0)
  then show ?thesis using True i apply_writes_nth [of "new_blocks s" i f] by (simp add: new_blocks_def)
next
  case False
  then show ?thesis using assms by (subst apply_writes_other) (auto simp: new_blocks_def log_ready_def)
qed

lemma log_ready_head:
  assumes "log_ready c p s"
  shows "length (new_head s) = BSIZE" "get32 (new_head s) 0 = of_int (lh_n (log_lh s))"
    "i < lh_count s \<Longrightarrow> get32 (new_head s) (4 + 4 * i) = lh_block (log_lh s) i"
proof -
  have ok: "bio_ok c p Map.empty s" and n: "nat (lh_n (log_lh s)) \<le> LOGSIZE"
    and "pinned s \<inter> log_area s = {}" using assms by (auto simp: log_ready_def log_wf_def lh_count_def log_cap_def)
  then have "content s (log_start s) = disk s (log_start s)" by (intro unpinned_clean [OF ok]) (auto simp: log_area_def)
  then have l: "length (content s (log_start s)) = BSIZE" using disk_block [OF ok] by simp
  show "length (new_head s) = BSIZE" "get32 (new_head s) 0 = of_int (lh_n (log_lh s))"
    "i < lh_count s \<Longrightarrow> get32 (new_head s) (4 + 4 * i) = lh_block (log_lh s) i"
    using head_bytes_fields [OF l n] by (simp_all add: new_head_def lh_count_def)
qed

text \<open>The three situations a crash can leave.\<close>

lemma crash_early:
  assumes R: "log_ready c p s" and k: "k \<le> lh_count s" and d: "d = apply_writes (take k (commit_writes s)) (disk s)"
  shows "get32 (d (log_start s)) 0 = 0" "m \<notin> log_area s \<Longrightarrow> d m = disk s m"
proof -
  have wf: "log_wf s" using R by (simp add: log_ready_def)
  have d: "d = apply_writes (take k (log_copies s)) (disk s)" using k by (simp add: d commit_writes_def log_copies_def)
  have n: "x \<notin> fst ` set (take k (log_copies s))" if "x \<notin> fst ` set (log_copies s)" for x
    using that set_take_subset [of k "log_copies s"] by blast
  show "get32 (d (log_start s)) 0 = 0"
    using R apply_writes_other [OF n [OF fst_copies(1) [OF wf]]] by (simp add: d log_ready_def)
  show "d m = disk s m" if "m \<notin> log_area s"
    using apply_writes_other [OF n [OF fst_copies(2) [OF wf that]]] by (simp add: d)
qed

lemma crash_middle:
  assumes R: "log_ready c p s" and k: "lh_count s < k" "k \<le> 2 * lh_count s + 1" and d: "d = apply_writes (take k (commit_writes s)) (disk s)"
  shows "d (log_start s) = new_head s" "i < lh_count s \<Longrightarrow> d (log_slot s i) = content s (lh_block (log_lh s) i)"
    "m \<notin> log_area s \<Longrightarrow> m \<notin> pinned s \<Longrightarrow> d m = disk s m"
proof -
  have wf: "log_wf s" and L: "lh_count s \<le> log_cap s" using R by (simp_all add: log_ready_def log_wf_def)
  let ?B = "take (k - Suc (lh_count s)) (new_blocks s)"
  have "take k (commit_writes s) = log_copies s @ (log_start s, new_head s) # ?B"
    using k by (simp add: commit_writes_def log_copies_def new_blocks_def take_Cons' split: nat.split)
  then have d: "d = apply_writes ?B ((apply_writes (log_copies s) (disk s))(log_start s := new_head s))" by (simp add: d)
  have n: "x \<notin> fst ` set ?B" if "x \<notin> fst ` set (new_blocks s)" for x
    using that set_take_subset [of _ "new_blocks s"] by blast
  have st: "log_start s \<in> log_area s" by (simp add: log_area_def)
  show "d (log_start s) = new_head s" using apply_writes_other [OF n [OF fst_copies(3) [OF wf st]]] by (simp add: d)
  show "d (log_slot s i) = content s (lh_block (log_lh s) i)" if "i < lh_count s"
    using apply_writes_other [OF n [OF fst_copies(3) [OF wf log_slots(3) [OF wf]]], of i] log_slots(2) [OF wf, of i]
      log_copies_at [OF wf that] that L by (simp add: d)
  show "d m = disk s m" if m: "m \<notin> log_area s" "m \<notin> pinned s"
  proof -
    have "m \<notin> fst ` set (new_blocks s)" using m(2) R by (auto simp: new_blocks_def log_ready_def)
    moreover have "m \<noteq> log_start s" using m(1) by (auto simp: log_area_def)
    ultimately show ?thesis
      using apply_writes_other [OF n] apply_writes_other [OF fst_copies(2) [OF wf m(1)]] by (simp add: d)
  qed
qed

lemma crash_late:
  assumes R: "log_ready c p s" and k: "2 * lh_count s + 1 < k" and d: "d = apply_writes (take k (commit_writes s)) (disk s)"
  shows "get32 (d (log_start s)) 0 = 0" "m \<notin> log_area s \<Longrightarrow> d m = content s m"
proof -
  have wf: "log_wf s" and ok: "bio_ok c p Map.empty s" using R by (simp_all add: log_ready_def)
  have "take k (commit_writes s) = commit_writes s"
    using k by (simp add: commit_writes_def log_copies_def new_blocks_def)
  then have d: "d = (apply_writes (new_blocks s) ((apply_writes (log_copies s) (disk s))(log_start s := new_head s)))
      (log_start s := put32 (new_head s) 0 0)" by (simp add: d commit_writes_def)
  show "get32 (d (log_start s)) 0 = 0" using log_ready_head(1) [OF R] by (simp add: d BSIZE_def)
  show "d m = content s m" if m: "m \<notin> log_area s"
    using m new_blocks_at [OF R] apply_writes_other [OF fst_copies(2) [OF wf m]] unpinned_clean [OF ok, of m]
    by (auto simp: d log_area_def)
qed

lemma rebooted_empty:
  assumes "log_wf s" and "rebooted c p s d r" and "get32 (d (log_start s)) 0 = 0"
  shows "recoverable c p r" "recover_writes r = [(log_start s, put32 (d (log_start s)) 0 0)]"
  using assms rebooted_area [OF assms(2)]
  by (simp_all add: recoverable_def rebooted_def log_wf_def disk_head_def lh_count_def recover_writes_def)

lemma rebooted_full:
  assumes R: "log_ready c p s" and r: "rebooted c' p' s d r" and d: "d (log_start s) = new_head s"
    "\<And>i. i < lh_count s \<Longrightarrow> d (log_slot s i) = content s (lh_block (log_lh s) i)"
  shows "recoverable c' p' r" "recover_writes r = new_blocks s @ [(log_start s, put32 (new_head s) 0 0)]"
proof -
  have n: "nat (sint (get32 (new_head s) 0)) = lh_count s"
    using log_ready_head(2) [OF R] R by (simp add: lh_count_def log_ready_def log_wf_def log_cap_def sint_count)
  note a = rebooted_area [OF r]
  show "recover_writes r = new_blocks s @ [(log_start s, put32 (new_head s) 0 0)]"
    using d n a r log_ready_head(3) [OF R] by (simp add: recover_writes_def rebooted_def new_blocks_def Let_def)
  let ?r = "r\<lparr>log_lh := disk_head (disk r (log_start r)) (log_lh r)\<rparr>"
  have q: "disk r (log_start r) = new_head s" using r d(1) by (simp add: rebooted_def)
  have "lh_count ?r = lh_count s" unfolding lh_count_def using n [unfolded lh_count_def] by (simp add: q disk_head_def)
  moreover have "lh_block (log_lh ?r) i = lh_block (log_lh s) i" if "i < lh_count s" for i
    using that by (simp add: q disk_head_def n log_ready_head(3) [OF R])
  moreover have "log_area ?r = log_area r" by (simp add: log_area_def log_slot_def)
  ultimately have "log_wf ?r"
    using R r a by (simp add: log_wf_def log_ready_def rebooted_def)
  then show "recoverable c' p' r" using r by (simp add: recoverable_def rebooted_def)
qed

text \<open>Recovery after a crash that lets the first \<open>k\<close> block writes of \<open>commit\<close> reach the disk.\<close>

lemma recovery_wp:
  fixes s :: "'a logst_scheme" and r :: "'b logst_scheme"
  assumes R: "log_ready c p s" and r: "rebooted c' p' s (apply_writes (take k (commit_writes s)) (disk s)) r"
  shows "wp (recover_from_log r) (\<lambda>_ u. bio_ok c' p' Map.empty u \<and> pinned u = {} \<and> lh_n (log_lh u) = 0
    \<and> (\<forall>m. m \<notin> log_area s \<longrightarrow> content u m = (if k \<le> lh_count s then disk s m else content s m)))"
proof -
  let ?d = "apply_writes (take k (commit_writes s)) (disk s)"
  have wf: "log_wf s" and ok: "bio_ok c p Map.empty s" using R by (simp_all add: log_ready_def)
  have dr: "disk r = ?d" "pinned r = {}" "content r = ?d"
    using r unpinned_clean [of c' p' r] by (auto simp: rebooted_def fun_eq_iff)
  have "recoverable c' p' r \<and> (\<forall>m. m \<notin> log_area s \<longrightarrow>
      apply_writes (recover_writes r) ?d m = (if k \<le> lh_count s then disk s m else content s m))"
  proof -
    consider "k \<le> lh_count s" | "lh_count s < k" "k \<le> 2 * lh_count s + 1" | "2 * lh_count s + 1 < k" by linarith
    then show ?thesis
    proof cases
      case 1
      note e = crash_early [OF R 1 refl]
      show ?thesis using rebooted_empty [OF wf r e(1)] e(2) 1 by (auto simp: log_area_def)
    next
      case 2
      note e = crash_middle [OF R 2 refl]
      have "content s m = ?d m" if "m \<notin> log_area s" "m \<notin> pinned s" for m
        using e(3) [OF that] unpinned_clean [OF ok that(2)] by simp
      then show ?thesis
        using rebooted_full [OF R r e(1,2)] new_blocks_at [OF R] 2 by (auto simp: log_area_def)
    next
      case 3
      note e = crash_late [OF R 3 refl]
      show ?thesis using rebooted_empty [OF wf r e(1)] e(2) 3 by (auto simp: log_area_def)
    qed
  qed
  then have rec: "recoverable c' p' r" and out: "\<And>m. m \<notin> log_area s \<Longrightarrow>
      apply_writes (recover_writes r) ?d m = (if k \<le> lh_count s then disk s m else content s m)" by blast+
  show ?thesis
  proof (rule wp_mono [OF recover_from_log_wp [OF rec]])
    fix x u
    assume u: "bio_ok c' p' Map.empty u \<and> store_of u = store_writes (recover_writes r) (store_of r)
      \<and> bio_frame (r\<lparr>log_lh := (disk_head (disk r (log_start r)) (log_lh r))\<lparr>lh_n := 0\<rparr>\<rparr>) u"
    then have v: "store_of u = store_writes (recover_writes r) (store_of r)"
      and f: "bio_frame (r\<lparr>log_lh := (disk_head (disk r (log_start r)) (log_lh r))\<lparr>lh_n := 0\<rparr>\<rparr>) u" by simp_all
    have "pinned u = {}" "lh_n (log_lh u) = 0" using pins_eq [OF v] dr(2) log_frameD(3) [OF f] by simp_all
    with u out content_eq [OF v] show "bio_ok c' p' Map.empty u \<and> pinned u = {} \<and> lh_n (log_lh u) = 0
      \<and> (\<forall>m. m \<notin> log_area s \<longrightarrow> content u m = (if k \<le> lh_count s then disk s m else content s m))"
      unfolding dr(3) by (simp del: apply_writes_simps)
  qed
qed

section \<open>Crashes during recovery\<close>

lemma apply_writes_agree:
  "(n \<notin> fst ` set ws \<Longrightarrow> f n = g n) \<Longrightarrow> apply_writes ws f n = apply_writes ws g n"
proof (induction ws arbitrary: f g)
  case (Cons w ws)
  show ?case unfolding apply_writes_simps by (rule Cons.IH) (use Cons.prems in auto)
qed simp

lemma recover_again_wp:
  fixes r :: "'a logst_scheme" and q :: "'b logst_scheme"
  assumes R: "recoverable c p r" and q: "rebooted c' p' r d q" and D: "d = apply_writes (take k (recover_writes r)) (disk r)"
    and m: "m \<notin> log_area r"
  shows "wp (recover_from_log q) (\<lambda>_ u. content u m = apply_writes (recover_writes r) (disk r) m)"
proof -
  let ?hd = "disk r (log_start r)" and ?r = "r\<lparr>log_lh := disk_head (disk r (log_start r)) (log_lh r)\<rparr>"
  let ?n = "nat (sint (get32 ?hd 0))"
  let ?W = "map (\<lambda>i. (get32 ?hd (4 + 4 * i), disk r (log_slot r i))) [0..<?n]"
  have wf: "log_wf ?r" using R by (simp add: recoverable_def)
  have len: "length ?hd = BSIZE" using R disk_block by (auto simp: recoverable_def)
  have n: "?n \<le> log_cap r" using wf by (simp add: log_wf_def lh_count_def disk_head_def)
  have W: "recover_writes r = ?W @ [(log_start r, put32 ?hd 0 0)]" by (simp add: recover_writes_def Let_def)
  have out: "x \<notin> fst ` set (take j ?W)" if "x \<in> log_area r" for x j
  proof -
    have "x \<notin> fst ` set ?W" using wf that by (auto simp: log_wf_def lh_count_def disk_head_def)
    then show ?thesis using set_take_subset [of j ?W] by blast
  qed
  have dq: "disk q = d" "content q = d" using q unpinned_clean [of c' p' q] by (auto simp: rebooted_def fun_eq_iff)
  note a = rebooted_area [OF q]
  have "recoverable c' p' q \<and> apply_writes (recover_writes q) d m = apply_writes (recover_writes r) (disk r) m"
  proof (cases "k \<le> ?n")
    case True
    then have d: "d = apply_writes (take k ?W) (disk r)" by (simp add: D W)
    have same: "d x = disk r x" if "x \<in> log_area r" for x unfolding d by (rule apply_writes_other [OF out [OF that]])
    have st: "d (log_start r) = ?hd" by (rule same) (simp add: log_area_def)
    have sl: "d (log_slot r i) = disk r (log_slot r i)" if "i < ?n" for i
      using that n by (intro same) (auto simp: log_area_def)
    have lq: "log_start q = log_start r" "log_dev q = log_dev r" "disksize q = disksize r" using q by (simp_all add: rebooted_def)
    have hq: "disk q (log_start q) = ?hd" using dq(1) st lq by simp
    have "recover_writes q = recover_writes r" unfolding recover_writes_def hq lq(1) Let_def using sl a by (simp add: dq(1) st)
    moreover have "log_wf (q\<lparr>log_lh := disk_head (disk q (log_start q)) (log_lh q)\<rparr>)"
      using wf a unfolding hq by (simp add: log_wf_def lh_count_def disk_head_def lq)
    moreover have "apply_writes (recover_writes r) d m = apply_writes (recover_writes r) (disk r) m"
      unfolding D using set_take_subset [of k "recover_writes r"] by (intro apply_writes_agree apply_writes_other) blast
    ultimately show ?thesis using q by (simp add: recoverable_def rebooted_def)
  next
    case False
    then have d: "d = (apply_writes ?W (disk r))(log_start r := put32 ?hd 0 0)" by (simp add: D W)
    have "get32 (d (log_start r)) 0 = 0" using len by (simp add: d BSIZE_def)
    moreover have "log_wf (r\<lparr>log_lh := (log_lh r)\<lparr>lh_n := 0\<rparr>\<rparr>)" using wf by (simp add: log_wf_def lh_count_def)
    moreover have "rebooted c' p' (r\<lparr>log_lh := (log_lh r)\<lparr>lh_n := 0\<rparr>\<rparr>) d q" using q by (simp add: rebooted_def)
    ultimately have "recoverable c' p' q" "recover_writes q = [(log_start r, put32 (d (log_start r)) 0 0)]"
      using rebooted_empty [of "r\<lparr>log_lh := (log_lh r)\<lparr>lh_n := 0\<rparr>\<rparr>" c' p' d q] by simp_all
    then show ?thesis using m d W by (auto simp: log_area_def)
  qed
  then have rec: "recoverable c' p' q" and e: "apply_writes (recover_writes q) d m = apply_writes (recover_writes r) (disk r) m" by simp_all
  show ?thesis
    by (rule wp_mono [OF recover_from_log_wp [OF rec]]) (use e dq(2) content_eq in metis)
qed

section \<open>Collecting a transaction\<close>

text \<open>The invariant between file system calls and within them: the header in memory lists, once each, exactly the
  pinned blocks, and the header on the disk says that nothing is to be recovered.\<close>

definition log_inv :: "nat \<Rightarrow> nat \<Rightarrow> (nat \<rightharpoonup> u32) \<Rightarrow> 'a logst_scheme \<Rightarrow> bool" where
  "log_inv c p h s \<longleftrightarrow> bio_ok c p h s \<and> log_wf s \<and> 0 \<le> lh_n (log_lh s)
     \<and> inj_on (lh_block (log_lh s)) {..<lh_count s} \<and> pinned s = lh_block (log_lh s) ` {..<lh_count s}
     \<and> get32 (disk s (log_start s)) 0 = 0"

lemma log_inv_ready: "log_inv c p Map.empty s \<Longrightarrow> 0 < lh_n (log_lh s) \<Longrightarrow> log_ready c p s"
  by (simp add: log_inv_def log_ready_def)

lemma log_inv_store:
  assumes "log_inv c p h s" and "bio_ok c p h' t" and "same_store s t"
  shows "log_inv c p h' t"
proof -
  have f: "bio_frame s t" using assms(3) by (simp add: same_store_def)
  show ?thesis
    using assms log_frameD [OF f] log_wf_frame [OF f] by (simp add: log_inv_def same_store_def)
qed

definition add_block :: "u32 \<Rightarrow> logheader \<Rightarrow> logheader" where
  "add_block n lh =
     (if n \<in> lh_block lh ` {..<nat (lh_n lh)} then lh
      else lh\<lparr>lh_n := lh_n lh + 1, lh_block := (lh_block lh)(nat (lh_n lh) := n)\<rparr>)"

lemma leave_enter_log:
  assumes "quiet c p s"
  shows "release lk (set_dirty b ((enter lk c s)\<lparr>log_lh := x\<rparr>)) = Ret () (set_dirty b (s\<lparr>log_lh := x\<rparr>))"
proof -
  let ?t = "set_dirty b ((enter lk c s)\<lparr>log_lh := x\<rparr>)"
  have "same_core (enter lk c s) ?t" by (simp add: same_core_def set_dirty_def upd_buf_def)
  then have "release lk ?t = Ret () (leave lk c ?t)" using release_section [OF quietD(1,2) [OF assms]] by blast
  moreover have "leave lk c ?t = set_dirty b ((leave lk c (enter lk c s))\<lparr>log_lh := x\<rparr>)"
    by (simp add: set_dirty_def upd_buf_def leave_def)
  ultimately show ?thesis by (simp add: enter_then_leave [OF quietD(1,2) [OF assms]])
qed

lemma log_write_eq:
  assumes q: "quiet c p s" and "lh_n (log_lh s) < int LOGSIZE" "lh_n (log_lh s) < log_size s - 1" "0 \<le> lh_n (log_lh s)"
    and "1 \<le> log_outstanding s"
  shows "log_write b s = Ret () (set_dirty b (s\<lparr>log_lh := add_block (b_blockno (bufs s b)) (log_lh s)\<rparr>))"
proof -
  let ?n = "b_blockno (bufs s b)" and ?lh = "log_lh s" and ?e = "enter LogLock c s"
  let ?k = "nat (lh_n ?lh)"
  let ?f = "find_idx (\<lambda>i. lh_block ?lh i = ?n) ?k"
  have le: "log_lh ?e = ?lh" "bufs ?e = bufs s" by (simp_all add: enter_def)
  have k: "?k < LOGSIZE" using assms by simp
  note r = leave_enter_log [OF q, of LogLock b]
  show ?thesis
  proof (cases ?f)
    case None
    then have "?n \<notin> lh_block ?lh ` {..<?k}" by (auto simp: find_idx_None)
    then have "set_lh_n (lh_n ?lh + 1) (set_lh_block ?k ?n ?e) = ?e\<lparr>log_lh := add_block ?n ?lh\<rparr>"
      by (simp add: add_block_def set_lh_n_def set_lh_block_def le)
    moreover have "lh_n (log_lh (set_lh_block ?k ?n ?e)) = lh_n ?lh" by (simp add: set_lh_block_def le)
    ultimately show ?thesis
      using assms(2-5) k None r
      by (simp add: log_write_def acquire_calm [OF quietD(1,2) [OF q]] le Let_def set_dirty_def [symmetric] linorder_not_le)
  next
    case (Some i)
    then have i: "i < ?k" "lh_block ?lh i = ?n" by (simp_all add: find_idx_Some)
    then have "?n \<in> lh_block ?lh ` {..<?k}" by (metis imageI lessThan_iff)
    then have "set_lh_block i ?n ?e = ?e\<lparr>log_lh := add_block ?n ?lh\<rparr>"
      using i(2) by (simp add: add_block_def set_lh_block_def le fun_upd_idem)
    moreover have "int i \<noteq> lh_n ?lh" using i(1) by auto
    moreover have "add_block ?n ?lh = ?lh" using \<open>?n \<in> _\<close> by (simp add: add_block_def)
    ultimately show ?thesis
      using assms(2-5) k i Some r
      by (simp add: log_write_def acquire_calm [OF quietD(1,2) [OF q]] le Let_def set_dirty_def [symmetric] linorder_not_le)
  qed
qed

lemma add_block_blocks:
  fixes n :: u32
  assumes "0 \<le> lh_n lh" and "inj_on (lh_block lh) {..<nat (lh_n lh)}"
  defines "lh' \<equiv> add_block n lh"
  shows "lh_block lh' ` {..<nat (lh_n lh')} = insert n (lh_block lh ` {..<nat (lh_n lh)})"
    "inj_on (lh_block lh') {..<nat (lh_n lh')}" "0 \<le> lh_n lh'"
    "lh_n lh' = (if n \<in> lh_block lh ` {..<nat (lh_n lh)} then lh_n lh else lh_n lh + 1)"
proof -
  have s: "{..<nat (lh_n lh + 1)} = insert (nat (lh_n lh)) {..<nat (lh_n lh)}"
    using assms(1) by (simp add: nat_add_distrib lessThan_Suc)
  show "lh_block lh' ` {..<nat (lh_n lh')} = insert n (lh_block lh ` {..<nat (lh_n lh)})"
    "inj_on (lh_block lh') {..<nat (lh_n lh')}" "0 \<le> lh_n lh'"
    "lh_n lh' = (if n \<in> lh_block lh ` {..<nat (lh_n lh)} then lh_n lh else lh_n lh + 1)"
    using assms(1,2) by (auto simp: lh'_def add_block_def s inj_on_def)
qed

lemma log_write_wp:
  fixes s :: "'a logst_scheme"
  assumes I: "log_inv c p h s" and h: "h b = Some n" and "n \<notin> log_area s" and "lh_count s < log_cap s" and "1 \<le> log_outstanding s"
  shows "wp (log_write b s) (\<lambda>_ t. log_inv c p h t \<and> content t = content s \<and> disk t = disk s
    \<and> pinned t = insert n (pinned s) \<and> log_lh t = add_block n (log_lh s) \<and> log_outstanding t = log_outstanding s
    \<and> bio_frame (s\<lparr>log_lh := log_lh t\<rparr>) t)"
proof -
  have ok: "bio_ok c p h s" and wf: "log_wf s" and z: "0 \<le> lh_n (log_lh s)" and j: "inj_on (lh_block (log_lh s)) {..<lh_count s}"
    and P: "pinned s = lh_block (log_lh s) ` {..<lh_count s}" using I by (simp_all add: log_inv_def)
  have n: "b_blockno (bufs s b) = n" "n < disksize s" using held_peek [OF ok h] by simp_all
  have c: "lh_n (log_lh s) < int LOGSIZE" "lh_n (log_lh s) < log_size s - 1"
    using assms(4) z by (auto simp: lh_count_def log_cap_def)
  let ?u = "s\<lparr>log_lh := add_block n (log_lh s)\<rparr>" and ?t = "set_dirty b (s\<lparr>log_lh := add_block n (log_lh s)\<rparr>)"
  have t: "log_write b s = Ret () ?t" using log_write_eq [of c p s b] ok c z assms(5) n by (simp add: bio_ok_def)
  have k: "bio_ok c p h ?t" "store_of ?t = store_pin n (store_of s)" "bio_frame ?u ?t" using bc.pin [of c p h ?u b n] ok h by simp_all
  then have e: "content ?t = content s" "pinned ?t = insert n (pinned s)" "disk ?t = disk s"
    by (simp_all add: store_of_def store_pin_def)
  have f: "log_lh ?t = add_block n (log_lh s)" "log_cap ?t = log_cap s" "log_area ?t = log_area s" "log_start ?t = log_start s"
    "disksize ?t = disksize s" "log_dev ?t = log_dev s" "log_outstanding ?t = log_outstanding s"
    by (simp_all add: set_dirty_def upd_buf_def log_cap_def log_area_def log_slot_def)
  note A = add_block_blocks [OF z j [unfolded lh_count_def], of n]
  have blocks: "lh_block (log_lh ?t) ` {..<lh_count ?t} = insert n (lh_block (log_lh s) ` {..<lh_count s})"
    using A(1) by (simp add: lh_count_def f(1))
  have "lh_count ?t \<le> log_cap s" using A(4) assms(4) z by (auto simp: lh_count_def f(1))
  moreover have "lh_block (log_lh ?t) i < disksize s \<and> lh_block (log_lh ?t) i \<notin> log_area s" if "i < lh_count ?t" for i
  proof -
    have "lh_block (log_lh ?t) i \<in> insert n (lh_block (log_lh s) ` {..<lh_count s})" using blocks that by blast
    then show ?thesis using wf n(2) assms(3) by (auto simp: log_wf_def)
  qed
  ultimately have "log_wf ?t" using wf by (simp add: log_wf_def f(2-6))
  moreover have "inj_on (lh_block (log_lh ?t)) {..<lh_count ?t}" "0 \<le> lh_n (log_lh ?t)" using A(2,3) by (simp_all add: lh_count_def f(1))
  ultimately have "log_inv c p h ?t" using I k(1) blocks by (simp add: log_inv_def e P f(4))
  then show ?thesis using t e f k(3) by simp
qed

lemma begin_op_eq:
  fixes s :: "'a logst_scheme"
  assumes q: "quiet c p s" and n: "cpu_ncli (cpus s c) = 0"
  shows "begin_op s =
    (if log_committing s \<or> lh_n (log_lh s) + (log_outstanding s + 1) * int MAXOPBLOCKS > int LOGSIZE
     then Sleep ChLog (asleep p ChLog (enter PtableLock c s))
     else Ret () (s\<lparr>log_outstanding := log_outstanding s + 1\<rparr>))"
proof -
  let ?e = "enter LogLock c s"
  have le: "log_lh ?e = log_lh s" "log_committing ?e = log_committing s" "log_outstanding ?e = log_outstanding s"
    by (simp_all add: enter_def)
  let ?t = "?e\<lparr>log_outstanding := log_outstanding s + 1\<rparr>"
  have "same_core ?e ?t" by (simp add: same_core_def)
  then have "release LogLock ?t = Ret () (leave LogLock c ?t)" using release_section [OF quietD(1,2) [OF q]] by blast
  moreover have "leave LogLock c ?t = (leave LogLock c ?e)\<lparr>log_outstanding := log_outstanding s + 1\<rparr>" by (simp add: leave_def)
  ultimately have r: "release LogLock ?t = Ret () (s\<lparr>log_outstanding := log_outstanding s + 1\<rparr>)"
    by (simp add: enter_then_leave [OF quietD(1,2) [OF q]])
  have "(ksleep ChLog LogLock ?e :: (unit, 'a logst_scheme) outcome) = Sleep ChLog (asleep p ChLog (enter PtableLock c s))"
    using quietD(1,2,3) [OF q] n by (intro ksleep_eq) simp_all
  with r show ?thesis by (simp add: begin_op_def begin_op_loop_def acquire_calm [OF quietD(1,2) [OF q]] le)
qed

section \<open>A concrete machine\<close>

text \<open>A disk of 100 blocks with a log of 30 blocks from block 2 on, and a transaction that has changed block 40.\<close>

definition demo_log :: logst where
  "demo_log = biost.extend (demo_bio\<lparr>bufs := demo_bufs(0 := (demo_bufs 0)\<lparr>b_flags := 6, b_dev := 1, b_blockno := 40, b_data := replicate BSIZE 7\<rparr>)\<rparr>)
     \<lparr>log_start = 2, log_size = 30, log_outstanding = 1, log_committing = False, log_dev = 1,
      log_lh = \<lparr>lh_n = 1, lh_block = (\<lambda>_. 40)\<rparr>\<rparr>"

lemma demo_log_simps [simp]:
  "bufs demo_log = demo_bufs(0 := (demo_bufs 0)\<lparr>b_flags := 6, b_dev := 1, b_blockno := 40, b_data := replicate BSIZE 7\<rparr>)"
  "disk demo_log = (\<lambda>_. replicate BSIZE 0)" "disksize demo_log = 100" "log_start demo_log = 2" "log_size demo_log = 30"
  "log_outstanding demo_log = 1" "\<not> log_committing demo_log" "log_dev demo_log = 1" "log_lh demo_log = \<lparr>lh_n = 1, lh_block = (\<lambda>_. 40)\<rparr>"
  "sleeplks demo_log = (\<lambda>_. \<lparr>sl_locked = False, sl_pid = 0\<rparr>)"
  by (simp_all add: demo_log_def demo_bio_def biost.defs slst.defs ptab.defs)

lemma demo_log_quiet: "quiet 0 0 demo_log" "cpu_ncli (cpus demo_log 0) = 0"
  by (rule quietI; simp add: demo_log_def demo_bio_def biost.defs slst.defs ptab.defs)+

lemma demo_log_flags: "valid (bufs demo_log 0)" "dirty (bufs demo_log 0)"
proof -
  have "(6 :: u32) = 2 OR 4" by simp
  then show "valid (bufs demo_log 0)" "dirty (bufs demo_log 0)"
    using bit_2_4 [of 1] bit_2_4 [of 2] by (simp_all add: valid_def dirty_def bit_or_iff del: or_numerals)
qed

lemma demo_log_ok: "bio_ok 0 0 Map.empty demo_log" "pinned demo_log = {40}"
proof -
  have r: "ring (bufs demo_log) (rev [0..<NBUF])" by (rule demo_ring) simp_all
  have c: "caches demo_log b n \<longleftrightarrow> b = 0 \<and> n = 40" for b n by (auto simp: caches_def demo_bufs_def NBUF_def)
  have d: "dirty (bufs demo_log b) \<longleftrightarrow> b = 0" for b using demo_log_flags by (auto simp: dirty_def demo_bufs_def)
  have "buf_ok pid None (sleeplks demo_log (BufSL b)) (disksize demo_log) (disk demo_log) (bufs demo_log b)" for pid b
    using demo_log_flags d [of b] by (cases "b = 0") (simp_all add: buf_ok_def demo_bufs_def)
  then have "cache_ok (p_pid (procs demo_log 0)) Map.empty demo_log" using r c by (auto simp: cache_ok_def)
  then show "bio_ok 0 0 Map.empty demo_log" using demo_log_quiet by (simp add: bio_ok_def)
  show "pinned demo_log = {40}" using d by (auto simp: pinned_def NBUF_def)
qed

lemma demo_log_cap: "log_cap demo_log = 29"
  by (simp add: log_cap_def LOGSIZE_def MAXOPBLOCKS_def)

lemma demo_log_area: "n \<in> log_area demo_log \<Longrightarrow> unat n < 32"
proof -
  have u: "unat (log_slot demo_log i) = i + 3" if "i < 29" for i
    using unat_log_slot [of demo_log i] that demo_log_cap by simp
  assume "n \<in> log_area demo_log"
  then consider "n = 2" | i where "i < 29" "n = log_slot demo_log i" by (auto simp: log_area_def demo_log_cap)
  then show "unat n < 32" using u by cases auto
qed

lemma demo_log_inv: "log_inv 0 0 Map.empty demo_log"
proof -
  have "(40 :: u32) \<notin> log_area demo_log" using demo_log_area [of 40] by auto
  then have "log_wf demo_log" using demo_log_cap by (simp add: log_wf_def lh_count_def)
  moreover have "get32 (replicate BSIZE 0) 0 = 0" by (simp add: get32_def BSIZE_def)
  ultimately show ?thesis using demo_log_ok by (simp add: log_inv_def lh_count_def lessThan_Suc)
qed

text \<open>The same machine after a crash, with one block to recover.\<close>

definition boot_log :: logst where
  "boot_log = biost.extend (demo_bio\<lparr>disk := (\<lambda>_. replicate BSIZE 0)(2 := put32 (put32 (replicate BSIZE 0) 0 1) 4 40)\<rparr>)
     \<lparr>log_start = 2, log_size = 30, log_outstanding = 0, log_committing = False, log_dev = 1,
      log_lh = \<lparr>lh_n = 0, lh_block = (\<lambda>_. 0)\<rparr>\<rparr>"

lemma boot_log_simps [simp]:
  "bufs boot_log = demo_bufs" "disk boot_log = (\<lambda>_. replicate BSIZE 0)(2 := put32 (put32 (replicate BSIZE 0) 0 1) 4 40)"
  "disksize boot_log = 100" "log_start boot_log = 2" "log_size boot_log = 30" "log_dev boot_log = 1"
  "log_lh boot_log = \<lparr>lh_n = 0, lh_block = (\<lambda>_. 0)\<rparr>" "sleeplks boot_log = (\<lambda>_. \<lparr>sl_locked = False, sl_pid = 0\<rparr>)"
  by (simp_all add: boot_log_def demo_bio_def biost.defs slst.defs ptab.defs)

lemma boot_log_recoverable: "recoverable 0 0 boot_log"
proof -
  have q: "quiet 0 0 boot_log" by (rule quietI; simp add: boot_log_def demo_bio_def biost.defs slst.defs ptab.defs)
  have r: "ring (bufs boot_log) (rev [0..<NBUF])" by (rule demo_ring) simp_all
  have z: "zeroed (bufs boot_log b) \<and> \<not> sl_locked (sleeplks boot_log (BufSL b))" for b by (simp add: zeroed_def demo_bufs_def)
  have d: "length (disk boot_log n) = BSIZE" for n by (simp add: BSIZE_def)
  have h: "get32 (disk boot_log 2) 0 = 1" "get32 (disk boot_log 2) 4 = 40" by (simp_all add: get_put_other BSIZE_def)
  have a: "log_area boot_log = log_area demo_log" "log_cap boot_log = log_cap demo_log"
    by (simp_all add: log_area_def log_slot_def log_cap_def)
  have "log_wf (boot_log\<lparr>log_lh := disk_head (disk boot_log (log_start boot_log)) (log_lh boot_log)\<rparr>)"
    using demo_log_inv h a by (simp add: log_inv_def log_wf_def lh_count_def disk_head_def del: boot_log_simps(2))
  then show ?thesis using zeroed_cache [OF r d z] q by (simp add: recoverable_def bio_ok_def)
qed

section \<open>Properties\<close>

text \<open>C6: a commit is atomic with respect to crashes. Whatever number \<open>k\<close> of the block writes of \<open>commit\<close>
  reaches the disk before the machine goes down, \<open>recover_from_log\<close> after the restart succeeds, and then the blocks
  outside the log area are all as before the transaction if \<open>k\<close> is at most the number of its blocks (the header has not
  been written), and all as the transaction left them otherwise.\<close>

theorem commit_crash_atomic:
  fixes s :: "'a logst_scheme"
  assumes "log_ready c p s" and "card (pinned s) < NBUF"
  shows "wp (commit s) (\<lambda>_ t. \<exists>ws. disk_writes t = disk_writes s @ ws
    \<and> (\<forall>k c' p'. \<forall>r :: 'b logst_scheme. rebooted c' p' s (apply_writes (take k ws) (disk s)) r \<longrightarrow>
        wp (recover_from_log r) (\<lambda>_ u. bio_ok c' p' Map.empty u \<and> pinned u = {} \<and> lh_n (log_lh u) = 0
          \<and> (\<forall>m. m \<notin> log_area s \<longrightarrow> content u m = (if k \<le> lh_count s then disk s m else content s m)))))"
proof (rule wp_mono [OF commit_wp [OF assms]])
  fix x t
  assume "bio_ok c p Map.empty t \<and> store_of t = store_writes (commit_writes s) (store_of s) \<and> bio_frame (set_lh_n 0 s) t"
  then have "disk_writes t = disk_writes s @ commit_writes s" by (metis store_of_simps(4) store_writes_simps(4))
  then show "\<exists>ws. disk_writes t = disk_writes s @ ws
    \<and> (\<forall>k c' p'. \<forall>r :: 'b logst_scheme. rebooted c' p' s (apply_writes (take k ws) (disk s)) r \<longrightarrow>
        wp (recover_from_log r) (\<lambda>_ u. bio_ok c' p' Map.empty u \<and> pinned u = {} \<and> lh_n (log_lh u) = 0
          \<and> (\<forall>m. m \<notin> log_area s \<longrightarrow> content u m = (if k \<le> lh_count s then disk s m else content s m))))"
    using recovery_wp [OF assms(1)] by blast
qed

theorem commit_crash_atomic_witness:
  "log_ready 0 0 demo_log \<and> card (pinned demo_log) < NBUF
   \<and> wp (commit demo_log) (\<lambda>_ t. \<exists>ws. disk_writes t = disk_writes demo_log @ ws)"
proof -
  have r: "log_ready 0 0 demo_log" using demo_log_inv by (rule log_inv_ready) simp
  have n: "card (pinned demo_log) < NBUF" by (simp add: demo_log_ok NBUF_def)
  have "wp (commit demo_log) (\<lambda>_ t. \<exists>ws. disk_writes t = disk_writes demo_log @ ws)"
    by (rule wp_mono [OF commit_crash_atomic [OF r n]]) blast
  with r n show ?thesis by blast
qed

text \<open>C20: after a commit that is not interrupted, the blocks of the transaction are on the disk, no block is pinned any
  longer, the contents of the blocks outside the log area have not changed, and the log is empty again, in memory and on
  the disk, ready for the next transaction.\<close>

theorem commit_installs:
  fixes s :: "'a logst_scheme"
  assumes "log_ready c p s" and "card (pinned s) < NBUF"
  shows "wp (commit s) (\<lambda>_ t. log_inv c p Map.empty t \<and> lh_n (log_lh t) = 0 \<and> pinned t = {}
    \<and> (\<forall>m. m \<notin> log_area s \<longrightarrow> content t m = content s m \<and> disk t m = content s m))"
proof (rule wp_mono [OF commit_wp [OF assms]])
  fix x t
  assume t: "bio_ok c p Map.empty t \<and> store_of t = store_writes (commit_writes s) (store_of s) \<and> bio_frame (set_lh_n 0 s) t"
  then have v: "store_of t = store_writes (commit_writes s) (store_of s)" and f: "bio_frame (set_lh_n 0 s) t" by simp_all
  have wf: "log_wf s" using assms(1) by (simp add: log_ready_def)
  have d: "disk t = apply_writes (take (2 * lh_count s + 2) (commit_writes s)) (disk s)"
    using arg_cong [OF v, of st_disk] by (simp add: commit_writes_def log_copies_def new_blocks_def)
  note late = crash_late [OF assms(1) _ d]
  have "fst ` set (new_blocks s) = pinned s"
    using assms(1) by (simp add: new_blocks_def log_ready_def image_image lessThan_atLeast0)
  then have P: "pinned t = {}" using pins_eq [OF v] by (auto simp: commit_writes_def)
  have c: "content t = disk t" using t P unpinned_clean [of c p t] by (auto simp: fun_eq_iff)
  have z: "lh_n (log_lh t) = 0" "lh_count t = 0" "log_start t = log_start s"
    using log_frameD [OF f] by (simp_all add: set_lh_n_def lh_count_def)
  have "log_wf (set_lh_n 0 s)" using wf by (simp add: log_wf_def set_lh_n_def lh_count_def)
  then have "log_wf t" using log_wf_frame(1) [OF f] by simp
  then have "log_inv c p Map.empty t" using t P z late(1) by (simp add: log_inv_def)
  then show "log_inv c p Map.empty t \<and> lh_n (log_lh t) = 0 \<and> pinned t = {}
    \<and> (\<forall>m. m \<notin> log_area s \<longrightarrow> content t m = content s m \<and> disk t m = content s m)"
    using P z late(2) c by simp
qed

theorem commit_installs_witness:
  "log_ready 0 0 demo_log \<and> wp (commit demo_log) (\<lambda>_ t. lh_n (log_lh t) = 0 \<and> pinned t = {})"
proof -
  have r: "log_ready 0 0 demo_log" using demo_log_inv by (rule log_inv_ready) simp
  have n: "card (pinned demo_log) < NBUF" by (simp add: demo_log_ok NBUF_def)
  have "wp (commit demo_log) (\<lambda>_ t. lh_n (log_lh t) = 0 \<and> pinned t = {})"
    by (rule wp_mono [OF commit_installs [OF r n]]) blast
  with r show ?thesis by blast
qed

text \<open>C7: recovery may itself be interrupted any number of times: if any number of its block writes reaches the disk
  before the next crash, the recovery after that ends with the same blocks outside the log area.\<close>

theorem recovery_restartable:
  fixes r :: "'a logst_scheme"
  assumes "recoverable c p r"
  shows "wp (recover_from_log r) (\<lambda>_ t. \<exists>ws. disk_writes t = disk_writes r @ ws
    \<and> (\<forall>k c' p' m. \<forall>q :: 'b logst_scheme. rebooted c' p' r (apply_writes (take k ws) (disk r)) q \<longrightarrow> m \<notin> log_area r \<longrightarrow>
        wp (recover_from_log q) (\<lambda>_ u. content u m = content t m)))"
proof (rule wp_mono [OF recover_from_log_wp [OF assms]])
  fix x t
  assume t: "bio_ok c p Map.empty t \<and> store_of t = store_writes (recover_writes r) (store_of r)
    \<and> bio_frame (r\<lparr>log_lh := (disk_head (disk r (log_start r)) (log_lh r))\<lparr>lh_n := 0\<rparr>\<rparr>) t"
  then have v: "store_of t = store_writes (recover_writes r) (store_of r)" by simp
  have "disk_writes t = disk_writes r @ recover_writes r" using v by (metis store_of_simps(4) store_writes_simps(4))
  moreover have "content r = disk r" using assms unpinned_clean [of c p r] by (auto simp: recoverable_def fun_eq_iff)
  then have "content t = apply_writes (recover_writes r) (disk r)" using content_eq [OF v] by simp
  ultimately show "\<exists>ws. disk_writes t = disk_writes r @ ws
    \<and> (\<forall>k c' p' m. \<forall>q :: 'b logst_scheme. rebooted c' p' r (apply_writes (take k ws) (disk r)) q \<longrightarrow> m \<notin> log_area r \<longrightarrow>
        wp (recover_from_log q) (\<lambda>_ u. content u m = content t m))"
    using recover_again_wp [OF assms _ refl] by metis
qed

theorem recovery_restartable_witness:
  "recoverable 0 0 boot_log \<and> wp (recover_from_log boot_log) (\<lambda>_ t. \<exists>ws. disk_writes t = disk_writes boot_log @ ws)"
proof -
  have "wp (recover_from_log boot_log) (\<lambda>_ t. \<exists>ws. disk_writes t = disk_writes boot_log @ ws)"
    by (rule wp_mono [OF recovery_restartable [OF boot_log_recoverable]]) blast
  with boot_log_recoverable show ?thesis by blast
qed

text \<open>C21: \<open>log_write\<close> of a held block, while the log has room, enters the block in the header unless it is there
  already (repeated writes of a block take one slot), pins it in the cache and keeps the invariant of the log; neither
  the disk nor the contents of any block change.\<close>

theorem log_write_absorbs:
  fixes s :: "'a logst_scheme"
  assumes "log_inv c p h s" and "h b = Some n" and "n \<notin> log_area s" and "lh_count s < log_cap s" and "1 \<le> log_outstanding s"
  shows "wp (log_write b s) (\<lambda>_ t. log_inv c p h t \<and> content t = content s \<and> disk t = disk s \<and> pinned t = insert n (pinned s)
    \<and> lh_count t = (if n \<in> pinned s then lh_count s else lh_count s + 1))"
proof (rule wp_mono [OF log_write_wp [OF assms]])
  fix x t
  assume t: "log_inv c p h t \<and> content t = content s \<and> disk t = disk s
    \<and> pinned t = insert n (pinned s) \<and> log_lh t = add_block n (log_lh s) \<and> log_outstanding t = log_outstanding s
    \<and> bio_frame (s\<lparr>log_lh := log_lh t\<rparr>) t"
  have "lh_count t = (if n \<in> pinned s then lh_count s else lh_count s + 1)"
    using assms(1) t by (auto simp: log_inv_def lh_count_def add_block_def nat_add_distrib)
  with t show "log_inv c p h t \<and> content t = content s \<and> disk t = disk s \<and> pinned t = insert n (pinned s)
    \<and> lh_count t = (if n \<in> pinned s then lh_count s else lh_count s + 1)" by blast
qed

theorem log_write_absorbs_witness:
  "\<exists>b t. bread 1 50 demo_log = Ret b t \<and> log_inv 0 0 [b \<mapsto> 50] t \<and> lh_count t = 1
     \<and> wp (log_write b t) (\<lambda>_ u. lh_count u = 2 \<and> pinned u = {40, 50})"
proof -
  have "wp (bread 1 50 demo_log) (bread_post 0 0 Map.empty 50 demo_log)"
    by (rule bread_wp [OF demo_log_ok(1)]) (simp_all add: demo_log_ok NBUF_def)
  then obtain b t where t: "bread 1 50 demo_log = Ret b t" "bio_ok 0 0 [b \<mapsto> 50] t" "same_store demo_log t"
    by (auto simp: wp_Ret_iff bread_post_def)
  have I: "log_inv 0 0 [b \<mapsto> 50] t" by (rule log_inv_store [OF demo_log_inv t(2,3)])
  have f: "bio_frame demo_log t" "pinned t = {40}" using t(3) demo_log_ok by (simp_all add: same_store_def)
  have e: "lh_count t = 1" "log_cap t = 29" "log_outstanding t = 1" "log_area t = log_area demo_log"
    using log_frameD [OF f(1)] log_wf_frame [OF f(1)] demo_log_cap by (simp_all add: lh_count_def log_cap_def)
  have "(50 :: u32) \<notin> log_area t" using demo_log_area [of 50] e(4) by auto
  then have "wp (log_write b t) (\<lambda>_ u. lh_count u = 2 \<and> pinned u = {40, 50})"
    using log_write_absorbs [OF I, of b 50] e f(2) by (auto elim!: wp_mono)
  with t(1) I e(1) show ?thesis by blast
qed

text \<open>C22: \<open>begin_op\<close> waits while a commit is going on or the log could not hold another \<open>MAXOPBLOCKS\<close> blocks for each
  running call; otherwise it counts the call in, so that the blocks logged so far and \<open>MAXOPBLOCKS\<close> for each running call
  fit into the header.\<close>

theorem begin_op_reserves:
  fixes s :: "'a logst_scheme"
  assumes "quiet c p s" and "cpu_ncli (cpus s c) = 0"
  shows "(\<exists>t. begin_op s = Sleep ChLog t \<and> p_state (procs t p) = SLEEPING
      \<and> (log_committing s \<or> lh_n (log_lh s) + (log_outstanding s + 1) * int MAXOPBLOCKS > int LOGSIZE))
    \<or> (\<exists>t. begin_op s = Ret () t \<and> \<not> log_committing t \<and> log_outstanding t = log_outstanding s + 1 \<and> log_lh t = log_lh s
      \<and> lh_n (log_lh t) + log_outstanding t * int MAXOPBLOCKS \<le> int LOGSIZE)"
  using begin_op_eq [OF assms] by (auto simp: asleep_def upd_proc_def not_less)

theorem begin_op_reserves_witness:
  "quiet 0 0 demo_log \<and> cpu_ncli (cpus demo_log 0) = 0
   \<and> (\<exists>t. begin_op demo_log = Ret () t \<and> lh_n (log_lh t) + log_outstanding t * int MAXOPBLOCKS \<le> int LOGSIZE)"
proof -
  have n: "\<not> log_committing demo_log" "\<not> lh_n (log_lh demo_log) + (log_outstanding demo_log + 1) * int MAXOPBLOCKS > int LOGSIZE"
    by (simp_all add: MAXOPBLOCKS_def LOGSIZE_def)
  then have "\<exists>t. begin_op demo_log = Ret () t \<and> lh_n (log_lh t) + log_outstanding t * int MAXOPBLOCKS \<le> int LOGSIZE"
    using begin_op_reserves [OF demo_log_quiet] by blast
  then show ?thesis using demo_log_quiet by blast
qed

end
