(* ===== verification/Usermem.thy ===== *)
theory Usermem
  imports Proc
begin

text \<open>
  User memory as the kernel sees it. The kernel runs on the page table of the current process and
  dereferences user pointers directly; the paging hardware translates them, and a missing page traps into the
  page fault case of \<open>trap.c\<close>, which allocates pages of the heap lazily and lets the access be retried. This
  theory has the translation with its error codes, the page fault handler, and the loads and stores of kernel
  code through user pointers.
\<close>

section \<open>The paging hardware\<close>

text \<open>The translation of a user address by page directory \<open>pgdir\<close>: the place in memory (\<open>Inr\<close>), or the error
  code of the page fault (\<open>Inl\<close>): bit 0 for a protection violation on a present page, bit 1 for a write, bit 2
  for user mode. Write protection also holds in kernel mode (\<open>CR0_WP\<close> is set in \<open>entry.S\<close>).\<close>

definition fault_code :: "bool \<Rightarrow> bool \<Rightarrow> bool \<Rightarrow> u32" where
  "fault_code p w u = (if p then 1 else 0) OR (if w then 2 else 0) OR (if u then 4 else 0)"

definition translate :: "bool \<Rightarrow> bool \<Rightarrow> mem \<Rightarrow> u32 \<Rightarrow> u32 \<Rightarrow> u32 + u32" where
  "translate w u m pgdir va =
     (let pde = ld32 m (pgdir + 4 * PDX va) in
      if pde AND PTE_P = 0 then Inl (fault_code False w u)
      else
        let pte = ld32 m (P2V (PTE_ADDR pde) + 4 * PTX va) in
        if pte AND PTE_P = 0 then Inl (fault_code False w u)
        else if w \<and> (pde AND PTE_W = 0 \<or> pte AND PTE_W = 0) then Inl (fault_code True w u)
        else if u \<and> (pde AND PTE_U = 0 \<or> pte AND PTE_U = 0) then Inl (fault_code True w u)
        else Inr (P2V (PTE_ADDR pte) + va mod PGSIZE))"

section \<open>The page fault handler\<close>

text \<open>The case \<open>T_PGFLT\<close> of \<open>trap\<close>, for the address in register \<open>cr2\<close> and the error code. When no page is left
  the code goes on to clear the page at address 0.\<close>

definition pgflt :: "u32 \<Rightarrow> u32 \<Rightarrow> 'a ptab_scheme \<Rightarrow> (unit, 'a ptab_scheme) outcome" where
  "pgflt cr2 err s =
     (let va = PGROUNDDOWN cr2 in
      then_do (myproc s) (\<lambda>p s.
      case p of
        None \<Rightarrow> Fault ''trap: myproc()''
      | Some p \<Rightarrow>
        if err AND 7 = 7 then
          let s = klog_msg ''Page violation.Write type. Error code: %d'' s
          in Ret () (upd_proc p (p_killed_update (\<lambda>_. True)) s)
        else if va \<ge> p_sz (procs s p) \<and> err AND 6 \<noteq> 0 then
          let s = klog_msg ''Tried to access beyond sz, Error code: %d'' s
          in Ret () (upd_proc p (p_killed_update (\<lambda>_. True)) s)
        else if va < p_sz (procs s p) then
          then_do (kalloc s) (\<lambda>m s.
          if m = 0 then Fault ''trap: memset(0, 0, PGSIZE)''
          else
            let s = s\<lparr>mem := memset (mem s) m 0 PGSIZE\<rparr> in
            then_do (mappages (p_pgdir (procs s p)) (PGROUNDDOWN cr2) PGSIZE (V2P m) (PTE_W OR PTE_U) s) (\<lambda>r s.
            then_do (if r \<noteq> 0 then
                let s = klog_msg ''usertrap(): mappages fallo'' s in
                then_do (kfree m s) (\<lambda>_ s.
                Ret () (upd_proc p (p_killed_update (\<lambda>_. True)) s))
              else Ret () s) (\<lambda>_ s.
            Ret () (s\<lparr>cr3 := V2P (p_pgdir (procs s p))\<rparr>))))
        else Ret () s))"

section \<open>Loads and stores of kernel code\<close>

text \<open>An access that faults is retried after the handler; when the page is still missing then, the same
  fault repeats for ever.\<close>

definition kaccess :: "bool \<Rightarrow> u32 \<Rightarrow> 'a ptab_scheme \<Rightarrow> (u32, 'a ptab_scheme) outcome" where
  "kaccess w va s =
     (if va \<ge> KERNBASE then Ret va s
      else case translate w False (mem s) (P2V (cr3 s)) va of
        Inr a \<Rightarrow> Ret a s
      | Inl err \<Rightarrow>
        then_do (pgflt va err s) (\<lambda>_ s.
        case translate w False (mem s) (P2V (cr3 s)) va of
          Inr a \<Rightarrow> Ret a s
        | Inl _ \<Rightarrow> Diverge))"

definition kload :: "u32 \<Rightarrow> 'a ptab_scheme \<Rightarrow> (u8, 'a ptab_scheme) outcome" where
  "kload va s = then_do (kaccess False va s) (\<lambda>a s. Ret (mem s a) s)"

definition kstore :: "u32 \<Rightarrow> u8 \<Rightarrow> 'a ptab_scheme \<Rightarrow> (unit, 'a ptab_scheme) outcome" where
  "kstore va b s = then_do (kaccess True va s) (\<lambda>a s. Ret () (s\<lparr>mem := (mem s)(a := b)\<rparr>))"

primrec kload_bytes :: "nat \<Rightarrow> u32 \<Rightarrow> 'a ptab_scheme \<Rightarrow> (u8 list, 'a ptab_scheme) outcome" where
  "kload_bytes 0 va s = Ret [] s"
| "kload_bytes (Suc n) va s =
     then_do (kload va s) (\<lambda>b s.
     then_do (kload_bytes n (va + 1) s) (\<lambda>bs s. Ret (b # bs) s))"

primrec kstore_bytes :: "u8 list \<Rightarrow> u32 \<Rightarrow> 'a ptab_scheme \<Rightarrow> (unit, 'a ptab_scheme) outcome" where
  "kstore_bytes [] va s = Ret () s"
| "kstore_bytes (b # bs) va s =
     then_do (kstore va b s) (\<lambda>_ s. kstore_bytes bs (va + 1) s)"

end
