(* ===== verification/Lazyalloc.thy ===== *)
theory Lazyalloc
  imports Usermem Pagetable Sleeplock
begin

text \<open>
  Lazy allocation of user memory: \<open>sbrk\<close> only moves the end of the address space, and the first access to a page
  below it traps into the page fault case of \<open>trap\<close>. The handler is proved to supply the page, to leave everything
  else alone, and to make the access succeed; and its behaviour on a page that is present but not accessible, such
  as the guard page below the user stack, is established.
\<close>

section \<open>The state\<close>

text \<open>Process \<open>p\<close> runs on CPU \<open>c\<close> with its own page directory, which is sound; \<open>ps\<close> are the free pages.\<close>

definition lazy_ok :: "nat \<Rightarrow> nat \<Rightarrow> u32 list \<Rightarrow> 'a ptab_scheme \<Rightarrow> bool" where
  "lazy_ok c p ps s \<longleftrightarrow> calm c s \<and> cpu_proc (cpus s c) = Some p \<and> user_inv c s ps (p_pgdir (procs s p))
     \<and> p_sz (procs s p) \<le> KERNBASE \<and> cr3 s = V2P (p_pgdir (procs s p))"

lemma vm_frame_procs:
  fixes s t :: "'a ptab_scheme"
  assumes "vm_frame s t"
  shows "procs t = procs s" "klog t = klog s" "cr3 t = cr3 s"
  using arg_cong [OF assms [unfolded vm_frame_def], of procs] arg_cong [OF assms [unfolded vm_frame_def], of klog]
    arg_cong [OF assms [unfolded vm_frame_def], of cr3] by simp_all

lemma translate_read:
  "translate False False m pgdir va = (case mapping m pgdir va of
     Some e \<Rightarrow> Inr (frame_of e + va mod PGSIZE) | None \<Rightarrow> Inl 0)"
  by (simp add: translate_def mapping_def pt_at_def present_def entry_def frame_of_def fault_code_def Let_def)

lemma page_offset_aligned:
  assumes "page_aligned a"
  shows "PGROUNDDOWN (a + va mod PGSIZE) = a"
proof -
  have "unat (va mod PGSIZE) < 4096" by (simp add: PGSIZE_def unat_mod)
  from PGROUNDDOWN_page_add [OF assms this] show ?thesis by simp
qed

lemma user_inv_upd_proc [simp]: "user_inv c (upd_proc q f s) ps pgdir = user_inv c s ps pgdir"
proof -
  have k: "kpage (upd_proc q f s) = kpage s" by (simp add: kpage_def upd_proc_def fun_eq_iff)
  have "kmem_inv c (upd_proc q f s) ps = kmem_inv c s ps"
    unfolding kmem_inv_def k by (simp add: upd_proc_def calm_def cpu_ok_def this_cpu_def lock_free_def)
  moreover have "mem (upd_proc q f s) = mem s" by (simp add: upd_proc_def)
  ultimately show ?thesis by (simp add: user_inv_def vm_inv_def k)
qed

lemma lazy_ok_frame:
  fixes s t :: "'a ptab_scheme"
  assumes "lazy_ok c p ps s" and "vm_frame s t" and "user_inv c t ps' (p_pgdir (procs s p))"
  shows "lazy_ok c p ps' t"
  using assms vm_frame_procs [OF assms(2)] same_coreD [OF vm_frame_fields(1) [OF assms(2)]]
  by (simp add: lazy_ok_def)

section \<open>The handler\<close>

lemma wp_conjI: "wp m P \<Longrightarrow> wp m Q \<Longrightarrow> wp m (\<lambda>x s. P x s \<and> Q x s)"
  by (cases m) auto

text \<open>With a free page left for a page table, mapping one page cannot fail.\<close>

lemma mappages_page_succeeds:
  fixes s :: "'a kmem_scheme"
  assumes inv: "vm_inv c s ps pgdir" and a: "page_aligned a" and none: "mapping (mem s) pgdir a = None" and "ps \<noteq> []"
  shows "wp (mappages pgdir a PGSIZE pa perm s) (\<lambda>r _. r = 0)"
proof -
  have "PGROUNDDOWN (a + PGSIZE - 1) = a" "PGROUNDDOWN a = a"
    using PGROUNDDOWN_page_add [OF a, of 4095] PGROUNDDOWN_aligned [OF a] by (simp_all add: PGSIZE_def add.commute)
  then have m: "mappages pgdir a PGSIZE pa perm s = mappages_loop (Suc 0) pgdir a a pa perm s" by (simp add: mappages_def Let_def del: mappages_loop.simps)
  show ?thesis
    unfolding m mappages_loop.simps wp_then_do
  proof (rule wp_mono [OF mappages_step [OF inv a none present_flags [of pa perm]]])
    fix pte and t :: "'a kmem_scheme"
    assume "step_post c pgdir ps s a (pa OR perm OR PTE_P) pte t"
    then show "wp (if pte = 0 then Ret (- 1) t else if ld32 (mem t) pte AND PTE_P \<noteq> 0 then Panic ''remap''
      else let s = t\<lparr>mem := st32 (mem t) pte (pa OR perm OR PTE_P)\<rparr>
        in if a = a then Ret 0 s else Diverge) (\<lambda>r _. r = 0)"
      using assms(4) by (auto simp: step_post_def split: if_splits)
  qed
qed

text \<open>What the handler leaves: a new zero page where the fault was, or the process marked to be killed.\<close>

definition paged_in :: "nat \<Rightarrow> nat \<Rightarrow> u32 list \<Rightarrow> 'a ptab_scheme \<Rightarrow> u32 \<Rightarrow> 'a ptab_scheme \<Rightarrow> bool" where
  "paged_in c p ps s va t \<longleftrightarrow> (\<exists>ps'. lazy_ok c p ps' t
     \<and> grown c (p_pgdir (procs s p)) ps s (\<lambda>vb. PGROUNDDOWN vb = PGROUNDDOWN va) t ps')"

definition refused :: "nat \<Rightarrow> nat \<Rightarrow> 'a ptab_scheme \<Rightarrow> 'a ptab_scheme \<Rightarrow> bool" where
  "refused c p s t \<longleftrightarrow> p_killed (procs t p) \<and> (\<exists>ps'. lazy_ok c p ps' t)
     \<and> (\<forall>vb. mapping (mem t) (p_pgdir (procs s p)) vb = mapping (mem s) (p_pgdir (procs s p)) vb)"

lemma refusedI:
  assumes "lazy_ok c p ps t" and "procs t p = procs s p" and "\<And>vb. mapping (mem t) (p_pgdir (procs s p)) vb = mapping (mem s) (p_pgdir (procs s p)) vb"
  shows "refused c p s (upd_proc p (p_killed_update (\<lambda>_. True)) t)"
proof -
  have "lazy_ok c p ps (upd_proc p (p_killed_update (\<lambda>_. True)) t)"
    using assms(1) by (simp add: lazy_ok_def) (simp add: upd_proc_def calm_def cpu_ok_def this_cpu_def)
  then show ?thesis using assms(3) by (auto simp: refused_def upd_proc_def)
qed

lemma lazy_ok_klog [simp]: "lazy_ok c p ps (klog_msg msg s) = lazy_ok c p ps s"
  by (simp add: lazy_ok_def) (simp add: klog_msg_def calm_def cpu_ok_def this_cpu_def)

lemma pgflt_wp:
  fixes s :: "'a ptab_scheme"
  assumes ok: "lazy_ok c p (m # ps) s" and va: "va < p_sz (procs s p)" and none: "mapping (mem s) (p_pgdir (procs s p)) va = None"
    and err: "err AND 7 \<noteq> 7"
  shows "wp (pgflt va err s) (\<lambda>_ t. paged_in c p (m # ps) s va t \<or> refused c p s t \<and> ps = [])"
proof -
  let ?pg = "p_pgdir (procs s p)" and ?a = "PGROUNDDOWN va"
  let ?s1 = "s\<lparr>freelist := ld32 (mem s) m, mem := memset (mem s) m 0 PGSIZE\<rparr>"
  have inv: "user_inv c s (m # ps) ?pg" and sz: "p_sz (procs s p) \<le> KERNBASE" and c3: "cr3 s = V2P ?pg"
    and my: "myproc s = Ret (Some p) s" using ok myproc_calm [of c s] by (simp_all add: lazy_ok_def)
  note al = user_inv_alloc [OF inv]
  have le: "?a \<le> va" by (simp add: PGROUNDDOWN_def word_and_le2)
  then have a: "?a < p_sz (procs s p)" "?a < KERNBASE" using va sz by (auto intro: order.strict_trans1 order.strict_trans2)
  have na: "mapping (mem s) ?pg ?a = None" using none mapping_page [of va ?a "mem s" ?pg] by simp
  have K: "kalloc s = Ret m (s\<lparr>freelist := ld32 (mem s) m\<rparr>)" "m \<noteq> 0" using al by simp_all
  have "wp (mappages ?pg ?a PGSIZE (V2P m) (PTE_W OR PTE_U) ?s1) (\<lambda>r t. ps \<noteq> [] \<longrightarrow> r = 0)"
  proof (cases "ps = []")
    case False
    have "wp (mappages ?pg ?a PGSIZE (V2P m) (PTE_W OR PTE_U) ?s1) (\<lambda>r _. r = 0)"
      by (rule mappages_page_succeeds [OF _ _ _ False, of c]) (use al na in \<open>simp_all add: user_inv_def\<close>)
    then show ?thesis by (auto elim!: wp_mono)
  next
    case True
    then show ?thesis using grow_one [OF inv _ a(2) na] by (auto elim!: wp_mono)
  qed
  then have G: "wp (mappages ?pg ?a PGSIZE (V2P m) (PTE_W OR PTE_U) ?s1) (\<lambda>r t.
    (r = 0 \<and> (\<exists>ps'. grown c ?pg (m # ps) s (\<lambda>va. PGROUNDDOWN va = ?a) t ps')
    \<or> r = - 1 \<and> fresh t [] ?pg m \<and> grown c ?pg (m # ps) s (\<lambda>_. False) t []) \<and> (ps \<noteq> [] \<longrightarrow> r = 0))"
    by (intro wp_conjI grow_one [OF inv _ a(2) na]) simp_all
  have "wp (then_do (mappages ?pg ?a PGSIZE (V2P m) (PTE_W OR PTE_U) ?s1) (\<lambda>r s.
            then_do (if r \<noteq> 0 then
                let s = klog_msg ''usertrap(): mappages fallo'' s in
                then_do (kfree m s) (\<lambda>_ s.
                Ret () (upd_proc p (p_killed_update (\<lambda>_. True)) s))
              else Ret () s) (\<lambda>_ s.
            Ret () (s\<lparr>cr3 := V2P (p_pgdir (procs s p))\<rparr>))))
      (\<lambda>_ t. paged_in c p (m # ps) s va t \<or> refused c p s t \<and> ps = [])"
    unfolding wp_then_do
  proof (rule wp_mono [OF G])
    fix r :: int and t :: "'a ptab_scheme"
    assume "(r = 0 \<and> (\<exists>ps'. grown c ?pg (m # ps) s (\<lambda>va. PGROUNDDOWN va = ?a) t ps')
      \<or> r = - 1 \<and> fresh t [] ?pg m \<and> grown c ?pg (m # ps) s (\<lambda>_. False) t []) \<and> (ps \<noteq> [] \<longrightarrow> r = 0)"
    then show "wp (if r \<noteq> 0 then let s = klog_msg ''usertrap(): mappages fallo'' t in
                then_do (kfree m s) (\<lambda>_ s. Ret () (upd_proc p (p_killed_update (\<lambda>_. True)) s)) else Ret () t)
      (\<lambda>_ u. wp (Ret () (u\<lparr>cr3 := V2P (p_pgdir (procs u p))\<rparr>)) (\<lambda>_ t. paged_in c p (m # ps) s va t \<or> refused c p s t \<and> ps = []))"
    proof (elim disjE conjE exE)
      fix ps'
      assume r: "r = 0" and g: "grown c ?pg (m # ps) s (\<lambda>va. PGROUNDDOWN va = ?a) t ps'"
      then have f: "vm_frame s t" "user_inv c t ps' ?pg" by (simp_all add: grown_def)
      have "t\<lparr>cr3 := V2P (p_pgdir (procs t p))\<rparr> = t" using vm_frame_procs [OF f(1)] c3 by simp
      moreover have "paged_in c p (m # ps) s va t" using lazy_ok_frame [OF ok f] g by (auto simp: paged_in_def)
      ultimately show ?thesis using r by simp
    next
      assume e: "ps \<noteq> [] \<longrightarrow> r = 0" and r: "r = - 1" and fm: "fresh t [] ?pg m" and g: "grown c ?pg (m # ps) s (\<lambda>_. False) t []"
      let ?t = "klog_msg ''usertrap(): mappages fallo'' t"
      let ?u = "kfreed m ?t"
      have f: "vm_frame s t" "user_inv c t [] ?pg" "\<And>vb. mapping (mem t) ?pg vb = mapping (mem s) ?pg vb" using g by (simp_all add: grown_def)
      have k: "kfree m ?t = Ret () ?u" "user_inv c ?u [m] ?pg" "\<And>vb. mapping (mem ?u) ?pg vb = mapping (mem t) ?pg vb" "vm_frame ?t ?u"
        using user_inv_kfreed [of c ?t "[]" ?pg m] f(2) fm by simp_all
      have lt: "lazy_ok c p [] ?t" "procs ?t = procs s" "cr3 ?t = cr3 s"
        using lazy_ok_frame [OF ok f(1,2)] vm_frame_procs [OF f(1)] by (simp, simp_all add: klog_msg_def)
      have lu: "lazy_ok c p [m] ?u" "procs ?u = procs s" "cr3 ?u = cr3 s"
        using lazy_ok_frame [OF lt(1) k(4)] k(2) vm_frame_procs [OF k(4)] lt(2,3) by simp_all
      let ?v = "upd_proc p (p_killed_update (\<lambda>_. True)) ?u"
      have "refused c p s ?v" using lu f(3) k(3) by (intro refusedI [OF lu(1)]) simp_all
      moreover have "?v\<lparr>cr3 := V2P (p_pgdir (procs ?v p))\<rparr> = ?v" using lu c3 by (simp add: upd_proc_def)
      ultimately show ?thesis using e r k(1) by (simp add: Let_def)
    qed
  qed
  moreover have "\<not> p_sz (procs s p) \<le> ?a" using a by simp
  ultimately show ?thesis
    using my err K a(1) by (simp add: pgflt_def Let_def)
qed

section \<open>Accesses of the kernel\<close>

lemma kload_wp:
  fixes s :: "'a ptab_scheme"
  assumes ok: "lazy_ok c p (m # m' # ps) s" and va: "va < p_sz (procs s p)" and none: "mapping (mem s) (p_pgdir (procs s p)) va = None"
  shows "wp (kload va s) (\<lambda>b t. b = 0 \<and> paged_in c p (m # m' # ps) s va t)"
proof -
  let ?pg = "p_pgdir (procs s p)"
  have c3: "P2V (cr3 s) = ?pg" and "va < KERNBASE" using ok va by (auto simp: lazy_ok_def)
  then have k: "\<not> KERNBASE \<le> va" by simp
  have tr: "translate False False (mem s) (P2V (cr3 s)) va = Inl 0" by (simp add: translate_read c3 none)
  have "wp (pgflt va 0 s) (\<lambda>_ t. paged_in c p (m # m' # ps) s va t)"
    using pgflt_wp [OF ok va none, of 0] by (auto elim!: wp_mono)
  then have "wp (pgflt va 0 s) (\<lambda>_ t. wp (case translate False False (mem t) (P2V (cr3 t)) va of Inr a \<Rightarrow> Ret a t | Inl _ \<Rightarrow> Diverge)
      (\<lambda>a t. mem t a = 0 \<and> paged_in c p (m # m' # ps) s va t))"
  proof (rule wp_mono)
    fix x t
    assume t: "paged_in c p (m # m' # ps) s va t"
    then obtain ps' where g: "grown c ?pg (m # m' # ps) s (\<lambda>vb. PGROUNDDOWN vb = PGROUNDDOWN va) t ps'" and lo: "lazy_ok c p ps' t"
      by (auto simp: paged_in_def)
    obtain e where e: "mapping (mem t) ?pg va = Some e" "\<And>x. PGROUNDDOWN x = frame_of e \<Longrightarrow> mem t x = 0"
      using grown_new [OF g] by metis
    have "vm_frame s t" using g by (simp add: grown_def)
    from vm_frame_procs [OF this] have "P2V (cr3 t) = ?pg" using c3 by simp
    then show "wp (case translate False False (mem t) (P2V (cr3 t)) va of Inr a \<Rightarrow> Ret a t | Inl _ \<Rightarrow> Diverge)
        (\<lambda>a t. mem t a = 0 \<and> paged_in c p (m # m' # ps) s va t)"
      using e t page_offset_aligned [of "frame_of e" va] by (simp add: translate_read)
  qed
  then show ?thesis using k tr by (simp add: kload_def kaccess_def)
qed

section \<open>A page that is present but not accessible\<close>

lemma mappages_remap:
  assumes "pt_at (mem s) pgdir (PDX a) = Some tb" and "ld32 (mem s) (tb + 4 * PTX a) AND PTE_P \<noteq> 0" and "tb + 4 * PTX a \<noteq> 0"
    and "page_aligned a"
  shows "mappages pgdir a sz pa perm s = Panic ''remap''"
  using assms PGROUNDDOWN_aligned [OF assms(4)] by (simp add: mappages_def walkpgdir_existing)

lemma translate_protected:
  assumes "translate False True m pgdir va = Inl 5"
  shows "mapping m pgdir va \<noteq> None"
  using assms by (auto simp: translate_def mapping_def pt_at_def present_def entry_def fault_code_def Let_def split: if_splits)

lemma pgflt_present:
  fixes s :: "'a ptab_scheme"
  assumes ok: "lazy_ok c p (m # ps) s" and va: "va < p_sz (procs s p)" and some: "mapping (mem s) (p_pgdir (procs s p)) va \<noteq> None"
    and err: "err AND 7 \<noteq> 7"
  shows "pgflt va err s = Panic ''remap''"
proof -
  let ?pg = "p_pgdir (procs s p)" and ?a = "PGROUNDDOWN va"
  let ?s1 = "s\<lparr>freelist := ld32 (mem s) m, mem := memset (mem s) m 0 PGSIZE\<rparr>"
  have inv: "user_inv c s (m # ps) ?pg" and my: "myproc s = Ret (Some p) s" using ok myproc_calm [of c s] by (simp_all add: lazy_ok_def)
  note al = user_inv_alloc [OF inv]
  have "?a \<le> va" by (simp add: PGROUNDDOWN_def word_and_le2)
  then have a: "?a < p_sz (procs s p)" using va by (auto intro: order.strict_trans1)
  have "mapping (mem ?s1) ?pg ?a \<noteq> None" using some al mapping_page [of va ?a "mem s" ?pg] by simp
  then obtain tb where tb: "pt_at (mem ?s1) ?pg (PDX ?a) = Some tb" "ld32 (mem ?s1) (tb + 4 * PTX ?a) AND PTE_P \<noteq> 0"
    by (auto simp: mapping_def present_def entry_def split: option.splits if_splits)
  have vm: "vm_inv c ?s1 ps ?pg" using al by (simp add: user_inv_def)
  have "tb + 4 * PTX ?a \<noteq> 0" by (rule table_word_nonzero [OF vm pt_at_tables [OF tb(1)]]) simp_all
  then have "mappages ?pg ?a PGSIZE (V2P m) (PTE_W OR PTE_U) ?s1 = Panic ''remap''" using tb by (intro mappages_remap) simp_all
  moreover have "\<not> p_sz (procs s p) \<le> ?a" using a by simp
  ultimately show ?thesis using my err a al by (simp add: pgflt_def Let_def)
qed

section \<open>A concrete machine\<close>

text \<open>A process of four pages, of which the first is present without user access and the others are not there yet;
  two pages are free.\<close>

definition guard_mem :: mem where
  "guard_mem = st32 (st32 (st32 (\<lambda>_. 0) 0x80300000 0x80301000) 0x80200000 0x202007) 0x80202000 0x203003"

definition guard_ptab :: ptab where
  "guard_ptab = run_ptab\<lparr>mem := guard_mem, freelist := 0x80300000, cr3 := 0x200000,
     procs := (\<lambda>i. (procs run_ptab i)\<lparr>p_sz := 0x4000\<rparr>)\<rparr>"

lemma guard_simps [simp]:
  "mem guard_ptab = guard_mem" "freelist guard_ptab = 0x80300000" "cr3 guard_ptab = 0x200000" "p_sz (procs guard_ptab i) = 0x4000"
  "p_pgdir (procs guard_ptab i) = 0x80200000" "cpus guard_ptab = cpus run_ptab" "kend guard_ptab = 0x80110000"
  by (simp_all add: guard_ptab_def demo_proc_def run_ptab_def demo_ptab_def vmst.defs kmem.defs idle_kmem_def)

lemma entry_st32_first: "page_aligned p \<Longrightarrow> page_aligned q \<Longrightarrow> j < 1024 \<Longrightarrow> entry (st32 m p v) q j = (if p = q \<and> j = 0 then v else entry m q j)"
  using entry_st32 [of p q 0 j m v] by auto

lemma entry_zero: "entry (\<lambda>_. 0) p j = 0"
  by (simp add: entry_def ld32_def)

lemma guard_entry: "j < 1024 \<Longrightarrow> entry guard_mem 0x80200000 j = (if j = 0 then 0x202007 else 0)"
  "j < 1024 \<Longrightarrow> entry guard_mem 0x80202000 j = (if j = 0 then 0x203003 else 0)"
  by (simp_all add: guard_mem_def entry_st32_first demo_vm_page entry_zero)

lemma guard_pt: "i < 1024 \<Longrightarrow> pt_at guard_mem 0x80200000 i = (if i = 0 then Some 0x80202000 else None)"
  by (simp add: pt_at_def guard_entry PTE_P_def PTE_ADDR_def P2V_def KERNBASE_def)

lemma guard_mapping: "mapping guard_mem 0x80200000 va = (if PDX va = 0 \<and> PTX va = 0 then Some 0x203003 else None)"
  by (simp add: mapping_def guard_pt guard_entry present_def PTE_P_def)

lemma guard_tables: "tables guard_mem 0x80200000 = {0x80200000, 0x80202000}"
proof -
  have "(\<exists>i<1024. pt_at guard_mem 0x80200000 i = Some t) \<longleftrightarrow> t = 0x80202000" for t
    using guard_pt [of 0] by (auto simp: guard_pt intro!: exI [of _ 0] split: if_splits)
  then show ?thesis by (auto simp: tables_def)
qed

lemma guard_kpage: "kpage guard_ptab v \<longleftrightarrow> v mod 4096 = 0 \<and> 0x80110000 \<le> v \<and> V2P v < PHYSTOP"
  by (simp add: kpage_def demo_vm_page)

lemma guard_frame: "frame_of 0x203003 = 0x80203000"
  by (simp add: frame_of_def PTE_ADDR_def P2V_def KERNBASE_def)

lemma guard_calm: "calm 0 guard_ptab" "lock_free lk guard_ptab"
  using quiet_run quietD(1,2) [of 0 0 run_slst]
  by (simp_all add: guard_ptab_def calm_def cpu_ok_def this_cpu_def find_idx_Some lock_free_def run_ptab_def idle_kmem_def)

lemma guard_lazy_ok: "lazy_ok 0 0 [0x80300000, 0x80301000] guard_ptab"
proof -
  have "ld32 guard_mem 0x80300000 = 0x80301000" "ld32 guard_mem 0x80301000 = 0"
    using entry_st32_first [of "0x80202000" _ 0] entry_st32_first [of "0x80200000" _ 0] entry_st32_first [of "0x80300000" _ 0]
    by (simp_all add: guard_mem_def entry_def demo_vm_page) (simp add: ld32_def)
  then have "kmem_inv 0 guard_ptab [0x80300000, 0x80301000]"
    by (simp add: kmem_inv_def guard_calm guard_kpage V2P_def KERNBASE_def PHYSTOP_def)
  moreover have "pdir_ok guard_mem 0x80200000" by (auto simp: pdir_ok_def guard_pt demo_vm_page split: if_splits)
  moreover have "frames_inj guard_mem 0x80200000"
    using same_page_iff by (fastforce simp: frames_inj_def guard_mapping split: if_splits)
  ultimately have "user_inv 0 guard_ptab [0x80300000, 0x80301000] 0x80200000"
    by (auto simp: user_inv_def vm_inv_def guard_tables guard_mapping guard_frame guard_kpage V2P_def KERNBASE_def PHYSTOP_def split: if_splits)
  then show ?thesis
    by (simp add: lazy_ok_def guard_calm V2P_def KERNBASE_def)
qed

section \<open>Properties\<close>

text \<open>C12: the first read of a page below the process's size that has no frame yet faults into the page-fault
  handler and, with two free pages, returns 0: the page is mapped, every other mapping and the soundness of the address
  space are kept.\<close>

theorem lazy_first_read:
  assumes "lazy_ok c p (m # m' # ps) s" and "va < p_sz (procs s p)" and "mapping (mem s) (p_pgdir (procs s p)) va = None"
  shows "wp (kload va s) (\<lambda>b t. b = 0 \<and> paged_in c p (m # m' # ps) s va t)"
  using assms by (rule kload_wp)

theorem lazy_first_read_witness:
  "wp (kload 0x1234 guard_ptab) (\<lambda>b t. b = 0 \<and> paged_in 0 0 [0x80300000, 0x80301000] guard_ptab 0x1234 t)"
  by (rule lazy_first_read [OF guard_lazy_ok]) (simp_all add: guard_mapping PDX_def PTX_def)

text \<open>C19: a fault on a page below the size of the process that is present but closed to the program, as the guard
  page below the stack that \<open>exec\<close> leaves. A write by the program (error code 7) is reported and kills the
  process, and nothing else changes. Any other fault, as a read by the program, is handled as if the page
  were missing: when a page is free, the handler allocates it as the frame and the kernel panics with
  \<open>remap\<close>.\<close>

theorem guard_page_panics:
  assumes "lazy_ok c p (m # ps) s" and "va < p_sz (procs s p)" and "mapping (mem s) (p_pgdir (procs s p)) va \<noteq> None"
  shows "pgflt va err s = (if err AND 7 = 7
    then Ret () (upd_proc p (p_killed_update (\<lambda>_. True)) (klog_msg ''Page violation.Write type. Error code: %d'' s))
    else Panic ''remap'')"
proof (cases "err AND 7 = 7")
  case True
  have "myproc s = Ret (Some p) s" using assms(1) myproc_calm [of c s] by (simp add: lazy_ok_def)
  with True show ?thesis by (simp add: pgflt_def)
next
  case False
  then show ?thesis using pgflt_present [OF assms] by simp
qed

theorem guard_page_panics_witness:
  "pgflt 0x10 5 guard_ptab = Panic ''remap''
   \<and> pgflt 0x10 7 guard_ptab = Ret () (upd_proc 0 (p_killed_update (\<lambda>_. True))
       (klog_msg ''Page violation.Write type. Error code: %d'' guard_ptab))"
  by (intro conjI; subst guard_page_panics [OF guard_lazy_ok]) (simp_all add: guard_mapping PDX_def PTX_def)

end
