(* ===== verification/Inode.thy ===== *)
theory Inode
  imports Log
begin

text \<open>
  The lower layers of \<open>fs.c\<close>: the block allocator on the free bitmap, and the inode cache with allocation,
  locking, reference counting, block mapping and truncation of inodes. Inodes are numbered by their
  place in \<open>icache.inode\<close>; an on-disk inode is read and written by the offsets of the fields of \<open>struct
  dinode\<close> in its block.
\<close>

section \<open>State\<close>

definition ROOTINO :: u32 where "ROOTINO = 1"
definition ROOTDEV :: u32 where "ROOTDEV = 1"
definition NINODE :: nat where "NINODE = 50"
definition NDIRECT :: nat where "NDIRECT = 12"
definition NINDIRECT :: nat where "NINDIRECT = BSIZE div 4"
definition MAXFILE :: nat where "MAXFILE = NDIRECT + NINDIRECT"
definition sizeof_dinode :: nat where "sizeof_dinode = 64"
definition IPB :: nat where "IPB = BSIZE div sizeof_dinode"
definition BPB :: nat where "BPB = BSIZE * 8"

definition T_DIR :: u16 where "T_DIR = 1"
definition T_FILE :: u16 where "T_FILE = 2"
definition T_DEV :: u16 where "T_DEV = 3"

record inode =
  i_dev :: u32
  i_inum :: u32
  i_ref :: int
  i_valid :: bool
  i_type :: u16
  i_major :: u16
  i_minor :: u16
  i_nlink :: u16
  i_size :: u32
  i_addrs :: "nat \<Rightarrow> u32"

record icst = logst +
  inodes :: "nat \<Rightarrow> inode"
  sb :: superblock

definition upd_inode :: "nat \<Rightarrow> (inode \<Rightarrow> inode) \<Rightarrow> 'a icst_scheme \<Rightarrow> 'a icst_scheme" where
  "upd_inode i f s = s\<lparr>inodes := (inodes s)(i := f (inodes s i))\<rparr>"

definition IBLOCK :: "u32 \<Rightarrow> superblock \<Rightarrow> u32" where
  "IBLOCK i sblk = i div of_nat IPB + sb_inodestart sblk"

definition BBLOCK :: "u32 \<Rightarrow> superblock \<Rightarrow> u32" where
  "BBLOCK b sblk = b div of_nat BPB + sb_bmapstart sblk"

section \<open>Blocks\<close>

definition bzero :: "u32 \<Rightarrow> u32 \<Rightarrow> 'a icst_scheme \<Rightarrow> (unit, 'a icst_scheme) outcome" where
  "bzero dev bno s =
     then_do (bread dev bno s) (\<lambda>bp s.
     let s = upd_buf bp (b_data_update (\<lambda>_. replicate BSIZE 0)) s in
     then_do (log_write bp s) (\<lambda>_ s.
     brelse bp s))"

primrec balloc_scan :: "nat list \<Rightarrow> u32 \<Rightarrow> u32 \<Rightarrow> u8 list \<Rightarrow> nat option" where
  "balloc_scan [] b sz d = None"
| "balloc_scan (bi # bis) b sz d =
     (if \<not> b + of_nat bi < sz then None
      else if d ! (bi div 8) AND push_bit (bi mod 8) 1 = 0 then Some bi
      else balloc_scan bis b sz d)"

fun balloc_loop :: "nat \<Rightarrow> u32 \<Rightarrow> u32 \<Rightarrow> 'a icst_scheme \<Rightarrow> (u32, 'a icst_scheme) outcome" where
  "balloc_loop 0 dev b s = Diverge"
| "balloc_loop (Suc fuel) dev b s =
     (if \<not> b < sb_size (sb s) then Panic ''balloc: out of blocks''
      else
        then_do (bread dev (BBLOCK b (sb s)) s) (\<lambda>bp s.
        case balloc_scan [0..<BPB] b (sb_size (sb s)) (b_data (bufs s bp)) of
          Some bi \<Rightarrow>
            let m = push_bit (bi mod 8) 1;
                s = upd_buf bp (\<lambda>x. x\<lparr>b_data := (b_data x)[bi div 8 := b_data x ! (bi div 8) OR m]\<rparr>) s in
            then_do (log_write bp s) (\<lambda>_ s.
            then_do (brelse bp s) (\<lambda>_ s.
            then_do (bzero dev (b + of_nat bi) s) (\<lambda>_ s.
            Ret (b + of_nat bi) s)))
        | None \<Rightarrow>
            then_do (brelse bp s) (\<lambda>_ s. balloc_loop fuel dev (b + of_nat BPB) s)))"

definition balloc :: "u32 \<Rightarrow> 'a icst_scheme \<Rightarrow> (u32, 'a icst_scheme) outcome" where
  "balloc dev s = balloc_loop (unat (sb_size (sb s)) div BPB + 2) dev 0 s"

definition bfree :: "u32 \<Rightarrow> u32 \<Rightarrow> 'a icst_scheme \<Rightarrow> (unit, 'a icst_scheme) outcome" where
  "bfree dev b s =
     then_do (readsb dev s) (\<lambda>sblk s.
     let s = s\<lparr>sb := sblk\<rparr> in
     then_do (bread dev (BBLOCK b (sb s)) s) (\<lambda>bp s.
     let bi = unat (b mod of_nat BPB);
         m = push_bit (bi mod 8) 1 in
     if b_data (bufs s bp) ! (bi div 8) AND m = 0 then Panic ''freeing free block''
     else
       let s = upd_buf bp (\<lambda>x. x\<lparr>b_data := (b_data x)[bi div 8 := b_data x ! (bi div 8) AND NOT m]\<rparr>) s in
       then_do (log_write bp s) (\<lambda>_ s.
       brelse bp s)))"

section \<open>Inodes\<close>

definition iinit :: "u32 \<Rightarrow> 'a icst_scheme \<Rightarrow> (unit, 'a icst_scheme) outcome" where
  "iinit dev s =
     (let s = initlock IcacheLock s in
      then_do (for_each (\<lambda>i s. Ret () (initsleeplock (InodeSL i) s)) [0..<NINODE] s) (\<lambda>_ s.
      then_do (readsb dev s) (\<lambda>sblk s.
      let s = s\<lparr>sb := sblk\<rparr> in
      Ret () (klog_msg ''sb: size %d nblocks %d ninodes %d nlog %d logstart %d inodestart %d bmap start %d'' s))))"

text \<open>The scan of \<open>iget\<close>: the entry that holds the inode, else the first free one.\<close>

definition iget :: "u32 \<Rightarrow> u32 \<Rightarrow> 'a icst_scheme \<Rightarrow> (nat, 'a icst_scheme) outcome" where
  "iget dev inum s =
     then_do (acquire IcacheLock s) (\<lambda>_ s.
     case find_idx (\<lambda>i. i_ref (inodes s i) > 0 \<and> i_dev (inodes s i) = dev \<and> i_inum (inodes s i) = inum) NINODE of
       Some ip \<Rightarrow>
         let s = upd_inode ip (\<lambda>x. x\<lparr>i_ref := i_ref x + 1\<rparr>) s in
         then_do (release IcacheLock s) (\<lambda>_ s. Ret ip s)
     | None \<Rightarrow>
         (case find_idx (\<lambda>i. i_ref (inodes s i) = 0) NINODE of
            None \<Rightarrow> Panic ''iget: no inodes''
          | Some ip \<Rightarrow>
            let s = upd_inode ip (i_dev_update (\<lambda>_. dev)) s;
                s = upd_inode ip (i_inum_update (\<lambda>_. inum)) s;
                s = upd_inode ip (i_ref_update (\<lambda>_. 1)) s;
                s = upd_inode ip (i_valid_update (\<lambda>_. False)) s in
            then_do (release IcacheLock s) (\<lambda>_ s. Ret ip s)))"

text \<open>The offset of inode \<open>inum\<close> in its block, and the on-disk form of an inode there.\<close>

definition dinode_off :: "u32 \<Rightarrow> nat" where
  "dinode_off inum = unat (inum mod of_nat IPB) * sizeof_dinode"

definition put_addrs :: "(nat \<Rightarrow> u32) \<Rightarrow> nat \<Rightarrow> u8 list \<Rightarrow> u8 list" where
  "put_addrs a o' d = fold (\<lambda>i d. put32 d (o' + 12 + 4 * i) (a i)) [0..<NDIRECT + 1] d"

definition dinode_put :: "inode \<Rightarrow> nat \<Rightarrow> u8 list \<Rightarrow> u8 list" where
  "dinode_put ip o' d =
     (let d = put16 d o' (i_type ip);
          d = put16 d (o' + 2) (i_major ip);
          d = put16 d (o' + 4) (i_minor ip);
          d = put16 d (o' + 6) (i_nlink ip);
          d = put32 d (o' + 8) (i_size ip)
      in put_addrs (i_addrs ip) o' d)"

definition dinode_get :: "u8 list \<Rightarrow> nat \<Rightarrow> inode \<Rightarrow> inode" where
  "dinode_get d o' ip = ip\<lparr>i_type := get16 d o', i_major := get16 d (o' + 2), i_minor := get16 d (o' + 4),
     i_nlink := get16 d (o' + 6), i_size := get32 d (o' + 8),
     i_addrs := (\<lambda>i. if i < NDIRECT + 1 then get32 d (o' + 12 + 4 * i) else i_addrs ip i)\<rparr>"

fun ialloc_loop :: "nat \<Rightarrow> u32 \<Rightarrow> u32 \<Rightarrow> u16 \<Rightarrow> 'a icst_scheme \<Rightarrow> (nat, 'a icst_scheme) outcome" where
  "ialloc_loop 0 dev inum type s = Diverge"
| "ialloc_loop (Suc fuel) dev inum type s =
     (if \<not> inum < sb_ninodes (sb s) then Panic ''ialloc: no inodes''
      else
        then_do (bread dev (IBLOCK inum (sb s)) s) (\<lambda>bp s.
        let o' = dinode_off inum in
        if get16 (b_data (bufs s bp)) o' = 0 then
          let s = upd_buf bp (\<lambda>x. x\<lparr>b_data := patch (b_data x) o' (replicate sizeof_dinode 0)\<rparr>) s;
              s = upd_buf bp (\<lambda>x. x\<lparr>b_data := put16 (b_data x) o' type\<rparr>) s in
          then_do (log_write bp s) (\<lambda>_ s.
          then_do (brelse bp s) (\<lambda>_ s.
          iget dev inum s))
        else then_do (brelse bp s) (\<lambda>_ s. ialloc_loop fuel dev (inum + 1) type s)))"

definition ialloc :: "u32 \<Rightarrow> u16 \<Rightarrow> 'a icst_scheme \<Rightarrow> (nat, 'a icst_scheme) outcome" where
  "ialloc dev type s = ialloc_loop (unat (sb_ninodes (sb s)) + 1) dev 1 type s"

definition iupdate :: "nat \<Rightarrow> 'a icst_scheme \<Rightarrow> (unit, 'a icst_scheme) outcome" where
  "iupdate ip s =
     then_do (bread (i_dev (inodes s ip)) (IBLOCK (i_inum (inodes s ip)) (sb s)) s) (\<lambda>bp s.
     let s = upd_buf bp (\<lambda>x. x\<lparr>b_data := dinode_put (inodes s ip) (dinode_off (i_inum (inodes s ip))) (b_data x)\<rparr>) s in
     then_do (log_write bp s) (\<lambda>_ s.
     brelse bp s))"

definition idup :: "nat \<Rightarrow> 'a icst_scheme \<Rightarrow> (nat, 'a icst_scheme) outcome" where
  "idup ip s =
     then_do (acquire IcacheLock s) (\<lambda>_ s.
     let s = upd_inode ip (\<lambda>x. x\<lparr>i_ref := i_ref x + 1\<rparr>) s in
     then_do (release IcacheLock s) (\<lambda>_ s. Ret ip s))"

definition ilock :: "nat option \<Rightarrow> 'a icst_scheme \<Rightarrow> (unit, 'a icst_scheme) outcome" where
  "ilock ipp s =
     (case ipp of
        None \<Rightarrow> Panic ''ilock''
      | Some ip \<Rightarrow>
        if i_ref (inodes s ip) < 1 then Panic ''ilock''
        else
          then_do (acquiresleep (InodeSL ip) s) (\<lambda>_ s.
          if \<not> i_valid (inodes s ip) then
            then_do (bread (i_dev (inodes s ip)) (IBLOCK (i_inum (inodes s ip)) (sb s)) s) (\<lambda>bp s.
            let s = upd_inode ip (dinode_get (b_data (bufs s bp)) (dinode_off (i_inum (inodes s ip)))) s in
            then_do (brelse bp s) (\<lambda>_ s.
            let s = upd_inode ip (i_valid_update (\<lambda>_. True)) s in
            if i_type (inodes s ip) = 0 then Panic ''ilock: no type'' else Ret () s))
          else Ret () s))"

definition iunlock :: "nat option \<Rightarrow> 'a icst_scheme \<Rightarrow> (unit, 'a icst_scheme) outcome" where
  "iunlock ipp s =
     (case ipp of
        None \<Rightarrow> Panic ''iunlock''
      | Some ip \<Rightarrow>
        then_do (holdingsleep (InodeSL ip) s) (\<lambda>h s.
        if \<not> h \<or> i_ref (inodes s ip) < 1 then Panic ''iunlock''
        else releasesleep (InodeSL ip) s))"

section \<open>Inode content\<close>

definition bmap :: "nat \<Rightarrow> u32 \<Rightarrow> 'a icst_scheme \<Rightarrow> (u32, 'a icst_scheme) outcome" where
  "bmap ip bn s =
     (if bn < of_nat NDIRECT then
        let addr = i_addrs (inodes s ip) (unat bn) in
        if addr = 0 then
          then_do (balloc (i_dev (inodes s ip)) s) (\<lambda>addr s.
          Ret addr (upd_inode ip (\<lambda>x. x\<lparr>i_addrs := (i_addrs x)(unat bn := addr)\<rparr>) s))
        else Ret addr s
      else
        let bn = bn - of_nat NDIRECT in
        if bn < of_nat NINDIRECT then
          then_do (let addr = i_addrs (inodes s ip) NDIRECT in
                   if addr = 0 then
                     then_do (balloc (i_dev (inodes s ip)) s) (\<lambda>addr s.
                     Ret addr (upd_inode ip (\<lambda>x. x\<lparr>i_addrs := (i_addrs x)(NDIRECT := addr)\<rparr>) s))
                   else Ret addr s) (\<lambda>addr s.
          then_do (bread (i_dev (inodes s ip)) addr s) (\<lambda>bp s.
          let addr = get32 (b_data (bufs s bp)) (4 * unat bn) in
          then_do (if addr = 0 then
                     then_do (balloc (i_dev (inodes s ip)) s) (\<lambda>addr s.
                     let s = upd_buf bp (\<lambda>x. x\<lparr>b_data := put32 (b_data x) (4 * unat bn) addr\<rparr>) s in
                     then_do (log_write bp s) (\<lambda>_ s. Ret addr s))
                   else Ret addr s) (\<lambda>addr s.
          then_do (brelse bp s) (\<lambda>_ s. Ret addr s))))
        else Panic ''bmap: out of range'')"

definition itrunc :: "nat \<Rightarrow> 'a icst_scheme \<Rightarrow> (unit, 'a icst_scheme) outcome" where
  "itrunc ip s =
     then_do (for_each (\<lambda>i s.
         if i_addrs (inodes s ip) i \<noteq> 0 then
           then_do (bfree (i_dev (inodes s ip)) (i_addrs (inodes s ip) i) s) (\<lambda>_ s.
           Ret () (upd_inode ip (\<lambda>x. x\<lparr>i_addrs := (i_addrs x)(i := 0)\<rparr>) s))
         else Ret () s) [0..<NDIRECT] s) (\<lambda>_ s.
     then_do (if i_addrs (inodes s ip) NDIRECT \<noteq> 0 then
         then_do (bread (i_dev (inodes s ip)) (i_addrs (inodes s ip) NDIRECT) s) (\<lambda>bp s.
         then_do (for_each (\<lambda>j s.
             if get32 (b_data (bufs s bp)) (4 * j) \<noteq> 0
             then bfree (i_dev (inodes s ip)) (get32 (b_data (bufs s bp)) (4 * j)) s
             else Ret () s) [0..<NINDIRECT] s) (\<lambda>_ s.
         then_do (brelse bp s) (\<lambda>_ s.
         then_do (bfree (i_dev (inodes s ip)) (i_addrs (inodes s ip) NDIRECT) s) (\<lambda>_ s.
         Ret () (upd_inode ip (\<lambda>x. x\<lparr>i_addrs := (i_addrs x)(NDIRECT := 0)\<rparr>) s)))))
       else Ret () s) (\<lambda>_ s.
     let s = upd_inode ip (i_size_update (\<lambda>_. 0)) s in
     iupdate ip s))"

definition iput :: "nat \<Rightarrow> 'a icst_scheme \<Rightarrow> (unit, 'a icst_scheme) outcome" where
  "iput ip s =
     then_do (acquiresleep (InodeSL ip) s) (\<lambda>_ s.
     then_do (if i_valid (inodes s ip) \<and> i_nlink (inodes s ip) = 0 then
         then_do (acquire IcacheLock s) (\<lambda>_ s.
         let r = i_ref (inodes s ip) in
         then_do (release IcacheLock s) (\<lambda>_ s.
         if r = 1 then
           then_do (itrunc ip s) (\<lambda>_ s.
           let s = upd_inode ip (i_type_update (\<lambda>_. 0)) s in
           then_do (iupdate ip s) (\<lambda>_ s.
           Ret () (upd_inode ip (i_valid_update (\<lambda>_. False)) s)))
         else Ret () s))
       else Ret () s) (\<lambda>_ s.
     then_do (releasesleep (InodeSL ip) s) (\<lambda>_ s.
     then_do (acquire IcacheLock s) (\<lambda>_ s.
     let s = upd_inode ip (\<lambda>x. x\<lparr>i_ref := i_ref x - 1\<rparr>) s in
     release IcacheLock s))))"

definition iunlockput :: "nat \<Rightarrow> 'a icst_scheme \<Rightarrow> (unit, 'a icst_scheme) outcome" where
  "iunlockput ip s = then_do (iunlock (Some ip) s) (\<lambda>_ s. iput ip s)"

record stat =
  st_type :: u16
  st_dev :: u32
  st_ino :: u32
  st_nlink :: u16
  st_size :: u32

definition stati :: "nat \<Rightarrow> 'a icst_scheme \<Rightarrow> stat" where
  "stati ip s = \<lparr>st_type = i_type (inodes s ip), st_dev = i_dev (inodes s ip), st_ino = i_inum (inodes s ip),
     st_nlink = i_nlink (inodes s ip), st_size = i_size (inodes s ip)\<rparr>"

end
