(* ===== verification/Kbd.thy ===== *)
theory Kbd
  imports Prelude
begin

text \<open>
  The keyboard driver, after \<open>kbd.h\<close> and \<open>kbd.c\<close>: translation of scan codes into characters, with the
  state of the modifier keys. \<open>kbdgetc\<close> gets what the controller delivers, nothing or a byte, and the
  modifier state; it returns the character (-1 for no data, 0 for no character) and the new state.
\<close>

definition SHIFT :: u32 where "SHIFT = 1"
definition CTL :: u32 where "CTL = 2"
definition ALT :: u32 where "ALT = 4"
definition CAPSLOCK :: u32 where "CAPSLOCK = 8"
definition NUMLOCK :: u32 where "NUMLOCK = 16"
definition SCROLLLOCK :: u32 where "SCROLLLOCK = 32"
definition E0ESC :: u32 where "E0ESC = 64"

text \<open>A table with designated initialisers: leading entries, further entries by index, and 0 elsewhere.\<close>

definition keytab :: "u8 list \<Rightarrow> (nat \<times> u8) list \<Rightarrow> nat \<Rightarrow> u8" where
  "keytab base over i =
     (case map_of over i of Some v \<Rightarrow> v | None \<Rightarrow> if i < length base then base ! i else 0)"

definition shiftcode :: "nat \<Rightarrow> u32" where
  "shiftcode i = (if i = 0x1D then CTL else if i = 0x2A then SHIFT else if i = 0x36 then SHIFT
     else if i = 0x38 then ALT else if i = 0x9D then CTL else if i = 0xB8 then ALT else 0)"

definition togglecode :: "nat \<Rightarrow> u32" where
  "togglecode i = (if i = 0x3A then CAPSLOCK else if i = 0x45 then NUMLOCK else if i = 0x46 then SCROLLLOCK else 0)"

definition normalmap :: "nat \<Rightarrow> u8" where
  "normalmap = keytab
    [0, 27, 49, 50, 51, 52, 53, 54, 55, 56, 57, 48, 45, 61, 8, 9,
     113, 119, 101, 114, 116, 121, 117, 105, 111, 112, 91, 93, 10, 0, 97, 115,
     100, 102, 103, 104, 106, 107, 108, 59, 39, 96, 0, 92, 122, 120, 99, 118,
     98, 110, 109, 44, 46, 47, 0, 42, 0, 32, 0, 0, 0, 0, 0, 0,
     0, 0, 0, 0, 0, 0, 0, 55, 56, 57, 45, 52, 53, 54, 43, 49,
     50, 51, 48, 46, 0, 0, 0, 0]
    [(0x9C, 0xA), (0xB5, 0x2F), (0xC8, 0xE2), (0xD0, 0xE3), (0xC9, 0xE6), (0xD1, 0xE7), (0xCB, 0xE4), (0xCD, 0xE5), (0x97, 0xE0), (0xCF, 0xE1), (0xD2, 0xE8), (0xD3, 0xE9)]"

definition shiftmap :: "nat \<Rightarrow> u8" where
  "shiftmap = keytab
    [0, 27, 33, 64, 35, 36, 37, 94, 38, 42, 40, 41, 95, 43, 8, 9,
     81, 87, 69, 82, 84, 89, 85, 73, 79, 80, 123, 125, 10, 0, 65, 83,
     68, 70, 71, 72, 74, 75, 76, 58, 34, 126, 0, 124, 90, 88, 67, 86,
     66, 78, 77, 60, 62, 63, 0, 42, 0, 32, 0, 0, 0, 0, 0, 0,
     0, 0, 0, 0, 0, 0, 0, 55, 56, 57, 45, 52, 53, 54, 43, 49,
     50, 51, 48, 46, 0, 0, 0, 0]
    [(0x9C, 0xA), (0xB5, 0x2F), (0xC8, 0xE2), (0xD0, 0xE3), (0xC9, 0xE6), (0xD1, 0xE7), (0xCB, 0xE4), (0xCD, 0xE5), (0x97, 0xE0), (0xCF, 0xE1), (0xD2, 0xE8), (0xD3, 0xE9)]"

definition ctlmap :: "nat \<Rightarrow> u8" where
  "ctlmap = keytab
    [0, 0, 0, 0, 0, 0, 0, 0, 0, 0, 0, 0, 0, 0, 0, 0,
     17, 23, 5, 18, 20, 25, 21, 9, 15, 16, 0, 0, 13, 0, 1, 19,
     4, 6, 7, 8, 10, 11, 12, 0, 0, 0, 0, 28, 26, 24, 3, 22,
     2, 14, 13, 0, 0, 239, 0, 0]
    [(0x9C, 0xD), (0xB5, 0xEF), (0xC8, 0xE2), (0xD0, 0xE3), (0xC9, 0xE6), (0xD1, 0xE7), (0xCB, 0xE4), (0xCD, 0xE5), (0x97, 0xE0), (0xCF, 0xE1), (0xD2, 0xE8), (0xD3, 0xE9)]"

definition charcode :: "u32 \<Rightarrow> nat \<Rightarrow> u8" where
  "charcode k = (if k = 0 then normalmap else if k = 1 then shiftmap else ctlmap)"

definition kbdgetc :: "u8 option \<Rightarrow> u32 \<Rightarrow> int \<times> u32" where
  "kbdgetc port shift =
     (case port of
        None \<Rightarrow> (- 1, shift)
      | Some b \<Rightarrow>
        let data = ucast b :: u32 in
        if data = 0xE0 then (0, shift OR E0ESC)
        else if data AND 0x80 \<noteq> 0 then
          let data = (if shift AND E0ESC \<noteq> 0 then data else data AND 0x7F)
          in (0, shift AND NOT (shiftcode (unat data) OR E0ESC))
        else
          let (data, shift) = (if shift AND E0ESC \<noteq> 0 then (data OR 0x80, shift AND NOT E0ESC) else (data, shift));
              shift = shift OR shiftcode (unat data);
              shift = shift XOR togglecode (unat data);
              c = ucast (charcode (shift AND (CTL OR SHIFT)) (unat data)) :: u32;
              c = (if shift AND CAPSLOCK \<noteq> 0 then
                     (if 97 \<le> c \<and> c \<le> 122 then c - 32
                      else if 65 \<le> c \<and> c \<le> 90 then c + 32 else c)
                   else c)
          in (uint c, shift))"

text \<open>What \<open>consoleintr\<close> gets from \<open>kbdgetc\<close> until it reports that there is no more data.\<close>

primrec kbd_codes :: "u8 list \<Rightarrow> u32 \<Rightarrow> int list \<times> u32" where
  "kbd_codes [] shift = ([], shift)"
| "kbd_codes (b # bs) shift =
     (let (c, shift) = kbdgetc (Some b) shift; (cs, shift) = kbd_codes bs shift in (c # cs, shift))"

end
