(* ===== verification/Console.thy ===== *)
theory Console
  imports Inode Kbd
begin

text \<open>
  The console, after \<open>console.c\<close> and \<open>uart.c\<close>: formatted output to the screen and the serial line, the line
  editor that fills the input buffer from keyboard and serial interrupts, and the device operations \<open>read\<close> and
  \<open>write\<close>. The screen is the array \<open>crt\<close> of character cells with the hardware cursor \<open>crt_cursor\<close>;
  \<open>uart_out\<close> is what has been sent on the serial line. Waiting for the serial port to become ready is
  not modelled. The bytes that \<open>consoleread\<close> delivers are returned to the caller, which stores them.
\<close>

section \<open>State\<close>

definition CONSOLE :: nat where "CONSOLE = 1"
definition NDEV :: nat where "NDEV = 10"
definition BACKSPACE :: u32 where "BACKSPACE = 0x100"
definition INPUT_BUF :: u32 where "INPUT_BUF = 128"

text \<open>The functions a device switch entry can point to.\<close>

datatype devread = Consoleread
datatype devwrite = Consolewrite

record devsw =
  dev_read :: "devread option"
  dev_write :: "devwrite option"

record consst = icst +
  panicked :: bool
  cons_locking :: bool
  crt :: "nat \<Rightarrow> u16"
  crt_cursor :: u16
  uart :: bool
  uart_out :: "u8 list"
  input_buf :: "u32 \<Rightarrow> u8"
  input_r :: u32
  input_w :: u32
  input_e :: u32
  kbd_shift :: u32
  devsws :: "nat \<Rightarrow> devsw"

definition chars :: "string \<Rightarrow> u8 list" where
  "chars = map of_char"

section \<open>Output\<close>

definition uartputc :: "u32 \<Rightarrow> 'a consst_scheme \<Rightarrow> 'a consst_scheme" where
  "uartputc c s = (if \<not> uart s then s else s\<lparr>uart_out := uart_out s @ [ucast c]\<rparr>)"

definition cgaputc :: "u32 \<Rightarrow> 'a consst_scheme \<Rightarrow> (unit, 'a consst_scheme) outcome" where
  "cgaputc c s =
     (let pos = int (unat (crt_cursor s));
          (pos, s) =
            (if c = 10 then (pos + (80 - pos mod 80), s)
             else if c = BACKSPACE then (if pos > 0 then (pos - 1, s) else (pos, s))
             else (pos + 1, s\<lparr>crt := (crt s)(nat pos := ucast (c AND 0xFF) OR 0x0700)\<rparr>)) in
      if pos < 0 \<or> pos > 25 * 80 then Panic ''pos under/overflow''
      else
        let (pos, s) =
              (if pos div 80 \<ge> 24 then
                 let s = s\<lparr>crt := (\<lambda>i. if i < 23 * 80 then crt s (i + 80) else crt s i)\<rparr>;
                     pos = pos - 80;
                     s = s\<lparr>crt := (\<lambda>i. if nat pos \<le> i \<and> i < 24 * 80 then 0 else crt s i)\<rparr>
                 in (pos, s)
               else (pos, s));
            s = s\<lparr>crt_cursor := of_int pos\<rparr>
        in Ret () (s\<lparr>crt := (crt s)(nat pos := 0x20 OR 0x0700)\<rparr>))"

definition consputc :: "u32 \<Rightarrow> 'a consst_scheme \<Rightarrow> (unit, 'a consst_scheme) outcome" where
  "consputc c s =
     (if panicked s then Diverge
      else
        let s = (if c = BACKSPACE then uartputc 8 (uartputc 32 (uartputc 8 s)) else uartputc c s)
        in cgaputc c s)"

text \<open>The digits in the order in which \<open>printint\<close> puts them into its buffer.\<close>

definition digits :: "u8 list" where
  "digits = chars ''0123456789abcdef''"

fun printint_buf :: "nat \<Rightarrow> u32 \<Rightarrow> u32 \<Rightarrow> u8 list" where
  "printint_buf 0 x base = []"
| "printint_buf (Suc fuel) x base =
     digits ! unat (x mod base) #
     (if x div base \<noteq> 0 then printint_buf fuel (x div base) base else [])"

definition printint :: "u32 \<Rightarrow> u32 \<Rightarrow> bool \<Rightarrow> u8 list" where
  "printint xx base sign =
     (let sign = (sign \<and> xx <s 0);
          x = (if sign then - xx else xx);
          buf = printint_buf 32 x base;
          buf = (if sign then buf @ [of_char (CHR ''-'')] else buf)
      in rev buf)"

text \<open>The arguments of \<open>cprintf\<close>: a number, or a pointer to a string, which may be null.\<close>

datatype parg = PNum u32 | PStr "u8 list option"

definition parg_num :: "parg list \<Rightarrow> (u32 \<times> parg list) option" where
  "parg_num as = (case as of PNum x # as \<Rightarrow> Some (x, as) | _ \<Rightarrow> None)"

definition parg_str :: "parg list \<Rightarrow> (u8 list \<times> parg list) option" where
  "parg_str as = (case as of
     PStr (Some x) # as \<Rightarrow> Some (x, as) | PStr None # as \<Rightarrow> Some (chars ''(null)'', as) | _ \<Rightarrow> None)"

text \<open>The characters \<open>cprintf\<close> prints for a format and arguments; \<open>None\<close> when an argument is missing or of
  the wrong kind.\<close>

fun cprintf_text :: "u8 list \<Rightarrow> parg list \<Rightarrow> u8 list option" where
  "cprintf_text [] as = Some []"
| "cprintf_text [c] as = (if c \<noteq> 37 then Some [c] else Some [])"
| "cprintf_text (c # d # fmt) as =
     (if c \<noteq> 37 then map_option (\<lambda>t. c # t) (cprintf_text (d # fmt) as)
      else if d = 100 then
        (case parg_num as of None \<Rightarrow> None
         | Some (x, as) \<Rightarrow> map_option (\<lambda>t. printint x 10 True @ t) (cprintf_text fmt as))
      else if d = 120 \<or> d = 112 then
        (case parg_num as of None \<Rightarrow> None
         | Some (x, as) \<Rightarrow> map_option (\<lambda>t. printint x 16 False @ t) (cprintf_text fmt as))
      else if d = 115 then
        (case parg_str as of None \<Rightarrow> None
         | Some (x, as) \<Rightarrow> map_option (\<lambda>t. x @ t) (cprintf_text fmt as))
      else if d = 37 then map_option (\<lambda>t. 37 # t) (cprintf_text fmt as)
      else map_option (\<lambda>t. 37 # d # t) (cprintf_text fmt as))"

definition consputs :: "u8 list \<Rightarrow> 'a consst_scheme \<Rightarrow> (unit, 'a consst_scheme) outcome" where
  "consputs cs s = for_each (\<lambda>c s. consputc (ucast c) s) cs s"

definition cprintf :: "u8 list \<Rightarrow> parg list \<Rightarrow> 'a consst_scheme \<Rightarrow> (unit, 'a consst_scheme) outcome" where
  "cprintf fmt as s =
     (let locking = cons_locking s in
      then_do (if locking then acquire ConsLock s else Ret () s) (\<lambda>_ s.
      case cprintf_text fmt as of
        None \<Rightarrow> Fault ''cprintf: argp''
      | Some t \<Rightarrow>
        then_do (consputs t s) (\<lambda>_ s.
        if locking then release ConsLock s else Ret () s)))"

text \<open>\<open>getcallerpcs\<close> of \<open>spinlock.c\<close>, from the frame pointer \<open>ebp\<close>, and \<open>panic\<close> up to its endless loop.\<close>

primrec callerpcs :: "nat \<Rightarrow> mem \<Rightarrow> u32 \<Rightarrow> u32 list" where
  "callerpcs 0 m ebp = []"
| "callerpcs (Suc n) m ebp =
     (if ebp = 0 \<or> ebp < KERNBASE \<or> ebp = 0xFFFFFFFF then replicate (Suc n) 0
      else ld32 m (ebp + 4) # callerpcs n m (ld32 m ebp))"

definition getcallerpcs :: "mem \<Rightarrow> u32 \<Rightarrow> u32 list" where
  "getcallerpcs m v = callerpcs 10 m (v - 8)"

definition panic :: "u8 list \<Rightarrow> u32 \<Rightarrow> 'a consst_scheme \<Rightarrow> (unit, 'a consst_scheme) outcome" where
  "panic msg frame s =
     (let s = cli s;
          s = s\<lparr>cons_locking := False\<rparr> in
      then_do (cprintf (chars ''lapicid %d: panic: '') [PNum (ucast (lapicid s))] s) (\<lambda>_ s.
      then_do (cprintf msg [] s) (\<lambda>_ s.
      then_do (cprintf [10] [] s) (\<lambda>_ s.
      then_do (for_each (\<lambda>pc s. cprintf (chars '' %p'') [PNum pc] s) (getcallerpcs (mem s) frame) s) (\<lambda>_ s.
      Ret () (s\<lparr>panicked := True\<rparr>))))))"

definition statename :: "procstate \<Rightarrow> string" where
  "statename st = (case st of UNUSED \<Rightarrow> ''unused'' | EMBRYO \<Rightarrow> ''embryo'' | SLEEPING \<Rightarrow> ''sleep ''
     | RUNNABLE \<Rightarrow> ''runble'' | RUNNING \<Rightarrow> ''run   '' | ZOMBIE \<Rightarrow> ''zombie'')"

text \<open>\<open>ebp\<close> is the second to last of the five words of \<open>struct context\<close>.\<close>

definition procdump :: "'a consst_scheme \<Rightarrow> (unit, 'a consst_scheme) outcome" where
  "procdump s =
     for_each (\<lambda>p s.
       if p_state (procs s p) = UNUSED then Ret () s
       else
         then_do (cprintf (chars ''%d %s %s'')
             [PNum (p_pid (procs s p)), PStr (Some (chars (statename (p_state (procs s p))))),
              PStr (Some (p_name (procs s p)))] s) (\<lambda>_ s.
         then_do (if p_state (procs s p) = SLEEPING then
             let pc = getcallerpcs (mem s) (ld32 (mem s) (p_context (procs s p) + 12) + 8)
             in for_each (\<lambda>x s. cprintf (chars '' %p'') [PNum x] s) (takeWhile (\<lambda>x. x \<noteq> 0) pc) s
           else Ret () s) (\<lambda>_ s.
         cprintf [10] [] s))) [0..<NPROC] s"

section \<open>Input\<close>

text \<open>The loop of the kill-line key.\<close>

fun kill_line :: "nat \<Rightarrow> 'a consst_scheme \<Rightarrow> (unit, 'a consst_scheme) outcome" where
  "kill_line 0 s = Diverge"
| "kill_line (Suc fuel) s =
     (if input_e s \<noteq> input_w s \<and> input_buf s ((input_e s - 1) mod INPUT_BUF) \<noteq> 10 then
        let s = s\<lparr>input_e := input_e s - 1\<rparr> in
        then_do (consputc BACKSPACE s) (\<lambda>_ s. kill_line fuel s)
      else Ret () s)"

text \<open>One character; the result tells whether it asks for a process listing.\<close>

definition console_char :: "u32 \<Rightarrow> 'a consst_scheme \<Rightarrow> (bool, 'a consst_scheme) outcome" where
  "console_char c s =
     (if c = 16 then Ret True s
      else if c = 21 then
        then_do (kill_line (unat (input_e s - input_w s) + 1) s) (\<lambda>_ s. Ret False s)
      else if c = 8 \<or> c = 127 then
        (if input_e s \<noteq> input_w s then
           let s = s\<lparr>input_e := input_e s - 1\<rparr> in
           then_do (consputc BACKSPACE s) (\<lambda>_ s. Ret False s)
         else Ret False s)
      else if c \<noteq> 0 \<and> input_e s - input_r s < INPUT_BUF then
        let c = (if c = 13 then 10 else c);
            s = s\<lparr>input_buf := (input_buf s)(input_e s mod INPUT_BUF := ucast c), input_e := input_e s + 1\<rparr> in
        then_do (consputc c s) (\<lambda>_ s.
        if c = 10 \<or> c = 4 \<or> input_e s = input_r s + INPUT_BUF then
          let s = s\<lparr>input_w := input_e s\<rparr> in
          then_do (wakeup ChInput s) (\<lambda>_ s. Ret False s)
        else Ret False s)
      else Ret False s)"

primrec consoleintr_loop :: "int list \<Rightarrow> bool \<Rightarrow> 'a consst_scheme \<Rightarrow> (bool, 'a consst_scheme) outcome" where
  "consoleintr_loop [] doprocdump s = Ret doprocdump s"
| "consoleintr_loop (c # cs) doprocdump s =
     (if c < 0 then Ret doprocdump s
      else then_do (console_char (of_int c) s) (\<lambda>d s. consoleintr_loop cs (doprocdump \<or> d) s))"

text \<open>The argument is what successive calls of \<open>getc\<close> return.\<close>

definition consoleintr :: "int list \<Rightarrow> 'a consst_scheme \<Rightarrow> (unit, 'a consst_scheme) outcome" where
  "consoleintr cs s =
     then_do (acquire ConsLock s) (\<lambda>_ s.
     then_do (consoleintr_loop cs False s) (\<lambda>doprocdump s.
     then_do (release ConsLock s) (\<lambda>_ s.
     if doprocdump then procdump s else Ret () s)))"

definition kbdintr :: "u8 list \<Rightarrow> 'a consst_scheme \<Rightarrow> (unit, 'a consst_scheme) outcome" where
  "kbdintr bytes s =
     (let (cs, shift) = kbd_codes bytes (kbd_shift s)
      in consoleintr cs (s\<lparr>kbd_shift := shift\<rparr>))"

text \<open>\<open>uartgetc\<close> and the serial interrupt, for the bytes waiting in the receiver.\<close>

definition uartgetc :: "u8 option \<Rightarrow> 'a consst_scheme \<Rightarrow> int" where
  "uartgetc port s = (if \<not> uart s then - 1 else case port of None \<Rightarrow> - 1 | Some b \<Rightarrow> uint b)"

definition uartintr :: "u8 list \<Rightarrow> 'a consst_scheme \<Rightarrow> (unit, 'a consst_scheme) outcome" where
  "uartintr bytes s = consoleintr (map (\<lambda>b. uartgetc (Some b) s) bytes) s"

section \<open>The console device\<close>

text \<open>The loop of \<open>consoleread\<close> with \<open>n\<close> bytes to go and the bytes \<open>acc\<close> delivered. The result is \<open>None\<close> when
  the process has been killed, else what is left of \<open>n\<close> and the bytes.\<close>

fun consoleread_loop :: "nat \<Rightarrow> nat \<Rightarrow> u8 list \<Rightarrow> 'a consst_scheme \<Rightarrow> ((nat \<times> u8 list) option, 'a consst_scheme) outcome" where
  "consoleread_loop 0 target acc s = Ret (Some (0, acc)) s"
| "consoleread_loop (Suc n) target acc s =
     (if input_r s = input_w s then
        then_do (myproc s) (\<lambda>p s.
        case p of
          None \<Rightarrow> Fault ''consoleread: myproc()->killed''
        | Some p \<Rightarrow>
          if p_killed (procs s p) then
            then_do (release ConsLock s) (\<lambda>_ s. Ret None s)
          else ksleep ChInput ConsLock s)
      else
        let c = input_buf s (input_r s mod INPUT_BUF);
            s = s\<lparr>input_r := input_r s + 1\<rparr> in
        if c = 4 then
          let s = (if Suc n < target then s\<lparr>input_r := input_r s - 1\<rparr> else s)
          in Ret (Some (Suc n, acc)) s
        else if c = 10 then Ret (Some (n, acc @ [c])) s
        else consoleread_loop n target (acc @ [c]) s)"

definition consoleread :: "nat \<Rightarrow> int \<Rightarrow> 'a consst_scheme \<Rightarrow> (int \<times> u8 list, 'a consst_scheme) outcome" where
  "consoleread ip n s =
     then_do (iunlock (Some ip) s) (\<lambda>_ s.
     then_do (acquire ConsLock s) (\<lambda>_ s.
     then_do (consoleread_loop (nat n) (nat n) [] s) (\<lambda>r s.
     case r of
       None \<Rightarrow> then_do (ilock (Some ip) s) (\<lambda>_ s. Ret (- 1, []) s)
     | Some (rest, bytes) \<Rightarrow>
       then_do (release ConsLock s) (\<lambda>_ s.
       then_do (ilock (Some ip) s) (\<lambda>_ s.
       Ret (int (nat n) - int rest, bytes) s)))))"

definition consolewrite :: "nat \<Rightarrow> u8 list \<Rightarrow> int \<Rightarrow> 'a consst_scheme \<Rightarrow> (int, 'a consst_scheme) outcome" where
  "consolewrite ip buf n s =
     then_do (iunlock (Some ip) s) (\<lambda>_ s.
     then_do (acquire ConsLock s) (\<lambda>_ s.
     then_do (consputs (take (nat n) buf) s) (\<lambda>_ s.
     then_do (release ConsLock s) (\<lambda>_ s.
     then_do (ilock (Some ip) s) (\<lambda>_ s.
     Ret n s)))))"

definition consoleinit :: "'a consst_scheme \<Rightarrow> 'a consst_scheme" where
  "consoleinit s =
     (let s = initlock ConsLock s;
          s = s\<lparr>devsws := (devsws s)(CONSOLE := (devsws s CONSOLE)\<lparr>dev_write := Some Consolewrite\<rparr>)\<rparr>;
          s = s\<lparr>devsws := (devsws s)(CONSOLE := (devsws s CONSOLE)\<lparr>dev_read := Some Consoleread\<rparr>)\<rparr>
      in s\<lparr>cons_locking := True\<rparr>)"

end
