(* ===== verification/Fs.thy ===== *)
theory Fs
  imports Console Kstring
begin

text \<open>
  The upper layers of \<open>fs.c\<close>: reading and writing the content of inodes, directories and path names. \<open>readi\<close>
  returns the bytes it reads along with its result, and its caller stores them; \<open>writei\<close> gets the bytes to
  write. A file name is the list of its bytes without the terminating NUL.
\<close>

section \<open>Reading and writing\<close>

fun readi_loop :: "nat \<Rightarrow> nat \<Rightarrow> u32 \<Rightarrow> u32 \<Rightarrow> u32 \<Rightarrow> u8 list \<Rightarrow> 'a icst_scheme \<Rightarrow> (u8 list, 'a icst_scheme) outcome" where
  "readi_loop 0 ip off n tot dst s = Diverge"
| "readi_loop (Suc fuel) ip off n tot dst s =
     (if \<not> tot < n then Ret dst s
      else
        then_do (bmap ip (off div of_nat BSIZE) s) (\<lambda>addr s.
        then_do (bread (i_dev (inodes s ip)) addr s) (\<lambda>bp s.
        let m = min (n - tot) (of_nat BSIZE - off mod of_nat BSIZE);
            dst = dst @ take (unat m) (drop (unat (off mod of_nat BSIZE)) (b_data (bufs s bp))) in
        then_do (brelse bp s) (\<lambda>_ s.
        readi_loop fuel ip (off + m) n (tot + m) dst s))))"

definition readi :: "nat \<Rightarrow> u32 \<Rightarrow> u32 \<Rightarrow> 'a consst_scheme \<Rightarrow> (int \<times> u8 list, 'a consst_scheme) outcome" where
  "readi ip off n s =
     (if i_type (inodes s ip) = T_DEV then
        let major = sint (i_major (inodes s ip)) in
        if major < 0 \<or> major \<ge> int NDEV then Ret (- 1, []) s
        else case dev_read (devsws s (nat major)) of
          None \<Rightarrow> Ret (- 1, []) s
        | Some Consoleread \<Rightarrow> consoleread ip (sint n) s
      else if off > i_size (inodes s ip) \<or> off + n < off then Ret (- 1, []) s
      else
        let n = (if off + n > i_size (inodes s ip) then i_size (inodes s ip) - off else n) in
        then_do (readi_loop (unat n div BSIZE + 3) ip off n 0 [] s) (\<lambda>dst s.
        Ret (sint n, dst) s))"

fun writei_loop :: "nat \<Rightarrow> nat \<Rightarrow> u8 list \<Rightarrow> u32 \<Rightarrow> u32 \<Rightarrow> u32 \<Rightarrow> 'a icst_scheme \<Rightarrow> (u32, 'a icst_scheme) outcome" where
  "writei_loop 0 ip src off n tot s = Diverge"
| "writei_loop (Suc fuel) ip src off n tot s =
     (if \<not> tot < n then Ret off s
      else
        then_do (bmap ip (off div of_nat BSIZE) s) (\<lambda>addr s.
        then_do (bread (i_dev (inodes s ip)) addr s) (\<lambda>bp s.
        let m = min (n - tot) (of_nat BSIZE - off mod of_nat BSIZE);
            s = upd_buf bp (\<lambda>x. x\<lparr>b_data := patch (b_data x) (unat (off mod of_nat BSIZE)) (take (unat m) src)\<rparr>) s in
        then_do (log_write bp s) (\<lambda>_ s.
        then_do (brelse bp s) (\<lambda>_ s.
        writei_loop fuel ip (drop (unat m) src) (off + m) n (tot + m) s)))))"

definition writei :: "nat \<Rightarrow> u8 list \<Rightarrow> u32 \<Rightarrow> u32 \<Rightarrow> 'a consst_scheme \<Rightarrow> (int, 'a consst_scheme) outcome" where
  "writei ip src off n s =
     (if i_type (inodes s ip) = T_DEV then
        let major = sint (i_major (inodes s ip)) in
        if major < 0 \<or> major \<ge> int NDEV then Ret (- 1) s
        else case dev_write (devsws s (nat major)) of
          None \<Rightarrow> Ret (- 1) s
        | Some Consolewrite \<Rightarrow> consolewrite ip src (sint n) s
      else if off > i_size (inodes s ip) \<or> off + n < off then Ret (- 1) s
      else if off + n > of_nat (MAXFILE * BSIZE) then Ret (- 1) s
      else
        then_do (writei_loop (unat n div BSIZE + 3) ip src off n 0 s) (\<lambda>off s.
        if n > 0 \<and> off > i_size (inodes s ip) then
          let s = upd_inode ip (i_size_update (\<lambda>_. off)) s in
          then_do (iupdate ip s) (\<lambda>_ s. Ret (sint n) s)
        else Ret (sint n) s))"

section \<open>Directories\<close>

definition DIRSIZ :: nat where "DIRSIZ = 14"
definition sizeof_dirent :: nat where "sizeof_dirent = 16"

record dirent =
  de_inum :: u16
  de_name :: "u8 list"

definition dirent_get :: "u8 list \<Rightarrow> dirent" where
  "dirent_get d = \<lparr>de_inum = get16 d 0, de_name = take DIRSIZ (drop 2 d)\<rparr>"

definition dirent_put :: "dirent \<Rightarrow> u8 list" where
  "dirent_put de = bytes16 (de_inum de) @ de_name de"

definition namecmp :: "u8 list \<Rightarrow> u8 list \<Rightarrow> int" where
  "namecmp a b = strncmp (at_list a) (at_list b) DIRSIZ"

text \<open>The entry found and its offset.\<close>

fun dirlookup_loop :: "nat \<Rightarrow> nat \<Rightarrow> u8 list \<Rightarrow> u32 \<Rightarrow> 'a consst_scheme \<Rightarrow> ((nat \<times> u32) option, 'a consst_scheme) outcome" where
  "dirlookup_loop 0 dp name off s = Diverge"
| "dirlookup_loop (Suc fuel) dp name off s =
     (if \<not> off < i_size (inodes s dp) then Ret None s
      else
        then_do (readi dp off (of_nat sizeof_dirent) s) (\<lambda>(r, d) s.
        if r \<noteq> int sizeof_dirent then Panic ''dirlookup read''
        else
          let de = dirent_get d in
          if de_inum de = 0 then dirlookup_loop fuel dp name (off + of_nat sizeof_dirent) s
          else if namecmp name (de_name de) = 0 then
            let inum = ucast (de_inum de) in
            then_do (iget (i_dev (inodes s dp)) inum s) (\<lambda>ip s. Ret (Some (ip, off)) s)
          else dirlookup_loop fuel dp name (off + of_nat sizeof_dirent) s))"

definition dirlookup :: "nat \<Rightarrow> u8 list \<Rightarrow> 'a consst_scheme \<Rightarrow> ((nat \<times> u32) option, 'a consst_scheme) outcome" where
  "dirlookup dp name s =
     (if i_type (inodes s dp) \<noteq> T_DIR then Panic ''dirlookup not DIR''
      else dirlookup_loop (unat (i_size (inodes s dp)) div sizeof_dirent + 2) dp name 0 s)"

fun dirlink_slot :: "nat \<Rightarrow> nat \<Rightarrow> u32 \<Rightarrow> 'a consst_scheme \<Rightarrow> (u32, 'a consst_scheme) outcome" where
  "dirlink_slot 0 dp off s = Diverge"
| "dirlink_slot (Suc fuel) dp off s =
     (if \<not> off < i_size (inodes s dp) then Ret off s
      else
        then_do (readi dp off (of_nat sizeof_dirent) s) (\<lambda>(r, d) s.
        if r \<noteq> int sizeof_dirent then Panic ''dirlink read''
        else if de_inum (dirent_get d) = 0 then Ret off s
        else dirlink_slot fuel dp (off + of_nat sizeof_dirent) s))"

definition dirlink :: "nat \<Rightarrow> u8 list \<Rightarrow> u32 \<Rightarrow> 'a consst_scheme \<Rightarrow> (int, 'a consst_scheme) outcome" where
  "dirlink dp name inum s =
     then_do (dirlookup dp name s) (\<lambda>r s.
     case r of
       Some (ip, _) \<Rightarrow> then_do (iput ip s) (\<lambda>_ s. Ret (- 1) s)
     | None \<Rightarrow>
       then_do (dirlink_slot (unat (i_size (inodes s dp)) div sizeof_dirent + 2) dp 0 s) (\<lambda>off s.
       let de = \<lparr>de_inum = ucast inum, de_name = strncpy (at_list name) DIRSIZ\<rparr> in
       then_do (writei dp (dirent_put de) off (of_nat sizeof_dirent) s) (\<lambda>r s.
       if r \<noteq> int sizeof_dirent then Panic ''dirlink'' else Ret 0 s)))"

section \<open>Paths\<close>

text \<open>\<open>skipelem\<close> returns the rest of the path and the element, cut to \<open>DIRSIZ\<close> bytes.\<close>

definition skipelem :: "u8 list \<Rightarrow> (u8 list \<times> u8 list) option" where
  "skipelem path =
     (let path = dropWhile (\<lambda>c. c = 47) path in
      if path = [] then None
      else
        let elem = takeWhile (\<lambda>c. c \<noteq> 47) path;
            path = dropWhile (\<lambda>c. c \<noteq> 47) path;
            name = (if length elem \<ge> DIRSIZ then take DIRSIZ elem else elem)
        in Some (dropWhile (\<lambda>c. c = 47) path, name))"

fun namex_loop :: "nat \<Rightarrow> nat \<Rightarrow> u8 list \<Rightarrow> bool \<Rightarrow> 'a consst_scheme \<Rightarrow> ((nat \<times> u8 list) option, 'a consst_scheme) outcome" where
  "namex_loop 0 ip path nameiparent s = Diverge"
| "namex_loop (Suc fuel) ip path nameiparent s =
     (case skipelem path of
        None \<Rightarrow>
          if nameiparent then then_do (iput ip s) (\<lambda>_ s. Ret None s)
          else Ret (Some (ip, [])) s
      | Some (path, name) \<Rightarrow>
        then_do (ilock (Some ip) s) (\<lambda>_ s.
        if i_type (inodes s ip) \<noteq> T_DIR then then_do (iunlockput ip s) (\<lambda>_ s. Ret None s)
        else if nameiparent \<and> path = [] then
          then_do (iunlock (Some ip) s) (\<lambda>_ s. Ret (Some (ip, name)) s)
        else
          then_do (dirlookup ip name s) (\<lambda>r s.
          case r of
            None \<Rightarrow> then_do (iunlockput ip s) (\<lambda>_ s. Ret None s)
          | Some (next, _) \<Rightarrow>
            then_do (iunlockput ip s) (\<lambda>_ s.
            namex_loop fuel next path nameiparent s))))"

definition namex :: "u8 list \<Rightarrow> bool \<Rightarrow> 'a consst_scheme \<Rightarrow> ((nat \<times> u8 list) option, 'a consst_scheme) outcome" where
  "namex path nameiparent s =
     then_do (if path \<noteq> [] \<and> hd path = 47 then iget ROOTDEV ROOTINO s
              else then_do (myproc s) (\<lambda>p s.
                case p of
                  None \<Rightarrow> Fault ''namex: myproc()->cwd''
                | Some p \<Rightarrow> (case p_cwd (procs s p) of None \<Rightarrow> Fault ''idup: ip->ref'' | Some cwd \<Rightarrow> idup cwd s))) (\<lambda>ip s.
     namex_loop (Suc (length path)) ip path nameiparent s)"

definition namei :: "u8 list \<Rightarrow> 'a consst_scheme \<Rightarrow> (nat option, 'a consst_scheme) outcome" where
  "namei path s = then_do (namex path False s) (\<lambda>r s. Ret (map_option fst r) s)"

definition nameiparent :: "u8 list \<Rightarrow> 'a consst_scheme \<Rightarrow> ((nat \<times> u8 list) option, 'a consst_scheme) outcome" where
  "nameiparent path s = namex path True s"

end
