(* ===== verification/Pipe.thy ===== *)
theory Pipe
  imports Fs
begin

text \<open>
  Pipes, after \<open>pipe.c\<close>: a ring buffer of 512 bytes between two open files, with free-running 32-bit counters.
  A pipe is named by the address of the page it lives in; the bytes to write are passed as a list, and the
  bytes read are returned. A writer that finds the pipe full, or a reader that finds it empty, sleeps and
  comes back through the operations named \<open>_resume\<close>.
\<close>

section \<open>State\<close>

definition PIPESIZE :: u32 where "PIPESIZE = 512"

record pipe =
  pi_data :: "u32 \<Rightarrow> u8"
  pi_nread :: u32
  pi_nwrite :: u32
  pi_readopen :: bool
  pi_writeopen :: bool

record pipst = consst +
  pipes :: "u32 \<Rightarrow> pipe"

definition upd_pipe :: "u32 \<Rightarrow> (pipe \<Rightarrow> pipe) \<Rightarrow> 'a pipst_scheme \<Rightarrow> 'a pipst_scheme" where
  "upd_pipe p f s = s\<lparr>pipes := (pipes s)(p := f (pipes s p))\<rparr>"

section \<open>Operations\<close>

definition pipeclose :: "u32 \<Rightarrow> bool \<Rightarrow> 'a pipst_scheme \<Rightarrow> (unit, 'a pipst_scheme) outcome" where
  "pipeclose p writable s =
     then_do (acquire (PipeLock p) s) (\<lambda>_ s.
     then_do (if writable then
                let s = upd_pipe p (pi_writeopen_update (\<lambda>_. False)) s in
                wakeup (ChPipeRead p) s
              else
                let s = upd_pipe p (pi_readopen_update (\<lambda>_. False)) s in
                wakeup (ChPipeWrite p) s) (\<lambda>_ s.
     if \<not> pi_readopen (pipes s p) \<and> \<not> pi_writeopen (pipes s p) then
       then_do (release (PipeLock p) s) (\<lambda>_ s. kfree p s)
     else release (PipeLock p) s))"

definition pipe_push :: "u8 \<Rightarrow> pipe \<Rightarrow> pipe" where
  "pipe_push b x = x\<lparr>pi_data := (pi_data x)(pi_nwrite x mod PIPESIZE := b), pi_nwrite := pi_nwrite x + 1\<rparr>"

text \<open>The loop of \<open>pipewrite\<close> over the bytes still to write.\<close>

fun pipewrite_loop :: "u8 list \<Rightarrow> u32 \<Rightarrow> int \<Rightarrow> 'a pipst_scheme \<Rightarrow> (int, 'a pipst_scheme) outcome" where
  "pipewrite_loop [] p n s =
     then_do (wakeup (ChPipeRead p) s) (\<lambda>_ s.
     then_do (release (PipeLock p) s) (\<lambda>_ s. Ret n s))"
| "pipewrite_loop (b # bs) p n s =
     (if pi_nwrite (pipes s p) = pi_nread (pipes s p) + PIPESIZE then
        then_do (if \<not> pi_readopen (pipes s p) then Ret True s
                 else then_do (myproc s) (\<lambda>q s.
                   case q of
                     None \<Rightarrow> Fault ''pipewrite: myproc()->killed''
                   | Some q \<Rightarrow> Ret (p_killed (procs s q)) s)) (\<lambda>broken s.
        if broken then then_do (release (PipeLock p) s) (\<lambda>_ s. Ret (- 1) s)
        else
          then_do (wakeup (ChPipeRead p) s) (\<lambda>_ s.
          ksleep (ChPipeWrite p) (PipeLock p) s))
      else pipewrite_loop bs p n (upd_pipe p (pipe_push b) s))"

definition pipewrite :: "u32 \<Rightarrow> u8 list \<Rightarrow> int \<Rightarrow> 'a pipst_scheme \<Rightarrow> (int, 'a pipst_scheme) outcome" where
  "pipewrite p addr n s =
     then_do (acquire (PipeLock p) s) (\<lambda>_ s. pipewrite_loop (take (nat n) addr) p n s)"

definition pipewrite_resume :: "nat \<Rightarrow> bool \<Rightarrow> u8 list \<Rightarrow> u32 \<Rightarrow> int \<Rightarrow> 'a pipst_scheme \<Rightarrow> (int, 'a pipst_scheme) outcome" where
  "pipewrite_resume q intena bs p n s =
     then_do (sleep_resume q intena (PipeLock p) s) (\<lambda>_ s. pipewrite_loop bs p n s)"

text \<open>The copy loop of \<open>piperead\<close>: at most \<open>n\<close> bytes.\<close>

primrec piperead_copy :: "nat \<Rightarrow> pipe \<Rightarrow> u8 list \<times> pipe" where
  "piperead_copy 0 x = ([], x)"
| "piperead_copy (Suc n) x =
     (if pi_nread x = pi_nwrite x then ([], x)
      else
        let b = pi_data x (pi_nread x mod PIPESIZE);
            (bs, y) = piperead_copy n (x\<lparr>pi_nread := pi_nread x + 1\<rparr>)
        in (b # bs, y))"

text \<open>\<open>piperead\<close> from the test of its first loop on.\<close>

definition piperead_loop :: "u32 \<Rightarrow> int \<Rightarrow> 'a pipst_scheme \<Rightarrow> (int \<times> u8 list, 'a pipst_scheme) outcome" where
  "piperead_loop p n s =
     (if pi_nread (pipes s p) = pi_nwrite (pipes s p) \<and> pi_writeopen (pipes s p) then
        then_do (myproc s) (\<lambda>q s.
        case q of
          None \<Rightarrow> Fault ''piperead: myproc()->killed''
        | Some q \<Rightarrow>
          if p_killed (procs s q) then then_do (release (PipeLock p) s) (\<lambda>_ s. Ret (- 1, []) s)
          else ksleep (ChPipeRead p) (PipeLock p) s)
      else
        let (bs, x) = piperead_copy (nat n) (pipes s p);
            s = upd_pipe p (\<lambda>_. x) s in
        then_do (wakeup (ChPipeWrite p) s) (\<lambda>_ s.
        then_do (release (PipeLock p) s) (\<lambda>_ s. Ret (int (length bs), bs) s)))"

definition piperead :: "u32 \<Rightarrow> int \<Rightarrow> 'a pipst_scheme \<Rightarrow> (int \<times> u8 list, 'a pipst_scheme) outcome" where
  "piperead p n s =
     then_do (acquire (PipeLock p) s) (\<lambda>_ s. piperead_loop p n s)"

definition piperead_resume :: "nat \<Rightarrow> bool \<Rightarrow> u32 \<Rightarrow> int \<Rightarrow> 'a pipst_scheme \<Rightarrow> (int \<times> u8 list, 'a pipst_scheme) outcome" where
  "piperead_resume q intena p n s =
     then_do (sleep_resume q intena (PipeLock p) s) (\<lambda>_ s. piperead_loop p n s)"

end
