(* ===== verification/Pipering.thy ===== *)
theory Pipering
  imports Pipe Bcache
begin

text \<open>
  What a pipe holds, and what reading and writing do to it. The bytes in a pipe are those between its two
  counters, which run freely modulo \<open>2 ^ 32\<close> and are reduced modulo the size of the buffer only to index it. Seen
  through \<^term>\<open>pipe_bytes\<close>, a pipe is a queue of at most 512 bytes, also when a counter overflows.
\<close>

section \<open>The ring buffer as a queue\<close>

definition pipe_len :: "pipe \<Rightarrow> nat" where
  "pipe_len x = unat (pi_nwrite x - pi_nread x)"

definition pipe_bytes :: "pipe \<Rightarrow> u8 list" where
  "pipe_bytes x = map (\<lambda>i. pi_data x ((pi_nread x + of_nat i) mod PIPESIZE)) [0..<pipe_len x]"

definition pipe_ok :: "pipe \<Rightarrow> bool" where
  "pipe_ok x \<longleftrightarrow> pipe_len x \<le> 512"

lemma pipe_bytes_length [simp]: "length (pipe_bytes x) = pipe_len x"
  by (simp add: pipe_bytes_def)

text \<open>Reducing a counter modulo the size of the buffer keeps slots apart: 512 divides \<open>2 ^ 32\<close>, so that the wrap of
  a counter is no exception.\<close>

lemma ring_slot: "unat ((a + of_nat i :: u32) mod PIPESIZE) = (unat a + i) mod 512"
proof -
  have "(unat a + i) mod 2 ^ 32 mod 512 = (unat a + i) mod 512" by (rule mod_mod_cancel) simp
  then show ?thesis by (simp add: PIPESIZE_def unat_mod_distrib unat_word_ariths unat_of_nat mod_simps)
qed

lemma ring_slot_inj:
  assumes "i < 512" "j < 512" "(a + of_nat i :: u32) mod PIPESIZE = (a + of_nat j) mod PIPESIZE"
  shows "i = j"
proof -
  have "(unat a + i) mod 512 = (unat a + j) mod 512" using arg_cong [OF assms(3), of unat] by (simp only: ring_slot)
  moreover have "i = j" if "(k + i) mod 512 = (k + j) mod 512" "i \<le> j" "j < 512" for i j k :: nat
    using that mod_eq_dvd_iff_nat [of "k + i" "k + j" 512] nat_dvd_not_less [of "j - i" 512] by fastforce
  ultimately show ?thesis using assms(1,2) by (metis nat_le_linear)
qed

lemma pipe_full_iff: "pipe_ok x \<Longrightarrow> pi_nwrite x = pi_nread x + PIPESIZE \<longleftrightarrow> pipe_len x = 512"
proof -
  have "pi_nwrite x = pi_nread x + PIPESIZE \<longleftrightarrow> pi_nwrite x - pi_nread x = PIPESIZE" by (auto simp: algebra_simps)
  also have "\<dots> \<longleftrightarrow> pipe_len x = 512"
    by (simp add: pipe_len_def PIPESIZE_def word_unat_eq_iff)
  finally show ?thesis .
qed

lemma pipe_empty_iff: "pi_nread x = pi_nwrite x \<longleftrightarrow> pipe_bytes x = []"
  by (auto simp: pipe_bytes_def pipe_len_def unat_eq_0)

lemma pipe_push_bytes:
  assumes ok: "pipe_ok x" and room: "pipe_len x < 512"
  shows "pipe_bytes (pipe_push b x) = pipe_bytes x @ [b]" "pipe_ok (pipe_push b x)"
proof -
  have n: "pi_nwrite x = pi_nread x + of_nat (pipe_len x)" by (simp add: pipe_len_def)
  have len: "pipe_len (pipe_push b x) = Suc (pipe_len x)"
  proof -
    have "unat (pi_nwrite x + 1 - pi_nread x) = unat ((pi_nwrite x - pi_nread x) + 1)" by (simp add: algebra_simps)
    also have "\<dots> = Suc (unat (pi_nwrite x - pi_nread x))"
      using room by (simp add: pipe_len_def unat_word_ariths)
    finally show ?thesis by (simp add: pipe_len_def pipe_push_def)
  qed
  then show "pipe_ok (pipe_push b x)" using room by (simp add: pipe_ok_def)
  have "(pi_nread x + of_nat i) mod PIPESIZE \<noteq> pi_nwrite x mod PIPESIZE" if "i < pipe_len x" for i
    using ring_slot_inj [of i "pipe_len x" "pi_nread x"] that room n by auto
  then have "map (\<lambda>i. pi_data (pipe_push b x) ((pi_nread x + of_nat i) mod PIPESIZE)) [0..<pipe_len x] = pipe_bytes x"
    by (auto simp: pipe_bytes_def pipe_push_def)
  moreover have "pi_data (pipe_push b x) ((pi_nread x + of_nat (pipe_len x)) mod PIPESIZE) = b"
    using n by (simp add: pipe_push_def)
  moreover have "pi_nread (pipe_push b x) = pi_nread x" by (simp add: pipe_push_def)
  ultimately show "pipe_bytes (pipe_push b x) = pipe_bytes x @ [b]"
    by (simp add: pipe_bytes_def [of "pipe_push b x"] len)
qed

lemma pipe_bytes_Cons:
  assumes "pi_nread x \<noteq> pi_nwrite x"
  shows "pipe_bytes x = pi_data x (pi_nread x mod PIPESIZE) # pipe_bytes (x\<lparr>pi_nread := pi_nread x + 1\<rparr>)"
    "pipe_len x = Suc (pipe_len (x\<lparr>pi_nread := pi_nread x + 1\<rparr>))"
proof -
  let ?y = "x\<lparr>pi_nread := pi_nread x + 1\<rparr>"
  have "unat (pi_nwrite x - pi_nread x) = Suc (unat (pi_nwrite x - pi_nread x - 1))"
    using assms by (metis Suc_pred' eq_iff_diff_eq_0 unat_gt_0 unat_minus_one)
  then show len: "pipe_len x = Suc (pipe_len ?y)" by (simp add: pipe_len_def algebra_simps)
  have "pipe_bytes x = map (\<lambda>i. pi_data x ((pi_nread x + of_nat i) mod PIPESIZE)) (0 # map Suc [0..<pipe_len ?y])"
    by (simp add: pipe_bytes_def len upt_conv_Cons map_Suc_upt del: upt_Suc)
  then show "pipe_bytes x = pi_data x (pi_nread x mod PIPESIZE) # pipe_bytes ?y"
    by (simp add: pipe_bytes_def [of ?y] add.assoc [symmetric] del: upt_Suc)
qed

lemma piperead_copy_bytes:
  "piperead_copy n x = (bs, y) \<Longrightarrow> bs = take n (pipe_bytes x) \<and> pipe_bytes y = drop n (pipe_bytes x)
     \<and> (pipe_ok x \<longrightarrow> pipe_ok y) \<and> pi_readopen y = pi_readopen x \<and> pi_writeopen y = pi_writeopen x"
proof (induction n arbitrary: x bs y)
  case (Suc n)
  show ?case
  proof (cases "pi_nread x = pi_nwrite x")
    case True
    then show ?thesis using Suc.prems by (simp add: pipe_empty_iff)
  next
    case False
    obtain cs z where r: "piperead_copy n (x\<lparr>pi_nread := pi_nread x + 1\<rparr>) = (cs, z)" by fastforce
    with Suc.prems False have "bs = pi_data x (pi_nread x mod PIPESIZE) # cs" "z = y" by (simp_all add: Let_def)
    with Suc.IH [OF r] pipe_bytes_Cons [OF False] show ?thesis by (simp add: pipe_ok_def)
  qed
qed simp

section \<open>Reading and writing\<close>

lemma pipes_frame [simp]:
  "pipes (enter lk c s) = pipes s" "pipes (leave lk c s) = pipes s"
  "enter lk c (s\<lparr>pipes := x\<rparr>) = (enter lk c s)\<lparr>pipes := x\<rparr>" "leave lk c (s\<lparr>pipes := x\<rparr>) = (leave lk c s)\<lparr>pipes := x\<rparr>"
  "same_core s (t\<lparr>pipes := x\<rparr>) = same_core s t"
  by (simp_all add: enter_def leave_def same_core_def)

lemma quiet_pipes [simp]: "quiet c q (s\<lparr>pipes := x\<rparr>) = quiet c q s"
  by (intro quiet_cong sched_rep_cong) simp_all

lemma sched_eq_pipes: "sched_eq s t \<Longrightarrow> pipes t = pipes s"
proof -
  have "pipes (unsched s) = pipes s" for s :: "'b pipst_scheme" by (simp add: unsched_def)
  then show "sched_eq s t \<Longrightarrow> pipes t = pipes s" unfolding sched_eq_def by metis
qed

text \<open>The state in which the pipe at \<open>p\<close> holds the bytes \<open>ys\<close> and the sleepers on \<open>ch\<close> are runnable, and which is
  otherwise as \<open>s\<close>.\<close>

definition pipe_set :: "u32 \<Rightarrow> u8 list \<Rightarrow> 'a pipst_scheme \<Rightarrow> 'a pipst_scheme \<Rightarrow> bool" where
  "pipe_set p ys s t \<longleftrightarrow> pipe_ok (pipes t p) \<and> pipe_bytes (pipes t p) = ys
     \<and> pi_readopen (pipes t p) = pi_readopen (pipes s p) \<and> pi_writeopen (pipes t p) = pi_writeopen (pipes s p)
     \<and> (\<exists>x. t = s\<lparr>pipes := (pipes s)(p := x)\<rparr>)"

definition pipe_woken :: "chan \<Rightarrow> u32 \<Rightarrow> u8 list \<Rightarrow> 'a pipst_scheme \<Rightarrow> 'a pipst_scheme \<Rightarrow> bool" where
  "pipe_woken ch p ys s t \<longleftrightarrow> (\<exists>u. pipe_set p ys s u \<and> woken (Some ch) [0..<NPROC] u t)"

lemma fold_push_bytes:
  "pipe_ok x \<Longrightarrow> pipe_len x + length bs \<le> 512 \<Longrightarrow> pipe_bytes (fold pipe_push bs x) = pipe_bytes x @ bs
     \<and> pipe_ok (fold pipe_push bs x) \<and> pi_readopen (fold pipe_push bs x) = pi_readopen x
     \<and> pi_writeopen (fold pipe_push bs x) = pi_writeopen x"
proof (induction bs arbitrary: x)
  case (Cons b bs)
  have room: "pipe_len x < 512" using Cons.prems by simp
  note push = pipe_push_bytes [OF Cons.prems(1) room, of b]
  have "pipe_len (pipe_push b x) = Suc (pipe_len x)" using arg_cong [OF push(1), of length] by simp
  then show ?case using Cons.IH [OF push(2)] push(1) Cons.prems by (simp add: pipe_push_def)
qed simp

lemma pipewrite_loop_fill:
  "pipe_ok (pipes s p) \<Longrightarrow> pipe_len (pipes s p) + length bs \<le> 512
   \<Longrightarrow> pipewrite_loop (bs @ cs) p n s = pipewrite_loop cs p n (s\<lparr>pipes := (pipes s)(p := fold pipe_push bs (pipes s p))\<rparr>)"
proof (induction bs arbitrary: s)
  case (Cons b bs)
  let ?s = "upd_pipe p (pipe_push b) s"
  have room: "pipe_len (pipes s p) < 512" using Cons.prems by simp
  note push = pipe_push_bytes [OF Cons.prems(1) room, of b]
  have "pipe_len (pipe_push b (pipes s p)) = Suc (pipe_len (pipes s p))" using arg_cong [OF push(1), of length] by simp
  moreover have "pi_nwrite (pipes s p) \<noteq> pi_nread (pipes s p) + PIPESIZE"
    using pipe_full_iff [OF Cons.prems(1)] room by simp
  ultimately show ?case using Cons.IH [of ?s] push(2) Cons.prems(2) by (simp add: upd_pipe_def) (simp add: fun_upd_def cong: if_cong)
qed simp

lemma pipe_set_fill:
  assumes "pipe_ok (pipes s p)" and "pipe_len (pipes s p) + length bs \<le> 512"
  shows "pipe_set p (pipe_bytes (pipes s p) @ bs) s (s\<lparr>pipes := (pipes s)(p := fold pipe_push bs (pipes s p))\<rparr>)"
  using fold_push_bytes [OF assms] by (auto simp: pipe_set_def)

lemma pipe_set_quiet: "pipe_set p ys s t \<Longrightarrow> quiet c q s \<Longrightarrow> quiet c q t"
  by (auto simp: pipe_set_def)

lemma pipewrite_fits:
  assumes q: "quiet c q s" and ok: "pipe_ok (pipes s p)" and n: "length bs = nat n"
    and fits: "pipe_len (pipes s p) + length bs \<le> 512"
  shows "wp (pipewrite p bs n s) (\<lambda>r t. r = n \<and> quiet c q t \<and> pipe_woken (ChPipeRead p) p (pipe_bytes (pipes s p) @ bs) s t)"
proof -
  define u where "u = s\<lparr>pipes := (pipes s)(p := fold pipe_push bs (pipes s p))\<rparr>"
  have u: "pipe_set p (pipe_bytes (pipes s p) @ bs) s u" unfolding u_def by (rule pipe_set_fill [OF ok fits])
  have qu: "quiet c q u" by (rule pipe_set_quiet [OF u q])
  have "pipewrite_loop (bs @ []) p n (enter (PipeLock p) c s) = pipewrite_loop [] p n (enter (PipeLock p) c u)"
    using pipewrite_loop_fill [of "enter (PipeLock p) c s" p bs "[]"] ok fits by (simp add: u_def)
  then have eq: "pipewrite p bs n s = pipewrite_loop [] p n (enter (PipeLock p) c u)"
    by (simp add: pipewrite_def acquire_calm [OF quietD(1,2) [OF q]] n)
  show ?thesis unfolding eq
    by (simp, rule wp_mono [OF wakeup_release_wp [OF qu]], simp, elim wp_mono) (use u in \<open>auto simp: pipe_woken_def\<close>)
qed

lemma pipewrite_blocks:
  assumes q: "quiet c q s" and ok: "pipe_ok (pipes s p)" and n: "length bs = nat n"
    and over: "512 < pipe_len (pipes s p) + length bs"
  defines "k \<equiv> 512 - pipe_len (pipes s p)"
  shows "\<not> pi_readopen (pipes s p) \<or> p_killed (procs s q)
      \<Longrightarrow> wp (pipewrite p bs n s) (\<lambda>r t. r = - 1 \<and> pipe_set p (pipe_bytes (pipes s p) @ take k bs) s t)"
    and "pi_readopen (pipes s p) \<Longrightarrow> \<not> p_killed (procs s q) \<Longrightarrow> cpu_ncli (cpus s c) = 0
      \<Longrightarrow> \<exists>t. pipewrite p bs n s = Sleep (ChPipeWrite p) (asleep q (ChPipeWrite p) (enter PtableLock c t))
          \<and> quiet c q t \<and> pipe_woken (ChPipeRead p) p (pipe_bytes (pipes s p) @ take k bs) s t"
proof -
  define u where "u = s\<lparr>pipes := (pipes s)(p := fold pipe_push (take k bs) (pipes s p))\<rparr>"
  let ?e = "enter (PipeLock p) c u"
  have len: "pipe_len (pipes s p) \<le> 512" using ok by (simp add: pipe_ok_def)
  then have k: "pipe_len (pipes s p) + length (take k bs) = 512" "k < length bs" using over by (auto simp: k_def)
  have u: "pipe_set p (pipe_bytes (pipes s p) @ take k bs) s u"
    unfolding u_def by (rule pipe_set_fill [OF ok]) (use k(1) in simp)
  have qu: "quiet c q u" by (rule pipe_set_quiet [OF u q])
  obtain b cs where bs: "drop k bs = b # cs" using k(2) by (metis Cons_nth_drop_Suc)
  have "pipewrite_loop bs p n (enter (PipeLock p) c s) = pipewrite_loop (b # cs) p n ?e"
    using pipewrite_loop_fill [of "enter (PipeLock p) c s" p "take k bs" "b # cs"] ok k(1) bs
      append_take_drop_id [of k bs] by (simp add: u_def del: append_take_drop_id)
  then have eq: "pipewrite p bs n s = pipewrite_loop (b # cs) p n ?e"
    by (simp add: pipewrite_def acquire_calm [OF quietD(1,2) [OF q]] n)
  have "pipe_bytes (pipes u p) = pipe_bytes (pipes s p) @ take k bs" "pipe_ok (pipes u p)"
    and op: "pi_readopen (pipes u p) = pi_readopen (pipes s p)" using u by (auto simp: pipe_set_def)
  moreover from this(1) have "pipe_len (pipes u p) = 512" using k(1) pipe_bytes_length [of "pipes u p"] by simp
  ultimately have full: "pi_nwrite (pipes u p) = pi_nread (pipes u p) + PIPESIZE" by (simp add: pipe_full_iff)
  have m: "myproc ?e = Ret (Some q) ?e"
    using myproc_calm [OF calm_enter [OF quietD(1) [OF qu]]] quietD(3) [OF qu] by simp
  have rel: "release (PipeLock p) ?e = Ret () u"
    using release_section [OF quietD(1,2) [OF qu], of "PipeLock p" ?e] enter_then_leave [OF quietD(1,2) [OF qu]] by simp
  have pr: "procs u = procs s" "cpus u = cpus s" by (simp_all add: u_def)
  {
    assume "\<not> pi_readopen (pipes s p) \<or> p_killed (procs s q)"
    then show "wp (pipewrite p bs n s) (\<lambda>r t. r = - 1 \<and> pipe_set p (pipe_bytes (pipes s p) @ take k bs) s t)"
      unfolding eq using u by (cases "pi_readopen (pipes s p)") (simp_all add: full op m rel pr)
  next
    assume a: "pi_readopen (pipes s p)" "\<not> p_killed (procs s q)" "cpu_ncli (cpus s c) = 0"
    obtain v where v: "wakeup (ChPipeRead p) ?e = Ret () v" "sched_eq ?e v" "quiet c q (leave (PipeLock p) c v)"
        "woken (Some (ChPipeRead p)) [0..<NPROC] u (leave (PipeLock p) c v)"
      using wakeup_section [OF qu, of "PipeLock p" "ChPipeRead p"] by (auto simp: wp_Ret_iff)
    let ?t = "leave (PipeLock p) c v"
    have "enter (PipeLock p) c ?t = v" by (rule enter_of_leave [OF quietD(1,2) [OF qu] sched_eq_core [OF v(2)]])
    moreover have "cpu_ncli (cpus ?t c) = 0"
      using same_coreD(6) [OF sched_eq_core [OF v(2)]] a(3) pr by (simp add: leave_def)
    ultimately have "(ksleep (ChPipeWrite p) (PipeLock p) v :: (int, 'a pipst_scheme) outcome)
        = Sleep (ChPipeWrite p) (asleep q (ChPipeWrite p) (enter PtableLock c ?t))"
      using ksleep_eq [of c ?t "PipeLock p" q "ChPipeWrite p"] quietD [OF v(3)] by simp
    then have "pipewrite p bs n s = Sleep (ChPipeWrite p) (asleep q (ChPipeWrite p) (enter PtableLock c ?t))"
      unfolding eq using a by (simp add: full op m pr v(1))
    with v(3,4) u show "\<exists>t. pipewrite p bs n s = Sleep (ChPipeWrite p) (asleep q (ChPipeWrite p) (enter PtableLock c t))
        \<and> quiet c q t \<and> pipe_woken (ChPipeRead p) p (pipe_bytes (pipes s p) @ take k bs) s t"
      by (auto simp: pipe_woken_def)
  }
qed

lemma piperead_takes:
  assumes q: "quiet c q s" and ok: "pipe_ok (pipes s p)"
    and some: "pipe_bytes (pipes s p) \<noteq> [] \<or> \<not> pi_writeopen (pipes s p)"
  shows "wp (piperead p n s) (\<lambda>r t. r = (int (length (take (nat n) (pipe_bytes (pipes s p)))), take (nat n) (pipe_bytes (pipes s p)))
    \<and> quiet c q t \<and> pipe_woken (ChPipeWrite p) p (drop (nat n) (pipe_bytes (pipes s p))) s t)"
proof -
  obtain bs y where r: "piperead_copy (nat n) (pipes s p) = (bs, y)" by fastforce
  note copy = piperead_copy_bytes [OF r]
  define u where "u = s\<lparr>pipes := (pipes s)(p := y)\<rparr>"
  have u: "pipe_set p (drop (nat n) (pipe_bytes (pipes s p))) s u" using copy ok by (auto simp: pipe_set_def u_def)
  have qu: "quiet c q u" by (rule pipe_set_quiet [OF u q])
  have "upd_pipe p (\<lambda>_. y) (enter (PipeLock p) c s) = enter (PipeLock p) c u" by (simp add: u_def upd_pipe_def)
  moreover have "\<not> (pi_nread (pipes s p) = pi_nwrite (pipes s p) \<and> pi_writeopen (pipes s p))"
    using some pipe_empty_iff by auto
  ultimately have eq: "piperead p n s = then_do (wakeup (ChPipeWrite p) (enter (PipeLock p) c u)) (\<lambda>_ s.
      then_do (release (PipeLock p) s) (\<lambda>_ s. Ret (int (length bs), bs) s))"
    by (auto simp: piperead_def acquire_calm [OF quietD(1,2) [OF q]] piperead_loop_def r)
  show ?thesis unfolding eq
    by (simp, rule wp_mono [OF wakeup_release_wp [OF qu]], simp, elim wp_mono) (use u copy in \<open>auto simp: pipe_woken_def\<close>)
qed

lemma piperead_waits:
  assumes q: "quiet c q s" and none: "pipe_bytes (pipes s p) = []" "pi_writeopen (pipes s p)"
  shows "p_killed (procs s q) \<Longrightarrow> piperead p n s = Ret (- 1, []) s"
    and "\<not> p_killed (procs s q) \<Longrightarrow> cpu_ncli (cpus s c) = 0
      \<Longrightarrow> piperead p n s = Sleep (ChPipeRead p) (asleep q (ChPipeRead p) (enter PtableLock c s))"
proof -
  let ?e = "enter (PipeLock p) c s"
  have m: "myproc ?e = Ret (Some q) ?e"
    using myproc_calm [OF calm_enter [OF quietD(1) [OF q]]] quietD(3) [OF q] by simp
  have rel: "release (PipeLock p) ?e = Ret () s"
    using release_section [OF quietD(1,2) [OF q], of "PipeLock p" ?e] enter_then_leave [OF quietD(1,2) [OF q]] by simp
  have "pi_nread (pipes s p) = pi_nwrite (pipes s p)" using none(1) pipe_empty_iff by auto
  then have eq: "piperead p n s = (if p_killed (procs s q) then Ret (- 1, []) s else ksleep (ChPipeRead p) (PipeLock p) ?e)"
    using none(2) by (simp add: piperead_def acquire_calm [OF quietD(1,2) [OF q]] piperead_loop_def m rel)
  then show "p_killed (procs s q) \<Longrightarrow> piperead p n s = Ret (- 1, []) s" by simp
  assume "\<not> p_killed (procs s q)" "cpu_ncli (cpus s c) = 0"
  then show "piperead p n s = Sleep (ChPipeRead p) (asleep q (ChPipeRead p) (enter PtableLock c s))"
    using eq ksleep_eq [of c s "PipeLock p" q "ChPipeRead p"] quietD [OF q] by simp
qed

text \<open>Back on a CPU, a writer goes on as if it had just called with the bytes it has left, a reader from the start.\<close>

lemma pipe_resume_eq:
  assumes "in_section c s"
  shows "length bs \<le> nat n \<Longrightarrow> pipewrite_resume q b bs p n s = pipewrite p bs n (awake q b c s)"
    and "piperead_resume q b p n s = piperead p n (awake q b c s)"
  using assms by (simp_all add: pipewrite_resume_def pipewrite_def piperead_resume_def piperead_def sleep_resume_eq)

section \<open>A concrete pipe\<close>

text \<open>A machine whose process 0 runs in the kernel, with a pipe at \<open>0x80400000\<close> that holds two bytes and whose
  write counter is about to wrap.\<close>

definition demo_pipst :: pipst where
  "demo_pipst = consst.extend (icst.extend (logst.extend (biost.extend demo_bio
     \<lparr>log_start = 2, log_size = 30, log_outstanding = 0, log_committing = False, log_dev = 1, log_lh = \<lparr>lh_n = 0, lh_block = (\<lambda>_. 0)\<rparr>\<rparr>)
     \<lparr>inodes = (\<lambda>_. \<lparr>i_dev = 0, i_inum = 0, i_ref = 0, i_valid = False, i_type = 0, i_major = 0, i_minor = 0, i_nlink = 0,
        i_size = 0, i_addrs = (\<lambda>_. 0)\<rparr>),
      sb = \<lparr>sb_size = 1000, sb_nblocks = 941, sb_ninodes = 200, sb_nlog = 30, sb_logstart = 2, sb_inodestart = 32, sb_bmapstart = 58\<rparr>\<rparr>)
     \<lparr>panicked = False, cons_locking = True, crt = (\<lambda>_. 0), crt_cursor = 0, uart = False, uart_out = [], input_buf = (\<lambda>_. 0),
      input_r = 0, input_w = 0, input_e = 0, kbd_shift = 0, devsws = (\<lambda>_. \<lparr>dev_read = None, dev_write = None\<rparr>)\<rparr>)
     \<lparr>pipes = (\<lambda>_. \<lparr>pi_data = (\<lambda>_. 0)(509 := 1, 510 := 2), pi_nread = 0xFFFFFFFD, pi_nwrite = 0xFFFFFFFF,
        pi_readopen = True, pi_writeopen = True\<rparr>)\<rparr>"

lemmas demo_pipst_defs = demo_pipst_def consst.defs icst.defs logst.defs biost.defs demo_bio_def slst.defs ptab.defs

lemma quiet_pipst [simp]: "quiet 0 0 demo_pipst" "cpu_ncli (cpus demo_pipst 0) = 0"
  by (rule quietI; simp add: demo_pipst_defs)+

lemma demo_pipe: "pipes demo_pipst p = \<lparr>pi_data = (\<lambda>_. 0)(509 := 1, 510 := 2), pi_nread = 0xFFFFFFFD, pi_nwrite = 0xFFFFFFFF,
    pi_readopen = True, pi_writeopen = True\<rparr>"
  by (simp add: demo_pipst_defs)

lemma demo_pipe_bytes: "pipe_len (pipes demo_pipst p) = 2" "pipe_bytes (pipes demo_pipst p) = [1, 2]"
  "pipe_ok (pipes demo_pipst p)"
  by (simp_all add: demo_pipe pipe_bytes_def pipe_len_def pipe_ok_def PIPESIZE_def upt_rec)

section \<open>Properties\<close>

text \<open>C13: \<open>pipewrite\<close>, called by a process that holds no lock on a pipe with at most 512 bytes. When the bytes fit
  they are appended in order, the readers are made runnable and the count is returned. When they do not, the pipe is
  filled with as many as fit; the writer then sleeps, after waking the readers, or returns -1 when the read end is
  closed or the process was killed. The counters may wrap.\<close>

theorem pipewrite_correct:
  assumes "quiet c q s" and "cpu_ncli (cpus s c) = 0" and "pipe_ok (pipes s p)" and "length bs = nat n"
  shows "let x = pipes s p; k = 512 - pipe_len x in
    if length bs \<le> k
    then wp (pipewrite p bs n s) (\<lambda>r t. r = n \<and> quiet c q t \<and> pipe_woken (ChPipeRead p) p (pipe_bytes x @ bs) s t)
    else if pi_readopen x \<and> \<not> p_killed (procs s q)
    then \<exists>t. pipewrite p bs n s = Sleep (ChPipeWrite p) (asleep q (ChPipeWrite p) (enter PtableLock c t))
       \<and> quiet c q t \<and> pipe_woken (ChPipeRead p) p (pipe_bytes x @ take k bs) s t
    else wp (pipewrite p bs n s) (\<lambda>r t. r = - 1 \<and> pipe_set p (pipe_bytes x @ take k bs) s t)"
proof -
  have "pipe_len (pipes s p) \<le> 512" using assms(3) by (simp add: pipe_ok_def)
  then show ?thesis
    using pipewrite_fits [OF assms(1,3,4)] pipewrite_blocks [OF assms(1,3,4)] assms(2) by (auto simp: Let_def)
qed

theorem pipewrite_correct_witness:
  "wp (pipewrite 0x80400000 [3, 4, 5] 3 demo_pipst) (\<lambda>r t. r = 3 \<and> quiet 0 0 t
     \<and> pipe_woken (ChPipeRead 0x80400000) 0x80400000 [1, 2, 3, 4, 5] demo_pipst t)
   \<and> (\<exists>t. pipewrite 0x80400000 (replicate 600 9) 600 demo_pipst
        = Sleep (ChPipeWrite 0x80400000) (asleep 0 (ChPipeWrite 0x80400000) (enter PtableLock 0 t))
      \<and> pipe_woken (ChPipeRead 0x80400000) 0x80400000 ([1, 2] @ replicate 510 9) demo_pipst t)"
proof -
  have "\<not> p_killed (procs demo_pipst 0)" "pi_readopen (pipes demo_pipst 0x80400000)"
    by (simp_all add: demo_pipst_defs demo_proc_def)
  then show ?thesis
    using pipewrite_correct [of 0 0 demo_pipst "0x80400000" "[3, 4, 5]" 3]
      pipewrite_correct [of 0 0 demo_pipst "0x80400000" "replicate 600 9" 600]
    by (auto simp: demo_pipe_bytes)
qed

text \<open>C14: \<open>piperead\<close>: it returns the oldest bytes of the pipe, as many as asked for and there, leaves the rest in order and makes the writers
  runnable; on an empty pipe with an open write end the reader sleeps, or returns -1 when it was killed.\<close>

theorem piperead_correct:
  assumes "quiet c q s" and "cpu_ncli (cpus s c) = 0" and "pipe_ok (pipes s p)"
  shows "let x = pipes s p; bs = take (nat n) (pipe_bytes x) in
    if pipe_bytes x \<noteq> [] \<or> \<not> pi_writeopen x
    then wp (piperead p n s) (\<lambda>r t. r = (int (length bs), bs) \<and> quiet c q t
       \<and> pipe_woken (ChPipeWrite p) p (drop (nat n) (pipe_bytes x)) s t)
    else piperead p n s = (if p_killed (procs s q) then Ret (- 1, []) s
       else Sleep (ChPipeRead p) (asleep q (ChPipeRead p) (enter PtableLock c s)))"
  using piperead_takes [OF assms(1,3)] piperead_waits [OF assms(1)] assms(2) by (auto simp: Let_def)

theorem piperead_correct_witness:
  "wp (piperead 0x80400000 1 demo_pipst) (\<lambda>r t. r = (1, [1]) \<and> quiet 0 0 t
     \<and> pipe_woken (ChPipeWrite 0x80400000) 0x80400000 [2] demo_pipst t)"
  using piperead_correct [of 0 0 demo_pipst "0x80400000" 1] by (auto simp: demo_pipe_bytes)

end
