(* ===== verification/File.thy ===== *)
theory File
  imports Pipe
begin

text \<open>
  Open files, after \<open>file.h\<close> and \<open>file.c\<close>, and \<open>pipealloc\<close> of \<open>pipe.c\<close>. The bytes that \<open>fileread\<close> delivers are
  returned with its result, and \<open>filewrite\<close> gets the bytes to write.
\<close>

section \<open>State\<close>

definition NFILE :: nat where "NFILE = 100"

datatype filetype = FD_NONE | FD_PIPE | FD_INODE

record kfile =
  f_type :: filetype
  f_ref :: int
  f_readable :: bool
  f_writable :: bool
  f_pipe :: u32
  f_ip :: nat
  f_off :: u32

record filest = pipst +
  files :: "nat \<Rightarrow> kfile"

definition upd_file :: "nat \<Rightarrow> (kfile \<Rightarrow> kfile) \<Rightarrow> 'a filest_scheme \<Rightarrow> 'a filest_scheme" where
  "upd_file f g s = s\<lparr>files := (files s)(f := g (files s f))\<rparr>"

section \<open>The file table\<close>

definition fileinit :: "'a filest_scheme \<Rightarrow> 'a filest_scheme" where
  "fileinit s = initlock FtableLock s"

definition filealloc :: "'a filest_scheme \<Rightarrow> (nat option, 'a filest_scheme) outcome" where
  "filealloc s =
     then_do (acquire FtableLock s) (\<lambda>_ s.
     case find_idx (\<lambda>f. f_ref (files s f) = 0) NFILE of
       Some f \<Rightarrow>
         let s = upd_file f (f_ref_update (\<lambda>_. 1)) s in
         then_do (release FtableLock s) (\<lambda>_ s. Ret (Some f) s)
     | None \<Rightarrow> then_do (release FtableLock s) (\<lambda>_ s. Ret None s))"

definition filedup :: "nat \<Rightarrow> 'a filest_scheme \<Rightarrow> (nat, 'a filest_scheme) outcome" where
  "filedup f s =
     then_do (acquire FtableLock s) (\<lambda>_ s.
     if f_ref (files s f) < 1 then Panic ''filedup''
     else
       let s = upd_file f (\<lambda>x. x\<lparr>f_ref := f_ref x + 1\<rparr>) s in
       then_do (release FtableLock s) (\<lambda>_ s. Ret f s))"

definition fileclose :: "nat \<Rightarrow> 'a filest_scheme \<Rightarrow> (unit, 'a filest_scheme) outcome" where
  "fileclose f s =
     then_do (acquire FtableLock s) (\<lambda>_ s.
     if f_ref (files s f) < 1 then Panic ''fileclose''
     else
       let s = upd_file f (\<lambda>x. x\<lparr>f_ref := f_ref x - 1\<rparr>) s in
       if f_ref (files s f) > 0 then release FtableLock s
       else
         let ff = files s f;
             s = upd_file f (f_ref_update (\<lambda>_. 0)) s;
             s = upd_file f (f_type_update (\<lambda>_. FD_NONE)) s in
         then_do (release FtableLock s) (\<lambda>_ s.
         if f_type ff = FD_PIPE then pipeclose (f_pipe ff) (f_writable ff) s
         else if f_type ff = FD_INODE then
           then_do (begin_op s) (\<lambda>_ s.
           then_do (iput (f_ip ff) s) (\<lambda>_ s.
           end_op s))
         else Ret () s))"

section \<open>Operations on open files\<close>

definition filestat :: "nat \<Rightarrow> 'a filest_scheme \<Rightarrow> (stat option, 'a filest_scheme) outcome" where
  "filestat f s =
     (if f_type (files s f) = FD_INODE then
        then_do (ilock (Some (f_ip (files s f))) s) (\<lambda>_ s.
        let st = stati (f_ip (files s f)) s in
        then_do (iunlock (Some (f_ip (files s f))) s) (\<lambda>_ s. Ret (Some st) s))
      else Ret None s)"

definition fileread :: "nat \<Rightarrow> int \<Rightarrow> 'a filest_scheme \<Rightarrow> (int \<times> u8 list, 'a filest_scheme) outcome" where
  "fileread f n s =
     (if \<not> f_readable (files s f) then Ret (- 1, []) s
      else if f_type (files s f) = FD_PIPE then piperead (f_pipe (files s f)) n s
      else if f_type (files s f) = FD_INODE then
        then_do (ilock (Some (f_ip (files s f))) s) (\<lambda>_ s.
        then_do (readi (f_ip (files s f)) (f_off (files s f)) (of_int n) s) (\<lambda>(r, bs) s.
        let s = (if r > 0 then upd_file f (\<lambda>x. x\<lparr>f_off := f_off x + of_int r\<rparr>) s else s) in
        then_do (iunlock (Some (f_ip (files s f))) s) (\<lambda>_ s. Ret (r, bs) s)))
      else Panic ''fileread'')"

text \<open>The loop of \<open>filewrite\<close>, from byte \<open>i\<close> on; it returns the final value of \<open>i\<close>.\<close>

definition filewrite_max :: int where
  "filewrite_max = ((int MAXOPBLOCKS - 1 - 1 - 2) div 2) * 512"

fun filewrite_loop :: "nat \<Rightarrow> nat \<Rightarrow> u8 list \<Rightarrow> int \<Rightarrow> int \<Rightarrow> 'a filest_scheme \<Rightarrow> (int, 'a filest_scheme) outcome" where
  "filewrite_loop 0 f addr n i s = Diverge"
| "filewrite_loop (Suc fuel) f addr n i s =
     (if \<not> i < n then Ret i s
      else
        let n1 = n - i;
            n1 = (if n1 > filewrite_max then filewrite_max else n1) in
        then_do (begin_op s) (\<lambda>_ s.
        then_do (ilock (Some (f_ip (files s f))) s) (\<lambda>_ s.
        then_do (writei (f_ip (files s f)) (drop (nat i) addr) (f_off (files s f)) (of_int n1) s) (\<lambda>r s.
        let s = (if r > 0 then upd_file f (\<lambda>x. x\<lparr>f_off := f_off x + of_int r\<rparr>) s else s) in
        then_do (iunlock (Some (f_ip (files s f))) s) (\<lambda>_ s.
        then_do (end_op s) (\<lambda>_ s.
        if r < 0 then Ret i s
        else if r \<noteq> n1 then Panic ''short filewrite''
        else filewrite_loop fuel f addr n (i + r) s))))))"

definition filewrite :: "nat \<Rightarrow> u8 list \<Rightarrow> int \<Rightarrow> 'a filest_scheme \<Rightarrow> (int, 'a filest_scheme) outcome" where
  "filewrite f addr n s =
     (if \<not> f_writable (files s f) then Ret (- 1) s
      else if f_type (files s f) = FD_PIPE then pipewrite (f_pipe (files s f)) addr n s
      else if f_type (files s f) = FD_INODE then
        then_do (filewrite_loop (nat n + 1) f addr n 0 s) (\<lambda>i s.
        Ret (if i = n then n else - 1) s)
      else Panic ''filewrite'')"

section \<open>Creating a pipe\<close>

definition pipealloc_bad :: "nat option \<Rightarrow> nat option \<Rightarrow> 'a filest_scheme \<Rightarrow> ((nat \<times> nat) option, 'a filest_scheme) outcome" where
  "pipealloc_bad f0 f1 s =
     then_do (case f0 of None \<Rightarrow> Ret () s | Some f0 \<Rightarrow> fileclose f0 s) (\<lambda>_ s.
     then_do (case f1 of None \<Rightarrow> Ret () s | Some f1 \<Rightarrow> fileclose f1 s) (\<lambda>_ s.
     Ret None s))"

definition pipealloc :: "'a filest_scheme \<Rightarrow> ((nat \<times> nat) option, 'a filest_scheme) outcome" where
  "pipealloc s =
     then_do (filealloc s) (\<lambda>f0 s.
     case f0 of
       None \<Rightarrow> pipealloc_bad None None s
     | Some f0 \<Rightarrow>
       then_do (filealloc s) (\<lambda>f1 s.
       case f1 of
         None \<Rightarrow> pipealloc_bad (Some f0) None s
       | Some f1 \<Rightarrow>
         then_do (kalloc s) (\<lambda>p s.
         if p = 0 then pipealloc_bad (Some f0) (Some f1) s
         else
           let s = upd_pipe p (\<lambda>x. x\<lparr>pi_nread := 0, pi_nwrite := 0, pi_readopen := True, pi_writeopen := True\<rparr>) s;
               s = initlock (PipeLock p) s;
               s = upd_file f0 (\<lambda>x. x\<lparr>f_type := FD_PIPE, f_readable := True, f_writable := False, f_pipe := p\<rparr>) s;
               s = upd_file f1 (\<lambda>x. x\<lparr>f_type := FD_PIPE, f_readable := False, f_writable := True, f_pipe := p\<rparr>) s
           in Ret (Some (f0, f1)) s)))"

end
