(* ===== verification/Rtc.thy ===== *)
theory Rtc
  imports Prelude "HOL-Library.Monad_Syntax"
begin

text \<open>
  The real-time clock, after the last part of \<open>lapic.c\<close>. The clock chip is a function \<open>rtc\<close>: \<open>rtc k reg\<close> is what
  the \<open>k\<close>-th read access finds in register \<open>reg\<close>. \<open>cmostime\<close> reads the time until two readings agree, which may
  go on for ever, and converts it from binary-coded decimal.
\<close>

section \<open>Definitions\<close>

record rtcdate =
  rd_second :: u32
  rd_minute :: u32
  rd_hour :: u32
  rd_day :: u32
  rd_month :: u32
  rd_year :: u32

type_synonym rtc = "nat \<Rightarrow> u32 \<Rightarrow> u8"

definition CMOS_STATA :: u32 where "CMOS_STATA = 0x0A"
definition CMOS_STATB :: u32 where "CMOS_STATB = 0x0B"
definition CMOS_UIP :: u32 where "CMOS_UIP = 0x80"

definition cmos_read :: "rtc \<Rightarrow> nat \<Rightarrow> u32 \<Rightarrow> u32" where
  "cmos_read rtc k reg = ucast (rtc k reg)"

text \<open>Six reads, the first of them number \<open>k\<close>.\<close>

definition fill_rtcdate :: "rtc \<Rightarrow> nat \<Rightarrow> rtcdate" where
  "fill_rtcdate rtc k = \<lparr>rd_second = cmos_read rtc k 0, rd_minute = cmos_read rtc (k + 1) 2,
     rd_hour = cmos_read rtc (k + 2) 4, rd_day = cmos_read rtc (k + 3) 7,
     rd_month = cmos_read rtc (k + 4) 8, rd_year = cmos_read rtc (k + 5) 9\<rparr>"

partial_function (option) cmostime_loop :: "rtc \<Rightarrow> nat \<Rightarrow> (rtcdate \<times> nat) option" where
  "cmostime_loop rtc k =
     (let t1 = fill_rtcdate rtc k in
      if cmos_read rtc (k + 6) CMOS_STATA AND CMOS_UIP \<noteq> 0 then cmostime_loop rtc (k + 7)
      else
        let t2 = fill_rtcdate rtc (k + 7) in
        if t1 = t2 then Some (t1, k + 13) else cmostime_loop rtc (k + 13))"

definition conv :: "u32 \<Rightarrow> u32" where
  "conv x = drop_bit 4 x * 10 + (x AND 0xF)"

text \<open>The time and the number of the next read.\<close>

definition cmostime :: "rtc \<Rightarrow> nat \<Rightarrow> (rtcdate \<times> nat) option" where
  "cmostime rtc k =
     (let bcd = (cmos_read rtc k CMOS_STATB AND 4 = 0) in
      cmostime_loop rtc (k + 1) \<bind> (\<lambda>(t1, k).
      let t1 = (if bcd then
                  \<lparr>rd_second = conv (rd_second t1), rd_minute = conv (rd_minute t1), rd_hour = conv (rd_hour t1),
                   rd_day = conv (rd_day t1), rd_month = conv (rd_month t1), rd_year = conv (rd_year t1)\<rparr>
                else t1)
      in Some (t1\<lparr>rd_year := rd_year t1 + 2000\<rparr>, k)))"

section \<open>The chip comes to rest\<close>

text \<open>From read \<open>n\<close> on, the chip shows the registers \<open>r\<close> and no update in progress.\<close>

definition rtc_rests :: "rtc \<Rightarrow> nat \<Rightarrow> (u32 \<Rightarrow> u8) \<Rightarrow> bool" where
  "rtc_rests rtc n r \<longleftrightarrow> (\<forall>j \<ge> n. rtc j = r) \<and> ucast (r CMOS_STATA) AND CMOS_UIP = 0"

text \<open>A register in binary-coded decimal, and the time the registers stand for.\<close>

definition bcd :: "nat \<Rightarrow> u8" where
  "bcd n = of_nat (16 * (n div 10) + n mod 10)"

definition rtc_shows :: "(u32 \<Rightarrow> u8) \<Rightarrow> rtcdate \<Rightarrow> bool" where
  "rtc_shows r d \<longleftrightarrow> list_all (\<lambda>(reg, v). unat v < 100 \<and> r reg = bcd (unat v))
       [(0, rd_second d), (2, rd_minute d), (4, rd_hour d), (7, rd_day d), (8, rd_month d), (9, rd_year d - 2000)]
     \<and> ucast (r CMOS_STATB) AND (4 :: u32) = 0"

lemma conv_bcd:
  assumes "n < 100"
  shows "conv (ucast (bcd n)) = of_nat n"
proof -
  have "list_all (\<lambda>n. conv (ucast (bcd n)) = of_nat n) [0..<100]" by code_simp
  with assms show ?thesis by (simp add: list_all_iff)
qed

lemma cmostime_loop_rests:
  assumes "rtc_rests rtc n r" and "n \<le> k"
  shows "cmostime_loop rtc k = Some (fill_rtcdate rtc k, k + 13)"
  using assms by (subst cmostime_loop.simps) (simp add: rtc_rests_def fill_rtcdate_def cmos_read_def)

lemma cmostime_loop_returns:
  assumes "rtc_rests rtc n r"
  shows "\<exists>d j. cmostime_loop rtc k = Some (d, j)"
proof (induction "n - k" arbitrary: k rule: less_induct)
  case less
  show ?case
  proof (cases "n \<le> k")
    case True
    then show ?thesis using cmostime_loop_rests [OF assms] by blast
  next
    case False
    have "\<exists>d j. cmostime_loop rtc (k + 7) = Some (d, j)" "\<exists>d j. cmostime_loop rtc (k + 13) = Some (d, j)"
      using False by (auto intro!: less)
    then show ?thesis by (subst cmostime_loop.simps) (auto simp: Let_def)
  qed
qed

lemma cmostime_shows:
  assumes "rtc_rests rtc n r" and "n \<le> k" and "rtc_shows r d"
  shows "cmostime rtc k = Some (d, k + 14)"
proof -
  have r: "rtc j = r" if "k \<le> j" for j using assms(1,2) that by (simp add: rtc_rests_def)
  have f: "fill_rtcdate rtc (Suc k) = \<lparr>rd_second = ucast (r 0), rd_minute = ucast (r 2), rd_hour = ucast (r 4),
      rd_day = ucast (r 7), rd_month = ucast (r 8), rd_year = ucast (r 9)\<rparr>"
    by (simp add: fill_rtcdate_def cmos_read_def r)
  have "conv (ucast (bcd (unat v))) = v" if "unat v < 100" for v :: u32 using conv_bcd [OF that] by simp
  with assms(3) show ?thesis
    using cmostime_loop_rests [OF assms(1), of "k + 1"] assms(2)
    by (simp add: cmostime_def f Let_def rtc_shows_def cmos_read_def r)
qed

section \<open>Properties\<close>

text \<open>C26: \<open>cmostime\<close> ends when the chip comes to rest, after whatever updates it was caught in; and on a chip that is
  at rest from the start and shows a time in binary-coded decimal, it returns this time.\<close>

theorem cmostime_returns:
  assumes "rtc_rests rtc n r"
  shows "(\<exists>d j. cmostime rtc k = Some (d, j)) \<and> (n \<le> k \<and> rtc_shows r d \<longrightarrow> cmostime rtc k = Some (d, k + 14))"
proof -
  obtain d j where "cmostime_loop rtc (k + 1) = Some (d, j)" using cmostime_loop_returns [OF assms] by blast
  then have "\<exists>d j. cmostime rtc k = Some (d, j)" by (simp add: cmostime_def Let_def)
  then show ?thesis using cmostime_shows [OF assms] by blast
qed

text \<open>A chip that counts seconds up to read 30 and rests at 23:59:58 on 31 December 2024 from there on.\<close>

definition demo_rtc :: rtc where
  "demo_rtc k = (\<lambda>_. 0)(0 := if k < 30 then of_nat k else 0x58, 2 := 0x59, 4 := 0x23, 7 := 0x31, 8 := 0x12, 9 := 0x24)"

theorem cmostime_returns_witness:
  "(\<exists>d j. cmostime demo_rtc 0 = Some (d, j))
   \<and> cmostime demo_rtc 40 = Some (\<lparr>rd_second = 58, rd_minute = 59, rd_hour = 23, rd_day = 31, rd_month = 12, rd_year = 2024\<rparr>, 54)"
proof -
  let ?d = "\<lparr>rd_second = 58, rd_minute = 59, rd_hour = 23, rd_day = 31, rd_month = 12, rd_year = 2024\<rparr>"
  have "rtc_rests demo_rtc 30 (demo_rtc 30)" by (simp add: rtc_rests_def demo_rtc_def CMOS_STATA_def)
  moreover have "rtc_shows (demo_rtc 30) ?d" by (simp add: rtc_shows_def demo_rtc_def CMOS_STATB_def bcd_def)
  ultimately show ?thesis using cmostime_returns [of demo_rtc 30 "demo_rtc 30" 0] cmostime_returns [of demo_rtc 30 "demo_rtc 30" 40 ?d] by simp
qed

end
