(* ===== verification/Lifecycle.thy ===== *)
theory Lifecycle
  imports File Usermem Rtc
begin

text \<open>
  The life of a process, after \<open>proc.c\<close>: the first process, \<open>fork\<close>, \<open>exit\<close> and \<open>wait\<close>, and the first return of a
  new process to user space. Trap frames are structures in memory, at the address \<open>p_tf\<close>.
\<close>

section \<open>State\<close>

text \<open>The tick counter of \<open>trap.c\<close>, the static variable \<open>first\<close> of \<open>forkret\<close>, where the image of the first user
  program lies in memory, and the real-time clock with the number of reads so far.\<close>

record sysst = filest +
  ticks :: u32
  forkret_first :: bool
  initcode_start :: u32
  initcode_size :: u32
  rtc_chip :: rtc
  rtc_reads :: nat

text \<open>Offsets of the fields of \<open>struct trapframe\<close>.\<close>

definition tf_eax :: u32 where "tf_eax = 28"
definition tf_es :: u32 where "tf_es = 40"
definition tf_ds :: u32 where "tf_ds = 44"
definition tf_trapno :: u32 where "tf_trapno = 48"
definition tf_err :: u32 where "tf_err = 52"
definition tf_eip :: u32 where "tf_eip = 56"
definition tf_cs :: u32 where "tf_cs = 60"
definition tf_eflags :: u32 where "tf_eflags = 64"
definition tf_esp :: u32 where "tf_esp = 68"
definition tf_ss :: u32 where "tf_ss = 72"

definition DPL_USER :: u16 where "DPL_USER = 3"
definition SEG_UCODE :: u16 where "SEG_UCODE = 3"
definition SEG_UDATA :: u16 where "SEG_UDATA = 4"
definition FL_IF :: u32 where "FL_IF = 0x200"

definition ld16 :: "mem \<Rightarrow> u32 \<Rightarrow> u16" where
  "ld16 m a = ucast (m a) OR push_bit 8 (ucast (m (a + 1)))"

definition st16 :: "mem \<Rightarrow> u32 \<Rightarrow> u16 \<Rightarrow> mem" where
  "st16 m a v = m(a := ucast v, a + 1 := ucast (drop_bit 8 v))"

section \<open>The first process\<close>

definition userinit :: "'a sysst_scheme \<Rightarrow> (unit, 'a sysst_scheme) outcome" where
  "userinit s =
     then_do (allocproc s) (\<lambda>p s.
     let s = s\<lparr>initproc := p\<rparr> in
     case p of
       None \<Rightarrow> Fault ''userinit: p->pgdir''
     | Some p \<Rightarrow>
       then_do (setupkvm s) (\<lambda>d s.
       let s = upd_proc p (p_pgdir_update (\<lambda>_. d)) s in
       if d = 0 then Panic ''userinit: out of memory?''
       else
         then_do (inituvm (p_pgdir (procs s p)) (initcode_start s) (initcode_size s) s) (\<lambda>_ s.
         let s = upd_proc p (p_sz_update (\<lambda>_. PGSIZE)) s;
             tf = p_tf (procs s p);
             s = s\<lparr>mem := memset (mem s) tf 0 sizeof_trapframe\<rparr>;
             s = s\<lparr>mem := st16 (mem s) (tf + tf_cs) (push_bit 3 SEG_UCODE OR DPL_USER)\<rparr>;
             s = s\<lparr>mem := st16 (mem s) (tf + tf_ds) (push_bit 3 SEG_UDATA OR DPL_USER)\<rparr>;
             s = s\<lparr>mem := st16 (mem s) (tf + tf_es) (ld16 (mem s) (tf + tf_ds))\<rparr>;
             s = s\<lparr>mem := st16 (mem s) (tf + tf_ss) (ld16 (mem s) (tf + tf_ds))\<rparr>;
             s = s\<lparr>mem := st32 (mem s) (tf + tf_eflags) FL_IF\<rparr>;
             s = s\<lparr>mem := st32 (mem s) (tf + tf_esp) PGSIZE\<rparr>;
             s = s\<lparr>mem := st32 (mem s) (tf + tf_eip) 0\<rparr>;
             s = upd_proc p (p_prio_update (\<lambda>_. 5)) s;
             s = upd_proc p (\<lambda>x. x\<lparr>p_name := safestrcpy (p_name x) (at_list (chars ''initcode'')) 16\<rparr>) s in
         then_do (namei (chars ''/'') s) (\<lambda>cwd s.
         let s = upd_proc p (p_cwd_update (\<lambda>_. cwd)) s in
         then_do (acquire PtableLock s) (\<lambda>_ s.
         let s = upd_proc p (p_state_update (\<lambda>_. RUNNABLE)) s in
         then_do (insertProc p (p_prio (procs s p)) s) (\<lambda>_ s.
         release PtableLock s))))))"

definition growproc :: "int \<Rightarrow> 'a sysst_scheme \<Rightarrow> (int, 'a sysst_scheme) outcome" where
  "growproc n s =
     then_do (myproc s) (\<lambda>cur s.
     case cur of
       None \<Rightarrow> Fault ''growproc: curproc->sz''
     | Some cur \<Rightarrow>
       let sz = p_sz (procs s cur) in
       then_do (if n > 0 then allocuvm (p_pgdir (procs s cur)) sz (sz + of_int n) s
                else if n < 0 then deallocuvm (p_pgdir (procs s cur)) sz (sz + of_int n) s
                else Ret sz s) (\<lambda>sz s.
       if n \<noteq> 0 \<and> sz = 0 then Ret (- 1) s
       else
         let s = upd_proc cur (p_sz_update (\<lambda>_. sz)) s
         in Ret 0 (s\<lparr>cr3 := V2P (p_pgdir (procs s cur))\<rparr>)))"

section \<open>fork\<close>

definition fork :: "'a sysst_scheme \<Rightarrow> (int, 'a sysst_scheme) outcome" where
  "fork s =
     then_do (myproc s) (\<lambda>cur s.
     then_do (allocproc s) (\<lambda>np s.
     case np of
       None \<Rightarrow> Ret (- 1) s
     | Some np \<Rightarrow>
       (case cur of
          None \<Rightarrow> Fault ''fork: curproc->pgdir''
        | Some cur \<Rightarrow>
          then_do (copyuvm (p_pgdir (procs s cur)) (p_sz (procs s cur)) s) (\<lambda>d s.
          let s = upd_proc np (p_pgdir_update (\<lambda>_. d)) s in
          if d = 0 then
            then_do (kfree (p_kstack (procs s np)) s) (\<lambda>_ s.
            let s = upd_proc np (p_kstack_update (\<lambda>_. 0)) s;
                s = upd_proc np (p_state_update (\<lambda>_. UNUSED)) s
            in Ret (- 1) s)
          else
            let s = upd_proc np (p_sz_update (\<lambda>_. p_sz (procs s cur))) s;
                s = upd_proc np (p_parent_update (\<lambda>_. Some cur)) s;
                s = upd_proc np (p_prio_update (\<lambda>_. p_prio (procs s cur))) s;
                s = s\<lparr>mem := memmove (mem s) (p_tf (procs s np)) (p_tf (procs s cur)) sizeof_trapframe\<rparr>;
                s = s\<lparr>mem := st32 (mem s) (p_tf (procs s np) + tf_eax) 0\<rparr> in
            then_do (for_each (\<lambda>i s.
                case p_ofile (procs s cur) i of
                  None \<Rightarrow> Ret () s
                | Some f \<Rightarrow>
                  then_do (filedup f s) (\<lambda>f s.
                  Ret () (upd_proc np (\<lambda>x. x\<lparr>p_ofile := (p_ofile x)(i := Some f)\<rparr>) s))) [0..<NOFILE] s) (\<lambda>_ s.
            then_do (case p_cwd (procs s cur) of None \<Rightarrow> Fault ''idup: ip->ref'' | Some c \<Rightarrow> idup c s) (\<lambda>c s.
            let s = upd_proc np (p_cwd_update (\<lambda>_. Some c)) s;
                s = upd_proc np (\<lambda>x. x\<lparr>p_name := safestrcpy (p_name x) (at_list (p_name (procs s cur))) 16\<rparr>) s;
                pid = p_pid (procs s np) in
            then_do (acquire PtableLock s) (\<lambda>_ s.
            let s = upd_proc np (p_state_update (\<lambda>_. RUNNABLE)) s in
            then_do (insertProc np (p_prio (procs s np)) s) (\<lambda>_ s.
            then_do (release PtableLock s) (\<lambda>_ s.
            Ret (sint pid) s)))))))))"

section \<open>exit and wait\<close>

text \<open>The part of \<open>exit\<close> with the lock of the process table held, up to the call of \<open>sched\<close>.\<close>

definition exit_locked :: "nat \<Rightarrow> 'a sysst_scheme \<Rightarrow> (unit, 'a sysst_scheme) outcome" where
  "exit_locked cur s =
     then_do (wakeup1 (map_option ChProc (p_parent (procs s cur))) s) (\<lambda>_ s.
     then_do (for_each (\<lambda>p s.
         if p_parent (procs s p) = Some cur then
           let s = upd_proc p (p_parent_update (\<lambda>_. initproc s)) s in
           if p_state (procs s p) = ZOMBIE then wakeup1 (map_option ChProc (initproc s)) s
           else Ret () s
         else Ret () s) [0..<NPROC] s) (\<lambda>_ s.
     then_do (deallocuvm (p_pgdir (procs s cur)) KERNBASE 0 s) (\<lambda>_ s.
     Ret () (upd_proc cur (p_state_update (\<lambda>_. ZOMBIE)) s))))"

text \<open>\<open>exit\<close> does not return: its outcome is \<open>Exited\<close>, in the state in which it switches to the scheduler.\<close>

definition kexit :: "u32 \<Rightarrow> 'a sysst_scheme \<Rightarrow> ('b, 'a sysst_scheme) outcome" where
  "kexit status s =
     then_do (myproc s) (\<lambda>cur s.
     case cur of
       None \<Rightarrow> Fault ''exit: curproc->status''
     | Some cur \<Rightarrow>
       let s = upd_proc cur (p_status_update (\<lambda>_. status)) s in
       if Some cur = initproc s then Panic ''init exiting''
       else
         then_do (for_each (\<lambda>fd s.
             case p_ofile (procs s cur) fd of
               None \<Rightarrow> Ret () s
             | Some f \<Rightarrow>
               then_do (fileclose f s) (\<lambda>_ s.
               Ret () (upd_proc cur (\<lambda>x. x\<lparr>p_ofile := (p_ofile x)(fd := None)\<rparr>) s))) [0..<NOFILE] s) (\<lambda>_ s.
         then_do (begin_op s) (\<lambda>_ s.
         then_do (case p_cwd (procs s cur) of None \<Rightarrow> Fault ''iput: ip->lock'' | Some c \<Rightarrow> iput c s) (\<lambda>_ s.
         then_do (end_op s) (\<lambda>_ s.
         let s = upd_proc cur (p_cwd_update (\<lambda>_. None)) s in
         then_do (acquire PtableLock s) (\<lambda>_ s.
         then_do (exit_locked cur s) (\<lambda>_ s.
         then_do (sched_enter s) (\<lambda>_ s.
         Exited s))))))))"

text \<open>A round of the loop of \<open>wait\<close>: an exited child is released, else the parent gives up or sleeps.\<close>

definition wait_loop :: "nat \<Rightarrow> u32 \<Rightarrow> 'a sysst_scheme \<Rightarrow> (int, 'a sysst_scheme) outcome" where
  "wait_loop cur status s =
     (case find_idx (\<lambda>p. p_parent (procs s p) = Some cur \<and> p_state (procs s p) = ZOMBIE) NPROC of
        Some p \<Rightarrow>
          let pid = p_pid (procs s p) in
          then_do (kfree (p_kstack (procs s p)) s) (\<lambda>_ s.
          then_do (kstore_bytes (bytes32 (p_status (procs s p))) status s) (\<lambda>_ s.
          let s = upd_proc p (p_kstack_update (\<lambda>_. 0)) s in
          then_do (freevm (p_pgdir (procs s p)) False s) (\<lambda>_ s.
          let s = upd_proc p (p_pid_update (\<lambda>_. 0)) s;
              s = upd_proc p (p_parent_update (\<lambda>_. None)) s;
              s = upd_proc p (\<lambda>x. x\<lparr>p_name := (p_name x)[0 := 0]\<rparr>) s;
              s = upd_proc p (p_killed_update (\<lambda>_. False)) s;
              s = upd_proc p (p_state_update (\<lambda>_. UNUSED)) s in
          then_do (release PtableLock s) (\<lambda>_ s. Ret (sint pid) s))))
      | None \<Rightarrow>
          if find_idx (\<lambda>p. p_parent (procs s p) = Some cur) NPROC = None \<or> p_killed (procs s cur) then
            then_do (release PtableLock s) (\<lambda>_ s. Ret (- 1) s)
          else ksleep (ChProc cur) PtableLock s)"

definition wait :: "u32 \<Rightarrow> 'a sysst_scheme \<Rightarrow> (int, 'a sysst_scheme) outcome" where
  "wait status s =
     then_do (myproc s) (\<lambda>cur s.
     then_do (acquire PtableLock s) (\<lambda>_ s.
     case cur of
       None \<Rightarrow> Fault ''wait: curproc''
     | Some cur \<Rightarrow> wait_loop cur status s))"

definition wait_resume :: "nat \<Rightarrow> bool \<Rightarrow> u32 \<Rightarrow> 'a sysst_scheme \<Rightarrow> (int, 'a sysst_scheme) outcome" where
  "wait_resume cur intena status s =
     then_do (sleep_resume cur intena PtableLock s) (\<lambda>_ s. wait_loop cur status s)"

section \<open>The first return to user space\<close>

definition forkret :: "'a sysst_scheme \<Rightarrow> (unit, 'a sysst_scheme) outcome" where
  "forkret s =
     then_do (release PtableLock s) (\<lambda>_ s.
     if forkret_first s then
       let s = s\<lparr>forkret_first := False\<rparr> in
       then_do (iinit ROOTDEV s) (\<lambda>_ s. initlog ROOTDEV s)
     else Ret () s)"

end
