(* ===== verification/Exec.thy ===== *)
theory Exec
  imports Lifecycle
begin

text \<open>
  Running a program, after \<open>exec.c\<close>, \<open>elf.h\<close> and \<open>loaduvm\<close> of \<open>vm.c\<close>: an ELF file is loaded into a fresh address
  space, the arguments are copied onto a fresh stack, and only then the process is switched to the new image.
  The path is given by its bytes, the arguments by the addresses of their strings in the old address space.
\<close>

section \<open>Loading\<close>

fun loaduvm_loop :: "nat \<Rightarrow> u32 \<Rightarrow> u32 \<Rightarrow> nat \<Rightarrow> u32 \<Rightarrow> u32 \<Rightarrow> u32 \<Rightarrow> 'a sysst_scheme \<Rightarrow> (int, 'a sysst_scheme) outcome" where
  "loaduvm_loop 0 pgdir addr ip offset sz i s = Diverge"
| "loaduvm_loop (Suc fuel) pgdir addr ip offset sz i s =
     (if \<not> i < sz then Ret 0 s
      else
        then_do (walkpgdir pgdir (addr + i) False s) (\<lambda>pte s.
        if pte = 0 then Panic ''loaduvm: address should exist''
        else
          let pa = PTE_ADDR (ld32 (mem s) pte);
              n = (if sz - i < PGSIZE then sz - i else PGSIZE) in
          then_do (readi ip (offset + i) n s) (\<lambda>(r, bs) s.
          let s = s\<lparr>mem := put_bytes (mem s) (P2V pa) bs\<rparr> in
          if of_int r \<noteq> n then Ret (- 1) s
          else loaduvm_loop fuel pgdir addr ip offset sz (i + PGSIZE) s)))"

definition loaduvm :: "u32 \<Rightarrow> u32 \<Rightarrow> nat \<Rightarrow> u32 \<Rightarrow> u32 \<Rightarrow> 'a sysst_scheme \<Rightarrow> (int, 'a sysst_scheme) outcome" where
  "loaduvm pgdir addr ip offset sz s =
     (if addr mod PGSIZE \<noteq> 0 then Panic ''loaduvm: addr must be page aligned''
      else loaduvm_loop (unat sz div 4096 + 2) pgdir addr ip offset sz 0 s)"

definition ELF_MAGIC :: u32 where "ELF_MAGIC = 0x464C457F"
definition ELF_PROG_LOAD :: u32 where "ELF_PROG_LOAD = 1"
definition sizeof_elfhdr :: u32 where "sizeof_elfhdr = 52"
definition sizeof_proghdr :: u32 where "sizeof_proghdr = 32"
definition MAXARG :: nat where "MAXARG = 32"

record elfhdr =
  elf_magic :: u32
  elf_entry :: u32
  elf_phoff :: u32
  elf_phnum :: u16

definition elfhdr_get :: "u8 list \<Rightarrow> elfhdr" where
  "elfhdr_get d = \<lparr>elf_magic = get32 d 0, elf_entry = get32 d 24, elf_phoff = get32 d 28, elf_phnum = get16 d 44\<rparr>"

record proghdr =
  ph_type :: u32
  ph_off :: u32
  ph_vaddr :: u32
  ph_filesz :: u32
  ph_memsz :: u32

definition proghdr_get :: "u8 list \<Rightarrow> proghdr" where
  "proghdr_get d = \<lparr>ph_type = get32 d 0, ph_off = get32 d 4, ph_vaddr = get32 d 8, ph_filesz = get32 d 16,
     ph_memsz = get32 d 20\<rparr>"

text \<open>The loop over the program headers. The result is the new size, or \<open>None\<close> for a jump to \<open>bad\<close>.\<close>

primrec exec_segments :: "nat \<Rightarrow> u32 \<Rightarrow> u32 \<Rightarrow> nat \<Rightarrow> u32 \<Rightarrow> 'a sysst_scheme \<Rightarrow> (u32 option, 'a sysst_scheme) outcome" where
  "exec_segments 0 pgdir off ip sz s = Ret (Some sz) s"
| "exec_segments (Suc k) pgdir off ip sz s =
     then_do (readi ip off sizeof_proghdr s) (\<lambda>(r, d) s.
     if of_int r \<noteq> sizeof_proghdr then Ret None s
     else
       let ph = proghdr_get d in
       if ph_type ph \<noteq> ELF_PROG_LOAD \<or> ph_memsz ph = 0 then exec_segments k pgdir (off + sizeof_proghdr) ip sz s
       else if ph_memsz ph < ph_filesz ph then Ret None s
       else if ph_vaddr ph + ph_memsz ph < ph_vaddr ph then Ret None s
       else
         then_do (allocuvm pgdir sz (ph_vaddr ph + ph_memsz ph) s) (\<lambda>sz s.
         if sz = 0 then Ret None s
         else if ph_vaddr ph mod PGSIZE \<noteq> 0 then Ret None s
         else
           then_do (loaduvm pgdir (ph_vaddr ph) ip (ph_off ph) (ph_filesz ph) s) (\<lambda>r s.
           if r < 0 then Ret None s
           else exec_segments k pgdir (off + sizeof_proghdr) ip sz s)))"

section \<open>Arguments\<close>

text \<open>The string at a user address, without its NUL.\<close>

primrec kload_str :: "nat \<Rightarrow> u32 \<Rightarrow> 'a ptab_scheme \<Rightarrow> (u8 list, 'a ptab_scheme) outcome" where
  "kload_str 0 va s = Diverge"
| "kload_str (Suc fuel) va s =
     then_do (kload va s) (\<lambda>b s.
     if b = 0 then Ret [] s
     else then_do (kload_str fuel (va + 1) s) (\<lambda>bs s. Ret (b # bs) s))"

text \<open>The loop that pushes the argument strings; the addresses pushed are collected in \<open>ustack\<close>.\<close>

primrec exec_args :: "u32 list \<Rightarrow> nat \<Rightarrow> u32 \<Rightarrow> u32 \<Rightarrow> u32 list \<Rightarrow> 'a sysst_scheme \<Rightarrow> ((u32 \<times> u32 list) option, 'a sysst_scheme) outcome" where
  "exec_args [] argc pgdir sp ustack s = Ret (Some (sp, ustack)) s"
| "exec_args (a # as) argc pgdir sp ustack s =
     (if argc \<ge> MAXARG then Ret None s
      else
        then_do (kload_str 4294967296 a s) (\<lambda>str s.
        let sp = (sp - (of_nat (length str) + 1)) AND NOT 3 in
        then_do (copyout pgdir sp (str @ [0]) (of_nat (length str) + 1) s) (\<lambda>r s.
        if r < 0 then Ret None s
        else exec_args as (Suc argc) pgdir sp (ustack @ [sp]) s)))"

section \<open>exec\<close>

definition exec_bad :: "u32 \<Rightarrow> nat option \<Rightarrow> 'a sysst_scheme \<Rightarrow> (int, 'a sysst_scheme) outcome" where
  "exec_bad pgdir ip s =
     then_do (if pgdir \<noteq> 0 then freevm pgdir True s else Ret () s) (\<lambda>_ s.
     then_do (case ip of
         None \<Rightarrow> Ret () s
       | Some ip \<Rightarrow> then_do (iunlockput ip s) (\<lambda>_ s. end_op s)) (\<lambda>_ s.
     Ret (- 1) s))"

text \<open>From the moment the program is loaded: stack, arguments and the commitment to the new image.\<close>

definition exec_stack :: "nat \<Rightarrow> u8 list \<Rightarrow> u32 list \<Rightarrow> u32 \<Rightarrow> u32 \<Rightarrow> u32 \<Rightarrow> 'a sysst_scheme \<Rightarrow> (int, 'a sysst_scheme) outcome" where
  "exec_stack cur path argv entry pgdir sz s =
     (let sz = PGROUNDUP sz in
      then_do (allocuvm pgdir sz (sz + 2 * PGSIZE) s) (\<lambda>sz s.
      if sz = 0 then exec_bad pgdir None s
      else
        then_do (clearpteu pgdir (sz - 2 * PGSIZE) s) (\<lambda>_ s.
        then_do (exec_args argv 0 pgdir sz [] s) (\<lambda>r s.
        case r of
          None \<Rightarrow> exec_bad pgdir None s
        | Some (sp, args) \<Rightarrow>
          let argc = of_nat (length args);
              ustack = [0xFFFFFFFF, argc, sp - (argc + 1) * 4] @ args @ [0];
              sp = sp - (3 + argc + 1) * 4 in
          then_do (copyout pgdir sp (concat (map bytes32 ustack)) ((3 + argc + 1) * 4) s) (\<lambda>r s.
          if r < 0 then exec_bad pgdir None s
          else
            let last' = rev (takeWhile (\<lambda>c. c \<noteq> 47) (rev path));
                s = upd_proc cur (\<lambda>x. x\<lparr>p_name := safestrcpy (p_name x) (at_list last') 16\<rparr>) s;
                oldpgdir = p_pgdir (procs s cur);
                s = upd_proc cur (p_pgdir_update (\<lambda>_. pgdir)) s;
                s = upd_proc cur (p_sz_update (\<lambda>_. sz)) s;
                s = s\<lparr>mem := st32 (mem s) (p_tf (procs s cur) + tf_eip) entry\<rparr>;
                s = s\<lparr>mem := st32 (mem s) (p_tf (procs s cur) + tf_esp) sp\<rparr> in
            then_do (switchuvm (Some cur) s) (\<lambda>_ s.
            then_do (freevm oldpgdir True s) (\<lambda>_ s.
            Ret 0 s)))))))"

definition exec :: "u8 list \<Rightarrow> u32 list \<Rightarrow> 'a sysst_scheme \<Rightarrow> (int, 'a sysst_scheme) outcome" where
  "exec path argv s =
     then_do (myproc s) (\<lambda>cur s.
     then_do (begin_op s) (\<lambda>_ s.
     then_do (namei path s) (\<lambda>ip s.
     case ip of
       None \<Rightarrow>
         then_do (end_op s) (\<lambda>_ s.
         then_do (cprintf (chars ''exec: fail'' @ [10]) [] s) (\<lambda>_ s. Ret (- 1) s))
     | Some ip \<Rightarrow>
       then_do (ilock (Some ip) s) (\<lambda>_ s.
       then_do (readi ip 0 sizeof_elfhdr s) (\<lambda>(r, d) s.
       let elf = elfhdr_get d in
       if of_int r \<noteq> sizeof_elfhdr then exec_bad 0 (Some ip) s
       else if elf_magic elf \<noteq> ELF_MAGIC then exec_bad 0 (Some ip) s
       else
         then_do (setupkvm s) (\<lambda>pgdir s.
         if pgdir = 0 then exec_bad 0 (Some ip) s
         else
           then_do (exec_segments (unat (elf_phnum elf)) pgdir (elf_phoff elf) ip 0 s) (\<lambda>r s.
           case r of
             None \<Rightarrow> exec_bad pgdir (Some ip) s
           | Some sz \<Rightarrow>
             then_do (iunlockput ip s) (\<lambda>_ s.
             then_do (end_op s) (\<lambda>_ s.
             case cur of
               None \<Rightarrow> Fault ''exec: curproc''
             | Some cur \<Rightarrow> exec_stack cur path argv (elf_entry elf) pgdir sz s))))))))) "

end
