(* ===== verification/Sysproc.thy ===== *)
theory Sysproc
  imports Exec
begin

text \<open>
  Access to system call arguments (\<open>syscall.c\<close>) and the system calls on processes (\<open>sysproc.c\<close>). A call that
  returns an error in the C code by a negative number returns it here too; the helpers that deliver a value
  through a pointer return an option.
\<close>

section \<open>Arguments\<close>

definition fetchint :: "u32 \<Rightarrow> 'a sysst_scheme \<Rightarrow> (u32 option, 'a sysst_scheme) outcome" where
  "fetchint addr s =
     then_do (myproc s) (\<lambda>cur s.
     case cur of
       None \<Rightarrow> Fault ''fetchint: curproc->sz''
     | Some cur \<Rightarrow>
       if addr \<ge> p_sz (procs s cur) \<or> addr + 4 > p_sz (procs s cur) then Ret None s
       else then_do (kload_bytes 4 addr s) (\<lambda>bs s. Ret (Some (get32 bs 0)) s))"

primrec fetchstr_loop :: "nat \<Rightarrow> u32 \<Rightarrow> u32 \<Rightarrow> u8 list \<Rightarrow> 'a sysst_scheme \<Rightarrow> (u8 list option, 'a sysst_scheme) outcome" where
  "fetchstr_loop 0 a ep acc s = Ret None s"
| "fetchstr_loop (Suc fuel) a ep acc s =
     (if \<not> a < ep then Ret None s
      else then_do (kload a s) (\<lambda>b s.
        if b = 0 then Ret (Some acc) s
        else fetchstr_loop fuel (a + 1) ep (acc @ [b]) s))"

text \<open>The string is returned; its length is the result of the C function.\<close>

definition fetchstr :: "u32 \<Rightarrow> 'a sysst_scheme \<Rightarrow> (u8 list option, 'a sysst_scheme) outcome" where
  "fetchstr addr s =
     then_do (myproc s) (\<lambda>cur s.
     case cur of
       None \<Rightarrow> Fault ''fetchstr: curproc->sz''
     | Some cur \<Rightarrow>
       let sz = p_sz (procs s cur) in
       if addr \<ge> sz then Ret None s
       else fetchstr_loop (unat (sz - addr)) addr sz [] s)"

definition argint :: "nat \<Rightarrow> 'a sysst_scheme \<Rightarrow> (u32 option, 'a sysst_scheme) outcome" where
  "argint n s =
     then_do (myproc s) (\<lambda>cur s.
     case cur of
       None \<Rightarrow> Fault ''argint: myproc()->tf''
     | Some cur \<Rightarrow> fetchint (ld32 (mem s) (p_tf (procs s cur) + tf_esp) + 4 + 4 * of_nat n) s)"

definition argptr :: "nat \<Rightarrow> int \<Rightarrow> 'a sysst_scheme \<Rightarrow> (u32 option, 'a sysst_scheme) outcome" where
  "argptr n sz s =
     then_do (myproc s) (\<lambda>cur s.
     then_do (argint n s) (\<lambda>i s.
     case (cur, i) of
       (Some cur, Some i) \<Rightarrow>
         if sz < 0 \<or> i \<ge> p_sz (procs s cur) \<or> i + of_int sz > p_sz (procs s cur) then Ret None s
         else Ret (Some i) s
     | _ \<Rightarrow> Ret None s))"

definition argstr :: "nat \<Rightarrow> 'a sysst_scheme \<Rightarrow> (u8 list option, 'a sysst_scheme) outcome" where
  "argstr n s =
     then_do (argint n s) (\<lambda>addr s.
     case addr of None \<Rightarrow> Ret None s | Some addr \<Rightarrow> fetchstr addr s)"

section \<open>System calls on processes\<close>

definition sys_fork :: "'a sysst_scheme \<Rightarrow> (int, 'a sysst_scheme) outcome" where
  "sys_fork s = fork s"

definition sys_exit :: "'a sysst_scheme \<Rightarrow> (int, 'a sysst_scheme) outcome" where
  "sys_exit s =
     then_do (argint 0 s) (\<lambda>i s.
     case i of None \<Rightarrow> Ret (- 1) s | Some i \<Rightarrow> kexit (push_bit 8 i) s)"

definition sys_wait :: "'a sysst_scheme \<Rightarrow> (int, 'a sysst_scheme) outcome" where
  "sys_wait s =
     then_do (argptr 0 4 s) (\<lambda>i s.
     case i of None \<Rightarrow> Ret (- 1) s | Some i \<Rightarrow> wait i s)"

definition sys_kill :: "'a sysst_scheme \<Rightarrow> (int, 'a sysst_scheme) outcome" where
  "sys_kill s =
     then_do (argint 0 s) (\<lambda>pid s.
     case pid of None \<Rightarrow> Ret (- 1) s | Some pid \<Rightarrow> kill pid s)"

definition sys_getpid :: "'a sysst_scheme \<Rightarrow> (int, 'a sysst_scheme) outcome" where
  "sys_getpid s =
     then_do (myproc s) (\<lambda>p s.
     case p of None \<Rightarrow> Fault ''sys_getpid: myproc()->pid'' | Some p \<Rightarrow> Ret (sint (p_pid (procs s p))) s)"

definition sys_sbrk :: "'a sysst_scheme \<Rightarrow> (int, 'a sysst_scheme) outcome" where
  "sys_sbrk s =
     then_do (argint 0 s) (\<lambda>n s.
     case n of
       None \<Rightarrow> Ret (- 1) s
     | Some n \<Rightarrow>
       then_do (myproc s) (\<lambda>p s.
       case p of
         None \<Rightarrow> Fault ''sys_sbrk: myproc()->sz''
       | Some p \<Rightarrow>
         let addr = p_sz (procs s p);
             s = upd_proc p (p_sz_update (\<lambda>_. addr + n)) s in
         if n <s 0 then
           then_do (deallocuvm (p_pgdir (procs s p)) addr (p_sz (procs s p)) s) (\<lambda>_ s.
           Ret (sint addr) (s\<lparr>cr3 := V2P (p_pgdir (procs s p))\<rparr>))
         else Ret (sint addr) s))"

text \<open>\<open>sys_sleep\<close> from the test of its loop on.\<close>

definition sys_sleep_loop :: "u32 \<Rightarrow> u32 \<Rightarrow> 'a sysst_scheme \<Rightarrow> (int, 'a sysst_scheme) outcome" where
  "sys_sleep_loop ticks0 n s =
     (if ticks s - ticks0 < n then
        then_do (myproc s) (\<lambda>p s.
        case p of
          None \<Rightarrow> Fault ''sys_sleep: myproc()->killed''
        | Some p \<Rightarrow>
          if p_killed (procs s p) then then_do (release TicksLock s) (\<lambda>_ s. Ret (- 1) s)
          else ksleep ChTicks TicksLock s)
      else then_do (release TicksLock s) (\<lambda>_ s. Ret 0 s))"

definition sys_sleep :: "'a sysst_scheme \<Rightarrow> (int, 'a sysst_scheme) outcome" where
  "sys_sleep s =
     then_do (argint 0 s) (\<lambda>n s.
     case n of
       None \<Rightarrow> Ret (- 1) s
     | Some n \<Rightarrow>
       then_do (acquire TicksLock s) (\<lambda>_ s. sys_sleep_loop (ticks s) n s))"

definition sys_sleep_resume :: "nat \<Rightarrow> bool \<Rightarrow> u32 \<Rightarrow> u32 \<Rightarrow> 'a sysst_scheme \<Rightarrow> (int, 'a sysst_scheme) outcome" where
  "sys_sleep_resume p intena ticks0 n s =
     then_do (sleep_resume p intena TicksLock s) (\<lambda>_ s. sys_sleep_loop ticks0 n s)"

definition sys_uptime :: "'a sysst_scheme \<Rightarrow> (int, 'a sysst_scheme) outcome" where
  "sys_uptime s =
     then_do (acquire TicksLock s) (\<lambda>_ s.
     let xticks = ticks s in
     then_do (release TicksLock s) (\<lambda>_ s. Ret (sint xticks) s))"

definition rtcdate_bytes :: "rtcdate \<Rightarrow> u8 list" where
  "rtcdate_bytes t = bytes32 (rd_second t) @ bytes32 (rd_minute t) @ bytes32 (rd_hour t) @ bytes32 (rd_day t)
     @ bytes32 (rd_month t) @ bytes32 (rd_year t)"

definition sys_date :: "'a sysst_scheme \<Rightarrow> (int, 'a sysst_scheme) outcome" where
  "sys_date s =
     then_do (argptr 0 24 s) (\<lambda>ptr s.
     case ptr of
       None \<Rightarrow> Ret (- 1) s
     | Some ptr \<Rightarrow>
       (case cmostime (rtc_chip s) (rtc_reads s) of
          None \<Rightarrow> Diverge
        | Some (t, k) \<Rightarrow>
          let s = s\<lparr>rtc_reads := k\<rparr> in
          then_do (kstore_bytes (rtcdate_bytes t) ptr s) (\<lambda>_ s. Ret 0 s)))"

text \<open>The loop of \<open>sys_phmem\<close>, from address \<open>a\<close> on.\<close>

fun phmem_loop :: "nat \<Rightarrow> nat \<Rightarrow> u32 \<Rightarrow> u32 \<Rightarrow> 'a sysst_scheme \<Rightarrow> (u32, 'a sysst_scheme) outcome" where
  "phmem_loop 0 p a count s = Diverge"
| "phmem_loop (Suc fuel) p a count s =
     (if \<not> a \<le> p_sz (procs s p) then Ret count s
      else
        then_do (walkpgdir (p_pgdir (procs s p)) a False s) (\<lambda>pte s.
        if pte = 0 then Fault ''sys_phmem: *pte''
        else
          let count = (if ld32 (mem s) pte AND PTE_P \<noteq> 0 then count + 1 else count)
          in phmem_loop fuel p (a + PGSIZE) count s))"

definition no_such_pid :: "u8 list" where
  "no_such_pid = chars ''No existe un proceso con esa PID'' @ [10]"

definition sys_phmem :: "'a sysst_scheme \<Rightarrow> (int, 'a sysst_scheme) outcome" where
  "sys_phmem s =
     then_do (argint 0 s) (\<lambda>pid s.
     case pid of
       None \<Rightarrow> Ret (- 1) s
     | Some pid \<Rightarrow>
       then_do (getProcbyPID pid s) (\<lambda>p s.
       case p of
         None \<Rightarrow> then_do (cprintf no_such_pid [] s) (\<lambda>_ s. Ret (- 1) s)
       | Some p \<Rightarrow>
         then_do (phmem_loop (unat (p_sz (procs s p)) div 4096 + 2) p 0 0 s) (\<lambda>count s.
         let end' = count * PGSIZE div 1024 in
         then_do (cprintf (chars ''%d'') [PNum end'] s) (\<lambda>_ s.
         Ret (sint end') s))))"

definition sys_getprio :: "'a sysst_scheme \<Rightarrow> (int, 'a sysst_scheme) outcome" where
  "sys_getprio s =
     then_do (argint 0 s) (\<lambda>pid s.
     case pid of
       None \<Rightarrow> Ret (- 1) s
     | Some pid \<Rightarrow>
       then_do (getProcbyPID pid s) (\<lambda>p s.
       case p of
         None \<Rightarrow> then_do (cprintf no_such_pid [] s) (\<lambda>_ s. Ret (- 1) s)
       | Some p \<Rightarrow> Ret (sint (p_prio (procs s p))) s))"

definition sys_setprio :: "'a sysst_scheme \<Rightarrow> (int, 'a sysst_scheme) outcome" where
  "sys_setprio s =
     then_do (argint 0 s) (\<lambda>pid s.
     case pid of
       None \<Rightarrow> Ret (- 1) s
     | Some pid \<Rightarrow>
       then_do (argint 1 s) (\<lambda>a s.
       case a of
         None \<Rightarrow> Ret (- 1) s
       | Some a \<Rightarrow>
         then_do (getProcbyPID pid s) (\<lambda>p s.
         case p of
           None \<Rightarrow> then_do (cprintf no_such_pid [] s) (\<lambda>_ s. Ret (- 1) s)
         | Some p \<Rightarrow>
           then_do (if p_state (procs s p) = RUNNABLE
                    then then_do (setNewPrio p a s) (\<lambda>_ s. Ret () s)
                    else Ret () (upd_proc p (p_prio_update (\<lambda>_. a)) s)) (\<lambda>_ s.
           Ret (sint (p_prio (procs s p))) s))))"

end
