(* ===== verification/Sysfile.thy ===== *)
theory Sysfile
  imports Sysproc
begin

text \<open>
  The system calls on files, after \<open>sysfile.c\<close>: file descriptors, reading and writing, links, directories, opening
  and creating files, pipes and the argument vector of \<open>exec\<close>. The bytes of \<open>read\<close> and \<open>write\<close> move between
  user memory and the file layer at the boundary of the calls of \<open>fileread\<close> and \<open>filewrite\<close>.
\<close>

section \<open>File descriptors\<close>

definition O_RDONLY :: u32 where "O_RDONLY = 0"
definition O_WRONLY :: u32 where "O_WRONLY = 1"
definition O_RDWR :: u32 where "O_RDWR = 2"
definition O_CREATE :: u32 where "O_CREATE = 0x200"

definition argfd :: "nat \<Rightarrow> 'a sysst_scheme \<Rightarrow> ((nat \<times> nat) option, 'a sysst_scheme) outcome" where
  "argfd n s =
     then_do (argint n s) (\<lambda>fd s.
     case fd of
       None \<Rightarrow> Ret None s
     | Some fd \<Rightarrow>
       if sint fd < 0 \<or> sint fd \<ge> int NOFILE then Ret None s
       else then_do (myproc s) (\<lambda>p s.
         case p of
           None \<Rightarrow> Fault ''argfd: myproc()->ofile''
         | Some p \<Rightarrow>
           (case p_ofile (procs s p) (unat fd) of
              None \<Rightarrow> Ret None s
            | Some f \<Rightarrow> Ret (Some (unat fd, f)) s)))"

definition fdalloc :: "nat \<Rightarrow> 'a sysst_scheme \<Rightarrow> (int, 'a sysst_scheme) outcome" where
  "fdalloc f s =
     then_do (myproc s) (\<lambda>cur s.
     case cur of
       None \<Rightarrow> Fault ''fdalloc: curproc->ofile''
     | Some cur \<Rightarrow>
       (case find_idx (\<lambda>fd. p_ofile (procs s cur) fd = None) NOFILE of
          Some fd \<Rightarrow> Ret (int fd) (upd_proc cur (\<lambda>x. x\<lparr>p_ofile := (p_ofile x)(fd := Some f)\<rparr>) s)
        | None \<Rightarrow> Ret (- 1) s))"

definition set_ofile :: "nat \<Rightarrow> nat option \<Rightarrow> 'a sysst_scheme \<Rightarrow> (unit, 'a sysst_scheme) outcome" where
  "set_ofile fd f s =
     then_do (myproc s) (\<lambda>cur s.
     case cur of
       None \<Rightarrow> Fault ''myproc()->ofile''
     | Some cur \<Rightarrow> Ret () (upd_proc cur (\<lambda>x. x\<lparr>p_ofile := (p_ofile x)(fd := f)\<rparr>) s))"

definition sys_dup :: "'a sysst_scheme \<Rightarrow> (int, 'a sysst_scheme) outcome" where
  "sys_dup s =
     then_do (argfd 0 s) (\<lambda>r s.
     case r of
       None \<Rightarrow> Ret (- 1) s
     | Some (_, f) \<Rightarrow>
       then_do (fdalloc f s) (\<lambda>fd s.
       if fd < 0 then Ret (- 1) s
       else then_do (filedup f s) (\<lambda>_ s. Ret fd s)))"

definition sys_dup2 :: "'a sysst_scheme \<Rightarrow> (int, 'a sysst_scheme) outcome" where
  "sys_dup2 s =
     then_do (myproc s) (\<lambda>cur s.
     then_do (argfd 0 s) (\<lambda>r s.
     case r of
       None \<Rightarrow> Ret (- 1) s
     | Some (_, f) \<Rightarrow>
       then_do (argint 1 s) (\<lambda>gd s.
       case gd of
         None \<Rightarrow> Ret (- 1) s
       | Some gd \<Rightarrow>
         if sint gd < 0 \<or> sint gd \<ge> int NOFILE then Ret (- 1) s
         else
           (case cur of
              None \<Rightarrow> Fault ''sys_dup2: myproc()->ofile''
            | Some cur \<Rightarrow>
              let g = p_ofile (procs s cur) (unat gd) in
              if Some f = g then Ret (sint gd) s
              else
                then_do (case g of
                    None \<Rightarrow> Ret () s
                  | Some g \<Rightarrow>
                    let s = upd_proc cur (\<lambda>x. x\<lparr>p_ofile := (p_ofile x)(unat gd := None)\<rparr>) s in
                    fileclose g s) (\<lambda>_ s.
                let s = upd_proc cur (\<lambda>x. x\<lparr>p_ofile := (p_ofile x)(unat gd := Some f)\<rparr>) s in
                then_do (filedup f s) (\<lambda>_ s. Ret (sint gd) s))))))"

definition sys_read :: "'a sysst_scheme \<Rightarrow> (int, 'a sysst_scheme) outcome" where
  "sys_read s =
     then_do (argfd 0 s) (\<lambda>r s.
     case r of
       None \<Rightarrow> Ret (- 1) s
     | Some (_, f) \<Rightarrow>
       then_do (argint 2 s) (\<lambda>n s.
       case n of
         None \<Rightarrow> Ret (- 1) s
       | Some n \<Rightarrow>
         then_do (argptr 1 (sint n) s) (\<lambda>p s.
         case p of
           None \<Rightarrow> Ret (- 1) s
         | Some p \<Rightarrow>
           then_do (fileread f (sint n) s) (\<lambda>(r, bs) s.
           then_do (kstore_bytes bs p s) (\<lambda>_ s. Ret r s)))))"

definition sys_write :: "'a sysst_scheme \<Rightarrow> (int, 'a sysst_scheme) outcome" where
  "sys_write s =
     then_do (argfd 0 s) (\<lambda>r s.
     case r of
       None \<Rightarrow> Ret (- 1) s
     | Some (_, f) \<Rightarrow>
       then_do (argint 2 s) (\<lambda>n s.
       case n of
         None \<Rightarrow> Ret (- 1) s
       | Some n \<Rightarrow>
         then_do (argptr 1 (sint n) s) (\<lambda>p s.
         case p of
           None \<Rightarrow> Ret (- 1) s
         | Some p \<Rightarrow>
           then_do (kload_bytes (nat (sint n)) p s) (\<lambda>bs s.
           filewrite f bs (sint n) s))))"

definition sys_close :: "'a sysst_scheme \<Rightarrow> (int, 'a sysst_scheme) outcome" where
  "sys_close s =
     then_do (argfd 0 s) (\<lambda>r s.
     case r of
       None \<Rightarrow> Ret (- 1) s
     | Some (fd, f) \<Rightarrow>
       then_do (set_ofile fd None s) (\<lambda>_ s.
       then_do (fileclose f s) (\<lambda>_ s. Ret 0 s)))"

text \<open>The fields of \<open>struct stat\<close> as they lie in memory, with the padding that aligns them.\<close>

definition stat_stores :: "stat \<Rightarrow> u32 \<Rightarrow> 'a sysst_scheme \<Rightarrow> (unit, 'a sysst_scheme) outcome" where
  "stat_stores st a s =
     then_do (kstore_bytes (bytes32 (st_dev st)) (a + 4) s) (\<lambda>_ s.
     then_do (kstore_bytes (bytes32 (st_ino st)) (a + 8) s) (\<lambda>_ s.
     then_do (kstore_bytes (bytes16 (st_type st)) a s) (\<lambda>_ s.
     then_do (kstore_bytes (bytes16 (st_nlink st)) (a + 12) s) (\<lambda>_ s.
     kstore_bytes (bytes32 (st_size st)) (a + 16) s))))"

definition sys_fstat :: "'a sysst_scheme \<Rightarrow> (int, 'a sysst_scheme) outcome" where
  "sys_fstat s =
     then_do (argfd 0 s) (\<lambda>r s.
     case r of
       None \<Rightarrow> Ret (- 1) s
     | Some (_, f) \<Rightarrow>
       then_do (argptr 1 20 s) (\<lambda>p s.
       case p of
         None \<Rightarrow> Ret (- 1) s
       | Some p \<Rightarrow>
         then_do (filestat f s) (\<lambda>st s.
         case st of
           None \<Rightarrow> Ret (- 1) s
         | Some st \<Rightarrow> then_do (stat_stores st p s) (\<lambda>_ s. Ret 0 s))))"

section \<open>Links and directories\<close>

definition link_bad :: "nat \<Rightarrow> 'a sysst_scheme \<Rightarrow> (int, 'a sysst_scheme) outcome" where
  "link_bad ip s =
     then_do (ilock (Some ip) s) (\<lambda>_ s.
     let s = upd_inode ip (\<lambda>x. x\<lparr>i_nlink := i_nlink x - 1\<rparr>) s in
     then_do (iupdate ip s) (\<lambda>_ s.
     then_do (iunlockput ip s) (\<lambda>_ s.
     then_do (end_op s) (\<lambda>_ s. Ret (- 1) s))))"

definition link_into :: "u8 list \<Rightarrow> nat \<Rightarrow> 'a sysst_scheme \<Rightarrow> (int, 'a sysst_scheme) outcome" where
  "link_into new ip s =
     then_do (nameiparent new s) (\<lambda>r s.
     case r of
       None \<Rightarrow> link_bad ip s
     | Some (dp, name) \<Rightarrow>
       then_do (ilock (Some dp) s) (\<lambda>_ s.
       then_do (if i_dev (inodes s dp) \<noteq> i_dev (inodes s ip) then Ret (- 1) s
                else dirlink dp name (i_inum (inodes s ip)) s) (\<lambda>r s.
       if r < 0 then then_do (iunlockput dp s) (\<lambda>_ s. link_bad ip s)
       else
         then_do (iunlockput dp s) (\<lambda>_ s.
         then_do (iput ip s) (\<lambda>_ s.
         then_do (end_op s) (\<lambda>_ s. Ret 0 s))))))"

definition sys_link :: "'a sysst_scheme \<Rightarrow> (int, 'a sysst_scheme) outcome" where
  "sys_link s =
     then_do (argstr 0 s) (\<lambda>old s.
     case old of
       None \<Rightarrow> Ret (- 1) s
     | Some old \<Rightarrow>
       then_do (argstr 1 s) (\<lambda>new s.
       case new of
         None \<Rightarrow> Ret (- 1) s
       | Some new \<Rightarrow>
         then_do (begin_op s) (\<lambda>_ s.
         then_do (namei old s) (\<lambda>ip s.
         case ip of
           None \<Rightarrow> then_do (end_op s) (\<lambda>_ s. Ret (- 1) s)
         | Some ip \<Rightarrow>
           then_do (ilock (Some ip) s) (\<lambda>_ s.
           if i_type (inodes s ip) = T_DIR then
             then_do (iunlockput ip s) (\<lambda>_ s.
             then_do (end_op s) (\<lambda>_ s. Ret (- 1) s))
           else
             let s = upd_inode ip (\<lambda>x. x\<lparr>i_nlink := i_nlink x + 1\<rparr>) s in
             then_do (iupdate ip s) (\<lambda>_ s.
             then_do (iunlock (Some ip) s) (\<lambda>_ s.
             link_into new ip s)))))))"

fun isdirempty_loop :: "nat \<Rightarrow> nat \<Rightarrow> u32 \<Rightarrow> 'a sysst_scheme \<Rightarrow> (bool, 'a sysst_scheme) outcome" where
  "isdirempty_loop 0 dp off s = Diverge"
| "isdirempty_loop (Suc fuel) dp off s =
     (if \<not> off < i_size (inodes s dp) then Ret True s
      else
        then_do (readi dp off (of_nat sizeof_dirent) s) (\<lambda>(r, d) s.
        if r \<noteq> int sizeof_dirent then Panic ''isdirempty: readi''
        else if de_inum (dirent_get d) \<noteq> 0 then Ret False s
        else isdirempty_loop fuel dp (off + of_nat sizeof_dirent) s))"

definition isdirempty :: "nat \<Rightarrow> 'a sysst_scheme \<Rightarrow> (bool, 'a sysst_scheme) outcome" where
  "isdirempty dp s =
     isdirempty_loop (unat (i_size (inodes s dp)) div sizeof_dirent + 2) dp (of_nat (2 * sizeof_dirent)) s"

definition unlink_bad :: "nat \<Rightarrow> 'a sysst_scheme \<Rightarrow> (int, 'a sysst_scheme) outcome" where
  "unlink_bad dp s =
     then_do (iunlockput dp s) (\<lambda>_ s.
     then_do (end_op s) (\<lambda>_ s. Ret (- 1) s))"

text \<open>The removal of entry \<open>off\<close> of directory \<open>dp\<close>, which names inode \<open>ip\<close>, both locked.\<close>

definition unlink_entry :: "nat \<Rightarrow> nat \<Rightarrow> u32 \<Rightarrow> 'a sysst_scheme \<Rightarrow> (int, 'a sysst_scheme) outcome" where
  "unlink_entry dp ip off s =
     then_do (writei dp (replicate sizeof_dirent 0) off (of_nat sizeof_dirent) s) (\<lambda>r s.
     if r \<noteq> int sizeof_dirent then Panic ''unlink: writei''
     else
       then_do (if i_type (inodes s ip) = T_DIR then
                  let s = upd_inode dp (\<lambda>x. x\<lparr>i_nlink := i_nlink x - 1\<rparr>) s in iupdate dp s
                else Ret () s) (\<lambda>_ s.
       then_do (iunlockput dp s) (\<lambda>_ s.
       let s = upd_inode ip (\<lambda>x. x\<lparr>i_nlink := i_nlink x - 1\<rparr>) s in
       then_do (iupdate ip s) (\<lambda>_ s.
       then_do (iunlockput ip s) (\<lambda>_ s.
       then_do (end_op s) (\<lambda>_ s. Ret 0 s))))))"

definition sys_unlink :: "'a sysst_scheme \<Rightarrow> (int, 'a sysst_scheme) outcome" where
  "sys_unlink s =
     then_do (argstr 0 s) (\<lambda>path s.
     case path of
       None \<Rightarrow> Ret (- 1) s
     | Some path \<Rightarrow>
       then_do (begin_op s) (\<lambda>_ s.
       then_do (nameiparent path s) (\<lambda>r s.
       case r of
         None \<Rightarrow> then_do (end_op s) (\<lambda>_ s. Ret (- 1) s)
       | Some (dp, name) \<Rightarrow>
         then_do (ilock (Some dp) s) (\<lambda>_ s.
         if namecmp name (chars ''.'') = 0 \<or> namecmp name (chars ''..'') = 0 then unlink_bad dp s
         else
           then_do (dirlookup dp name s) (\<lambda>r s.
           case r of
             None \<Rightarrow> unlink_bad dp s
           | Some (ip, off) \<Rightarrow>
             then_do (ilock (Some ip) s) (\<lambda>_ s.
             if sint (i_nlink (inodes s ip)) < 1 then Panic ''unlink: nlink < 1''
             else
               then_do (if i_type (inodes s ip) = T_DIR then isdirempty ip s else Ret True s) (\<lambda>removable s.
               if \<not> removable then then_do (iunlockput ip s) (\<lambda>_ s. unlink_bad dp s)
               else unlink_entry dp ip off s)))))))"

section \<open>Creating and opening\<close>

definition create_dots :: "nat \<Rightarrow> nat \<Rightarrow> 'a sysst_scheme \<Rightarrow> (unit, 'a sysst_scheme) outcome" where
  "create_dots dp ip s =
     (let s = upd_inode dp (\<lambda>x. x\<lparr>i_nlink := i_nlink x + 1\<rparr>) s in
      then_do (iupdate dp s) (\<lambda>_ s.
      then_do (dirlink ip (chars ''.'') (i_inum (inodes s ip)) s) (\<lambda>r s.
      if r < 0 then Panic ''create dots''
      else
        then_do (dirlink ip (chars ''..'') (i_inum (inodes s dp)) s) (\<lambda>r s.
        if r < 0 then Panic ''create dots'' else Ret () s))))"

definition create :: "u8 list \<Rightarrow> u16 \<Rightarrow> u16 \<Rightarrow> u16 \<Rightarrow> 'a sysst_scheme \<Rightarrow> (nat option, 'a sysst_scheme) outcome" where
  "create path type major minor s =
     then_do (nameiparent path s) (\<lambda>r s.
     case r of
       None \<Rightarrow> Ret None s
     | Some (dp, name) \<Rightarrow>
       then_do (ilock (Some dp) s) (\<lambda>_ s.
       then_do (dirlookup dp name s) (\<lambda>r s.
       case r of
         Some (ip, _) \<Rightarrow>
           then_do (iunlockput dp s) (\<lambda>_ s.
           then_do (ilock (Some ip) s) (\<lambda>_ s.
           if type = T_FILE \<and> i_type (inodes s ip) = T_FILE then Ret (Some ip) s
           else then_do (iunlockput ip s) (\<lambda>_ s. Ret None s)))
       | None \<Rightarrow>
           then_do (ialloc (i_dev (inodes s dp)) type s) (\<lambda>ip s.
           then_do (ilock (Some ip) s) (\<lambda>_ s.
           let s = upd_inode ip (\<lambda>x. x\<lparr>i_major := major, i_minor := minor, i_nlink := 1\<rparr>) s in
           then_do (iupdate ip s) (\<lambda>_ s.
           then_do (if type = T_DIR then create_dots dp ip s else Ret () s) (\<lambda>_ s.
           then_do (dirlink dp name (i_inum (inodes s ip)) s) (\<lambda>r s.
           if r < 0 then Panic ''create: dirlink''
           else then_do (iunlockput dp s) (\<lambda>_ s. Ret (Some ip) s)))))))))"

text \<open>The last part of \<open>open\<close>, on a locked inode inside a transaction.\<close>

definition open_file :: "nat \<Rightarrow> u32 \<Rightarrow> 'a sysst_scheme \<Rightarrow> (int, 'a sysst_scheme) outcome" where
  "open_file ip omode s =
     then_do (filealloc s) (\<lambda>f s.
     then_do (case f of None \<Rightarrow> Ret (- 1) s | Some f \<Rightarrow> fdalloc f s) (\<lambda>fd s.
     case f of
       None \<Rightarrow>
         then_do (iunlockput ip s) (\<lambda>_ s.
         then_do (end_op s) (\<lambda>_ s. Ret (- 1) s))
     | Some f \<Rightarrow>
       if fd < 0 then
         then_do (fileclose f s) (\<lambda>_ s.
         then_do (iunlockput ip s) (\<lambda>_ s.
         then_do (end_op s) (\<lambda>_ s. Ret (- 1) s)))
       else
         then_do (iunlock (Some ip) s) (\<lambda>_ s.
         then_do (end_op s) (\<lambda>_ s.
         let s = upd_file f (\<lambda>x. x\<lparr>f_type := FD_INODE, f_ip := ip, f_off := 0,
                   f_readable := (omode AND O_WRONLY = 0),
                   f_writable := (omode AND O_WRONLY \<noteq> 0 \<or> omode AND O_RDWR \<noteq> 0)\<rparr>) s
         in Ret fd s))))"

definition sys_open :: "'a sysst_scheme \<Rightarrow> (int, 'a sysst_scheme) outcome" where
  "sys_open s =
     then_do (argstr 0 s) (\<lambda>path s.
     case path of
       None \<Rightarrow> Ret (- 1) s
     | Some path \<Rightarrow>
       then_do (argint 1 s) (\<lambda>omode s.
       case omode of
         None \<Rightarrow> Ret (- 1) s
       | Some omode \<Rightarrow>
         then_do (begin_op s) (\<lambda>_ s.
         if omode AND O_CREATE \<noteq> 0 then
           then_do (create path T_FILE 0 0 s) (\<lambda>ip s.
           case ip of
             None \<Rightarrow> then_do (end_op s) (\<lambda>_ s. Ret (- 1) s)
           | Some ip \<Rightarrow> open_file ip omode s)
         else
           then_do (namei path s) (\<lambda>ip s.
           case ip of
             None \<Rightarrow> then_do (end_op s) (\<lambda>_ s. Ret (- 1) s)
           | Some ip \<Rightarrow>
             then_do (ilock (Some ip) s) (\<lambda>_ s.
             if i_type (inodes s ip) = T_DIR \<and> omode \<noteq> O_RDONLY then
               then_do (iunlockput ip s) (\<lambda>_ s.
               then_do (end_op s) (\<lambda>_ s. Ret (- 1) s))
             else open_file ip omode s)))))"

definition finish_create :: "nat option \<Rightarrow> 'a sysst_scheme \<Rightarrow> (int, 'a sysst_scheme) outcome" where
  "finish_create ip s =
     (case ip of
        None \<Rightarrow> then_do (end_op s) (\<lambda>_ s. Ret (- 1) s)
      | Some ip \<Rightarrow>
        then_do (iunlockput ip s) (\<lambda>_ s.
        then_do (end_op s) (\<lambda>_ s. Ret 0 s)))"

definition sys_mkdir :: "'a sysst_scheme \<Rightarrow> (int, 'a sysst_scheme) outcome" where
  "sys_mkdir s =
     then_do (begin_op s) (\<lambda>_ s.
     then_do (argstr 0 s) (\<lambda>path s.
     then_do (case path of None \<Rightarrow> Ret None s | Some path \<Rightarrow> create path T_DIR 0 0 s) (\<lambda>ip s.
     finish_create ip s)))"

definition sys_mknod :: "'a sysst_scheme \<Rightarrow> (int, 'a sysst_scheme) outcome" where
  "sys_mknod s =
     then_do (begin_op s) (\<lambda>_ s.
     then_do (argstr 0 s) (\<lambda>path s.
     case path of
       None \<Rightarrow> finish_create None s
     | Some path \<Rightarrow>
       then_do (argint 1 s) (\<lambda>major s.
       case major of
         None \<Rightarrow> finish_create None s
       | Some major \<Rightarrow>
         then_do (argint 2 s) (\<lambda>minor s.
         case minor of
           None \<Rightarrow> finish_create None s
         | Some minor \<Rightarrow>
           then_do (create path T_DEV (ucast major) (ucast minor) s) (\<lambda>ip s.
           finish_create ip s)))))"

definition sys_chdir :: "'a sysst_scheme \<Rightarrow> (int, 'a sysst_scheme) outcome" where
  "sys_chdir s =
     then_do (myproc s) (\<lambda>cur s.
     then_do (begin_op s) (\<lambda>_ s.
     then_do (argstr 0 s) (\<lambda>path s.
     then_do (case path of None \<Rightarrow> Ret None s | Some path \<Rightarrow> namei path s) (\<lambda>ip s.
     case ip of
       None \<Rightarrow> then_do (end_op s) (\<lambda>_ s. Ret (- 1) s)
     | Some ip \<Rightarrow>
       then_do (ilock (Some ip) s) (\<lambda>_ s.
       if i_type (inodes s ip) \<noteq> T_DIR then
         then_do (iunlockput ip s) (\<lambda>_ s.
         then_do (end_op s) (\<lambda>_ s. Ret (- 1) s))
       else
         then_do (iunlock (Some ip) s) (\<lambda>_ s.
         case cur of
           None \<Rightarrow> Fault ''sys_chdir: curproc->cwd''
         | Some cur \<Rightarrow>
           then_do (case p_cwd (procs s cur) of None \<Rightarrow> Fault ''iput: ip->lock'' | Some c \<Rightarrow> iput c s) (\<lambda>_ s.
           then_do (end_op s) (\<lambda>_ s.
           Ret 0 (upd_proc cur (p_cwd_update (\<lambda>_. Some ip)) s))))))))) "

section \<open>exec and pipe\<close>

text \<open>The loop that collects the argument vector, with \<open>k\<close> places of \<open>argv\<close> left.\<close>

primrec exec_argv :: "nat \<Rightarrow> u32 \<Rightarrow> u32 list \<Rightarrow> 'a sysst_scheme \<Rightarrow> (u32 list option, 'a sysst_scheme) outcome" where
  "exec_argv 0 ua argv s = Ret None s"
| "exec_argv (Suc k) ua argv s =
     then_do (fetchint ua s) (\<lambda>uarg s.
     case uarg of
       None \<Rightarrow> Ret None s
     | Some uarg \<Rightarrow>
       if uarg = 0 then Ret (Some argv) s
       else
         then_do (fetchstr uarg s) (\<lambda>r s.
         case r of None \<Rightarrow> Ret None s | Some _ \<Rightarrow> exec_argv k (ua + 4) (argv @ [uarg]) s))"

definition sys_exec :: "'a sysst_scheme \<Rightarrow> (int, 'a sysst_scheme) outcome" where
  "sys_exec s =
     then_do (argstr 0 s) (\<lambda>path s.
     case path of
       None \<Rightarrow> Ret (- 1) s
     | Some path \<Rightarrow>
       then_do (argint 1 s) (\<lambda>uargv s.
       case uargv of
         None \<Rightarrow> Ret (- 1) s
       | Some uargv \<Rightarrow>
         then_do (exec_argv MAXARG uargv [] s) (\<lambda>argv s.
         case argv of None \<Rightarrow> Ret (- 1) s | Some argv \<Rightarrow> exec path argv s)))"

definition sys_pipe :: "'a sysst_scheme \<Rightarrow> (int, 'a sysst_scheme) outcome" where
  "sys_pipe s =
     then_do (argptr 0 8 s) (\<lambda>fd s.
     case fd of
       None \<Rightarrow> Ret (- 1) s
     | Some fd \<Rightarrow>
       then_do (pipealloc s) (\<lambda>r s.
       case r of
         None \<Rightarrow> Ret (- 1) s
       | Some (rfile, wfile) \<Rightarrow>
         then_do (fdalloc rfile s) (\<lambda>fd0 s.
         then_do (if fd0 < 0 then Ret (- 1) s else fdalloc wfile s) (\<lambda>fd1 s.
         if fd0 < 0 \<or> fd1 < 0 then
           then_do (if fd0 \<ge> 0 then set_ofile (nat fd0) None s else Ret () s) (\<lambda>_ s.
           then_do (fileclose rfile s) (\<lambda>_ s.
           then_do (fileclose wfile s) (\<lambda>_ s. Ret (- 1) s)))
         else
           then_do (kstore_bytes (bytes32 (of_int fd0)) fd s) (\<lambda>_ s.
           then_do (kstore_bytes (bytes32 (of_int fd1)) (fd + 4) s) (\<lambda>_ s. Ret 0 s))))))"

end
