(* ===== verification/Trap.thy ===== *)
theory Trap
  imports Sysfile
begin

text \<open>
  Entry into the kernel: the dispatch of system calls (\<open>syscall.c\<close>) and of interrupts and exceptions (\<open>trap.c\<close>),
  with the disk of \<open>memide.c\<close>, whose interrupt handler does nothing. What the devices deliver is passed in: the
  fault address in register \<open>cr2\<close> and the bytes waiting in the keyboard controller and the serial port.
\<close>

section \<open>System calls\<close>

definition syscalls :: "int \<Rightarrow> 'a sysst_scheme \<Rightarrow> (int, 'a sysst_scheme) outcome option" where
  "syscalls num s =
     (if num = 1 then Some (sys_fork s) else if num = 2 then Some (sys_exit s)
      else if num = 3 then Some (sys_wait s) else if num = 4 then Some (sys_pipe s)
      else if num = 5 then Some (sys_read s) else if num = 6 then Some (sys_kill s)
      else if num = 7 then Some (sys_exec s) else if num = 8 then Some (sys_fstat s)
      else if num = 9 then Some (sys_chdir s) else if num = 10 then Some (sys_dup s)
      else if num = 11 then Some (sys_getpid s) else if num = 12 then Some (sys_sbrk s)
      else if num = 13 then Some (sys_sleep s) else if num = 14 then Some (sys_uptime s)
      else if num = 15 then Some (sys_open s) else if num = 16 then Some (sys_write s)
      else if num = 17 then Some (sys_mknod s) else if num = 18 then Some (sys_unlink s)
      else if num = 19 then Some (sys_link s) else if num = 20 then Some (sys_mkdir s)
      else if num = 21 then Some (sys_close s) else if num = 22 then Some (sys_date s)
      else if num = 23 then Some (sys_dup2 s) else if num = 24 then Some (sys_phmem s)
      else if num = 25 then Some (sys_getprio s) else if num = 26 then Some (sys_setprio s)
      else None)"

definition syscall :: "'a sysst_scheme \<Rightarrow> (unit, 'a sysst_scheme) outcome" where
  "syscall s =
     then_do (myproc s) (\<lambda>cur s.
     case cur of
       None \<Rightarrow> Fault ''syscall: curproc->tf''
     | Some cur \<Rightarrow>
       let num = sint (ld32 (mem s) (p_tf (procs s cur) + tf_eax)) in
       case syscalls num s of
         Some m \<Rightarrow>
           then_do m (\<lambda>r s.
           Ret () (s\<lparr>mem := st32 (mem s) (p_tf (procs s cur) + tf_eax) (of_int r)\<rparr>))
       | None \<Rightarrow>
           then_do (cprintf (chars ''%d %s: unknown sys call %d'' @ [10])
             [PNum (p_pid (procs s cur)), PStr (Some (p_name (procs s cur))), PNum (of_int num)] s) (\<lambda>_ s.
           Ret () (s\<lparr>mem := st32 (mem s) (p_tf (procs s cur) + tf_eax) (- 1)\<rparr>)))"

section \<open>Traps\<close>

definition T_SYSCALL :: u32 where "T_SYSCALL = 64"
definition T_PGFLT :: u32 where "T_PGFLT = 14"
definition T_IRQ0 :: u32 where "T_IRQ0 = 32"
definition IRQ_TIMER :: u32 where "IRQ_TIMER = 0"
definition IRQ_KBD :: u32 where "IRQ_KBD = 1"
definition IRQ_COM1 :: u32 where "IRQ_COM1 = 4"
definition IRQ_IDE :: u32 where "IRQ_IDE = 14"
definition IRQ_SPURIOUS :: u32 where "IRQ_SPURIOUS = 31"

definition tvinit :: "'a sysst_scheme \<Rightarrow> 'a sysst_scheme" where
  "tvinit s = initlock TicksLock s"

text \<open>The interrupt handler of \<open>memide.c\<close>.\<close>

definition ideintr :: "'a sysst_scheme \<Rightarrow> (unit, 'a sysst_scheme) outcome" where
  "ideintr s = Ret () s"

definition timer_intr :: "'a sysst_scheme \<Rightarrow> (unit, 'a sysst_scheme) outcome" where
  "timer_intr s =
     then_do (cpuid s) (\<lambda>c s.
     if c = 0 then
       then_do (acquire TicksLock s) (\<lambda>_ s.
       let s = s\<lparr>ticks := ticks s + 1\<rparr> in
       then_do (wakeup ChTicks s) (\<lambda>_ s.
       release TicksLock s))
     else Ret () s)"

definition user_mode :: "u32 \<Rightarrow> 'a sysst_scheme \<Rightarrow> bool" where
  "user_mode tf s \<longleftrightarrow> ld16 (mem s) (tf + tf_cs) AND 3 = DPL_USER"

text \<open>An exception the kernel has no case for.\<close>

definition unexpected_trap :: "u32 \<Rightarrow> u32 \<Rightarrow> 'a sysst_scheme \<Rightarrow> (unit, 'a sysst_scheme) outcome" where
  "unexpected_trap tf cr2 s =
     then_do (myproc s) (\<lambda>cur s.
     then_do (cpuid s) (\<lambda>c s.
     let trapno = ld32 (mem s) (tf + tf_trapno);
         err = ld32 (mem s) (tf + tf_err);
         eip = ld32 (mem s) (tf + tf_eip) in
     case cur of
       None \<Rightarrow>
         then_do (cprintf (chars ''unexpected trap %d from cpu %d eip %x (cr2=0x%x)'' @ [10])
           [PNum trapno, PNum (of_nat c), PNum eip, PNum cr2] s) (\<lambda>_ s. Panic ''trap'')
     | Some p \<Rightarrow>
       if ld16 (mem s) (tf + tf_cs) AND 3 = 0 then
         then_do (cprintf (chars ''unexpected trap %d from cpu %d eip %x (cr2=0x%x)'' @ [10])
           [PNum trapno, PNum (of_nat c), PNum eip, PNum cr2] s) (\<lambda>_ s. Panic ''trap'')
       else
         then_do (cprintf (chars ''pid %d %s: trap %d err %d on cpu %d eip 0x%x addr 0x%x--kill proc'' @ [10])
           [PNum (p_pid (procs s p)), PStr (Some (p_name (procs s p))), PNum trapno, PNum err, PNum (of_nat c),
            PNum eip, PNum cr2] s) (\<lambda>_ s.
         Ret () (upd_proc p (p_killed_update (\<lambda>_. True)) s))))"

definition trap_switch :: "u32 \<Rightarrow> u32 \<Rightarrow> u8 list \<Rightarrow> u8 list \<Rightarrow> 'a sysst_scheme \<Rightarrow> (unit, 'a sysst_scheme) outcome" where
  "trap_switch tf cr2 kbd com1 s =
     (let trapno = ld32 (mem s) (tf + tf_trapno) in
      if trapno = T_IRQ0 + IRQ_TIMER then timer_intr s
      else if trapno = T_IRQ0 + IRQ_IDE then ideintr s
      else if trapno = T_IRQ0 + IRQ_IDE + 1 then Ret () s
      else if trapno = T_IRQ0 + IRQ_KBD then kbdintr kbd s
      else if trapno = T_IRQ0 + IRQ_COM1 then uartintr com1 s
      else if trapno = T_IRQ0 + 7 \<or> trapno = T_IRQ0 + IRQ_SPURIOUS then
        then_do (cpuid s) (\<lambda>c s.
        cprintf (chars ''cpu%d: spurious interrupt at %x:%x'' @ [10])
          [PNum (of_nat c), PNum (ucast (ld16 (mem s) (tf + tf_cs))), PNum (ld32 (mem s) (tf + tf_eip))] s)
      else if trapno = T_PGFLT then pgflt cr2 (ld32 (mem s) (tf + tf_err)) s
      else unexpected_trap tf cr2 s)"

text \<open>The exit of a process that has been killed and is about to return to user space.\<close>

definition exit_if_killed :: "u32 \<Rightarrow> 'a sysst_scheme \<Rightarrow> (unit, 'a sysst_scheme) outcome" where
  "exit_if_killed tf s =
     then_do (myproc s) (\<lambda>cur s.
     case cur of
       None \<Rightarrow> Ret () s
     | Some p \<Rightarrow>
       if p_killed (procs s p) \<and> user_mode tf s then kexit (ld32 (mem s) (tf + tf_trapno) + 1) s
       else Ret () s)"

text \<open>\<open>trap\<close> returns \<open>False\<close> when it goes back to what was interrupted, and \<open>True\<close> when a clock tick took the CPU
  away; in that case it continues later with \<open>trap_resume\<close>.\<close>

definition trap :: "u32 \<Rightarrow> u32 \<Rightarrow> u8 list \<Rightarrow> u8 list \<Rightarrow> 'a sysst_scheme \<Rightarrow> (bool, 'a sysst_scheme) outcome" where
  "trap tf cr2 kbd com1 s =
     (if ld32 (mem s) (tf + tf_trapno) = T_SYSCALL then
        then_do (myproc s) (\<lambda>cur s.
        case cur of
          None \<Rightarrow> Fault ''trap: myproc()->killed''
        | Some cur \<Rightarrow>
          if p_killed (procs s cur) then kexit 0 s
          else
            let s = upd_proc cur (p_tf_update (\<lambda>_. tf)) s in
            then_do (syscall s) (\<lambda>_ s.
            if p_killed (procs s cur) then kexit 0 s else Ret False s))
      else
        then_do (trap_switch tf cr2 kbd com1 s) (\<lambda>_ s.
        then_do (exit_if_killed tf s) (\<lambda>_ s.
        then_do (myproc s) (\<lambda>cur s.
        if (case cur of None \<Rightarrow> False | Some p \<Rightarrow> p_state (procs s p) = RUNNING)
           \<and> ld32 (mem s) (tf + tf_trapno) = T_IRQ0 + IRQ_TIMER
        then then_do (yield_enter s) (\<lambda>_ s. Ret True s)
        else then_do (exit_if_killed tf s) (\<lambda>_ s. Ret False s)))))"

definition trap_resume :: "u32 \<Rightarrow> bool \<Rightarrow> 'a sysst_scheme \<Rightarrow> (unit, 'a sysst_scheme) outcome" where
  "trap_resume tf intena s =
     then_do (yield_resume intena s) (\<lambda>_ s. exit_if_killed tf s)"

section \<open>Booting\<close>

text \<open>The part of \<open>main\<close> on the boot processor that sets up the kernel's own data; the initialisation of
  interrupt controllers, segments and the other processors is left out. \<open>endaddr\<close> is the first address after
  the kernel image.\<close>

definition kmain :: "u32 \<Rightarrow> u32 \<Rightarrow> (u32 \<Rightarrow> u8 list) \<Rightarrow> 'a sysst_scheme \<Rightarrow> (unit, 'a sysst_scheme) outcome" where
  "kmain endaddr imgsize img s =
     then_do (kinit1 endaddr (P2V (4 * 1024 * 1024)) s) (\<lambda>_ s.
     then_do (kvmalloc s) (\<lambda>_ s.
     let s = consoleinit s;
         s = pinit s;
         s = tvinit s in
     then_do (binit s) (\<lambda>_ s.
     let s = fileinit s;
         s = ideinit imgsize img s in
     then_do (kinit2 (P2V (4 * 1024 * 1024)) (P2V PHYSTOP) s) (\<lambda>_ s.
     userinit s))))"

end
