(* ===== verification/Ide.thy ===== *)
theory Ide
  imports Bio "HOL-Library.Monad_Syntax"
begin

text \<open>
  The driver of the IDE disk, after \<open>ide.c\<close>: the disk of the standard kernel image, behind the same interface as the
  memory disk of \<open>Bio\<close>. A request is put at the end of a queue of buffers, linked through \<open>qnext\<close>; the first one
  is being served by the drive, and the interrupt that ends it starts the next.

  The drives are seen through their ports: the registers hold the last byte written to each port, a sector is
  named by the registers and moves through the data port. The status port is an input: \<open>ide_status s k\<close> is what
  the \<open>k\<close>-th read of it gives. Drive 1 is the field \<^term>\<open>disk\<close> of the state, as for the memory disk, in sectors
  of 512 bytes. The interrupt routing (\<open>ioapicenable\<close>) is left out.
\<close>

section \<open>State\<close>

definition SECTOR_SIZE :: nat where "SECTOR_SIZE = 512"
definition IDE_BSY :: u8 where "IDE_BSY = 0x80"
definition IDE_DRDY :: u8 where "IDE_DRDY = 0x40"
definition IDE_DF :: u8 where "IDE_DF = 0x20"
definition IDE_ERR :: u8 where "IDE_ERR = 0x01"
definition IDE_CMD_READ :: u8 where "IDE_CMD_READ = 0x20"
definition IDE_CMD_WRITE :: u8 where "IDE_CMD_WRITE = 0x30"
definition IDE_CMD_RDMUL :: u8 where "IDE_CMD_RDMUL = 0xc4"
definition IDE_CMD_WRMUL :: u8 where "IDE_CMD_WRMUL = 0xc5"
definition FSSIZE :: u32 where "FSSIZE = 1000"

record idest = biost +
  idequeue :: "nat option"
  havedisk1 :: bool
  bootdisk :: "u32 \<Rightarrow> u8 list"
  io_regs :: "u16 \<Rightarrow> u8"
  ide_status :: "nat \<Rightarrow> u8"
  ide_polls :: nat

section \<open>The ports\<close>

definition outb :: "u16 \<Rightarrow> u8 \<Rightarrow> 'a idest_scheme \<Rightarrow> 'a idest_scheme" where
  "outb port v s = s\<lparr>io_regs := (io_regs s)(port := v)\<rparr>"

definition ide_lba :: "'a idest_scheme \<Rightarrow> u32" where
  "ide_lba s = ucast (io_regs s 0x1f3) OR push_bit 8 (ucast (io_regs s 0x1f4)) OR push_bit 16 (ucast (io_regs s 0x1f5))
     OR push_bit 24 (ucast (io_regs s 0x1f6) AND 0x0f)"

definition drive1 :: "'a idest_scheme \<Rightarrow> bool" where
  "drive1 s = bit (io_regs s 0x1f6) 4"

definition outsl :: "u8 list \<Rightarrow> 'a idest_scheme \<Rightarrow> 'a idest_scheme" where
  "outsl bs s =
     (if io_regs s 0x1f7 = IDE_CMD_WRITE then
        if drive1 s then s\<lparr>disk := (disk s)(ide_lba s := bs), disk_writes := disk_writes s @ [(ide_lba s, bs)]\<rparr>
        else s\<lparr>bootdisk := (bootdisk s)(ide_lba s := bs)\<rparr>
      else s)"

definition insl :: "'a idest_scheme \<Rightarrow> u8 list" where
  "insl s = (if drive1 s then disk s (ide_lba s) else bootdisk s (ide_lba s))"

section \<open>Operations\<close>

partial_function (option) idewait_loop :: "(nat \<Rightarrow> u8) \<Rightarrow> nat \<Rightarrow> (u8 \<times> nat) option" where
  "idewait_loop st k =
     (let r = st k in
      if r AND (IDE_BSY OR IDE_DRDY) \<noteq> IDE_DRDY then idewait_loop st (k + 1) else Some (r, k + 1))"

definition idewait :: "bool \<Rightarrow> 'a idest_scheme \<Rightarrow> (int, 'a idest_scheme) outcome" where
  "idewait checkerr s =
     (case idewait_loop (ide_status s) (ide_polls s) of
        None \<Rightarrow> Diverge
      | Some (r, k) \<Rightarrow>
        let s = s\<lparr>ide_polls := k\<rparr> in
        if checkerr \<and> r AND (IDE_DF OR IDE_ERR) \<noteq> 0 then Ret (- 1) s else Ret 0 s)"

text \<open>The loop that looks for a second drive: at most \<open>n\<close> reads of the status port.\<close>

primrec ide_probe :: "nat \<Rightarrow> 'a idest_scheme \<Rightarrow> 'a idest_scheme" where
  "ide_probe 0 s = s"
| "ide_probe (Suc n) s =
     (let r = ide_status s (ide_polls s);
          s = s\<lparr>ide_polls := ide_polls s + 1\<rparr> in
      if r \<noteq> 0 then s\<lparr>havedisk1 := True\<rparr> else ide_probe n s)"

definition ideinit_pio :: "'a idest_scheme \<Rightarrow> (unit, 'a idest_scheme) outcome" where
  "ideinit_pio s =
     (let s = initlock IdeLock s in
      then_do (idewait False s) (\<lambda>_ s.
      let s = outb 0x1f6 (0xe0 OR push_bit 4 1) s;
          s = ide_probe 1000 s
      in Ret () (outb 0x1f6 (0xe0 OR push_bit 4 0) s)))"

definition idestart :: "nat option \<Rightarrow> 'a idest_scheme \<Rightarrow> (unit, 'a idest_scheme) outcome" where
  "idestart b s =
     (case b of
        None \<Rightarrow> Panic ''idestart''
      | Some b \<Rightarrow>
        if b_blockno (bufs s b) \<ge> FSSIZE then Panic ''incorrect blockno''
        else
          let sector_per_block = BSIZE div SECTOR_SIZE;
              sector = b_blockno (bufs s b) * of_nat sector_per_block;
              read_cmd = (if sector_per_block = 1 then IDE_CMD_READ else IDE_CMD_RDMUL);
              write_cmd = (if sector_per_block = 1 then IDE_CMD_WRITE else IDE_CMD_WRMUL) in
          if sector_per_block > 7 then Panic ''idestart''
          else
            then_do (idewait False s) (\<lambda>_ s.
            let s = outb 0x3f6 0 s;
                s = outb 0x1f2 (of_nat sector_per_block) s;
                s = outb 0x1f3 (ucast (sector AND 0xff)) s;
                s = outb 0x1f4 (ucast (drop_bit 8 sector AND 0xff)) s;
                s = outb 0x1f5 (ucast (drop_bit 16 sector AND 0xff)) s;
                s = outb 0x1f6 (ucast (0xe0 OR push_bit 4 (b_dev (bufs s b) AND 1) OR (drop_bit 24 sector AND 0x0f))) s in
            if b_flags (bufs s b) AND B_DIRTY \<noteq> 0 then
              let s = outb 0x1f7 write_cmd s
              in Ret () (outsl (b_data (bufs s b)) s)
            else Ret () (outb 0x1f7 read_cmd s)))"

definition ideintr_pio :: "'a idest_scheme \<Rightarrow> (unit, 'a idest_scheme) outcome" where
  "ideintr_pio s =
     then_do (acquire IdeLock s) (\<lambda>_ s.
     case idequeue s of
       None \<Rightarrow> release IdeLock s
     | Some b \<Rightarrow>
       let s = s\<lparr>idequeue := b_qnext (bufs s b)\<rparr> in
       then_do (if b_flags (bufs s b) AND B_DIRTY = 0 then
                  then_do (idewait True s) (\<lambda>r s.
                  if r \<ge> 0 then Ret () (upd_buf b (b_data_update (\<lambda>_. insl s)) s) else Ret () s)
                else Ret () s) (\<lambda>_ s.
       let s = upd_buf b (\<lambda>x. x\<lparr>b_flags := b_flags x OR B_VALID\<rparr>) s;
           s = upd_buf b (\<lambda>x. x\<lparr>b_flags := b_flags x AND NOT B_DIRTY\<rparr>) s in
       then_do (wakeup (ChBuf b) s) (\<lambda>_ s.
       then_do (if idequeue s \<noteq> None then idestart (idequeue s) s else Ret () s) (\<lambda>_ s.
       release IdeLock s))))"

text \<open>The walk of \<open>iderw\<close> to the end of the queue, which changes the last link to \<open>b\<close>. A queue has at most
  \<open>NBUF\<close> elements.\<close>

fun ide_append :: "nat \<Rightarrow> nat \<Rightarrow> nat \<Rightarrow> 'a idest_scheme \<Rightarrow> (unit, 'a idest_scheme) outcome" where
  "ide_append 0 x b s = Diverge"
| "ide_append (Suc fuel) x b s =
     (case b_qnext (bufs s x) of
        None \<Rightarrow> Ret () (upd_buf x (b_qnext_update (\<lambda>_. Some b)) s)
      | Some y \<Rightarrow> ide_append fuel y b s)"

text \<open>The last loop of \<open>iderw\<close>, from its test on.\<close>

definition iderw_wait :: "nat \<Rightarrow> 'a idest_scheme \<Rightarrow> (unit, 'a idest_scheme) outcome" where
  "iderw_wait b s =
     (if b_flags (bufs s b) AND (B_VALID OR B_DIRTY) \<noteq> B_VALID then ksleep (ChBuf b) IdeLock s
      else release IdeLock s)"

definition iderw_pio :: "nat \<Rightarrow> 'a idest_scheme \<Rightarrow> (unit, 'a idest_scheme) outcome" where
  "iderw_pio b s =
     then_do (holdingsleep (BufSL b) s) (\<lambda>h s.
     if \<not> h then Panic ''iderw: buf not locked''
     else if b_flags (bufs s b) AND (B_VALID OR B_DIRTY) = B_VALID then Panic ''iderw: nothing to do''
     else if b_dev (bufs s b) \<noteq> 0 \<and> \<not> havedisk1 s then Panic ''iderw: ide disk 1 not present''
     else
       then_do (acquire IdeLock s) (\<lambda>_ s.
       let s = upd_buf b (b_qnext_update (\<lambda>_. None)) s in
       then_do (case idequeue s of
                  None \<Rightarrow> Ret () (s\<lparr>idequeue := Some b\<rparr>)
                | Some x \<Rightarrow> ide_append (Suc NBUF) x b s) (\<lambda>_ s.
       then_do (if idequeue s = Some b then idestart (Some b) s else Ret () s) (\<lambda>_ s.
       iderw_wait b s))))"

definition iderw_resume :: "nat \<Rightarrow> bool \<Rightarrow> nat \<Rightarrow> 'a idest_scheme \<Rightarrow> (unit, 'a idest_scheme) outcome" where
  "iderw_resume p intena b s =
     then_do (sleep_resume p intena IdeLock s) (\<lambda>_ s. iderw_wait b s)"

end
