(* ===== verification/Idequeue.thy ===== *)
theory Idequeue
  imports Ide Bcache
begin

text \<open>
  The request queue of the IDE driver. The buffers linked through \<open>qnext\<close> are a list of pending requests, of which the
  drive works on the first; the interrupt that ends it does to the buffer what the memory disk does in one step.
\<close>

section \<open>The drive\<close>

definition ide_ready :: "u8 \<Rightarrow> bool" where
  "ide_ready r \<longleftrightarrow> r AND (IDE_BSY OR IDE_DRDY) = IDE_DRDY"

text \<open>A drive that always becomes ready again and reports no error then.\<close>

definition ide_alive :: "(nat \<Rightarrow> u8) \<Rightarrow> bool" where
  "ide_alive st \<longleftrightarrow> (\<forall>k. \<exists>j \<ge> k. ide_ready (st j)) \<and> (\<forall>k. ide_ready (st k) \<longrightarrow> st k AND (IDE_DF OR IDE_ERR) = 0)"

lemma idewait_loop_ends:
  assumes "k \<le> j" and "ide_ready (st j)"
  shows "\<exists>i. idewait_loop st k = Some (st i, Suc i) \<and> ide_ready (st i)"
  using assms
proof (induction "j - k" arbitrary: k)
  case 0
  then show ?case by (subst idewait_loop.simps) (auto simp: ide_ready_def Let_def)
next
  case (Suc n)
  then have "\<exists>i. idewait_loop st (k + 1) = Some (st i, Suc i) \<and> ide_ready (st i)"
    by (intro Suc.hyps(1)) auto
  then show ?case by (subst idewait_loop.simps) (auto simp: ide_ready_def Let_def)
qed

lemma idewait_ready:
  assumes "ide_alive (ide_status s)"
  shows "\<exists>k. idewait e s = Ret 0 (s\<lparr>ide_polls := k\<rparr>)"
proof -
  obtain j where "ide_polls s \<le> j" "ide_ready (ide_status s j)" using assms by (auto simp: ide_alive_def)
  from idewait_loop_ends [of "ide_polls s" j "ide_status s", OF this] assms show ?thesis by (auto simp: idewait_def ide_alive_def Let_def)
qed

lemma port_byte: "y AND 0xff = take_bit 8 (y :: u32)"
proof -
  have "(0xff :: u32) = mask 8" by (simp add: mask_eq_exp_minus_1)
  then show ?thesis by (simp only: take_bit_eq_mask)
qed

lemma lba_bytes:
  fixes x :: u32
  assumes "x < 4096"
  shows "ucast (ucast (x AND 0xff) :: u8) OR push_bit 8 (ucast (ucast (drop_bit 8 x AND 0xff) :: u8))
    OR push_bit 16 (ucast (ucast (drop_bit 16 x AND 0xff) :: u8)) = x" (is "?l = x")
proof (rule bit_word_eqI)
  fix n
  assume "n < LENGTH(32)"
  then show "bit ?l n = bit x n" unfolding port_byte
    using small_bit [OF assms, of n] by (cases "n < 8"; cases "n < 16") (auto simp: bit_simps)
qed

section \<open>Requests\<close>

text \<open>A buffer that waits for the drive: it is dirty or has no valid contents, and its block is on drive 1.\<close>

definition pending :: "buf \<Rightarrow> bool" where
  "pending x \<longleftrightarrow> b_flags x AND (B_VALID OR B_DIRTY) \<noteq> B_VALID \<and> b_dev x = 1 \<and> b_blockno x < FSSIZE"

text \<open>The drive works on the buffer: the registers name its block, and the contents to be written are on the drive.\<close>

definition started :: "nat \<Rightarrow> 'a idest_scheme \<Rightarrow> bool" where
  "started b s \<longleftrightarrow> drive1 s \<and> ide_lba s = b_blockno (bufs s b)
     \<and> (dirty (bufs s b) \<longrightarrow> disk s (b_blockno (bufs s b)) = b_data (bufs s b))"

definition dev_blank :: "'a idest_scheme \<Rightarrow> 'a idest_scheme" where
  "dev_blank s = s\<lparr>io_regs := (\<lambda>_. 0), ide_polls := 0, disk := (\<lambda>_. []), disk_writes := []\<rparr>"

definition dev_frame :: "'a idest_scheme \<Rightarrow> 'a idest_scheme \<Rightarrow> bool" where
  "dev_frame s t \<longleftrightarrow> dev_blank s = dev_blank t"

definition start_disk :: "buf \<Rightarrow> (u32 \<Rightarrow> u8 list) \<Rightarrow> u32 \<Rightarrow> u8 list" where
  "start_disk x d = (if dirty x then d(b_blockno x := b_data x) else d)"

lemma dev_frame_upd [simp]:
  "dev_frame s s" "dev_frame s (t\<lparr>io_regs := r\<rparr>) = dev_frame s t" "dev_frame s (t\<lparr>ide_polls := k\<rparr>) = dev_frame s t"
  "dev_frame s (t\<lparr>disk := d\<rparr>) = dev_frame s t" "dev_frame s (t\<lparr>disk_writes := w\<rparr>) = dev_frame s t"
  by (simp_all add: dev_frame_def dev_blank_def)

lemma drive_frame [simp]:
  "drive1 (s\<lparr>disk := d\<rparr>) = drive1 s" "ide_lba (s\<lparr>disk := d\<rparr>) = ide_lba s"
  "drive1 (s\<lparr>disk_writes := w\<rparr>) = drive1 s" "ide_lba (s\<lparr>disk_writes := w\<rparr>) = ide_lba s"
  by (simp_all add: drive1_def ide_lba_def)

lemma programmed_drive:
  fixes n d :: u32
  assumes "n < FSSIZE"
  shows "ucast (0xe0 OR push_bit 4 ((1 :: u32) AND 1) OR (drop_bit 24 n AND 0x0f)) = (0xf0 :: u8)"
proof -
  have n: "n < 4096" using assms by (simp add: FSSIZE_def word_less_nat_alt)
  have "drop_bit 24 n = 0"
    by (rule bit_word_eqI) (use small_bit [OF n] in \<open>fastforce simp: bit_simps\<close>)
  then show ?thesis by simp
qed

lemma idestart_wp:
  assumes al: "ide_alive (ide_status s)" and p: "pending (bufs s b)"
  shows "wp (idestart (Some b) s) (\<lambda>_ t. started b t \<and> dev_frame s t \<and> disk t = start_disk (bufs s b) (disk s))"
proof -
  let ?n = "b_blockno (bufs s b)"
  obtain k where k: "idewait False s = Ret 0 (s\<lparr>ide_polls := k\<rparr>)" using idewait_ready [OF al] by blast
  have n: "\<not> FSSIZE \<le> ?n" and d: "b_dev (bufs s b) = 1" using p by (auto simp: pending_def)
  have lt: "?n < 4096" using p by (simp add: pending_def FSSIZE_def word_less_nat_alt)
  have spb: "BSIZE div SECTOR_SIZE = 1" by (simp add: BSIZE_def SECTOR_SIZE_def)
  define r where "r = (io_regs s)(0x3f6 := 0, 0x1f2 := 1, 0x1f3 := ucast (?n AND 0xff), 0x1f4 := ucast (drop_bit 8 ?n AND 0xff),
    0x1f5 := ucast (drop_bit 16 ?n AND 0xff), 0x1f6 := 0xf0, 0x1f7 := if dirty (bufs s b) then IDE_CMD_WRITE else IDE_CMD_READ)"
  define u where "u = s\<lparr>ide_polls := k, io_regs := r\<rparr>"
  have regs: "drive1 u" "ide_lba u = ?n"
    using lba_bytes [OF lt] by (simp_all add: u_def r_def drive1_def ide_lba_def bit_simps)
  have "idestart (Some b) s = Ret () (if dirty (bufs s b) then outsl (b_data (bufs s b)) u else u)"
    using n d programmed_drive [of ?n] unfolding idestart_def Let_def spb
    by (simp add: k outb_def u_def r_def flag_tests)
  moreover have f: "bufs u = bufs s" "disk u = disk s" "disk_writes u = disk_writes s"
      "io_regs u 0x1f7 = (if dirty (bufs s b) then IDE_CMD_WRITE else IDE_CMD_READ)"
    and "dev_frame s u" by (simp_all add: u_def r_def)
  ultimately show ?thesis
    using regs by (cases "dirty (bufs s b)") (simp_all add: started_def start_disk_def outsl_def f)
qed

section \<open>The queue\<close>

fun iochain :: "(nat \<Rightarrow> buf) \<Rightarrow> nat option \<Rightarrow> nat list \<Rightarrow> bool" where
  "iochain f x [] \<longleftrightarrow> x = None"
| "iochain f x (b # q) \<longleftrightarrow> x = Some b \<and> iochain f (b_qnext (f b)) q"

definition ide_ok :: "nat list \<Rightarrow> 'a idest_scheme \<Rightarrow> bool" where
  "ide_ok q s \<longleftrightarrow> iochain (bufs s) (idequeue s) q \<and> distinct q \<and> set q \<subseteq> {..<NBUF}
     \<and> (\<forall>b \<in> set q. pending (bufs s b)) \<and> (case q of [] \<Rightarrow> True | b # _ \<Rightarrow> started b s)"

lemma iochain_cong: "(\<And>b. b \<in> set q \<Longrightarrow> b_qnext (g b) = b_qnext (f b)) \<Longrightarrow> iochain g x q = iochain f x q"
  by (induction q arbitrary: x) auto

lemma ide_append_chain:
  "iochain (bufs s) (Some x) (x # q) \<Longrightarrow> length q < fuel
   \<Longrightarrow> ide_append fuel x b s = Ret () (upd_buf (last (x # q)) (b_qnext_update (\<lambda>_. Some b)) s)"
proof (induction q arbitrary: x fuel)
  case Nil
  then show ?case by (cases fuel) auto
next
  case (Cons y q)
  then show ?case by (cases fuel) auto
qed

lemma iochain_append:
  "iochain f x (q @ [a]) \<Longrightarrow> distinct (q @ [a]) \<Longrightarrow> b \<notin> set (q @ [a]) \<Longrightarrow> b_qnext (f b) = None
   \<Longrightarrow> iochain (f(a := (f a)\<lparr>b_qnext := Some b\<rparr>)) x (q @ [a, b])"
  by (induction q arbitrary: x) auto

lemma ide_fields [simp]:
  "idequeue (enter lk c s) = idequeue s" "idequeue (leave lk c s) = idequeue s"
  "io_regs (enter lk c s) = io_regs s" "io_regs (leave lk c s) = io_regs s"
  "ide_status (enter lk c s) = ide_status s" "ide_status (leave lk c s) = ide_status s"
  "enter lk c (s\<lparr>idequeue := x\<rparr>) = (enter lk c s)\<lparr>idequeue := x\<rparr>"
  "enter lk c (s\<lparr>ide_polls := k\<rparr>) = (enter lk c s)\<lparr>ide_polls := k\<rparr>"
  "drive1 (enter lk c s) = drive1 s" "ide_lba (enter lk c s) = ide_lba s"
  "drive1 (leave lk c s) = drive1 s" "ide_lba (leave lk c s) = ide_lba s"
  "same_core s (t\<lparr>idequeue := x\<rparr>) = same_core s t" "same_core s (t\<lparr>ide_polls := k\<rparr>) = same_core s t"
  by (simp_all add: enter_def leave_def drive1_def ide_lba_def same_core_def)

lemma idequeue_upd_buf [simp]: "idequeue (upd_buf b g s) = idequeue s"
  by (simp add: upd_buf_def)

lemma ide_drive_frame [simp]:
  "drive1 (s\<lparr>bufs := f\<rparr>) = drive1 s" "ide_lba (s\<lparr>bufs := f\<rparr>) = ide_lba s"
  "drive1 (s\<lparr>idequeue := x\<rparr>) = drive1 s" "ide_lba (s\<lparr>idequeue := x\<rparr>) = ide_lba s"
  "drive1 (s\<lparr>ide_polls := k\<rparr>) = drive1 s" "ide_lba (s\<lparr>ide_polls := k\<rparr>) = ide_lba s"
  by (simp_all add: drive1_def ide_lba_def)

lemma quiet_ide [simp]:
  "quiet c p (s\<lparr>idequeue := x\<rparr>) = quiet c p s" "quiet c p (s\<lparr>ide_polls := k\<rparr>) = quiet c p s"
  by (intro quiet_cong sched_rep_cong; simp)+

lemma dev_frame_core:
  assumes "dev_frame s t"
  shows "same_core s t" "bufs t = bufs s" "idequeue t = idequeue s" "ide_status t = ide_status s" "procs t = procs s"
    "leave lk c t = (leave lk c s)\<lparr>io_regs := io_regs t, ide_polls := ide_polls t, disk := disk t, disk_writes := disk_writes t\<rparr>"
    "quiet c' p t = quiet c' p s"
proof -
  have t: "t = s\<lparr>io_regs := io_regs t, ide_polls := ide_polls t, disk := disk t, disk_writes := disk_writes t\<rparr>"
    using assms by (cases s, cases t) (simp add: dev_frame_def dev_blank_def)
  show c: "same_core s t" by (subst t) (simp add: same_core_def)
  show "bufs t = bufs s" "idequeue t = idequeue s" "ide_status t = ide_status s" "procs t = procs s"
    "leave lk c t = (leave lk c s)\<lparr>io_regs := io_regs t, ide_polls := ide_polls t, disk := disk t, disk_writes := disk_writes t\<rparr>"
    by (subst t, simp add: leave_def)+
  have "sched_rep t Q = sched_rep s Q" for Q by (rule sched_rep_cong) (subst t, simp)+
  with c show "quiet c' p t = quiet c' p s" by (rule quiet_cong)
qed

lemma sched_eq_ide:
  assumes "sched_eq s t"
  shows "idequeue t = idequeue s" "io_regs t = io_regs s" "ide_status t = ide_status s" "drive1 t = drive1 s" "ide_lba t = ide_lba s"
proof -
  have "idequeue (unsched u) = idequeue u" "io_regs (unsched u) = io_regs u" "ide_status (unsched u) = ide_status u" for u :: "'c idest_scheme"
    by (simp_all add: unsched_def)
  with assms show "idequeue t = idequeue s" "io_regs t = io_regs s" "ide_status t = ide_status s" unfolding sched_eq_def by metis+
  then show "drive1 t = drive1 s" "ide_lba t = ide_lba s" by (simp_all add: drive1_def ide_lba_def)
qed

section \<open>The end of a request\<close>

definition served :: "(u32 \<Rightarrow> u8 list) \<Rightarrow> buf \<Rightarrow> buf" where
  "served d x = x\<lparr>b_data := (if dirty x then b_data x else d (b_blockno x)), b_flags := (b_flags x OR B_VALID) AND NOT B_DIRTY\<rparr>"

lemma served_flags: "\<not> pending (served d x)" "b_qnext (served d x) = b_qnext x" "b_flags (served d x) AND (B_VALID OR B_DIRTY) = B_VALID"
proof -
  have "valid (served d x)" "\<not> dirty (served d x)"
    using bit_2_4 [of 1] bit_2_4 [of 2]
    by (simp_all add: served_def valid_def dirty_def B_VALID_def B_DIRTY_def bit_or_iff bit_and_iff bit_not_iff del: not_numeral_eq)
  then show "b_flags (served d x) AND (B_VALID OR B_DIRTY) = B_VALID" by (simp add: flag_tests)
  then show "\<not> pending (served d x)" by (simp add: pending_def)
qed (simp add: served_def)

lemma flags_served:
  "(w AND NOT B_DIRTY) OR B_VALID = (w OR B_VALID) AND NOT B_DIRTY"
  "\<not> bit w 2 \<Longrightarrow> w OR B_VALID = (w OR B_VALID) AND NOT B_DIRTY" for w :: u32
proof -
  show "(w AND NOT B_DIRTY) OR B_VALID = (w OR B_VALID) AND NOT B_DIRTY"
    by (rule bit_word_eqI) (auto simp only: B_VALID_def B_DIRTY_def bit_or_iff bit_and_iff bit_not_iff bit_2_4 possible_bit_word)
  show "w OR B_VALID = (w OR B_VALID) AND NOT B_DIRTY" if "\<not> bit w 2"
    by (rule bit_word_eqI) (use that in \<open>auto simp only: B_VALID_def B_DIRTY_def bit_or_iff bit_and_iff bit_not_iff bit_2_4 possible_bit_word\<close>)
qed

text \<open>The memory disk serves a request in one step, in the same way.\<close>

lemma memory_disk_serves:
  assumes q: "quiet c p m" and r: "iderw b m = Ret () u"
  shows "bufs u = (bufs m)(b := served (disk m) (bufs m b)) \<and> disk u = start_disk (bufs m b) (disk m)"
  using r flags_served [of "b_flags (bufs m b)"]
  by (cases "dirty (bufs m b)")
     (auto simp: iderw_def holdingsleep_eq [OF q] Let_def flag_tests upd_buf_def served_def start_disk_def dirty_def split: if_splits)

lemma ideintr_steps:
  assumes q: "quiet c p s" and al: "ide_alive (ide_status s)" and ok: "ide_ok (b # q) s"
  shows "\<exists>k. ideintr_pio s = then_do (wakeup (ChBuf b) (enter IdeLock c (s\<lparr>idequeue := b_qnext (bufs s b), ide_polls := k,
      bufs := (bufs s)(b := served (disk s) (bufs s b))\<rparr>))) (\<lambda>_ s.
    then_do (if idequeue s \<noteq> None then idestart (idequeue s) s else Ret () s) (\<lambda>_ s. release IdeLock s))"
proof -
  let ?n = "b_qnext (bufs s b)"
  have h: "idequeue s = Some b" "started b s" using ok by (auto simp: ide_ok_def)
  note e = acquire_calm [OF quietD(1,2) [OF q], of IdeLock]
  show ?thesis
  proof (cases "dirty (bufs s b)")
    case True
    then show ?thesis
      by (intro exI [of _ "ide_polls s"]) (simp add: ideintr_pio_def e h Let_def flag_tests upd_buf_def served_def)
  next
    case False
    obtain k where "idewait True ((enter IdeLock c s)\<lparr>idequeue := ?n\<rparr>) = Ret 0 ((enter IdeLock c s)\<lparr>idequeue := ?n, ide_polls := k\<rparr>)"
      using idewait_ready [of "(enter IdeLock c s)\<lparr>idequeue := ?n\<rparr>" True] al by auto
    with False h show ?thesis
      by (intro exI [of _ k]) (simp add: ideintr_pio_def e Let_def flag_tests upd_buf_def served_def started_def insl_def)
  qed
qed

lemma dev_frame_leave: "dev_frame t u \<Longrightarrow> dev_frame (leave lk c t) (leave lk c u)"
  by (simp add: dev_frame_core(6))

lemma started_leave [simp]: "started b (leave lk c s) = started b s"
  by (simp add: started_def)

text \<open>What the drive does next once the queue is \<open>q\<close>.\<close>

definition next_disk :: "nat list \<Rightarrow> (nat \<Rightarrow> buf) \<Rightarrow> (u32 \<Rightarrow> u8 list) \<Rightarrow> u32 \<Rightarrow> u8 list" where
  "next_disk q f d = (case q of [] \<Rightarrow> d | b # _ \<Rightarrow> start_disk (f b) d)"

lemma start_next:
  assumes al: "ide_alive (ide_status t)" and ch: "iochain (bufs t) (idequeue t) q" and pe: "\<And>b. b \<in> set q \<Longrightarrow> pending (bufs t b)"
  shows "wp (if idequeue t \<noteq> None then idestart (idequeue t) t else Ret () t)
    (\<lambda>_ u. dev_frame t u \<and> disk u = next_disk q (bufs t) (disk t) \<and> (case q of [] \<Rightarrow> True | b # _ \<Rightarrow> started b u))"
proof (cases q)
  case Nil
  then show ?thesis using ch by (simp add: next_disk_def)
next
  case (Cons b q')
  then have "idequeue t = Some b" "pending (bufs t b)" using ch pe by auto
  then show ?thesis using Cons by (simp add: next_disk_def) (rule wp_mono [OF idestart_wp [OF al]], auto)
qed

lemma ideintr_wp:
  assumes q: "quiet c p s" and al: "ide_alive (ide_status s)" and ok: "ide_ok (b # q) s"
  defines "f \<equiv> (bufs s)(b := served (disk s) (bufs s b))"
  shows "wp (ideintr_pio s) (\<lambda>_ t. quiet c p t \<and> ide_ok q t \<and> bufs t = f \<and> disk t = next_disk q f (disk s)
    \<and> (\<forall>k. p_state (procs t k) = (if k < NPROC \<and> sleeps_on (Some (ChBuf b)) (procs s k) then RUNNABLE else p_state (procs s k))))"
proof -
  have ch: "iochain (bufs s) (b_qnext (bufs s b)) q" and d: "b \<notin> set q" "distinct q" "set q \<subseteq> {..<NBUF}"
    and pe: "\<And>x. x \<in> set q \<Longrightarrow> pending (bufs s x)" using ok by (auto simp: ide_ok_def)
  have ch': "iochain f (b_qnext (bufs s b)) q" and pe': "\<And>x. x \<in> set q \<Longrightarrow> pending (f x)"
    using ch pe d(1) iochain_cong [of q f "bufs s" "b_qnext (bufs s b)"] by (auto simp: f_def served_flags)
  obtain k where eq: "ideintr_pio s = then_do (wakeup (ChBuf b) (enter IdeLock c (s\<lparr>idequeue := b_qnext (bufs s b), ide_polls := k, bufs := f\<rparr>))) (\<lambda>_ s.
      then_do (if idequeue s \<noteq> None then idestart (idequeue s) s else Ret () s) (\<lambda>_ s. release IdeLock s))"
    using ideintr_steps [OF q al ok] unfolding f_def by blast
  define s2 where "s2 = s\<lparr>idequeue := b_qnext (bufs s b), ide_polls := k, bufs := f\<rparr>"
  have q2: "quiet c p s2" using q by (simp add: s2_def)
  have s2: "bufs s2 = f" "disk s2 = disk s" "idequeue s2 = b_qnext (bufs s b)" "ide_status s2 = ide_status s" "procs s2 = procs s"
    by (simp_all add: s2_def)
  show ?thesis unfolding eq s2_def [symmetric] wp_then_do
  proof (rule wp_mono [OF wakeup_section [OF q2, of IdeLock "ChBuf b"]], simp)
    fix x t
    assume t: "sched_eq (enter IdeLock c s2) t \<and> quiet c p (leave IdeLock c t) \<and> woken (Some (ChBuf b)) [0..<NPROC] s2 (leave IdeLock c t)"
    then have eq2: "sched_eq (enter IdeLock c s2) t" by simp
    note same = sched_eq_ide [OF eq2] sched_eq_bufs [OF eq2]
    have w: "p_state (procs t k) = (if k < NPROC \<and> sleeps_on (Some (ChBuf b)) (procs s k) then RUNNABLE else p_state (procs s k))" for k
      using t s2(5) by (simp add: woken_def)
    show "wp (if idequeue t \<noteq> None then idestart (idequeue t) t else Ret () t) (\<lambda>_ u. wp (release IdeLock u) (\<lambda>_ t. quiet c p t
       \<and> ide_ok q t \<and> bufs t = f \<and> disk t = next_disk q f (disk s)
       \<and> (\<forall>k. p_state (procs t k) = (if k < NPROC \<and> sleeps_on (Some (ChBuf b)) (procs s k) then RUNNABLE else p_state (procs s k)))))"
    proof (rule wp_mono [OF start_next [of t q]])
      fix y u
      assume u: "dev_frame t u \<and> disk u = next_disk q (bufs t) (disk t) \<and> (case q of [] \<Rightarrow> True | b # _ \<Rightarrow> started b u)"
      have core: "same_core (enter IdeLock c s2) u"
        using same_core_trans [OF sched_eq_core [OF eq2] dev_frame_core(1)] u by blast
      note fu = dev_frame_core [of t u] and fl = dev_frame_core [OF dev_frame_leave, of t u]
      have "ide_ok q (leave IdeLock c u)"
        using u fu(2,3) same s2 ch' pe' d by (auto simp: ide_ok_def split: list.splits)
      then show "wp (release IdeLock u) (\<lambda>_ t. quiet c p t \<and> ide_ok q t \<and> bufs t = f \<and> disk t = next_disk q f (disk s)
         \<and> (\<forall>k. p_state (procs t k) = (if k < NPROC \<and> sleeps_on (Some (ChBuf b)) (procs s k) then RUNNABLE else p_state (procs s k))))"
        using u t fu(2,5) fl(7) same s2 w by (intro wp_release_section [OF quietD(1,2) [OF q2] core]) simp
    qed (use same s2 ch' pe' al in auto)
  qed
qed

section \<open>A new request\<close>

lemma iderw_enqueue:
  assumes ok: "ide_ok q s" and b: "b \<notin> set q" "b < NBUF"
  defines "s1 \<equiv> upd_buf b (b_qnext_update (\<lambda>_. None)) s"
  shows "\<exists>f. (case idequeue s1 of None \<Rightarrow> Ret () (s1\<lparr>idequeue := Some b\<rparr>) | Some x \<Rightarrow> ide_append (Suc NBUF) x b s1)
      = Ret () (s\<lparr>bufs := f, idequeue := (case q of [] \<Rightarrow> Some b | x # _ \<Rightarrow> Some x)\<rparr>)
    \<and> iochain f (case q of [] \<Rightarrow> Some b | x # _ \<Rightarrow> Some x) (q @ [b]) \<and> (\<forall>x. (f x)\<lparr>b_qnext := None\<rparr> = (bufs s x)\<lparr>b_qnext := None\<rparr>)"
proof -
  have s1: "idequeue s1 = idequeue s" "b_qnext (bufs s1 b) = None" and "x \<in> set q \<Longrightarrow> b_qnext (bufs s1 x) = b_qnext (bufs s x)" for x
    using b(1) by (auto simp: s1_def upd_buf_def)
  then have ch: "iochain (bufs s1) (idequeue s1) q"
    using ok iochain_cong [of q "bufs s1" "bufs s" "idequeue s"] by (simp add: ide_ok_def)
  show ?thesis
  proof (cases q rule: rev_cases)
    case Nil
    then show ?thesis using ch s1 by (intro exI [of _ "bufs s1"]) (auto simp: s1_def upd_buf_def)
  next
    case (snoc r a)
    obtain x q' where q: "q = x # q'" using snoc by (metis append_is_Nil_conv list.exhaust not_Cons_self2)
    let ?f = "(bufs s1)(a := (bufs s1 a)\<lparr>b_qnext := Some b\<rparr>)"
    have x: "idequeue s1 = Some x" "idequeue s = Some x" using ch q s1(1) by auto
    have "card (set q) \<le> NBUF" using ok card_mono [of "{..<NBUF}" "set q"] by (simp add: ide_ok_def)
    then have "length q' < Suc NBUF" using ok q distinct_card [of q] by (auto simp: ide_ok_def)
    then have "ide_append (Suc NBUF) x b s1 = Ret () (upd_buf a (b_qnext_update (\<lambda>_. Some b)) s1)"
      using ide_append_chain [of s1 x q' "Suc NBUF" b] ch q snoc x by (metis last_snoc)
    moreover have "iochain ?f (Some x) (r @ [a, b])"
      using iochain_append [of "bufs s1" "Some x" r a b] ch x snoc ok b(1) s1(2) by (auto simp: ide_ok_def)
    moreover have "s\<lparr>bufs := g, idequeue := Some x\<rparr> = s\<lparr>bufs := g\<rparr>" for g using x(2) by (cases s) simp
    moreover have "(case q of [] \<Rightarrow> Some b | y # _ \<Rightarrow> Some y) = Some x" "q @ [b] = r @ [a, b]" using q snoc by simp_all
    ultimately show ?thesis
      using x(1) by (intro exI [of _ ?f]) (simp add: upd_buf_def s1_def del: ide_append.simps)
  qed
qed

definition same_request :: "buf \<Rightarrow> buf \<Rightarrow> bool" where
  "same_request x y \<longleftrightarrow> x\<lparr>b_qnext := None\<rparr> = y\<lparr>b_qnext := None\<rparr>"

lemma same_requestD:
  assumes "same_request x y"
  shows "b_flags x = b_flags y" "b_dev x = b_dev y" "b_blockno x = b_blockno y" "b_data x = b_data y"
    "pending x = pending y" "dirty x = dirty y" "start_disk x = start_disk y"
proof -
  have "b_flags x = b_flags y" "b_dev x = b_dev y" "b_blockno x = b_blockno y" "b_data x = b_data y"
    using assms by (cases x, cases y, simp add: same_request_def)+
  then show "b_flags x = b_flags y" "b_dev x = b_dev y" "b_blockno x = b_blockno y" "b_data x = b_data y"
    "pending x = pending y" "dirty x = dirty y" "start_disk x = start_disk y"
    by (auto simp: pending_def dirty_def start_disk_def fun_eq_iff)
qed

lemma iderw_pio_wp:
  assumes q: "quiet c p s" "cpu_ncli (cpus s c) = 0" and al: "ide_alive (ide_status s)" and ok: "ide_ok q s" "b \<notin> set q" "b < NBUF"
    and h: "sl_locked (sleeplks s (BufSL b))" "sl_pid (sleeplks s (BufSL b)) = p_pid (procs s p)"
    and b: "pending (bufs s b)" "havedisk1 s"
  shows "\<exists>t. iderw_pio b s = Sleep (ChBuf b) (asleep p (ChBuf b) (enter PtableLock c t)) \<and> quiet c p t \<and> ide_ok (q @ [b]) t
    \<and> (\<forall>x. same_request (bufs t x) (bufs s x)) \<and> disk t = (if q = [] then start_disk (bufs s b) (disk s) else disk s)"
proof -
  define hd where "hd = (case q of [] \<Rightarrow> Some b | x # _ \<Rightarrow> Some x)"
  let ?e = "enter IdeLock c s"
  have "ide_ok q ?e" using ok(1) by (simp add: ide_ok_def started_def split: list.splits)
  from iderw_enqueue [OF this ok(2,3)] obtain f where
    f: "(case idequeue s of None \<Rightarrow> Ret () ((upd_buf b (b_qnext_update (\<lambda>_. None)) ?e)\<lparr>idequeue := Some b\<rparr>)
        | Some x \<Rightarrow> ide_append (Suc NBUF) x b (upd_buf b (b_qnext_update (\<lambda>_. None)) ?e)) = Ret () (?e\<lparr>bufs := f, idequeue := hd\<rparr>)"
      "iochain f hd (q @ [b])" "\<And>x. same_request (f x) (bufs s x)"
    unfolding hd_def same_request_def by auto
  define s1 where "s1 = s\<lparr>bufs := f, idequeue := hd\<rparr>"
  have q1: "quiet c p s1" "cpu_ncli (cpus s1 c) = 0" using q by (simp_all add: s1_def)
  note sr = same_requestD [OF f(3)]
  have hd: "hd = Some b \<longleftrightarrow> q = []" using ok(2) by (auto simp: hd_def split: list.splits)
  have eq: "iderw_pio b s = then_do (if hd = Some b then idestart (Some b) (enter IdeLock c s1) else Ret () (enter IdeLock c s1)) (\<lambda>_ s. iderw_wait b s)"
    using f(1) b h holdingsleep_eq [OF q(1), of "BufSL b"] acquire_calm [OF quietD(1,2) [OF q(1)], of IdeLock]
    by (simp add: iderw_pio_def pending_def s1_def Let_def)
  have pe: "pending (f x)" if "x \<in> set (q @ [b])" for x using that b(1) ok(1) sr(5) by (auto simp: ide_ok_def)
  have "wp (if hd = Some b then idestart (Some b) (enter IdeLock c s1) else Ret () (enter IdeLock c s1))
      (\<lambda>_ u. dev_frame (enter IdeLock c s1) u \<and> ide_ok (q @ [b]) u \<and> disk u = (if q = [] then start_disk (bufs s b) (disk s) else disk s))"
  proof (cases "q = []")
    case True
    have "ide_alive (ide_status (enter IdeLock c s1))" "pending (bufs (enter IdeLock c s1) b)" using al pe by (simp_all add: s1_def)
    from idestart_wp [OF this] obtain u where u: "idestart (Some b) (enter IdeLock c s1) = Ret () u" "started b u"
        "dev_frame (enter IdeLock c s1) u" "disk u = start_disk (f b) (disk s)"
      by (auto simp: wp_Ret_iff s1_def)
    have "iochain (bufs u) (idequeue u) [b]" using f(2) True dev_frame_core(2,3) [OF u(3)] by (simp add: s1_def)
    moreover have "pending (bufs u b)" using pe dev_frame_core(2) [OF u(3)] by (simp add: s1_def)
    ultimately have "ide_ok [b] u" using u(2) ok(3) by (simp add: ide_ok_def)
    then show ?thesis using True hd sr(7) u by simp
  next
    case False
    then obtain x q' where "q = x # q'" by (cases q) auto
    moreover from this have "hd = Some x" by (simp add: hd_def)
    ultimately show ?thesis
      using hd False f(2) pe ok sr by (auto simp: ide_ok_def s1_def started_def)
  qed
  then obtain u where u: "(if hd = Some b then idestart (Some b) (enter IdeLock c s1) else Ret () (enter IdeLock c s1)) = Ret () u"
      "dev_frame (enter IdeLock c s1) u" "ide_ok (q @ [b]) u" "disk u = (if q = [] then start_disk (bufs s b) (disk s) else disk s)"
    by (auto simp: wp_Ret_iff)
  let ?t = "leave IdeLock c u"
  note fu = dev_frame_core [OF u(2)]
  have fl: "dev_frame s1 ?t" using dev_frame_leave [OF u(2), of IdeLock c] enter_then_leave [OF quietD(1,2) [OF q1(1)], of IdeLock] by simp
  have t: "quiet c p ?t" "cpu_ncli (cpus ?t c) = 0"
    using dev_frame_core(1,7) [OF fl] q1 same_coreD(6) [of s1 ?t] by simp_all
  have "enter IdeLock c ?t = u" by (rule enter_of_leave [OF quietD(1,2) [OF q1(1)] fu(1)])
  then have "(ksleep (ChBuf b) IdeLock u :: (unit, 'a idest_scheme) outcome) = Sleep (ChBuf b) (asleep p (ChBuf b) (enter PtableLock c ?t))"
    using ksleep_eq [of c ?t IdeLock p "ChBuf b"] quietD [OF t(1)] t(2) by simp
  moreover have "bufs u = f" using fu(2) by (simp add: s1_def)
  moreover have "pending (f b)" using pe by simp
  ultimately have "iderw_pio b s = Sleep (ChBuf b) (asleep p (ChBuf b) (enter PtableLock c ?t))"
    unfolding eq u(1) by (simp add: iderw_wait_def pending_def)
  moreover have "ide_ok (q @ [b]) ?t" using u(3) by (simp add: ide_ok_def split: list.splits)
  ultimately show ?thesis using t(1) u(4) f(3) \<open>bufs u = f\<close> by (intro exI [of _ ?t]) simp
qed

text \<open>The process that asked returns once its buffer has been served.\<close>

lemma iderw_resume_served:
  assumes "in_section c s" and q: "quiet c p (awake p e c s)" and b: "bufs s b = served d x"
  shows "iderw_resume p e b s = Ret () (awake p e c s)"
proof -
  have "bufs (awake p e c s) = bufs s" by (simp add: awake_def upd_proc_def upd_cpu_def)
  then show ?thesis
    using assms(1) b served_flags(3) [of d x] release_bufs(2) [OF q, of IdeLock] acquire_calm [OF quietD(1,2) [OF q]]
    by (simp add: iderw_resume_def sleep_resume_eq iderw_wait_def)
qed

section \<open>A concrete disk\<close>

text \<open>Process 0 holds the first three buffers: buffer 0 is to be read from block 40, on which the drive works, buffer 1 is to
  be written to block 41 behind it, and buffer 2 to be read from block 42 is not queued yet. The drive is busy at
  every second look.\<close>

definition demo_ide :: idest where
  "demo_ide = biost.extend (demo_bio\<lparr>sleeplks := (\<lambda>_. \<lparr>sl_locked = True, sl_pid = 1\<rparr>),
       bufs := (\<lambda>b. (demo_bufs b)\<lparr>b_flags := (if b = 1 then B_DIRTY else 0), b_dev := 1, b_blockno := 40 + of_nat b,
          b_data := replicate BSIZE 7, b_qnext := (if b = 0 then Some 1 else None)\<rparr>),
       disk := (\<lambda>n. replicate BSIZE (ucast n))\<rparr>)
     \<lparr>idequeue = Some 0, havedisk1 = True, bootdisk = (\<lambda>_. []), io_regs = (\<lambda>_. 0)(0x1f3 := 40, 0x1f6 := 0xf0),
      ide_status = (\<lambda>k. if even k then 0x80 else 0x40), ide_polls = 0\<rparr>"

lemma demo_ide_simps [simp]:
  "bufs demo_ide b = (demo_bufs b)\<lparr>b_flags := (if b = 1 then B_DIRTY else 0), b_dev := 1, b_blockno := 40 + of_nat b,
          b_data := replicate BSIZE 7, b_qnext := (if b = 0 then Some 1 else None)\<rparr>"
  "idequeue demo_ide = Some 0" "havedisk1 demo_ide" "ide_status demo_ide = (\<lambda>k. if even k then 0x80 else 0x40)"
  "sleeplks demo_ide = (\<lambda>_. \<lparr>sl_locked = True, sl_pid = 1\<rparr>)" "io_regs demo_ide = (\<lambda>_. 0)(0x1f3 := 40, 0x1f6 := 0xf0)"
  "procs demo_ide = procs run_ptab" "disk demo_ide = (\<lambda>n. replicate BSIZE (ucast n))" "disksize demo_ide = 100"
  by (simp_all add: demo_ide_def biost.defs demo_bio_def slst.defs ptab.defs)

lemma quiet_demo_ide [simp]: "quiet 0 0 demo_ide" "cpu_ncli (cpus demo_ide 0) = 0"
  by (rule quietI; simp add: demo_ide_def biost.defs demo_bio_def slst.defs ptab.defs)+

lemma alive_demo_ide: "ide_alive (ide_status demo_ide)"
proof -
  have "\<exists>j \<ge> k. odd j" for k :: nat by (rule exI [of _ "2 * k + 1"]) simp
  moreover have "ide_ready (ide_status demo_ide j) = odd j" for j by (simp add: ide_ready_def IDE_BSY_def IDE_DRDY_def)
  ultimately show ?thesis by (simp add: ide_alive_def IDE_DF_def IDE_ERR_def)
qed

lemma ok_demo_ide: "ide_ok [0, 1] demo_ide"
  using bit_2_4 by (simp add: ide_ok_def pending_def started_def drive1_def ide_lba_def FSSIZE_def flag_tests valid_def dirty_def
    demo_bufs_def B_DIRTY_def B_VALID_def NBUF_def)

section \<open>Properties\<close>

text \<open>C17: the disk interrupt, on a drive that becomes ready without error and a queue of requests of which the drive works
  on the first: the buffer ends up as the memory disk leaves it in one step, and so does the disk, up to the write
  of the next request, which is started; the requests behind stay queued in order, and exactly the processes that
  wait for the buffer are made runnable.\<close>

theorem ideintr_serves:
  assumes "quiet c p s" and "ide_alive (ide_status s)" and "ide_ok (b # q) s"
    and "quiet c' p' m" and "bufs m = bufs s" and "disk m = disk s" and "iderw b m = Ret () u"
  shows "wp (ideintr_pio s) (\<lambda>_ t. quiet c p t \<and> ide_ok q t \<and> bufs t = bufs u \<and> disk t = next_disk q (bufs u) (disk u)
    \<and> (\<forall>k. p_state (procs t k) = (if k < NPROC \<and> sleeps_on (Some (ChBuf b)) (procs s k) then RUNNABLE else p_state (procs s k))))"
proof -
  have "disk u = disk s"
    using memory_disk_serves [OF assms(4,7)] assms(3,5,6) by (auto simp: start_disk_def ide_ok_def started_def)
  then show ?thesis
    using ideintr_wp [OF assms(1-3)] memory_disk_serves [OF assms(4,7)] assms(5,6) by simp
qed

theorem ideintr_serves_witness:
  "wp (ideintr_pio demo_ide) (\<lambda>_ t. ide_ok [1] t \<and> b_data (bufs t 0) = replicate BSIZE 40 \<and> disk t 41 = replicate BSIZE 7)"
proof -
  obtain u where u: "iderw 0 demo_ide = Ret () u"
    by (simp add: iderw_def holdingsleep_eq [OF quiet_demo_ide(1)] demo_proc_def B_VALID_def)
  note v = memory_disk_serves [OF quiet_demo_ide(1) u]
  have "\<not> dirty (bufs demo_ide 0)" "dirty (bufs demo_ide 1)" using bit_2_4 by (simp_all add: dirty_def B_DIRTY_def)
  with v show ?thesis
    by (intro wp_mono [OF ideintr_serves [OF quiet_demo_ide(1) alive_demo_ide ok_demo_ide quiet_demo_ide(1) refl refl u]])
       (simp add: next_disk_def start_disk_def served_def)
qed

text \<open>C18: \<open>iderw\<close> of the IDE driver, called by the holder of a buffer that is dirty or not valid: the buffer becomes the
  last of the queue, the drive is started when the queue was empty, and the caller sleeps until its request is
  served.\<close>

theorem iderw_queues:
  assumes "quiet c p s" and "cpu_ncli (cpus s c) = 0" and "ide_alive (ide_status s)" and "ide_ok q s" and "b \<notin> set q" and "b < NBUF"
    and "sl_locked (sleeplks s (BufSL b))" and "sl_pid (sleeplks s (BufSL b)) = p_pid (procs s p)"
    and "pending (bufs s b)" and "havedisk1 s"
  shows "\<exists>t. iderw_pio b s = Sleep (ChBuf b) (asleep p (ChBuf b) (enter PtableLock c t)) \<and> quiet c p t \<and> ide_ok (q @ [b]) t
    \<and> (\<forall>x. same_request (bufs t x) (bufs s x)) \<and> disk t = (if q = [] then start_disk (bufs s b) (disk s) else disk s)"
  using assms by (rule iderw_pio_wp)

theorem iderw_queues_witness:
  "\<exists>t. iderw_pio 2 demo_ide = Sleep (ChBuf 2) (asleep 0 (ChBuf 2) (enter PtableLock 0 t)) \<and> ide_ok [0, 1, 2] t"
  using iderw_queues [OF quiet_demo_ide alive_demo_ide ok_demo_ide, of 2]
  by (auto simp: pending_def FSSIZE_def NBUF_def demo_bufs_def demo_proc_def B_VALID_def)

end
