(* ===== verification/Userlib.thy ===== *)
theory Userlib
  imports Machine
begin

text \<open>
  The library of the user programs, after \<open>ulib.c\<close>, \<open>printf.c\<close> and the macros of \<open>user.h\<close>. A string is the list of its
  bytes before the terminating zero, and a pointer into it is the rest of the list from there on. What a program sees of the kernel is
  a world of open files: the bytes each descriptor still delivers, in pieces whose sizes are not the
  program's choice, the bytes written to each descriptor, and the descriptor that opening a path gives.
\<close>

section \<open>Exit codes\<close>

definition WIFEXITED :: "u32 \<Rightarrow> bool" where "WIFEXITED status \<longleftrightarrow> status AND 0x7f = 0"
definition WEXITSTATUS :: "u32 \<Rightarrow> u32" where "WEXITSTATUS status = drop_bit 8 (status AND 0xff00)"
definition WIFSIGNALED :: "u32 \<Rightarrow> bool" where "WIFSIGNALED status \<longleftrightarrow> status AND 0x7f \<noteq> 0"
definition WEXITTRAP :: "u32 \<Rightarrow> u32" where "WEXITTRAP status = (status AND 0x7f) - 1"

section \<open>Strings\<close>

fun strcmp :: "u8 list \<Rightarrow> u8 list \<Rightarrow> int" where
  "strcmp [] [] = 0"
| "strcmp [] (b # q) = - uint b"
| "strcmp (a # p) [] = uint a"
| "strcmp (a # p) (b # q) = (if a = b then strcmp p q else uint a - uint b)"

fun strchr :: "u8 list \<Rightarrow> u8 \<Rightarrow> u8 list option" where
  "strchr [] c = None"
| "strchr (x # s) c = (if x = c then Some (x # s) else strchr s c)"

fun atoi_loop :: "u32 \<Rightarrow> u8 list \<Rightarrow> u32" where
  "atoi_loop n [] = n"
| "atoi_loop n (c # s) = (if 48 \<le> c \<and> c \<le> 57 then atoi_loop (n * 10 + ucast c - 48) s else n)"

definition atoi :: "u8 list \<Rightarrow> u32" where
  "atoi s = atoi_loop 0 s"

text \<open>The library's \<open>memmove\<close> always copies upwards.\<close>

primrec umemmove :: "mem \<Rightarrow> u32 \<Rightarrow> u32 \<Rightarrow> nat \<Rightarrow> mem" where
  "umemmove m dst src 0 = m"
| "umemmove m dst src (Suc n) = umemmove (m(dst := m src)) (dst + 1) (src + 1) n"

section \<open>Files\<close>

record uworld =
  u_in :: "int \<Rightarrow> u8 list"
  u_bad :: "int \<Rightarrow> bool"
  u_piece :: "nat \<Rightarrow> nat"
  u_reads :: nat
  u_out :: "int \<Rightarrow> u8 list"
  u_open :: "u8 list \<Rightarrow> int"

text \<open>A read of at most \<open>n\<close> bytes: at least one byte when there are any, \<open>Some []\<close> at the end, \<open>None\<close> for an error.\<close>

definition uread :: "int \<Rightarrow> nat \<Rightarrow> uworld \<Rightarrow> u8 list option \<times> uworld" where
  "uread fd n w =
     (let k = min n (max 1 (u_piece w (u_reads w)));
          bs = take k (u_in w fd);
          w' = w\<lparr>u_in := (u_in w)(fd := drop k (u_in w fd)), u_reads := u_reads w + 1\<rparr>
      in if bs = [] \<and> n \<noteq> 0 \<and> u_bad w fd then (None, w') else (Some bs, w'))"

definition uwrite :: "int \<Rightarrow> u8 list \<Rightarrow> uworld \<Rightarrow> uworld" where
  "uwrite fd bs w = w\<lparr>u_out := (u_out w)(fd := u_out w fd @ bs)\<rparr>"

text \<open>The loop of \<open>gets\<close>: it reads byte by byte up to a line end, the end of the input or a full buffer.\<close>

fun gets_loop :: "nat \<Rightarrow> uworld \<Rightarrow> u8 list \<times> uworld" where
  "gets_loop 0 w = ([], w)"
| "gets_loop (Suc n) w =
     (case uread 0 1 w of
        (Some [c], w) \<Rightarrow>
          if c = 10 \<or> c = 13 then ([c], w)
          else let (s, w) = gets_loop n w in (c # s, w)
      | (_, w) \<Rightarrow> ([], w))"

definition gets :: "int \<Rightarrow> uworld \<Rightarrow> u8 list \<times> uworld" where
  "gets mx w = gets_loop (nat (mx - 1)) w"

section \<open>Formatted output\<close>

definition putc :: "int \<Rightarrow> u8 \<Rightarrow> uworld \<Rightarrow> uworld" where
  "putc fd c w = uwrite fd [c] w"

definition udigits :: "u8 list" where
  "udigits = map of_char ''0123456789ABCDEF''"

fun uprintint_buf :: "nat \<Rightarrow> u32 \<Rightarrow> u32 \<Rightarrow> u8 list" where
  "uprintint_buf 0 x base = []"
| "uprintint_buf (Suc fuel) x base =
     udigits ! unat (x mod base) #
     (if x div base \<noteq> 0 then uprintint_buf fuel (x div base) base else [])"

definition uprintint :: "int \<Rightarrow> u32 \<Rightarrow> u32 \<Rightarrow> bool \<Rightarrow> uworld \<Rightarrow> uworld" where
  "uprintint fd xx base sg w =
     (let neg = (sg \<and> xx <s 0);
          x = (if neg then - xx else xx);
          buf = uprintint_buf 32 x base;
          buf = (if neg then buf @ [of_char (CHR ''-'')] else buf)
      in fold (putc fd) (rev buf) w)"

text \<open>The arguments of \<open>printf\<close>: a number, or a pointer to a string, which may be null. The result is \<open>None\<close> when an
  argument is missing or of the wrong kind.\<close>

datatype uarg = UNum u32 | UStr "u8 list option"

fun printf_loop :: "int \<Rightarrow> bool \<Rightarrow> u8 list \<Rightarrow> uarg list \<Rightarrow> uworld \<Rightarrow> uworld option" where
  "printf_loop fd st [] as w = Some w"
| "printf_loop fd False (c # fmt) as w =
     (if c = 37 then printf_loop fd True fmt as w else printf_loop fd False fmt as (putc fd c w))"
| "printf_loop fd True (c # fmt) as w =
     (if c = 100 then
        (case as of UNum x # as \<Rightarrow> printf_loop fd False fmt as (uprintint fd x 10 True w) | _ \<Rightarrow> None)
      else if c = 120 \<or> c = 112 then
        (case as of UNum x # as \<Rightarrow> printf_loop fd False fmt as (uprintint fd x 16 False w) | _ \<Rightarrow> None)
      else if c = 115 then
        (case as of
           UStr s # as \<Rightarrow>
             printf_loop fd False fmt as (fold (putc fd) (case s of None \<Rightarrow> map of_char ''(null)'' | Some s \<Rightarrow> s) w)
         | _ \<Rightarrow> None)
      else if c = 99 then
        (case as of UNum x # as \<Rightarrow> printf_loop fd False fmt as (putc fd (ucast x) w) | _ \<Rightarrow> None)
      else if c = 37 then printf_loop fd False fmt as (putc fd c w)
      else printf_loop fd False fmt as (putc fd c (putc fd 37 w)))"

definition printf :: "int \<Rightarrow> u8 list \<Rightarrow> uarg list \<Rightarrow> uworld \<Rightarrow> uworld option" where
  "printf fd fmt as w = printf_loop fd False fmt as w"

section \<open>What is printed\<close>

text \<open>The decimal digits of a number, and of a number with a sign, as text.\<close>

fun decimal :: "nat \<Rightarrow> u8 list" where
  "decimal n = (if n < 10 then [48 + of_nat n] else decimal (n div 10) @ [48 + of_nat (n mod 10)])"

declare decimal.simps [simp del]

definition decimal_int :: "int \<Rightarrow> u8 list" where
  "decimal_int i = (if i < 0 then 45 # decimal (nat (- i)) else decimal (nat i))"

lemma uwrite_uwrite [simp]: "uwrite fd cs (uwrite fd bs w) = uwrite fd (bs @ cs) w"
  by (simp add: uwrite_def)

lemma fold_putc: "fold (putc fd) bs w = uwrite fd bs w"
  by (induction bs arbitrary: w) (simp add: uwrite_def, simp add: putc_def)

lemma udigits_nth: "k < 10 \<Longrightarrow> udigits ! k = 48 + of_nat k"
  by (simp add: udigits_def less_Suc_eq numeral_eq_Suc) auto

lemma uprintint_buf_decimal: "unat x < 10 ^ Suc f \<Longrightarrow> rev (uprintint_buf (Suc f) x 10) = decimal (unat x)"
proof (induction f arbitrary: x)
  case 0
  then show ?case by (simp add: udigits_nth unat_mod unat_div decimal.simps word_unat_eq_iff)
next
  case (Suc f)
  have d: "unat (x mod 10) = unat x mod 10" "unat (x div 10) = unat x div 10" by (simp_all add: unat_mod unat_div)
  then have "unat (x div 10) < 10 ^ Suc f" using Suc.prems by simp
  note IH = Suc.IH [OF this]
  show ?case
  proof (cases "unat x < 10")
    case True
    then have "x div 10 = 0" by (simp add: word_unat_eq_iff d)
    with True show ?thesis by (simp add: udigits_nth d decimal.simps [of "unat x"])
  next
    case False
    then have "x div 10 \<noteq> 0" by (simp add: word_unat_eq_iff d)
    with False IH show ?thesis by (simp add: udigits_nth d decimal.simps [of "unat x"])
  qed
qed

lemma sint_cases:
  fixes x :: u32
  shows "\<not> x <s 0 \<Longrightarrow> nat (sint x) = unat x" and "x <s 0 \<Longrightarrow> nat (- sint x) = unat (- x)"
proof -
  have u: "uint x = sint x mod 4294967296" by (simp add: uint_sint take_bit_eq_mod)
  have lt: "sint x < 2147483648" "- 2147483648 \<le> sint x" using sint_lt [of x] sint_ge [of x] by simp_all
  show "nat (sint x) = unat x" if "\<not> x <s 0"
    using that u lt by (simp add: word_sless_alt unat_eq_nat_uint)
  show "nat (- sint x) = unat (- x)" if "x <s 0"
  proof -
    have "uint x = (sint x + 4294967296) mod 4294967296" using u by simp
    also have "\<dots> = sint x + 4294967296" using lt that by (intro mod_pos_pos_trivial) (simp_all add: word_sless_alt)
    finally have "uint x = sint x + 4294967296" .
    then have "uint (- x) = - sint x" using lt that by (simp add: uint_word_ariths(4) word_sless_alt)
    then show ?thesis by (simp add: unat_eq_nat_uint)
  qed
qed

lemma uprintint_decimal: "uprintint fd x 10 True w = uwrite fd (decimal_int (sint x)) w"
proof -
  have b: "rev (uprintint_buf 32 y 10) = decimal (unat y)" for y
  proof -
    have "unat y < 10 ^ Suc 31" using unat_u32 [of y] by simp
    moreover have "Suc 31 = 32" by simp
    ultimately show ?thesis using uprintint_buf_decimal by metis
  qed
  show ?thesis
  proof (cases "x <s 0")
    case True
    then have "nat (- sint x) = unat (- x)" by (rule sint_cases(2))
    with True show ?thesis by (simp add: uprintint_def Let_def b fold_putc decimal_int_def word_sless_alt putc_def)
  next
    case False
    then have "nat (sint x) = unat x" by (rule sint_cases(1))
    with False show ?thesis by (simp add: uprintint_def Let_def b fold_putc decimal_int_def word_sless_alt)
  qed
qed

end
