(* ===== verification/Grep.thy ===== *)
theory Grep
  imports Userlib
begin

text \<open>
  The regular-expression matcher of \<open>grep.c\<close>, with the operators \<open>^\<close>, \<open>.\<close>, \<open>*\<close> and \<open>$\<close>, and the language of a pattern.
\<close>

section \<open>The matcher\<close>

function (sequential) matchhere :: "u8 list \<Rightarrow> u8 list \<Rightarrow> bool" and matchstar :: "u8 \<Rightarrow> u8 list \<Rightarrow> u8 list \<Rightarrow> bool" where
  "matchhere re text =
     (case re of
        [] \<Rightarrow> True
      | c # re1 \<Rightarrow>
        (case re1 of
           d # re2 \<Rightarrow>
             if d = 42 then matchstar c re2 text
             else (case text of [] \<Rightarrow> False | t # ts \<Rightarrow> if c = 46 \<or> c = t then matchhere re1 ts else False)
         | [] \<Rightarrow>
             if c = 36 then text = []
             else (case text of [] \<Rightarrow> False | t # ts \<Rightarrow> if c = 46 \<or> c = t then matchhere re1 ts else False)))"
| "matchstar c re text =
     (if matchhere re text then True
      else (case text of [] \<Rightarrow> False | t # ts \<Rightarrow> if t = c \<or> c = 46 then matchstar c re ts else False))"
  by pat_completeness auto
termination
  by (relation "measure (\<lambda>x. case x of Inl (re, text) \<Rightarrow> 2 * (length re + length text) | Inr (c, re, text) \<Rightarrow> 2 * (length re + length text) + 1)")
     auto

declare matchhere.simps [simp del] matchstar.simps [simp del]

primrec match_from :: "u8 list \<Rightarrow> u8 list \<Rightarrow> bool" where
  "match_from re [] = matchhere re []"
| "match_from re (t # ts) = (if matchhere re (t # ts) then True else match_from re ts)"

definition match :: "u8 list \<Rightarrow> u8 list \<Rightarrow> bool" where
  "match re text = (case re of c # re1 \<Rightarrow> if c = 94 then matchhere re1 text else match_from re text | [] \<Rightarrow> match_from re text)"

section \<open>The language of a pattern\<close>

datatype atom = Any | Lit u8
datatype item = One atom | Star atom

definition accepts :: "atom \<Rightarrow> u8 \<Rightarrow> bool" where
  "accepts a x = (case a of Any \<Rightarrow> True | Lit c \<Rightarrow> x = c)"

definition atom_of :: "u8 \<Rightarrow> atom" where
  "atom_of c = (if c = 46 then Any else Lit c)"

text \<open>A pattern is a sequence of items, possibly with the end of the text behind it.\<close>

fun items :: "u8 list \<Rightarrow> item list \<times> bool" where
  "items [] = ([], False)"
| "items [c] = (if c = 36 then ([], True) else ([One (atom_of c)], False))"
| "items (c # d # re) =
     (if d = 42 then (let (is, e) = items re in (Star (atom_of c) # is, e))
      else (let (is, e) = items (d # re) in (One (atom_of c) # is, e)))"

inductive in_lang :: "item list \<Rightarrow> u8 list \<Rightarrow> bool" where
  "in_lang [] []"
| "accepts a x \<Longrightarrow> in_lang is w \<Longrightarrow> in_lang (One a # is) (x # w)"
| "in_lang is w \<Longrightarrow> in_lang (Star a # is) w"
| "accepts a x \<Longrightarrow> in_lang (Star a # is) w \<Longrightarrow> in_lang (Star a # is) (x # w)"

inductive_simps in_lang_Nil: "in_lang [] w"
inductive_simps in_lang_One: "in_lang (One a # is) w"
inductive_simps in_lang_Star: "in_lang (Star a # is) w"

text \<open>The pattern matches at the start of the text.\<close>

definition prefix_match :: "u8 list \<Rightarrow> u8 list \<Rightarrow> bool" where
  "prefix_match re text \<longleftrightarrow> (\<exists>w v. text = w @ v \<and> in_lang (fst (items re)) w \<and> (snd (items re) \<longrightarrow> v = []))"

lemma prefix_match_Nil: "prefix_match [] text"
  by (simp add: prefix_match_def in_lang_Nil)

lemma prefix_match_end: "prefix_match [36] text \<longleftrightarrow> text = []"
  by (auto simp: prefix_match_def in_lang_Nil)

lemma prefix_match_One:
  assumes i: "items (c # re) = (One (atom_of c) # fst (items re), snd (items re))"
  shows "prefix_match (c # re) text \<longleftrightarrow> (case text of [] \<Rightarrow> False | t # ts \<Rightarrow> (c = 46 \<or> c = t) \<and> prefix_match re ts)"
proof -
  have a: "accepts (atom_of c) x \<longleftrightarrow> c = 46 \<or> c = x" for x by (auto simp: accepts_def atom_of_def)
  have one: "in_lang (One (atom_of c) # fst (items re)) w \<longleftrightarrow> (\<exists>x w'. w = x # w' \<and> (c = 46 \<or> c = x) \<and> in_lang (fst (items re)) w')" for w
    by (auto simp: in_lang_One a)
  show ?thesis
  proof (cases "text")
    case Nil
    then show ?thesis by (simp add: prefix_match_def i one)
  next
    case (Cons t ts)
    have "prefix_match (c # re) (t # ts) \<longleftrightarrow> (\<exists>w v. ts = w @ v \<and> (c = 46 \<or> c = t) \<and> in_lang (fst (items re)) w \<and> (snd (items re) \<longrightarrow> v = []))"
      unfolding prefix_match_def i one fst_conv snd_conv by (auto simp: Cons_eq_append_conv)
    then show ?thesis by (auto simp: Cons prefix_match_def)
  qed
qed

lemma prefix_match_Star:
  "prefix_match (c # 42 # re) text \<longleftrightarrow> prefix_match re text
     \<or> (case text of [] \<Rightarrow> False | t # ts \<Rightarrow> (t = c \<or> c = 46) \<and> prefix_match (c # 42 # re) ts)"
proof -
  let ?is = "Star (atom_of c) # fst (items re)"
  have a: "accepts (atom_of c) x \<longleftrightarrow> x = c \<or> c = 46" for x by (auto simp: accepts_def atom_of_def)
  have i: "items (c # 42 # re) = (?is, snd (items re))" by (simp add: case_prod_beta)
  have star: "in_lang ?is w \<longleftrightarrow> in_lang (fst (items re)) w \<or> (\<exists>x w'. w = x # w' \<and> (x = c \<or> c = 46) \<and> in_lang ?is w')" for w
    by (subst in_lang_Star) (auto simp: a)
  have pm: "prefix_match (c # 42 # re) ts \<longleftrightarrow> (\<exists>w v. ts = w @ v \<and> in_lang ?is w \<and> (snd (items re) \<longrightarrow> v = []))" for ts
    by (simp only: prefix_match_def i fst_conv snd_conv)
  have "prefix_match (c # 42 # re) text \<longleftrightarrow> (\<exists>w v. text = w @ v \<and> in_lang ?is w \<and> (snd (items re) \<longrightarrow> v = []))" by (rule pm)
  also have "\<dots> \<longleftrightarrow> prefix_match re text
      \<or> (\<exists>x w v. text = x # w @ v \<and> (x = c \<or> c = 46) \<and> in_lang ?is w \<and> (snd (items re) \<longrightarrow> v = []))" (is "?l \<longleftrightarrow> ?r")
  proof
    assume ?l
    then obtain w v where w: "text = w @ v" "in_lang ?is w" "snd (items re) \<longrightarrow> v = []" by blast
    then consider "in_lang (fst (items re)) w" | x w' where "w = x # w'" "x = c \<or> c = 46" "in_lang ?is w'" using star by blast
    then show ?r
    proof cases
      case 1
      then show ?thesis using w unfolding prefix_match_def by blast
    next
      case 2
      then have "text = x # w' @ v \<and> (x = c \<or> c = 46) \<and> in_lang ?is w' \<and> (snd (items re) \<longrightarrow> v = [])" using w by simp
      then show ?thesis by blast
    qed
  next
    assume ?r
    then show ?l
    proof
      assume "prefix_match re text"
      then show ?l unfolding prefix_match_def using star by blast
    next
      assume "\<exists>x w v. text = x # w @ v \<and> (x = c \<or> c = 46) \<and> in_lang ?is w \<and> (snd (items re) \<longrightarrow> v = [])"
      then obtain x w v where x: "text = (x # w) @ v" "x = c \<or> c = 46" "in_lang ?is w" "snd (items re) \<longrightarrow> v = []" by auto
      then have "in_lang ?is (x # w)" using star [of "x # w"] by blast
      with x(1,4) show ?l by blast
    qed
  qed
  finally show ?thesis by (cases "text") (simp, simp add: pm, blast)
qed

lemma matchhere_prefix:
  "matchhere re text \<longleftrightarrow> prefix_match re text"
  "matchstar c re text \<longleftrightarrow> prefix_match (c # 42 # re) text"
proof (induction re "text" and c re "text" rule: matchhere_matchstar.induct)
  case (1 re "text")
  consider "re = []" | "re = [36]" | c where "re = [c]" "c \<noteq> 36" | c d r where "re = c # d # r" "d = 42" | c d r where "re = c # d # r" "d \<noteq> 42"
    by (metis list.exhaust)
  then show ?case
  proof cases
    case 1
    then show ?thesis by (subst matchhere.simps) (simp add: prefix_match_Nil)
  next
    case 2
    then show ?thesis by (subst matchhere.simps) (simp add: prefix_match_end)
  next
    case (3 c)
    then have "items (c # []) = (One (atom_of c) # fst (items []), snd (items []))" by simp
    from prefix_match_One [OF this] 3 1 show ?thesis by (subst matchhere.simps) (auto split: list.split)
  next
    case (4 c d r)
    then show ?thesis using 1 by (subst matchhere.simps) simp
  next
    case (5 c d r)
    then have "items (c # d # r) = (One (atom_of c) # fst (items (d # r)), snd (items (d # r)))" by (simp add: case_prod_beta)
    from prefix_match_One [OF this] 5 1 show ?thesis by (subst matchhere.simps) (auto split: list.split)
  qed
next
  case (2 c re "text")
  then show ?case by (subst prefix_match_Star, subst matchstar.simps) (auto split: list.split)
qed

lemma match_from_prefix: "match_from re text \<longleftrightarrow> (\<exists>u v. text = u @ v \<and> prefix_match re v)"
proof (induction "text")
  case Nil
  then show ?case by (simp add: matchhere_prefix)
next
  case (Cons t ts)
  then show ?case by (auto simp: matchhere_prefix Cons_eq_append_conv)
qed

text \<open>The pattern occurs as \<open>w\<close> in a text, with \<open>u\<close> before it and \<open>v\<close> behind.\<close>

definition occurs :: "u8 list \<Rightarrow> u8 list \<Rightarrow> u8 list \<Rightarrow> u8 list \<Rightarrow> bool" where
  "occurs re u w v =
     (let start = (re \<noteq> [] \<and> hd re = 94);
          (is, e) = items (if start then tl re else re)
      in in_lang is w \<and> (start \<longrightarrow> u = []) \<and> (e \<longrightarrow> v = []))"

section \<open>Properties\<close>

text \<open>C16: the matcher of \<open>grep\<close> decides the language of its pattern: a text matches when some part of it, at the start for a
  pattern with \<open>^\<close> and up to the end for one with \<open>$\<close>, is a word of the sequence of literal characters, dots and
  starred characters that the pattern stands for.\<close>

theorem match_correct: "match re text \<longleftrightarrow> (\<exists>u w v. text = u @ w @ v \<and> occurs re u w v)"
proof (cases "re \<noteq> [] \<and> hd re = 94")
  case True
  then have m: "match re text = matchhere (tl re) text" by (cases re) (auto simp: match_def)
  have o: "occurs re u w v \<longleftrightarrow> u = [] \<and> in_lang (fst (items (tl re))) w \<and> (snd (items (tl re)) \<longrightarrow> v = [])" for u w v
    using True by (auto simp: occurs_def case_prod_beta)
  show ?thesis unfolding m o matchhere_prefix prefix_match_def by auto
next
  case False
  then have m: "match re text = match_from re text" by (cases re) (auto simp: match_def)
  have o: "occurs re u w v \<longleftrightarrow> in_lang (fst (items re)) w \<and> (snd (items re) \<longrightarrow> v = [])" for u w v
    using False by (auto simp: occurs_def case_prod_beta)
  show ?thesis unfolding m o match_from_prefix prefix_match_def by blast
qed

end
