(* ===== verification/Filters.thy ===== *)
theory Filters
  imports Grep
begin

text \<open>
  The filters \<open>grep\<close>, \<open>wc\<close> and \<open>cat\<close>, after \<open>grep.c\<close>, \<open>wc.c\<close> and \<open>cat.c\<close>: their loops over the input, which arrives in pieces
  of any size. Every loop ends because a read that returns something shortens what is left to read. A world is the result of a program that has
  ended, by \<open>exit\<close> or at the end of \<open>main\<close>; the functions that may end the program in the middle return
  \<open>True\<close> with the world when they did not.
\<close>

section \<open>Reading\<close>

lemma uread_shrinks:
  assumes "uread fd n w = (Some bs, w')" and "bs \<noteq> []"
  shows "length (u_in w' fd) < length (u_in w fd)" "u_in w fd = bs @ u_in w' fd"
  using assms by (auto simp: uread_def Let_def split: if_splits)

lemma uread_keeps:
  assumes "uread fd n w = (r, w')"
  shows "u_out w' = u_out w" "u_bad w' = u_bad w" "u_open w' = u_open w"
  using assms by (auto simp: uread_def Let_def split: if_splits)

lemma uwrite_keeps [simp]: "u_in (uwrite fd bs w) = u_in w" "u_open (uwrite fd bs w) = u_open w"
  by (simp_all add: uwrite_def)

section \<open>grep\<close>

text \<open>The inner loop of \<open>grep\<close> over the complete lines of the buffer, which holds \<open>p\<close> and a zero byte from the pointer \<open>p\<close> on:
  the lines that match are written, and what is left is the start of a line.\<close>

function grep_lines :: "u8 list \<Rightarrow> u8 list \<Rightarrow> uworld \<Rightarrow> u8 list \<times> uworld" where
  "grep_lines pattern p w =
     (case strchr (takeWhile (\<lambda>x. x \<noteq> 0) p) 10 of
        None \<Rightarrow> (p, w)
      | Some q \<Rightarrow>
        let n = length (takeWhile (\<lambda>x. x \<noteq> 10) p);
            w = (if match pattern (take n p) then uwrite 1 (take (n + 1) p) w else w)
        in grep_lines pattern (drop (n + 1) p) w)"
  by pat_completeness auto
termination
proof (relation "measure (\<lambda>(pattern, p, w). length p)", goal_cases)
  case (2 pattern p w q n v)
  then have "p \<noteq> []" by auto
  then show ?case by simp
qed simp

declare grep_lines.simps [simp del]

lemma grep_lines_in: "u_in (snd (grep_lines pattern p w)) = u_in w"
  by (induction pattern p w rule: grep_lines.induct) (subst grep_lines.simps, simp add: Let_def split: option.split)

text \<open>The outer loop, with \<open>buf\<close> the bytes in the buffer; there is always room for the zero byte behind them.\<close>

function grep_loop :: "u8 list \<Rightarrow> int \<Rightarrow> u8 list \<Rightarrow> uworld \<Rightarrow> uworld" where
  "grep_loop pattern fd buf w =
     (case uread fd (1024 - length buf - 1) w of
        (Some (b # bs), w) \<Rightarrow>
          let buf = buf @ b # bs;
              (p, w) = grep_lines pattern buf w
          in grep_loop pattern fd (if p = buf then [] else p) w
      | (_, w) \<Rightarrow> w)"
  by pat_completeness auto
termination
proof (relation "measure (\<lambda>(pattern, fd, buf, w). length (u_in w fd))", goal_cases)
  case (2 pattern fd buf w r w1 x b bs buf1 z p w2)
  have "u_in w2 = u_in w1" using arg_cong [OF trans [OF 2(6,5)], of snd] grep_lines_in [of pattern buf1 w1] by simp
  moreover have "uread fd (1024 - length buf - 1) w = (Some (b # bs), w1)" using 2(1-3) by simp
  ultimately show ?case using uread_shrinks(1) [of fd "1024 - length buf - 1" w "b # bs" w1] by (simp del: One_nat_def)
qed simp

declare grep_loop.simps [simp del]

definition grep :: "u8 list \<Rightarrow> int \<Rightarrow> uworld \<Rightarrow> uworld" where
  "grep pattern fd w = grep_loop pattern fd [] w"

text \<open>\<open>main\<close>: the loop over the files named on the command line.\<close>

primrec grep_files :: "u8 list \<Rightarrow> u8 list list \<Rightarrow> uworld \<Rightarrow> uworld option" where
  "grep_files pattern [] w = Some w"
| "grep_files pattern (f # fs) w =
     (let fd = u_open w f in
      if fd < 0 then printf 1 (map of_char ''grep: cannot open %s'' @ [10]) [UStr (Some f)] w
      else grep_files pattern fs (grep pattern fd w))"

definition grep_main :: "u8 list list \<Rightarrow> uworld \<Rightarrow> uworld option" where
  "grep_main argv w =
     (case argv of
        _ # pattern # fs \<Rightarrow> if fs = [] then Some (grep pattern 0 w) else grep_files pattern fs w
      | _ \<Rightarrow> printf 2 (map of_char ''usage: grep pattern [file ...]'' @ [10]) [] w)"

section \<open>wc\<close>

record counts =
  wc_l :: u32
  wc_w :: u32
  wc_c :: u32
  wc_inword :: bool

definition wc_space :: "u8 list" where "wc_space = [32, 13, 9, 10, 11]"

definition wc_byte :: "u8 \<Rightarrow> counts \<Rightarrow> counts" where
  "wc_byte b k =
     (let k = k\<lparr>wc_c := wc_c k + 1\<rparr>;
          k = (if b = 10 then k\<lparr>wc_l := wc_l k + 1\<rparr> else k)
      in if strchr wc_space b \<noteq> None then k\<lparr>wc_inword := False\<rparr>
         else if \<not> wc_inword k then k\<lparr>wc_w := wc_w k + 1, wc_inword := True\<rparr>
         else k)"

function wc_loop :: "int \<Rightarrow> counts \<Rightarrow> uworld \<Rightarrow> (counts \<times> bool) \<times> uworld" where
  "wc_loop fd k w =
     (case uread fd 512 w of
        (None, w) \<Rightarrow> ((k, False), w)
      | (Some [], w) \<Rightarrow> ((k, True), w)
      | (Some (b # bs), w) \<Rightarrow> wc_loop fd (fold wc_byte (b # bs) k) w)"
  by pat_completeness auto
termination
proof (relation "measure (\<lambda>(fd, k, w). length (u_in w fd))", goal_cases)
  case (2 fd k w r w1 x b bs)
  then have "uread fd 512 w = (Some (b # bs), w1)" by simp
  then show ?case using uread_shrinks(1) [of fd 512 w "b # bs" w1] by simp
qed simp

declare wc_loop.simps [simp del]

definition wc :: "int \<Rightarrow> u8 list \<Rightarrow> uworld \<Rightarrow> (bool \<times> uworld) option" where
  "wc fd name w =
     (case wc_loop fd \<lparr>wc_l = 0, wc_w = 0, wc_c = 0, wc_inword = False\<rparr> w of
        ((k, False), w) \<Rightarrow> map_option (Pair False) (printf 1 (map of_char ''wc: read error'' @ [10]) [] w)
      | ((k, True), w) \<Rightarrow> map_option (Pair True)
          (printf 1 (map of_char ''%d %d %d %s'' @ [10]) [UNum (wc_l k), UNum (wc_w k), UNum (wc_c k), UStr (Some name)] w))"

primrec wc_files :: "u8 list list \<Rightarrow> uworld \<Rightarrow> uworld option" where
  "wc_files [] w = Some w"
| "wc_files (f # fs) w =
     (let fd = u_open w f in
      if fd < 0 then printf 1 (map of_char ''wc: cannot open %s'' @ [10]) [UStr (Some f)] w
      else (case wc fd f w of
              None \<Rightarrow> None
            | Some (go, w) \<Rightarrow> if go then wc_files fs w else Some w))"

definition wc_main :: "u8 list list \<Rightarrow> uworld \<Rightarrow> uworld option" where
  "wc_main argv w =
     (case argv of
        _ # f # fs \<Rightarrow> wc_files (f # fs) w
      | _ \<Rightarrow> map_option snd (wc 0 [] w))"

section \<open>cat\<close>

text \<open>In this world a write always takes all bytes, so that the branch for a short write has no counterpart.\<close>

function cat_loop :: "int \<Rightarrow> uworld \<Rightarrow> bool \<times> uworld" where
  "cat_loop fd w =
     (case uread fd 512 w of
        (None, w) \<Rightarrow> (False, w)
      | (Some [], w) \<Rightarrow> (True, w)
      | (Some (b # bs), w) \<Rightarrow> cat_loop fd (uwrite 1 (b # bs) w))"
  by pat_completeness auto
termination
proof (relation "measure (\<lambda>(fd, w). length (u_in w fd))", goal_cases)
  case (2 fd w r w1 x b bs)
  then have "uread fd 512 w = (Some (b # bs), w1)" by simp
  then show ?case using uread_shrinks(1) [of fd 512 w "b # bs" w1] by simp
qed simp

declare cat_loop.simps [simp del]

definition cat :: "int \<Rightarrow> uworld \<Rightarrow> (bool \<times> uworld) option" where
  "cat fd w =
     (case cat_loop fd w of
        (False, w) \<Rightarrow> map_option (Pair False) (printf 1 (map of_char ''cat: read error'' @ [10]) [] w)
      | (True, w) \<Rightarrow> Some (True, w))"

primrec cat_files :: "u8 list list \<Rightarrow> uworld \<Rightarrow> uworld option" where
  "cat_files [] w = Some w"
| "cat_files (f # fs) w =
     (let fd = u_open w f in
      if fd < 0 then printf 1 (map of_char ''cat: cannot open %s'' @ [10]) [UStr (Some f)] w
      else (case cat fd w of
              None \<Rightarrow> None
            | Some (go, w) \<Rightarrow> if go then cat_files fs w else Some w))"

definition cat_main :: "u8 list list \<Rightarrow> uworld \<Rightarrow> uworld option" where
  "cat_main argv w =
     (case argv of
        _ # f # fs \<Rightarrow> cat_files (f # fs) w
      | _ \<Rightarrow> map_option snd (cat 0 w))"

section \<open>What the programs do with the whole input\<close>

lemma uread_end:
  assumes "uread fd n w = (Some [], w')" and "n \<noteq> 0"
  shows "u_in w fd = []" "\<not> u_bad w fd"
  using assms by (auto simp: uread_def Let_def split: if_splits)

lemma uread_error:
  assumes "uread fd n w = (None, w')"
  shows "u_in w fd = []" "u_bad w fd"
  using assms by (auto simp: uread_def Let_def split: if_splits)

lemma wc_loop_all: "fst (wc_loop fd k w) = (fold wc_byte (u_in w fd) k, \<not> u_bad w fd)"
proof (induction fd k w rule: wc_loop.induct)
  case (1 fd k w)
  obtain r w1 where r: "uread fd 512 w = (r, w1)" by fastforce
  then consider "r = None" | "r = Some []" | b bs where "r = Some (b # bs)" by (metis list.exhaust option.exhaust)
  then show ?case
  proof cases
    case 1
    then show ?thesis using r uread_error [of fd 512 w w1] by (subst wc_loop.simps) simp
  next
    case 2
    then show ?thesis using r uread_end [of fd 512 w w1] by (subst wc_loop.simps) simp
  next
    case (3 b bs)
    have "u_in w fd = (b # bs) @ u_in w1 fd" "u_bad w1 fd = u_bad w fd"
      using uread_shrinks(2) [of fd 512 w "b # bs" w1] uread_keeps [of fd 512 w _ w1] r 3 by auto
    then show ?thesis using 1 [OF r [symmetric] 3 refl] r 3 by (subst wc_loop.simps) simp
  qed
qed

definition is_space :: "u8 \<Rightarrow> bool" where
  "is_space b \<longleftrightarrow> b \<in> {32, 13, 9, 10, 11}"

text \<open>The places where a word starts.\<close>

definition word_starts :: "u8 list \<Rightarrow> nat set" where
  "word_starts xs = {i. i < length xs \<and> \<not> is_space (xs ! i) \<and> (i = 0 \<or> is_space (xs ! (i - 1)))}"

lemma word_starts_snoc:
  "word_starts (xs @ [b]) = word_starts xs \<union> (if \<not> is_space b \<and> (xs = [] \<or> is_space (last xs)) then {length xs} else {})"
proof (cases "xs = []")
  case False
  then have "last xs = xs ! (length xs - 1)" "length xs - 1 < length xs" by (simp_all add: last_conv_nth)
  with False show ?thesis by (auto simp: word_starts_def nth_append less_Suc_eq)
qed (auto simp: word_starts_def)

lemma wc_space_strchr: "strchr wc_space b \<noteq> None \<longleftrightarrow> is_space b"
  by (simp add: wc_space_def is_space_def)

lemma wc_byte_eq:
  "wc_byte b \<lparr>wc_l = l, wc_w = v, wc_c = c, wc_inword = i\<rparr> = \<lparr>wc_l = (if b = 10 then l + 1 else l),
     wc_w = (if is_space b \<or> i then v else v + 1), wc_c = c + 1, wc_inword = (\<not> is_space b)\<rparr>"
  unfolding wc_byte_def Let_def wc_space_strchr by simp

lemma wc_fold:
  "fold wc_byte xs \<lparr>wc_l = 0, wc_w = 0, wc_c = 0, wc_inword = False\<rparr>
   = \<lparr>wc_l = of_nat (count_list xs 10), wc_w = of_nat (card (word_starts xs)), wc_c = of_nat (length xs),
      wc_inword = (xs \<noteq> [] \<and> \<not> is_space (last xs))\<rparr>"
proof (induction xs rule: rev_induct)
  case Nil
  then show ?case by (simp add: word_starts_def)
next
  case (snoc b xs)
  have "finite (word_starts xs)" "length xs \<notin> word_starts xs" by (auto simp: word_starts_def)
  moreover have "\<not> is_space b \<Longrightarrow> b \<noteq> 10" by (auto simp: is_space_def)
  moreover have "fold wc_byte (xs @ [b]) \<lparr>wc_l = 0, wc_w = 0, wc_c = 0, wc_inword = False\<rparr>
    = wc_byte b \<lparr>wc_l = of_nat (count_list xs 10), wc_w = of_nat (card (word_starts xs)), wc_c = of_nat (length xs),
      wc_inword = (xs \<noteq> [] \<and> \<not> is_space (last xs))\<rparr>" using snoc by simp
  ultimately show ?case
    unfolding wc_byte_eq word_starts_snoc by auto
qed

lemma uread_world:
  assumes "uread fd n w = (r, w')"
  shows "fd' \<noteq> fd \<Longrightarrow> u_in w' fd' = u_in w fd'" and "u_in w fd = [] \<Longrightarrow> u_in w' fd = []"
  using assms by (auto simp: uread_def Let_def split: if_splits)

lemma wc_loop_world:
  "u_out (snd (wc_loop fd k w)) = u_out w \<and> u_in (snd (wc_loop fd k w)) = (u_in w)(fd := [])"
proof (induction fd k w rule: wc_loop.induct)
  case (1 fd k w)
  obtain r w1 where r: "uread fd 512 w = (r, w1)" by fastforce
  then consider "r = None" | "r = Some []" | b bs where "r = Some (b # bs)" by (metis list.exhaust option.exhaust)
  then show ?case
  proof cases
    case 1
    then show ?thesis using r uread_error [of fd 512 w w1] uread_keeps [OF r] uread_world [OF r] by (subst (1 2) wc_loop.simps) (auto simp: fun_eq_iff)
  next
    case 2
    then show ?thesis using r uread_end [of fd 512 w w1] uread_keeps [OF r] uread_world [OF r] by (subst (1 2) wc_loop.simps) (auto simp: fun_eq_iff)
  next
    case (3 b bs)
    show ?thesis using 1 [OF r [symmetric] 3 refl] r 3 uread_keeps [OF r] uread_world(1) [OF r]
      by (subst (1 2) wc_loop.simps) (auto simp: fun_eq_iff)
  qed
qed

text \<open>The line that \<open>wc\<close> prints, with the three numbers as signed 32-bit integers.\<close>

definition wc_line :: "nat \<Rightarrow> nat \<Rightarrow> nat \<Rightarrow> u8 list \<Rightarrow> u8 list" where
  "wc_line l v c name = decimal_int (sint (of_nat l :: u32)) @ [32] @ decimal_int (sint (of_nat v :: u32)) @ [32]
     @ decimal_int (sint (of_nat c :: u32)) @ [32] @ name @ [10]"

lemma wc_printf:
  "printf 1 (map of_char ''%d %d %d %s'' @ [10]) [UNum (of_nat l), UNum (of_nat v), UNum (of_nat c), UStr (Some name)] w
   = Some (uwrite 1 (wc_line l v c name) w)"
  by (simp add: printf_def uprintint_decimal fold_putc putc_def wc_line_def)

lemma wc_printf_error:
  "printf 1 (map of_char ''wc: read error'' @ [10]) [] w = Some (uwrite 1 (map of_char ''wc: read error'' @ [10]) w)"
  by (simp add: printf_def putc_def)

lemma cat_loop_all:
  "fst (cat_loop fd w) \<longleftrightarrow> \<not> u_bad w fd" "u_out (snd (cat_loop fd w)) = (u_out w)(1 := u_out w 1 @ u_in w fd)"
proof (induction fd w rule: cat_loop.induct)
  case (1 fd w)
  obtain r w1 where r: "uread fd 512 w = (r, w1)" by fastforce
  note keep = uread_keeps [OF r]
  consider "r = None" | "r = Some []" | b bs where "r = Some (b # bs)" by (metis list.exhaust option.exhaust)
  then have "fst (cat_loop fd w) = (\<not> u_bad w fd) \<and> u_out (snd (cat_loop fd w)) = (u_out w)(1 := u_out w 1 @ u_in w fd)"
  proof cases
    case 1
    then show ?thesis using r keep uread_error [of fd 512 w w1] by (subst (1 2) cat_loop.simps) simp
  next
    case 2
    then show ?thesis using r keep uread_end [of fd 512 w w1] by (subst (1 2) cat_loop.simps) simp
  next
    case (3 b bs)
    have "u_in w fd = (b # bs) @ u_in w1 fd" using uread_shrinks(2) [of fd 512 w "b # bs" w1] r 3 by auto
    then show ?thesis using 1 [OF r [symmetric] 3 refl] r 3 keep by (subst (1 2) cat_loop.simps) (simp add: uwrite_def, simp add: fun_eq_iff)
  qed
  then show "fst (cat_loop fd w) \<longleftrightarrow> \<not> u_bad w fd" "u_out (snd (cat_loop fd w)) = (u_out w)(1 := u_out w 1 @ u_in w fd)" by simp_all
qed

text \<open>\<open>grep\<close> throws away a line of which only the beginning has arrived when no newline is in the buffer, although there is
  room for the rest: the first three bytes of the line are gone, and what is left of it does not match.\<close>

definition slow_world :: uworld where
  "slow_world = \<lparr>u_in = (\<lambda>_. [97, 98, 99, 100, 10]), u_bad = (\<lambda>_. False), u_piece = (\<lambda>_. 3), u_reads = 0, u_out = (\<lambda>_. []), u_open = (\<lambda>_. -1)\<rparr>"

lemma grep_drops_line:
  "u_out (grep [97] 0 slow_world) 1 = []" "u_out (grep [97] 0 (slow_world\<lparr>u_piece := (\<lambda>_. 5)\<rparr>)) 1 = [97, 98, 99, 100, 10]"
  unfolding grep_def
  by (simp_all add: grep_loop.simps grep_lines.simps uread_def slow_world_def match_def matchhere.simps uwrite_def)

section \<open>Properties\<close>

text \<open>C28: \<open>wc\<close> reads its input to the end and prints one line: the number of newlines, of words and of bytes of
  the input, in decimal and in this order, and the name of the file. In whatever pieces the input arrives, a word starts at a
  byte that is not white space and has white space or nothing before it. The numbers are signed 32-bit integers that wrap. When a
  read fails it prints the error message instead and ends the program. Nothing else is written and no other file is read.\<close>

theorem wc_counts:
  "\<exists>w'. wc fd name w = Some (\<not> u_bad w fd, w') \<and> u_in w' = (u_in w)(fd := [])
     \<and> u_out w' = (u_out w)(1 := u_out w 1 @ (if u_bad w fd then map of_char ''wc: read error'' @ [10]
         else wc_line (count_list (u_in w fd) 10) (card (word_starts (u_in w fd))) (length (u_in w fd)) name))"
proof -
  obtain k ok w1 where l: "wc_loop fd \<lparr>wc_l = 0, wc_w = 0, wc_c = 0, wc_inword = False\<rparr> w = ((k, ok), w1)" by (metis surj_pair)
  note world = wc_loop_world [of fd "\<lparr>wc_l = 0, wc_w = 0, wc_c = 0, wc_inword = False\<rparr>" w, unfolded l snd_conv]
  have k: "ok = (\<not> u_bad w fd)" "wc_l k = of_nat (count_list (u_in w fd) 10)"
    "wc_w k = of_nat (card (word_starts (u_in w fd)))" "wc_c k = of_nat (length (u_in w fd))"
    using wc_loop_all [of fd "\<lparr>wc_l = 0, wc_w = 0, wc_c = 0, wc_inword = False\<rparr>" w] unfolding l wc_fold by simp_all
  show ?thesis
  proof (cases "u_bad w fd")
    case True
    then show ?thesis using k(1) world by (simp add: wc_def l wc_printf_error del: list.map) (simp add: uwrite_def)
  next
    case False
    then show ?thesis using k world by (simp add: wc_def l wc_printf del: list.map) (simp add: uwrite_def)
  qed
qed

end
