(* ===== verification/Shell.thy ===== *)
theory Shell
  imports Userlib
begin

text \<open>
  The command parser of the shell, after \<open>sh.c\<close>. The pointer \<open>*ps\<close> into the command line is the list of the bytes from
  there to the end \<open>es\<close>; where the code keeps the start and the end of a word, to be cut out by
  \<open>nulterminate\<close>, the tree holds the word. A syntax error ends the shell's child through \<open>panic\<close>: the
  parser then results in \<open>Panicked\<close> with the message. The four functions that call each other get a bound on the
  depth of the calls, which is shown to be enough.
\<close>

section \<open>Commands\<close>

datatype cmd =
    EXEC "u8 list list"
  | REDIR cmd "u8 list" u32 u32
  | PIPE cmd cmd
  | LIST cmd cmd
  | BACK cmd

definition MAXARGS :: nat where "MAXARGS = 10"
definition sh_RDONLY :: u32 where "sh_RDONLY = 0"
definition sh_WRCREATE :: u32 where "sh_WRCREATE = 0x001 OR 0x200"

datatype 'a parse = Parsed 'a "u8 list" | Panicked string | TooDeep

section \<open>Tokens\<close>

definition whitespace :: "u8 list" where "whitespace = [32, 9, 13, 10, 11]"
definition symbols :: "u8 list" where "symbols = map of_char ''<|>&;()''"

definition is_white :: "u8 \<Rightarrow> bool" where "is_white c \<longleftrightarrow> strchr whitespace c \<noteq> None"
definition is_symbol :: "u8 \<Rightarrow> bool" where "is_symbol c \<longleftrightarrow> strchr symbols c \<noteq> None"

text \<open>The token, 0 at the end of the line and 97 (the letter a) for a word, the bytes it consists of, and the rest of the line.\<close>

definition gettoken :: "u8 list \<Rightarrow> u8 \<times> u8 list \<times> u8 list" where
  "gettoken s =
     (let s = dropWhile is_white s in
      case s of
        [] \<Rightarrow> (0, [], [])
      | c # r \<Rightarrow>
        if c \<in> set (map of_char ''|();&<'') then (c, [c], dropWhile is_white r)
        else if c = of_char (CHR ''>'') then
          (case r of
             d # r' \<Rightarrow>
               if d = of_char (CHR ''>'') then (of_char (CHR ''+''), [c, d], dropWhile is_white r')
               else (c, [c], dropWhile is_white r)
           | [] \<Rightarrow> (c, [c], []))
        else (97, takeWhile (\<lambda>x. \<not> is_white x \<and> \<not> is_symbol x) s,
              dropWhile is_white (dropWhile (\<lambda>x. \<not> is_white x \<and> \<not> is_symbol x) s)))"

definition peek :: "u8 list \<Rightarrow> u8 list \<Rightarrow> bool \<times> u8 list" where
  "peek toks s =
     (let s = dropWhile is_white s in
      (case s of [] \<Rightarrow> False | c # _ \<Rightarrow> strchr toks c \<noteq> None, s))"

lemma length_dropWhile_less: "s \<noteq> [] \<Longrightarrow> P (hd s) \<Longrightarrow> length (dropWhile P s) < length s"
  by (cases s) (auto simp: length_dropWhile_le le_imp_less_Suc)

lemma is_symbol_iff: "is_symbol c \<longleftrightarrow> c \<in> {60, 124, 62, 38, 59, 40, 41}"
  by (simp add: is_symbol_def symbols_def of_char_def)

lemma is_white_iff: "is_white c \<longleftrightarrow> c \<in> {32, 9, 13, 10, 11}"
  by (simp add: is_white_def whitespace_def)

lemma gettoken_less:
  assumes "gettoken s = (t, q, r)"
  shows "length r \<le> length s" "dropWhile is_white s \<noteq> [] \<Longrightarrow> length r < length (dropWhile is_white s)"
proof -
  have dl: "length (dropWhile P u) \<le> length u" for P and u :: "u8 list" by (rule length_dropWhile_le)
  show less: "length r < length (dropWhile is_white s)" if ne: "dropWhile is_white s \<noteq> []"
  proof -
    obtain c u where u: "dropWhile is_white s = c # u" using ne by (cases "dropWhile is_white s") auto
    have "\<not> is_white c" using hd_dropWhile [OF ne] u by simp
    then have "length (dropWhile is_white (dropWhile (\<lambda>x. \<not> is_white x \<and> \<not> is_symbol x) (c # u))) < length (c # u)" if "\<not> is_symbol c"
      using that le_trans [OF dl dl, of is_white "\<lambda>x. \<not> is_white x \<and> \<not> is_symbol x" u] by simp
    then show ?thesis
      using assms u dl [of is_white u] dl [of is_white "tl u"]
      by (auto simp: gettoken_def Let_def is_symbol_iff of_char_def split: if_splits list.splits)
  qed
  show "length r \<le> length s"
    using less dl [of is_white s] assms by (cases "dropWhile is_white s = []") (auto simp: gettoken_def)
qed

lemma peek_rest: "peek toks s = (b, r) \<Longrightarrow> length r \<le> length s \<and> dropWhile is_white r = r \<and> (b \<longrightarrow> r \<noteq> [])"
proof -
  assume p: "peek toks s = (b, r)"
  have "dropWhile is_white (dropWhile is_white s) = dropWhile is_white s" by (induction s) simp_all
  moreover have "r = dropWhile is_white s" "b \<longrightarrow> r \<noteq> []" using p by (auto simp: peek_def Let_def)
  ultimately show ?thesis by (simp add: length_dropWhile_le)
qed

section \<open>The parser\<close>

definition redir :: "u8 \<Rightarrow> u8 list \<Rightarrow> u8 list \<times> u32 \<times> u32" where
  "redir tok q = (if tok = 60 then (q, sh_RDONLY, 0) else (q, sh_WRCREATE, 1))"

definition wrap :: "cmd \<Rightarrow> (u8 list \<times> u32 \<times> u32) list \<Rightarrow> cmd" where
  "wrap c rs = foldl (\<lambda>c (f, m, fd). REDIR c f m fd) c rs"

text \<open>\<open>parseredirs\<close> puts redirections around the command; here it collects them, since \<open>parseexec\<close> adds arguments to the
  command inside afterwards.\<close>

function parseredirs :: "(u8 list \<times> u32 \<times> u32) list \<Rightarrow> u8 list \<Rightarrow> (u8 list \<times> u32 \<times> u32) list parse" where
  "parseredirs rs s =
     (case peek (map of_char ''<>'') s of
        (False, s) \<Rightarrow> Parsed rs s
      | (True, s) \<Rightarrow>
        (case gettoken s of
           (tok, _, s) \<Rightarrow>
           (case gettoken s of
              (t, q, s) \<Rightarrow>
              if t \<noteq> 97 then Panicked ''missing file for redirection''
              else parseredirs (rs @ [redir tok q]) s)))"
  by pat_completeness auto
termination
proof (relation "measure (\<lambda>(rs, s). length s)", goal_cases)
  case (2 rs s b s1 tok y x s2 t z q s3)
  then show ?case
    using peek_rest [of "map of_char ''<>''" s b s1] gettoken_less [of s1 tok x s2] gettoken_less [of s2 t q s3] by force
qed simp

declare parseredirs.simps [simp del]

text \<open>The loop of \<open>parseexec\<close> over the arguments; a command holds at most \<open>MAXARGS - 1\<close> of them.\<close>

function parseargs :: "u8 list list \<Rightarrow> (u8 list \<times> u32 \<times> u32) list \<Rightarrow> u8 list \<Rightarrow> cmd parse" where
  "parseargs as rs s =
     (case peek (map of_char ''|)&;'') s of
        (True, s) \<Rightarrow> Parsed (wrap (EXEC as) rs) s
      | (False, s) \<Rightarrow>
        (case gettoken s of
           (tok, q, s) \<Rightarrow>
           if tok = 0 then Parsed (wrap (EXEC as) rs) s
           else if tok \<noteq> 97 then Panicked ''syntax''
           else if length as + 1 \<ge> MAXARGS then Panicked ''too many args''
           else (case parseredirs rs s of
                   Parsed rs s \<Rightarrow> parseargs (as @ [q]) rs s
                 | Panicked m \<Rightarrow> Panicked m
                 | TooDeep \<Rightarrow> TooDeep)))"
  by pat_completeness auto
termination
  by (relation "measure (\<lambda>(as, rs, s). MAXARGS - length as)") auto

declare parseargs.simps [simp del]

text \<open>The loop of \<open>parseline\<close> over the ampersands.\<close>

function parsebacks :: "cmd \<Rightarrow> u8 list \<Rightarrow> cmd \<times> u8 list" where
  "parsebacks c s =
     (case peek (map of_char ''&'') s of
        (False, s) \<Rightarrow> (c, s)
      | (True, s) \<Rightarrow> (case gettoken s of (_, _, s) \<Rightarrow> parsebacks (BACK c) s))"
  by pat_completeness auto
termination
proof (relation "measure (\<lambda>(c, s). length s)", goal_cases)
  case (2 c s b s1 t y q s2)
  then show ?case using peek_rest [of "map of_char ''&''" s b s1] gettoken_less [of s1 t q s2] by force
qed simp

declare parsebacks.simps [simp del]

fun parseline :: "nat \<Rightarrow> u8 list \<Rightarrow> cmd parse" and parsepipe :: "nat \<Rightarrow> u8 list \<Rightarrow> cmd parse"
  and parseblock :: "nat \<Rightarrow> u8 list \<Rightarrow> cmd parse" and parseexec :: "nat \<Rightarrow> u8 list \<Rightarrow> cmd parse" where
  "parseline 0 s = TooDeep"
| "parseline (Suc n) s =
     (case parsepipe n s of
        Parsed c s \<Rightarrow>
          (case parsebacks c s of
             (c, s) \<Rightarrow>
             (case peek (map of_char '';'') s of
                (False, s) \<Rightarrow> Parsed c s
              | (True, s) \<Rightarrow>
                (case gettoken s of
                   (_, _, s) \<Rightarrow>
                   (case parseline n s of
                      Parsed d s \<Rightarrow> Parsed (LIST c d) s
                    | Panicked m \<Rightarrow> Panicked m
                    | TooDeep \<Rightarrow> TooDeep))))
      | Panicked m \<Rightarrow> Panicked m
      | TooDeep \<Rightarrow> TooDeep)"
| "parsepipe 0 s = TooDeep"
| "parsepipe (Suc n) s =
     (case parseexec n s of
        Parsed c s \<Rightarrow>
          (case peek (map of_char ''|'') s of
             (False, s) \<Rightarrow> Parsed c s
           | (True, s) \<Rightarrow>
             (case gettoken s of
                (_, _, s) \<Rightarrow>
                (case parsepipe n s of
                   Parsed d s \<Rightarrow> Parsed (PIPE c d) s
                 | Panicked m \<Rightarrow> Panicked m
                 | TooDeep \<Rightarrow> TooDeep)))
      | Panicked m \<Rightarrow> Panicked m
      | TooDeep \<Rightarrow> TooDeep)"
| "parseblock 0 s = TooDeep"
| "parseblock (Suc n) s =
     (case peek (map of_char ''('') s of
        (False, s) \<Rightarrow> Panicked ''parseblock''
      | (True, s) \<Rightarrow>
        (case gettoken s of
           (_, _, s) \<Rightarrow>
           (case parseline n s of
              Parsed c s \<Rightarrow>
                (case peek (map of_char '')'') s of
                   (False, s) \<Rightarrow> Panicked ''syntax - missing )''
                 | (True, s) \<Rightarrow>
                   (case gettoken s of
                      (_, _, s) \<Rightarrow>
                      (case parseredirs [] s of
                         Parsed rs s \<Rightarrow> Parsed (wrap c rs) s
                       | Panicked m \<Rightarrow> Panicked m
                       | TooDeep \<Rightarrow> TooDeep)))
            | Panicked m \<Rightarrow> Panicked m
            | TooDeep \<Rightarrow> TooDeep)))"
| "parseexec 0 s = TooDeep"
| "parseexec (Suc n) s =
     (case peek (map of_char ''('') s of
        (True, s) \<Rightarrow> parseblock n s
      | (False, s) \<Rightarrow>
        (case parseredirs [] s of
           Parsed rs s \<Rightarrow> parseargs [] rs s
         | Panicked m \<Rightarrow> Panicked m
         | TooDeep \<Rightarrow> TooDeep))"

definition parsecmd :: "u8 list \<Rightarrow> cmd parse" where
  "parsecmd s =
     (case parseline (4 * length s + 4) s of
        Parsed c s \<Rightarrow>
          (case peek [] s of
             (_, s) \<Rightarrow> if s \<noteq> [] then Panicked ''syntax'' else Parsed c s)
      | Panicked m \<Rightarrow> Panicked m
      | TooDeep \<Rightarrow> TooDeep)"

section \<open>The bound on the depth is enough\<close>

definition consumes :: "nat \<Rightarrow> 'a parse \<Rightarrow> bool" where
  "consumes n p \<longleftrightarrow> (case p of Parsed _ r \<Rightarrow> length r \<le> n | Panicked _ \<Rightarrow> True | TooDeep \<Rightarrow> False)"

lemma consumes_mono: "consumes n p \<Longrightarrow> n \<le> m \<Longrightarrow> consumes m p"
  by (auto simp: consumes_def split: parse.splits)

lemma parseredirs_consumes: "consumes (length s) (parseredirs rs s)"
proof (induction rs s rule: parseredirs.induct)
  case (1 rs s)
  obtain b s1 where p: "peek (map of_char ''<>'') s = (b, s1)" by fastforce
  obtain tok x s2 where g: "gettoken s1 = (tok, x, s2)" by (metis prod_cases3)
  obtain t q s3 where h: "gettoken s2 = (t, q, s3)" by (metis prod_cases3)
  have le: "length s1 \<le> length s" "length s3 \<le> length s"
    using peek_rest [OF p] gettoken_less(1) [OF g] gettoken_less(1) [OF h] by auto
  show ?case
  proof (cases "b \<and> t = 97")
    case True
    then have "consumes (length s3) (parseredirs (rs @ [redir tok q]) s3)"
      using 1 p g h by auto
    then show ?thesis using True p g h le(2) by (subst parseredirs.simps) (simp add: consumes_mono)
  next
    case False
    then show ?thesis using p g h le(1) by (subst parseredirs.simps) (auto simp: consumes_def split: bool.split)
  qed
qed

lemma parseargs_consumes: "consumes (length s) (parseargs as rs s)"
proof (induction as rs s rule: parseargs.induct)
  case (1 as rs s)
  obtain b s1 where p: "peek (map of_char ''|)&;'') s = (b, s1)" by fastforce
  obtain tok q s2 where g: "gettoken s1 = (tok, q, s2)" by (metis prod_cases3)
  have le: "length s1 \<le> length s" "length s2 \<le> length s" using peek_rest [OF p] gettoken_less(1) [OF g] by auto
  show ?case
  proof (cases "\<not> b \<and> tok = 97 \<and> length as + 1 < MAXARGS")
    case True
    then have T: "\<not> b" "tok = 97" "\<not> MAXARGS \<le> length as + 1" by auto
    show ?thesis
    proof (cases "parseredirs rs s2")
      case (Parsed rs' s3)
      have "consumes (length s3) (parseargs (as @ [q]) rs' s3)" using 1 p g T Parsed by auto
      moreover have "length s3 \<le> length s" using parseredirs_consumes [of s2 rs] Parsed le(2) by (simp add: consumes_def)
      ultimately show ?thesis using p g T Parsed by (subst parseargs.simps) (simp add: consumes_mono)
    next
      case (Panicked m)
      then show ?thesis using p g T by (subst parseargs.simps) (simp add: consumes_def)
    next
      case TooDeep
      then show ?thesis using parseredirs_consumes [of s2 rs] by (simp add: consumes_def)
    qed
  next
    case False
    then show ?thesis using p g le by (subst parseargs.simps) (auto simp: consumes_def split: bool.split)
  qed
qed

lemma parsebacks_le: "length (snd (parsebacks c s)) \<le> length s"
proof (induction c s rule: parsebacks.induct)
  case (1 c s)
  obtain b s1 where p: "peek (map of_char ''&'') s = (b, s1)" by fastforce
  obtain tok q s2 where g: "gettoken s1 = (tok, q, s2)" by (metis prod_cases3)
  have le: "length s1 \<le> length s" "length s2 \<le> length s" using peek_rest [OF p] gettoken_less(1) [OF g] by auto
  show ?case
  proof (cases b)
    case True
    then have "length (snd (parsebacks (BACK c) s2)) \<le> length s2" using 1 p g by auto
    then show ?thesis using p g True le by (subst parsebacks.simps) simp
  next
    case False
    then show ?thesis using p le by (subst parsebacks.simps) simp
  qed
qed

text \<open>A token that \<open>peek\<close> has seen is taken away by \<open>gettoken\<close>.\<close>

lemma peek_gettoken:
  assumes "peek toks s = (True, s1)" and "gettoken s1 = (t, q, s2)"
  shows "length s2 < length s"
  using peek_rest [OF assms(1)] gettoken_less(2) [OF assms(2)] by auto

lemma consumes_LIST:
  assumes "consumes n (p :: cmd parse)"
  shows "consumes n (case p of Parsed d s \<Rightarrow> Parsed (f d) s | Panicked m \<Rightarrow> Panicked m | TooDeep \<Rightarrow> TooDeep)"
  using assms by (auto simp: consumes_def split: parse.splits)

lemma parseline_consumes:
  assumes e: "consumes (length s) (parsepipe n s)" and l: "\<And>r. length r < length s \<Longrightarrow> consumes (length r) (parseline n r)"
  shows "consumes (length s) (parseline (Suc n) s)"
proof (cases "parsepipe n s")
  case (Parsed c s1)
  obtain d s2 where b: "parsebacks c s1 = (d, s2)" by fastforce
  obtain k s3 where p: "peek (map of_char '';'') s2 = (k, s3)" by fastforce
  obtain tok q s4 where g: "gettoken s3 = (tok, q, s4)" by (metis prod_cases3)
  have le: "length s2 \<le> length s" using e Parsed parsebacks_le [of c s1] b by (simp add: consumes_def)
  show ?thesis
  proof (cases k)
    case True
    then have l4: "length s4 < length s" using peek_gettoken [OF _ g, of "map of_char '';''" s2] p le by simp
    have "consumes (length s) (parseline n s4)" by (rule consumes_mono [OF l [OF l4]]) (use l4 in simp)
    then show ?thesis using True Parsed b p g consumes_LIST by simp
  next
    case False
    then show ?thesis using Parsed b p le peek_rest [OF p] by (simp add: consumes_def)
  qed
qed (use e in \<open>auto simp: consumes_def\<close>)

lemma parsepipe_consumes:
  assumes e: "consumes (length s) (parseexec n s)" and l: "\<And>r. length r < length s \<Longrightarrow> consumes (length r) (parsepipe n r)"
  shows "consumes (length s) (parsepipe (Suc n) s)"
proof (cases "parseexec n s")
  case (Parsed c s2)
  obtain k s3 where p: "peek (map of_char ''|'') s2 = (k, s3)" by fastforce
  obtain tok q s4 where g: "gettoken s3 = (tok, q, s4)" by (metis prod_cases3)
  have le: "length s2 \<le> length s" using e Parsed by (simp add: consumes_def)
  show ?thesis
  proof (cases k)
    case True
    then have l4: "length s4 < length s" using peek_gettoken [OF _ g, of "map of_char ''|''" s2] p le by simp
    have "consumes (length s) (parsepipe n s4)" by (rule consumes_mono [OF l [OF l4]]) (use l4 in simp)
    then show ?thesis using True Parsed p g consumes_LIST by simp
  next
    case False
    then show ?thesis using Parsed p le peek_rest [OF p] by (simp add: consumes_def)
  qed
qed (use e in \<open>auto simp: consumes_def\<close>)

lemma parseblock_consumes:
  assumes l: "\<And>r. length r < length s \<Longrightarrow> consumes (length r) (parseline n r)"
  shows "consumes (length s) (parseblock (Suc n) s)"
proof -
  obtain k s1 where p: "peek (map of_char ''('') s = (k, s1)" by fastforce
  obtain tok q s2 where g: "gettoken s1 = (tok, q, s2)" by (metis prod_cases3)
  show ?thesis
  proof (cases k)
    case True
    then have l2: "length s2 < length s" using peek_gettoken [OF _ g, of "map of_char ''(''" s] p by simp
    note e = l [OF l2]
    show ?thesis
    proof (cases "parseline n s2")
      case (Parsed c s3)
      obtain k' s4 where p': "peek (map of_char '')'') s3 = (k', s4)" by fastforce
      obtain tok' q' s5 where g': "gettoken s4 = (tok', q', s5)" by (metis prod_cases3)
      have "length s5 \<le> length s" using e l2 Parsed peek_rest [OF p'] gettoken_less(1) [OF g'] by (simp add: consumes_def)
      then show ?thesis
        using True Parsed p g p' g' parseredirs_consumes [of s5 "[]"]
        by (cases k') (auto simp: consumes_def split: parse.splits)
    qed (use e True p g in \<open>auto simp: consumes_def\<close>)
  next
    case False
    then show ?thesis using p by (simp add: consumes_def)
  qed
qed

lemma parseexec_consumes:
  assumes l: "\<And>r. length r \<le> length s \<Longrightarrow> consumes (length r) (parseblock n r)"
  shows "consumes (length s) (parseexec (Suc n) s)"
proof -
  obtain k s1 where p: "peek (map of_char ''('') s = (k, s1)" by fastforce
  have le: "length s1 \<le> length s" using peek_rest [OF p] by simp
  show ?thesis
  proof (cases k)
    case True
    then show ?thesis using p le consumes_mono [OF l [OF le]] by simp
  next
    case False
    have r: "consumes (length s1) (parseredirs [] s1)" by (rule parseredirs_consumes)
    then show ?thesis
    proof (cases "parseredirs [] s1")
      case (Parsed rs s2)
      have "consumes (length s) (parseargs [] rs s2)"
        by (rule consumes_mono [OF parseargs_consumes]) (use Parsed r le in \<open>simp add: consumes_def\<close>)
      then show ?thesis using p False Parsed by simp
    qed (use p False in \<open>auto simp: consumes_def\<close>)
  qed
qed

lemma parse_consumes:
  "4 * length s + 4 \<le> n \<Longrightarrow> consumes (length s) (parseline n s)"
  "4 * length s + 3 \<le> n \<Longrightarrow> consumes (length s) (parsepipe n s)"
  "4 * length s + 1 \<le> n \<Longrightarrow> consumes (length s) (parseblock n s)"
  "4 * length s + 2 \<le> n \<Longrightarrow> consumes (length s) (parseexec n s)"
proof (induction n arbitrary: s)
  case (Suc n)
  {
    case 1
    then show ?case by (intro parseline_consumes Suc(1,2)) auto
  next
    case 2
    then show ?case by (intro parsepipe_consumes Suc(2,4)) auto
  next
    case 3
    then show ?case by (intro parseblock_consumes Suc(1)) auto
  next
    case 4
    then show ?case by (intro parseexec_consumes Suc(3)) auto
  }
qed simp_all

end
