(* ===== verification/Shellprint.thy ===== *)
theory Shellprint
  imports Shell
begin

text \<open>
  Printing commands, and that the parser of the shell reads back what is printed. A word is printed with a blank behind
  it; a command that stands where the grammar wants a smaller one is put in parentheses.
\<close>

section \<open>Printing\<close>

definition word :: "u8 list \<Rightarrow> bool" where
  "word w \<longleftrightarrow> w \<noteq> [] \<and> (\<forall>x \<in> set w. \<not> is_white x \<and> \<not> is_symbol x)"

definition show_redir :: "u8 list \<times> u32 \<times> u32 \<Rightarrow> u8 list" where
  "show_redir r = (case r of (f, m, fd) \<Rightarrow> (if m = sh_RDONLY then 60 else 62) # f @ [32])"

definition redir_ok :: "u8 list \<times> u32 \<times> u32 \<Rightarrow> bool" where
  "redir_ok r = (case r of (f, m, fd) \<Rightarrow> word f \<and> (m = sh_RDONLY \<and> fd = 0 \<or> m = sh_WRCREATE \<and> fd = 1))"

definition show_words :: "u8 list list \<Rightarrow> u8 list" where
  "show_words as = concat (map (\<lambda>w. w @ [32]) as)"

definition show_redirs :: "(u8 list \<times> u32 \<times> u32) list \<Rightarrow> u8 list" where
  "show_redirs rs = concat (map show_redir rs)"

function show_line :: "cmd \<Rightarrow> u8 list" and show_back :: "cmd \<Rightarrow> u8 list" and show_pipe :: "cmd \<Rightarrow> u8 list" and show_exec :: "cmd \<Rightarrow> u8 list" where
  "show_line c = (case c of LIST a b \<Rightarrow> show_back a @ 59 # show_line b | _ \<Rightarrow> show_back c)"
| "show_back c = (case c of BACK a \<Rightarrow> show_back a @ [38] | _ \<Rightarrow> show_pipe c)"
| "show_pipe c = (case c of PIPE a b \<Rightarrow> show_exec a @ 124 # show_pipe b | _ \<Rightarrow> show_exec c)"
| "show_exec c =
     (case c of
        EXEC as \<Rightarrow> show_words as
      | REDIR a f m fd \<Rightarrow> show_exec a @ show_redir (f, m, fd)
      | LIST a b \<Rightarrow> 40 # show_back a @ 59 # show_line b @ [41]
      | BACK a \<Rightarrow> 40 # show_back a @ [38, 41]
      | PIPE a b \<Rightarrow> 40 # show_exec a @ 124 # show_pipe b @ [41])"
  by pat_completeness auto
termination
  by (relation "measure (\<lambda>x. case x of Inl (Inl c) \<Rightarrow> 4 * size c + 3 | Inl (Inr c) \<Rightarrow> 4 * size c + 2
       | Inr (Inl c) \<Rightarrow> 4 * size c + 1 | Inr (Inr c) \<Rightarrow> 4 * size c)") auto

declare show_line.simps [simp del] show_back.simps [simp del] show_pipe.simps [simp del] show_exec.simps [simp del]

primrec wf_cmd :: "cmd \<Rightarrow> bool" where
  "wf_cmd (EXEC as) \<longleftrightarrow> list_all word as \<and> length as < MAXARGS"
| "wf_cmd (REDIR c f m fd) \<longleftrightarrow> wf_cmd c \<and> redir_ok (f, m, fd)"
| "wf_cmd (PIPE a b) \<longleftrightarrow> wf_cmd a \<and> wf_cmd b"
| "wf_cmd (LIST a b) \<longleftrightarrow> wf_cmd a \<and> wf_cmd b"
| "wf_cmd (BACK a) \<longleftrightarrow> wf_cmd a"

section \<open>Tokens of printed text\<close>

lemma strchr_set: "strchr s c \<noteq> None \<longleftrightarrow> c \<in> set s"
  by (induction s) auto

definition clean :: "u8 list \<Rightarrow> bool" where
  "clean s \<longleftrightarrow> (s = [] \<or> \<not> is_white (hd s))"

definition upto :: "u8 list \<Rightarrow> u8 list \<Rightarrow> bool" where
  "upto toks r \<longleftrightarrow> (r = [] \<or> hd r \<in> set toks)"

lemma clean_drop [simp]: "clean s \<Longrightarrow> dropWhile is_white s = s"
  by (cases s) (auto simp: clean_def)

lemma clean_symbol: "is_symbol c \<Longrightarrow> clean (c # s)"
  by (auto simp: clean_def is_symbol_iff is_white_iff)

lemma peek_clean: "clean s \<Longrightarrow> peek toks s = (s \<noteq> [] \<and> hd s \<in> set toks, s)"
  by (cases s) (auto simp: peek_def clean_def strchr_set [unfolded not_None_eq])

lemma word_clean: "word w \<Longrightarrow> clean (w @ s) \<and> w @ s \<noteq> [] \<and> \<not> is_symbol (hd (w @ s))"
  by (cases w) (auto simp: word_def clean_def)

lemma gettoken_word:
  assumes "word w" and "clean s"
  shows "gettoken (w @ 32 # s) = (97, w, s)"
proof -
  obtain c u where w: "w = c # u" using assms(1) by (cases w) (auto simp: word_def)
  have c: "\<not> is_white c" "\<not> is_symbol c" using assms(1) w by (auto simp: word_def)
  have "is_white 32" by (simp add: is_white_iff)
  then have "takeWhile (\<lambda>x. \<not> is_white x \<and> \<not> is_symbol x) (w @ 32 # s) = w"
    "dropWhile (\<lambda>x. \<not> is_white x \<and> \<not> is_symbol x) (w @ 32 # s) = 32 # s"
    using assms(1) by (auto simp: word_def takeWhile_append2 dropWhile_append2)
  then show ?thesis
    using c w assms(2) by (auto simp: gettoken_def Let_def is_symbol_iff of_char_def is_white_iff)
qed

lemma gettoken_symbol:
  assumes "c \<in> {124, 40, 41, 59, 38, 60}" and "clean s"
  shows "gettoken (c # s) = (c, [c], s)"
proof -
  have "\<not> is_white c" using assms(1) by (auto simp: is_white_iff)
  then show ?thesis using assms by (auto simp: gettoken_def Let_def of_char_def)
qed

lemma gettoken_greater:
  assumes "clean s" and "s = [] \<or> hd s \<noteq> 62"
  shows "gettoken (62 # s) = (62, [62], s)"
proof -
  have "\<not> is_white 62" by (simp add: is_white_iff)
  then show ?thesis using assms by (cases s) (auto simp: gettoken_def Let_def of_char_def clean_def)
qed

section \<open>Redirections and arguments\<close>

lemma show_redirs_clean: "clean rest \<Longrightarrow> clean (show_redirs rs @ rest)"
  by (cases rs) (auto simp: show_redirs_def show_redir_def clean_def is_white_iff split: prod.splits)

lemma parseredirs_stop: "clean s \<Longrightarrow> s = [] \<or> hd s \<notin> {60, 62} \<Longrightarrow> parseredirs rs s = Parsed rs s"
  by (subst parseredirs.simps) (auto simp: peek_clean of_char_def)

lemma parseredirs_show:
  assumes "\<forall>r \<in> set rs. redir_ok r" and "clean rest" and "rest = [] \<or> hd rest \<notin> {60, 62}"
  shows "parseredirs rs0 (show_redirs rs @ rest) = Parsed (rs0 @ rs) rest"
  using assms(1)
proof (induction rs arbitrary: rs0)
  case Nil
  then show ?case using assms(2,3) by (simp add: show_redirs_def parseredirs_stop)
next
  case (Cons r rs)
  obtain f m fd where r: "r = (f, m, fd)" by (cases r)
  let ?t = "if m = sh_RDONLY then 60 else 62 :: u8"
  let ?s = "f @ 32 # show_redirs rs @ rest"
  have ok: "word f" "redir ?t f = r"
    using Cons.prems r by (auto simp: redir_ok_def redir_def sh_RDONLY_def sh_WRCREATE_def)
  have s: "show_redirs (r # rs) @ rest = ?t # ?s" by (simp add: show_redirs_def show_redir_def r)
  have "clean ?s" "hd ?s \<noteq> 62" using word_clean [OF ok(1), of "32 # show_redirs rs @ rest"] by (auto simp: is_symbol_iff)
  then have "gettoken (?t # ?s) = (?t, [?t], ?s)"
    using gettoken_symbol [of 60 ?s] gettoken_greater [of ?s] by auto
  moreover have "gettoken ?s = (97, f, show_redirs rs @ rest)"
    by (rule gettoken_word [OF ok(1) show_redirs_clean [OF assms(2)]])
  moreover have "peek (map of_char ''<>'') (?t # ?s) = (True, ?t # ?s)"
    using peek_clean [OF clean_symbol, of ?t "map of_char ''<>''" ?s] by (auto simp: is_symbol_iff of_char_def)
  moreover have "parseredirs (rs0 @ [r]) (show_redirs rs @ rest) = Parsed ((rs0 @ [r]) @ rs) rest"
    using Cons.IH Cons.prems by simp
  ultimately show ?case unfolding s by (subst parseredirs.simps) (simp add: ok(2))
qed

definition show_args :: "u8 list list \<Rightarrow> (u8 list \<times> u32 \<times> u32) list \<Rightarrow> u8 list" where
  "show_args as rs = show_words as @ show_redirs rs"

lemma parseargs_stop:
  assumes "upto [124, 41, 38, 59] rest"
  shows "parseargs as rs rest = Parsed (wrap (EXEC as) rs) rest"
proof -
  have "clean rest" using assms clean_symbol by (cases rest) (auto simp: upto_def clean_def is_white_iff)
  then show ?thesis
    using assms by (cases rest; subst parseargs.simps) (auto simp: peek_clean upto_def of_char_def gettoken_def)
qed

lemma upto_clean: "upto [124, 41, 38, 59] rest \<Longrightarrow> clean rest \<and> (rest = [] \<or> hd rest \<notin> {60, 62, 40})"
  by (cases rest) (auto simp: upto_def clean_def is_white_iff)

lemma parseargs_show:
  assumes "list_all word as" and "as \<noteq> []" and "length as0 + length as < MAXARGS" and rs: "\<forall>r \<in> set rs. redir_ok r"
    and rest: "upto [124, 41, 38, 59] rest"
  shows "parseargs as0 [] (show_args as rs @ rest) = Parsed (wrap (EXEC (as0 @ as)) rs) rest"
  using assms(1-3)
proof (induction as arbitrary: as0)
  case (Cons w as)
  note cl = upto_clean [OF rest]
  let ?s = "show_args as rs @ rest"
  have w: "word w" "list_all word as" using Cons.prems by simp_all
  have s: "show_args (w # as) rs @ rest = w @ 32 # ?s" by (simp add: show_args_def show_words_def)
  have clean: "clean ?s"
  proof (cases as)
    case Nil
    then show ?thesis using show_redirs_clean cl by (simp add: show_args_def show_words_def)
  next
    case (Cons v vs)
    then show ?thesis using w(2) word_clean [of v] by (simp add: show_args_def show_words_def)
  qed
  have wc: "clean (w @ 32 # ?s)" "\<not> is_symbol (hd (w @ 32 # ?s))" using word_clean [OF w(1)] by auto
  then have p: "peek (map of_char ''|)&;'') (w @ 32 # ?s) = (False, w @ 32 # ?s)"
    using peek_clean [OF wc(1)] by (auto simp: is_symbol_iff of_char_def)
  have red: "parseredirs [] ?s = (if as = [] then Parsed rs rest else Parsed [] ?s)"
  proof (cases as)
    case Nil
    then show ?thesis using parseredirs_show [OF rs, of rest "[]"] cl by (auto simp: show_args_def show_words_def)
  next
    case (Cons v vs)
    then have "hd ?s \<notin> {60, 62}" using w(2) word_clean [of v] by (auto simp: show_args_def show_words_def is_symbol_iff)
    then show ?thesis using Cons parseredirs_stop [OF clean] by simp
  qed
  have "\<not> MAXARGS \<le> length as0 + 1" using Cons.prems by simp
  then have "parseargs as0 [] (w @ 32 # ?s) = (if as = [] then parseargs (as0 @ [w]) rs rest else parseargs (as0 @ [w]) [] ?s)"
    using p red gettoken_word [OF w(1) clean] by (subst parseargs.simps) simp
  then show ?case
    unfolding s using Cons.IH [of "as0 @ [w]"] w(2) Cons.prems(3) parseargs_stop [OF rest] by (cases "as = []") simp_all
qed simp

section \<open>Taking commands apart\<close>

fun core :: "cmd \<Rightarrow> cmd" where
  "core (REDIR a f m fd) = core a"
| "core c = c"

fun redirs :: "cmd \<Rightarrow> (u8 list \<times> u32 \<times> u32) list" where
  "redirs (REDIR a f m fd) = redirs a @ [(f, m, fd)]"
| "redirs c = []"

fun bcore :: "cmd \<Rightarrow> cmd" where
  "bcore (BACK a) = bcore a"
| "bcore c = c"

fun bcount :: "cmd \<Rightarrow> nat" where
  "bcount (BACK a) = Suc (bcount a)"
| "bcount c = 0"

lemma show_exec_simps:
  "show_exec (EXEC as) = show_words as" "show_exec (REDIR a f m fd) = show_exec a @ show_redir (f, m, fd)"
  "show_exec (LIST a b) = 40 # show_back a @ 59 # show_line b @ [41]" "show_exec (BACK a) = 40 # show_back a @ [38, 41]"
  "show_exec (PIPE a b) = 40 # show_exec a @ 124 # show_pipe b @ [41]"
  by (subst show_exec.simps, simp)+

lemma show_pipe_simps:
  "show_pipe (PIPE a b) = show_exec a @ 124 # show_pipe b" "\<not> (\<exists>a b. c = PIPE a b) \<Longrightarrow> show_pipe c = show_exec c"
  by (subst show_pipe.simps, simp split: cmd.split)+

lemma show_back_simps:
  "show_back (BACK a) = show_back a @ [38]" "\<not> (\<exists>a. c = BACK a) \<Longrightarrow> show_back c = show_pipe c"
  by (subst show_back.simps, simp split: cmd.split)+

lemma show_line_simps:
  "show_line (LIST a b) = show_back a @ 59 # show_line b" "\<not> (\<exists>a b. c = LIST a b) \<Longrightarrow> show_line c = show_back c"
  by (subst show_line.simps, simp split: cmd.split)+

lemma core_wrap: "wrap (core c) (redirs c) = c"
  by (induction c) (simp_all add: wrap_def)

lemma core_size: "core c = c \<or> size (core c) < size c"
  by (induction c) auto

lemma core_wf: "wf_cmd c \<Longrightarrow> wf_cmd (core c) \<and> (\<forall>r \<in> set (redirs c). redir_ok r)"
  by (induction c) auto

lemma core_REDIR: "core c \<noteq> REDIR a f m fd"
  by (induction c) auto

lemma core_show: "show_exec c = show_exec (core c) @ show_redirs (redirs c)"
  by (induction c) (simp_all add: show_exec_simps show_redirs_def)

lemma bcore_back: "(BACK ^^ bcount c) (bcore c) = c"
  by (induction c) simp_all

lemma bcore_size: "size (bcore c) \<le> size c" "\<exists>a. c = BACK a \<Longrightarrow> size (bcore c) < size c"
  by (induction c) auto

lemma bcore_wf: "wf_cmd c \<Longrightarrow> wf_cmd (bcore c)"
  by (induction c) auto

lemma bcore_show: "show_back c = show_pipe (bcore c) @ replicate (bcount c) 38"
proof (induction c)
  case (BACK c)
  then show ?case by (simp add: show_back_simps replicate_append_same [symmetric])
qed (simp_all add: show_back_simps)

lemma show_exec_paren:
  assumes "\<not> (\<exists>as. core c = EXEC as)"
  shows "show_exec (core c) = 40 # show_line (core c) @ [41]"
  using assms core_REDIR
  by (cases "core c") (auto simp: show_exec_simps show_line_simps show_back_simps show_pipe_simps)

lemma show_exec_clean: "wf_cmd c \<Longrightarrow> clean rest \<Longrightarrow> clean (show_exec c @ rest)"
proof -
  assume c: "wf_cmd c" and rest: "clean rest"
  note cr = show_redirs_clean [OF rest, of "redirs c"]
  show ?thesis
  proof (cases "\<exists>as. core c = EXEC as")
    case True
    then obtain as where as: "core c = EXEC as" by blast
    then have "list_all word as" using core_wf [OF c] by simp
    then show ?thesis using cr word_clean [of "hd as"] by (cases as) (auto simp: core_show [of c] as show_exec_simps show_words_def)
  next
    case False
    then show ?thesis using clean_symbol [of 40] by (simp add: core_show [of c] show_exec_paren is_symbol_iff)
  qed
qed

lemma show_pipe_clean: "wf_cmd c \<Longrightarrow> clean rest \<Longrightarrow> clean (show_pipe c @ rest)"
proof (cases "\<exists>a b. c = PIPE a b")
  case True
  then obtain a b where "c = PIPE a b" by blast
  moreover have "clean (124 # s)" for s by (simp add: clean_symbol is_symbol_iff)
  moreover assume "wf_cmd c"
  ultimately show ?thesis using show_exec_clean [of a "124 # show_pipe b @ rest"] by (simp add: show_pipe_simps)
qed (simp add: show_pipe_simps show_exec_clean)

lemma show_back_clean: "wf_cmd c \<Longrightarrow> clean rest \<Longrightarrow> clean (show_back c @ rest)"
  unfolding bcore_show
  by (cases "bcount c") (auto intro!: show_pipe_clean bcore_wf clean_symbol simp: is_symbol_iff)

lemma show_line_clean: "wf_cmd c \<Longrightarrow> clean rest \<Longrightarrow> clean (show_line c @ rest)"
proof (cases "\<exists>a b. c = LIST a b")
  case True
  then obtain a b where "c = LIST a b" by blast
  moreover have "clean (59 # s)" for s by (simp add: clean_symbol is_symbol_iff)
  moreover assume "wf_cmd c"
  ultimately show ?thesis using show_back_clean [of a "59 # show_line b @ rest"] by (simp add: show_line_simps)
qed (simp add: show_line_simps show_back_clean)

section \<open>Parsing printed commands\<close>

definition exec_ok :: "cmd \<Rightarrow> bool" where
  "exec_ok c \<longleftrightarrow> (\<forall>n rest. upto [124, 41, 38, 59] rest \<longrightarrow> 4 * length (show_exec c @ rest) + 2 \<le> n
     \<longrightarrow> parseexec n (show_exec c @ rest) = Parsed c rest)"

definition pipe_ok :: "cmd \<Rightarrow> bool" where
  "pipe_ok c \<longleftrightarrow> (\<forall>n rest. upto [41, 38, 59] rest \<longrightarrow> 4 * length (show_pipe c @ rest) + 3 \<le> n
     \<longrightarrow> parsepipe n (show_pipe c @ rest) = Parsed c rest)"

definition line_ok :: "cmd \<Rightarrow> bool" where
  "line_ok c \<longleftrightarrow> (\<forall>n rest. upto [41] rest \<longrightarrow> 4 * length (show_line c @ rest) + 4 \<le> n
     \<longrightarrow> parseline n (show_line c @ rest) = Parsed c rest)"

lemma upto_weaken: "upto [41] rest \<Longrightarrow> upto [41, 38, 59] rest" "upto [41, 38, 59] rest \<Longrightarrow> upto [124, 41, 38, 59] rest"
  by (auto simp: upto_def)

lemma exec_ok_words:
  assumes "list_all word as" "length as < MAXARGS" and rs: "\<forall>r \<in> set rs. redir_ok r" and rest: "upto [124, 41, 38, 59] rest"
  shows "parseexec (Suc n) (show_words as @ show_redirs rs @ rest) = Parsed (wrap (EXEC as) rs) rest"
proof -
  let ?s = "show_words as @ show_redirs rs @ rest"
  note cl = upto_clean [OF rest]
  have s: "clean ?s \<and> (?s = [] \<or> hd ?s \<noteq> 40)"
  proof (cases as)
    case Nil
    then show ?thesis
      using show_redirs_clean [of rest rs] cl by (cases rs) (auto simp: show_words_def show_redirs_def show_redir_def split: if_splits)
  next
    case (Cons w ws)
    then show ?thesis using word_clean [of w] assms(1) by (auto simp: show_words_def is_symbol_iff)
  qed
  then have p: "peek (map of_char ''('') ?s = (False, ?s)" by (auto simp: peek_clean of_char_def)
  show ?thesis
  proof (cases as)
    case Nil
    then show ?thesis
      using p parseredirs_show [OF rs, of rest "[]"] cl parseargs_stop [OF rest] by (auto simp: show_words_def)
  next
    case (Cons w ws)
    then have "hd ?s \<notin> {60, 62}" using word_clean [of w] assms(1) by (auto simp: show_words_def is_symbol_iff)
    then have "parseredirs [] ?s = Parsed [] ?s" using s by (intro parseredirs_stop) simp_all
    then show ?thesis
      using p parseargs_show [OF assms(1) _ _ rs rest, of "[]"] assms(2) Cons by (simp add: show_args_def)
  qed
qed

lemma exec_ok_block:
  assumes line: "line_ok d" "wf_cmd d" and rs: "\<forall>r \<in> set rs. redir_ok r" and rest: "upto [124, 41, 38, 59] rest"
    and n: "4 * length (40 # show_line d @ 41 # show_redirs rs @ rest) + 2 \<le> n"
  shows "parseexec n (40 # show_line d @ 41 # show_redirs rs @ rest) = Parsed (wrap d rs) rest"
proof -
  let ?r = "show_redirs rs @ rest"
  let ?s = "show_line d @ 41 # ?r"
  note cl = upto_clean [OF rest]
  obtain m where m: "n = Suc (Suc m)" using n by (cases n; cases "n - 1") auto
  have c: "clean (40 # s)" "clean (41 # s)" for s by (simp_all add: clean_symbol is_symbol_iff)
  have g: "gettoken (40 # ?s) = (40, [40], ?s)" "gettoken (41 # ?r) = (41, [41], ?r)"
    using show_line_clean [OF line(2) c(2)] show_redirs_clean [of rest rs] cl by (simp_all add: gettoken_symbol)
  have "parseline m ?s = Parsed d (41 # ?r)" using line(1) n m by (simp add: line_ok_def upto_def)
  moreover have "parseredirs [] ?r = Parsed rs rest" using parseredirs_show [OF rs, of rest "[]"] cl by auto
  ultimately show ?thesis using g by (simp add: m peek_clean c of_char_def)
qed

lemma exec_ok_core:
  assumes wf: "wf_cmd c" and line: "\<not> (\<exists>as. core c = EXEC as) \<Longrightarrow> line_ok (core c)"
  shows "exec_ok c"
proof -
  have "parseexec n (show_exec c @ rest) = Parsed c rest"
    if up: "upto [124, 41, 38, 59] rest" and n: "4 * length (show_exec c @ rest) + 2 \<le> n" for n rest
  proof (cases "\<exists>as. core c = EXEC as")
    case True
    then obtain as where as: "core c = EXEC as" by blast
    obtain m where m: "n = Suc m" using n by (cases n) auto
    show ?thesis
      using exec_ok_words [OF _ _ _ up, of as "redirs c" m] core_wf [OF wf] core_wrap [of c] as m
      by (simp add: core_show [of c] show_exec_simps)
  next
    case False
    then show ?thesis
      using exec_ok_block [OF line _ _ up, of "redirs c" n] core_wf [OF wf] core_wrap [of c] n
      by (simp add: core_show [of c] show_exec_paren)
  qed
  then show ?thesis by (simp add: exec_ok_def)
qed

lemma pipe_ok_exec:
  assumes "exec_ok c" and "\<not> (\<exists>a b. c = PIPE a b)"
  shows "pipe_ok c"
proof -
  have "parsepipe n (show_pipe c @ rest) = Parsed c rest"
    if up: "upto [41, 38, 59] rest" and n: "4 * length (show_pipe c @ rest) + 3 \<le> n" for n rest
  proof -
    obtain m where m: "n = Suc m" using n by (cases n) auto
    have "parseexec m (show_exec c @ rest) = Parsed c rest"
      using assms n m upto_weaken(2) [OF up] by (simp add: exec_ok_def show_pipe_simps)
    moreover have "peek (map of_char ''|'') rest = (False, rest)"
      using upto_clean [OF upto_weaken(2) [OF up]] up by (auto simp: peek_clean of_char_def upto_def)
    ultimately show ?thesis using m assms(2) by (simp add: show_pipe_simps)
  qed
  then show ?thesis by (simp add: pipe_ok_def)
qed

lemma pipe_ok_PIPE:
  assumes a: "exec_ok a" and b: "pipe_ok b" "wf_cmd b"
  shows "pipe_ok (PIPE a b)"
proof -
  have "parsepipe n (show_pipe (PIPE a b) @ rest) = Parsed (PIPE a b) rest"
    if up: "upto [41, 38, 59] rest" and n: "4 * length (show_pipe (PIPE a b) @ rest) + 3 \<le> n" for n rest
  proof -
    let ?r = "show_pipe b @ rest"
    obtain m where m: "n = Suc m" using n by (cases n) auto
    have len: "4 * length (show_exec a @ 124 # ?r) + 3 \<le> Suc m" using n m by (simp add: show_pipe_simps)
    have "parseexec m (show_exec a @ 124 # ?r) = Parsed a (124 # ?r)" using a len by (simp add: exec_ok_def upto_def)
    moreover have "peek (map of_char ''|'') (124 # ?r) = (True, 124 # ?r)"
      by (simp add: peek_clean clean_symbol is_symbol_iff of_char_def)
    moreover have "gettoken (124 # ?r) = (124, [124], ?r)"
      using show_pipe_clean [OF b(2)] upto_clean [OF upto_weaken(2) [OF up]] by (simp add: gettoken_symbol)
    moreover have "parsepipe m ?r = Parsed b rest" using b(1) len up by (simp add: pipe_ok_def)
    ultimately show ?thesis using m by (simp add: show_pipe_simps)
  qed
  then show ?thesis by (simp add: pipe_ok_def)
qed

lemma parsebacks_show:
  assumes "clean rest" and "rest = [] \<or> hd rest \<noteq> 38"
  shows "parsebacks c (replicate k 38 @ rest) = ((BACK ^^ k) c, rest)"
proof (induction k arbitrary: c)
  case 0
  then show ?case using assms by (subst parsebacks.simps) (auto simp: peek_clean of_char_def)
next
  case (Suc k)
  let ?r = "replicate k 38 @ rest"
  have "clean (38 # s)" for s by (simp add: clean_symbol is_symbol_iff)
  moreover from this have "clean ?r" using assms(1) by (cases k) simp_all
  ultimately have "parsebacks c (38 # ?r) = parsebacks (BACK c) ?r"
    by (subst parsebacks.simps) (simp add: peek_clean of_char_def gettoken_symbol)
  then show ?case using Suc [of "BACK c"] by (simp add: funpow_swap1)
qed

text \<open>The part of \<open>parseline\<close> up to the semicolon.\<close>

lemma line_head:
  assumes a: "pipe_ok (bcore a)" and up: "upto [41, 59] rest" and n: "4 * length (show_back a @ rest) + 3 \<le> n"
  shows "\<exists>s. parsepipe n (show_back a @ rest) = Parsed (bcore a) s \<and> parsebacks (bcore a) s = (a, rest)"
proof -
  let ?s = "replicate (bcount a) 38 @ rest"
  have "upto [41, 38, 59] ?s" using up by (cases "bcount a") (auto simp: upto_def)
  then have "parsepipe n (show_back a @ rest) = Parsed (bcore a) ?s" using a n by (simp add: pipe_ok_def bcore_show)
  moreover have "clean rest" "rest = [] \<or> hd rest \<noteq> 38" using up by (auto simp: upto_def clean_def is_white_iff)
  then have "parsebacks (bcore a) ?s = (a, rest)" using parsebacks_show bcore_back by metis
  ultimately show ?thesis by blast
qed

lemma line_ok_back:
  assumes "pipe_ok (bcore c)" and "\<not> (\<exists>a b. c = LIST a b)"
  shows "line_ok c"
proof -
  have "parseline n (show_line c @ rest) = Parsed c rest"
    if up: "upto [41] rest" and n: "4 * length (show_line c @ rest) + 4 \<le> n" for n rest
  proof -
    obtain m where m: "n = Suc m" using n by (cases n) auto
    have "upto [41, 59] rest" using up by (auto simp: upto_def)
    from line_head [OF assms(1) this, of m] n m assms(2) obtain s where
      "parsepipe m (show_back c @ rest) = Parsed (bcore c) s" "parsebacks (bcore c) s = (c, rest)"
      by (auto simp: show_line_simps)
    moreover have "peek (map of_char '';'') rest = (False, rest)"
      using up upto_clean [of rest] by (auto simp: peek_clean upto_def of_char_def)
    ultimately show ?thesis using m assms(2) by (simp add: show_line_simps)
  qed
  then show ?thesis by (simp add: line_ok_def)
qed

lemma line_ok_LIST:
  assumes a: "pipe_ok (bcore a)" and b: "line_ok b" "wf_cmd b"
  shows "line_ok (LIST a b)"
proof -
  have "parseline n (show_line (LIST a b) @ rest) = Parsed (LIST a b) rest"
    if up: "upto [41] rest" and n: "4 * length (show_line (LIST a b) @ rest) + 4 \<le> n" for n rest
  proof -
    let ?r = "show_line b @ rest"
    obtain m where m: "n = Suc m" using n by (cases n) auto
    have len: "4 * length (show_back a @ 59 # ?r) + 3 \<le> m" using n m by (simp add: show_line_simps)
    have "upto [41, 59] (59 # ?r)" by (simp add: upto_def)
    from line_head [OF a this len] obtain s where
      "parsepipe m (show_back a @ 59 # ?r) = Parsed (bcore a) s" "parsebacks (bcore a) s = (a, 59 # ?r)" by blast
    moreover have "peek (map of_char '';'') (59 # ?r) = (True, 59 # ?r)"
      by (simp add: peek_clean clean_symbol is_symbol_iff of_char_def)
    moreover have "clean rest" using up by (auto simp: upto_def clean_def is_white_iff)
    then have "gettoken (59 # ?r) = (59, [59], ?r)" using show_line_clean [OF b(2)] by (simp add: gettoken_symbol)
    moreover have "parseline m ?r = Parsed b rest" using b(1) len up by (simp add: line_ok_def)
    ultimately show ?thesis using m by (simp add: show_line_simps)
  qed
  then show ?thesis by (simp add: line_ok_def)
qed

lemma line_ok_compound:
  assumes wf: "wf_cmd c" and IH: "\<And>d. size d < size c \<Longrightarrow> wf_cmd d \<Longrightarrow> exec_ok d \<and> pipe_ok d \<and> line_ok d"
    and c: "core c = c" "\<not> (\<exists>as. c = EXEC as)"
  shows "line_ok c"
proof (cases c)
  case (LIST a b)
  have "pipe_ok (bcore a)" using IH [of "bcore a"] bcore_size(1) [of a] bcore_wf [of a] wf LIST by simp
  then show ?thesis using line_ok_LIST IH [of b] wf LIST by simp
next
  case (BACK a)
  then show ?thesis using line_ok_back IH [of "bcore c"] bcore_size(2) [of c] bcore_wf [OF wf] by simp
next
  case (PIPE a b)
  then show ?thesis using line_ok_back [of c] pipe_ok_PIPE IH [of a] IH [of b] wf by simp
qed (use c core_REDIR [of c] in auto)

lemma all_ok: "wf_cmd c \<Longrightarrow> exec_ok c \<and> pipe_ok c \<and> line_ok c"
proof (induction "size c" arbitrary: c rule: less_induct)
  case less
  have line: "line_ok (core c)" if "\<not> (\<exists>as. core c = EXEC as)"
  proof (cases "core c = c")
    case True
    then show ?thesis using line_ok_compound [OF less.prems, OF less.hyps] that by metis
  next
    case False
    then show ?thesis using less.hyps [of "core c"] core_size [of c] core_wf [OF less.prems] by simp
  qed
  have e: "exec_ok c" by (rule exec_ok_core [OF less.prems line])
  have p: "pipe_ok c"
  proof (cases "\<exists>a b. c = PIPE a b")
    case True
    then obtain a b where "c = PIPE a b" by blast
    then show ?thesis using pipe_ok_PIPE less.hyps [of a] less.hyps [of b] less.prems by simp
  qed (rule pipe_ok_exec [OF e])
  have "line_ok c"
  proof (cases "core c = c \<and> \<not> (\<exists>as. c = EXEC as)")
    case True
    then show ?thesis using line by metis
  next
    case False
    then have "bcore c = c" "\<not> (\<exists>a b. c = LIST a b)" by (cases c; auto)+
    then show ?thesis using line_ok_back p by simp
  qed
  with e p show ?case by simp
qed

section \<open>Properties\<close>

text \<open>C15: the shell's parser reads back every command it can represent, with at most nine arguments per program and the
  redirections the shell knows, from its printed form: pipes, lists, background commands, redirections and
  parentheses nest as they were.\<close>

theorem parse_print:
  assumes "wf_cmd c"
  shows "parsecmd (show_line c) = Parsed c []"
proof -
  have "line_ok c" using all_ok [OF assms] by simp
  then have "parseline (4 * length (show_line c) + 4) (show_line c @ []) = Parsed c []"
    unfolding line_ok_def by (rule allE [of _ "4 * length (show_line c) + 4"]) (simp add: upto_def)
  then show ?thesis by (simp add: parsecmd_def peek_clean clean_def)
qed

theorem parse_print_witness:
  "parsecmd (map of_char ''(ls |wc >o ;e &)<i '')
   = Parsed (REDIR (LIST (PIPE (EXEC [map of_char ''ls'']) (REDIR (EXEC [map of_char ''wc'']) (map of_char ''o'') sh_WRCREATE 1))
               (BACK (EXEC [map of_char ''e'']))) (map of_char ''i'') sh_RDONLY 0) []"
proof -
  let ?c = "REDIR (LIST (PIPE (EXEC [map of_char ''ls'']) (REDIR (EXEC [map of_char ''wc'']) (map of_char ''o'') sh_WRCREATE 1))
      (BACK (EXEC [map of_char ''e'']))) (map of_char ''i'') sh_RDONLY 0"
  have "wf_cmd ?c" by (simp add: word_def redir_ok_def is_white_iff is_symbol_iff MAXARGS_def of_char_def)
  moreover have "show_line ?c = map of_char ''(ls |wc >o ;e &)<i ''"
    by (simp add: show_line_simps show_back_simps show_pipe_simps show_exec_simps show_words_def show_redir_def of_char_def
        sh_RDONLY_def sh_WRCREATE_def)
  ultimately show ?thesis using parse_print by metis
qed

text \<open>C27: parsing ends for every command line: with the command or an error, and never deeper than the line is long.\<close>

theorem parsecmd_ends: "parsecmd s \<noteq> TooDeep"
  using parse_consumes(1) [of s "4 * length s + 4"]
  by (auto simp: parsecmd_def consumes_def split: parse.splits prod.splits)

end
