(* ===== verification/Filedata.thy ===== *)
theory Filedata
  imports Bcache Fs
begin

text \<open>
  The content of a file as a sequence of bytes: the blocks that the inode and its indirect block name, cut at the size.
  Reading returns a section of it.
\<close>

section \<open>Blocks of a file\<close>

lemma content_clean:
  assumes "bio_ok c p h s" and "n \<notin> ran h" and "n \<notin> pinned s"
  shows "content s n = disk s n"
proof (cases "find_idx (\<lambda>b. b_dev (bufs s b) = 1 \<and> b_blockno (bufs s b) = n) NBUF")
  case (Some b)
  then have b: "b < NBUF" "b_dev (bufs s b) = 1" "b_blockno (bufs s b) = n" by (auto simp: find_idx_Some)
  have ok: "buf_ok (p_pid (procs s p)) (h b) (sleeplks s (BufSL b)) (disksize s) (disk s) (bufs s b)"
    using assms(1) b(1) by (simp add: bio_ok_def cache_ok_def)
  have "\<not> dirty (bufs s b)" using assms(3) b by (auto simp: pinned_def)
  moreover have "h b = None" using ok b assms(2) by (cases "h b") (auto simp: buf_ok_def ran_def)
  ultimately show ?thesis using ok b Some by (simp add: buf_ok_def content_def)
qed (simp add: content_def)

definition file_block :: "(u32 \<Rightarrow> u8 list) \<Rightarrow> inode \<Rightarrow> nat \<Rightarrow> u32" where
  "file_block d x k = (if k < NDIRECT then i_addrs x k else get32 (d (i_addrs x NDIRECT)) (4 * (k - NDIRECT)))"

definition file_nblocks :: "inode \<Rightarrow> nat" where
  "file_nblocks x = (unat (i_size x) + 511) div 512"

definition file_bytes :: "(u32 \<Rightarrow> u8 list) \<Rightarrow> inode \<Rightarrow> u8 list" where
  "file_bytes d x = take (unat (i_size x)) (concat (map (\<lambda>k. d (file_block d x k)) [0..<file_nblocks x]))"

text \<open>Every block of the file has been allocated, and lies on the disk.\<close>

definition file_mapped :: "(u32 \<Rightarrow> u8 list) \<Rightarrow> u32 \<Rightarrow> inode \<Rightarrow> bool" where
  "file_mapped d sz x \<longleftrightarrow> file_nblocks x \<le> MAXFILE
     \<and> (\<forall>k < file_nblocks x. file_block d x k \<noteq> 0 \<and> file_block d x k < sz)
     \<and> (NDIRECT < file_nblocks x \<longrightarrow> i_addrs x NDIRECT \<noteq> 0 \<and> i_addrs x NDIRECT < sz)"

lemma concat_nth:
  assumes f: "\<And>k. length (f k) = 512" and "j < 512 * n"
  shows "concat (map f [0..<n]) ! j = f (j div 512) ! (j mod 512)"
  using assms(2)
proof (induction n)
  case (Suc n)
  have len: "length (concat (map f [0..<n])) = 512 * n" by (simp add: length_concat comp_def f sum_list_triv)
  show ?case
  proof (cases "j < 512 * n")
    case True
    then show ?thesis using Suc len by (simp add: nth_append)
  next
    case False
    then have "j div 512 = n" using Suc.prems by auto
    moreover from this have "j mod 512 = j - 512 * n" using minus_mult_div_eq_mod [of j 512] by simp
    ultimately show ?thesis using False len by (simp add: nth_append)
  qed
qed simp

lemma file_bytes_section:
  assumes d: "\<And>n. length (d n) = 512" and j: "off + m \<le> unat (i_size x)" "m \<le> 512 - off mod 512"
  shows "take m (drop off (file_bytes d x)) = take m (drop (off mod 512) (d (file_block d x (off div 512))))"
proof (rule nth_equalityI)
  have len: "length (concat (map (\<lambda>k. d (file_block d x k)) [0..<file_nblocks x])) = 512 * file_nblocks x"
    by (simp add: length_concat comp_def d sum_list_triv)
  moreover have "unat (i_size x) \<le> 512 * file_nblocks x" unfolding file_nblocks_def by simp
  ultimately have fl: "length (file_bytes d x) = unat (i_size x)" by (simp add: file_bytes_def)
  have m: "off mod 512 + m \<le> 512" using j(2) by (simp add: le_diff_conv2 add.commute)
  show "length (take m (drop off (file_bytes d x))) = length (take m (drop (off mod 512) (d (file_block d x (off div 512)))))"
    using j m fl by (simp add: d)
  fix i
  assume "i < length (take m (drop off (file_bytes d x)))"
  then have i: "i < m" "off + i < unat (i_size x)" using j fl by auto
  have q: "(off + i) div 512 = off div 512" "(off + i) mod 512 = off mod 512 + i"
  proof -
    have "off + i = 512 * (off div 512) + (off mod 512 + i)" "off mod 512 + i < 512" using m i(1) by simp_all
    then show "(off + i) div 512 = off div 512" "(off + i) mod 512 = off mod 512 + i" by (metis div_mult_self4 mod_mult_self4 div_less mod_less add_0_right zero_neq_numeral)+
  qed
  have "file_bytes d x ! (off + i) = d (file_block d x (off div 512)) ! (off mod 512 + i)"
    using concat_nth [of "\<lambda>k. d (file_block d x k)" "off + i" "file_nblocks x", OF d] i(2) q
      \<open>unat (i_size x) \<le> 512 * file_nblocks x\<close> by (simp add: file_bytes_def)
  then show "take m (drop off (file_bytes d x)) ! i = take m (drop (off mod 512) (d (file_block d x (off div 512)))) ! i"
    using i m fl by (simp add: d)
qed

section \<open>Reading\<close>

lemma bio_frame_inodes:
  assumes "bio_frame s t"
  shows "inodes t = inodes s" "sb t = sb s"
proof -
  have "inodes (bio_blank u) = inodes u" "sb (bio_blank u) = sb u" for u :: "'b icst_scheme"
    by (simp_all add: bio_blank_def buf_blank_def unsched_def)
  with assms show "inodes t = inodes s" "sb t = sb s" unfolding bio_frame_def by metis+
qed

lemma content_inodes [simp]: "content (s\<lparr>inodes := y\<rparr>) = content s" "pinned (s\<lparr>inodes := y\<rparr>) = pinned s" "store_of (s\<lparr>inodes := y\<rparr>) = store_of s"
proof -
  show "content (s\<lparr>inodes := y\<rparr>) = content s" by (simp add: content_def fun_eq_iff split: option.split)
  then show "pinned (s\<lparr>inodes := y\<rparr>) = pinned s" "store_of (s\<lparr>inodes := y\<rparr>) = store_of s" by (simp_all add: store_of_def pinned_def)
qed

lemma bio_ok_inodes [simp]: "bio_ok c p h (s\<lparr>inodes := y\<rparr>) = bio_ok c p h s"
proof -
  have "quiet c p (s\<lparr>inodes := y\<rparr>) = quiet c p s" by (intro quiet_cong sched_rep_cong) (simp_all add: same_core_def)
  then show ?thesis by (simp add: bio_ok_def cache_ok_def caches_def)
qed

text \<open>The cache is in order, nothing is held, and the blocks are those of \<open>s\<close>.\<close>

definition same_files :: "nat \<Rightarrow> nat \<Rightarrow> 'a icst_scheme \<Rightarrow> 'a icst_scheme \<Rightarrow> bool" where
  "same_files c p s t \<longleftrightarrow> bio_ok c p Map.empty t \<and> store_of t = store_of s \<and> bio_frame s t"

lemma same_filesD:
  assumes "same_files c p s t"
  shows "bio_ok c p Map.empty t" "content t = content s" "pinned t = pinned s" "disksize t = disksize s" "inodes t = inodes s"
  using assms bio_frame_inodes [of s t] bio_frameD(2) [of s t] by (simp_all add: same_files_def store_of_def)

lemma same_files_trans: "same_files c p s t \<Longrightarrow> same_files c p t u \<Longrightarrow> same_files c p s u"
  by (auto simp: same_files_def intro: bio_frame_trans)

lemma read_block:
  assumes "bio_ok c p Map.empty s" and "n < disksize s" and "card (pinned s) < NBUF"
  shows "wp (bread 1 n s) (\<lambda>b t. b_data (bufs t b) = content s n \<and> inodes t = inodes s \<and> wp (brelse b t) (\<lambda>_ u. same_files c p s u))"
proof -
  have "n \<in> pinned s \<or> content s n = disk s n" using content_clean [OF assms(1), of n] by auto
  then have "wp (bread 1 n s) (\<lambda>b t. b_data (bufs t b) = st_content (store_of s) n \<and> bio_frame s t
     \<and> wp (brelse b t) (\<lambda>_ u. bio_ok c p Map.empty u \<and> store_of u = store_of s \<and> bio_frame s u))"
    using assms by (intro bc.read_release) (simp_all add: store_of_def)
  then show ?thesis by (rule wp_mono) (auto simp: store_of_def same_files_def bio_frame_inodes elim: wp_mono)
qed

lemma read_then:
  assumes "bio_ok c p Map.empty s" and "n < disksize s" and "card (pinned s) < NBUF"
    and "\<And>u. same_files c p s u \<Longrightarrow> wp (k (content s n) u) Q"
  shows "wp (bread 1 n s) (\<lambda>bp t. wp (brelse bp t) (\<lambda>_ u. wp (k (b_data (bufs t bp)) u) Q))"
  using read_block [OF assms(1-3)] by (rule wp_mono) (auto elim!: wp_mono intro: assms(4))

lemma bmap_wp:
  assumes ok: "bio_ok c p Map.empty s" "card (pinned s) < NBUF" and x: "i_dev (inodes s ip) = 1"
    and m: "file_mapped (content s) (disksize s) (inodes s ip)" and bn: "unat bn < file_nblocks (inodes s ip)"
  shows "wp (bmap ip bn s) (\<lambda>a t. a = file_block (content s) (inodes s ip) (unat bn) \<and> same_files c p s t)"
proof (cases "unat bn < NDIRECT")
  case True
  then have "bn < of_nat NDIRECT" by (simp add: NDIRECT_def word_less_nat_alt)
  moreover have "i_addrs (inodes s ip) (unat bn) \<noteq> 0" using m bn True by (auto simp: file_mapped_def file_block_def)
  ultimately show ?thesis using True ok by (simp add: bmap_def file_block_def same_files_def)
next
  case False
  let ?x = "inodes s ip"
  let ?a = "i_addrs ?x NDIRECT" and ?bn = "bn - of_nat NDIRECT"
  have le: "\<not> bn < of_nat NDIRECT" "of_nat NDIRECT \<le> bn" using False by (simp_all add: NDIRECT_def word_less_nat_alt word_le_nat_alt)
  then have u: "unat ?bn = unat bn - NDIRECT" by (simp add: unat_sub NDIRECT_def)
  have "unat bn < MAXFILE" using m bn by (simp add: file_mapped_def)
  then have r: "?bn < of_nat NINDIRECT" using u by (simp add: word_less_nat_alt MAXFILE_def NDIRECT_def NINDIRECT_def BSIZE_def)
  have a: "?a \<noteq> 0" "?a < disksize s" and b: "get32 (content s ?a) (4 * (unat bn - NDIRECT)) \<noteq> 0"
    using m bn False by (auto simp: file_mapped_def file_block_def)
  have "wp (bread 1 ?a s) (\<lambda>bp t. b_data (bufs t bp) = content s ?a \<and> inodes t = inodes s \<and> wp (brelse bp t) (\<lambda>_ u. same_files c p s u))"
    by (rule read_block [OF ok(1) a(2) ok(2)])
  then show ?thesis
    using le(1) r a(1) b False u x unfolding bmap_def Let_def
    by (simp add: file_block_def) (erule wp_mono, auto elim: wp_mono)
qed

lemma content_length: "bio_ok c p h s \<Longrightarrow> length (content s n) = BSIZE"
  by (auto simp: bio_ok_def cache_ok_def content_def find_idx_Some buf_ok_def split: option.split)

text \<open>The rounds \<open>readi\<close> still has to go when \<open>r\<close> bytes are left from offset \<open>off\<close> on.\<close>

definition rounds :: "nat \<Rightarrow> nat \<Rightarrow> nat" where
  "rounds off r = (if r = 0 then 0 else (off mod 512 + r + 511) div 512)"

lemma rounds_step:
  assumes "0 < r" and "m = min r (512 - off mod 512)"
  shows "rounds (off + m) (r - m) < rounds off r"
proof (cases "r \<le> 512 - off mod 512")
  case True
  then show ?thesis using assms by (simp add: rounds_def) 
next
  case False
  then have m: "m = 512 - off mod 512" using assms(2) by simp
  have "off + m = 512 * (off div 512) + 512" using m by (metis add.commute add_diff_inverse_nat mod_less_divisor mult_div_mod_eq
    not_less_iff_gr_or_eq add.assoc less_imp_add_positive zero_less_numeral)
  then have "(off + m) mod 512 = 0" by simp
  moreover have e: "off mod 512 + r + 511 = (r - m + 511) + 512" using m False by simp
  have "rounds off r = (r - m + 511) div 512 + 1" unfolding rounds_def e using assms(1) by simp
  moreover have "rounds (off + m) (r - m) \<le> (r - m + 511) div 512" using \<open>(off + m) mod 512 = 0\<close> by (simp add: rounds_def)
  ultimately show ?thesis by simp
qed

lemma chunk_len:
  fixes off r :: u32
  shows "unat (min r (of_nat BSIZE - off mod of_nat BSIZE)) = min (unat r) (512 - unat off mod 512)"
proof -
  have "unat (off mod 512) = unat off mod 512" by (simp add: unat_mod)
  moreover have "off mod 512 \<le> 512" using word_mod_less_divisor [of 512 off] by simp
  ultimately have "unat (512 - off mod 512) = 512 - unat off mod 512" by (simp add: unat_sub)
  then show ?thesis by (auto simp: min_def word_le_nat_alt BSIZE_def)
qed

text \<open>The loop of \<open>readi\<close>: with a bound above the rounds left it appends the section of the file.\<close>

lemma readi_loop_wp:
  assumes "bio_ok c p Map.empty s" and "card (pinned s) < NBUF" and "i_dev (inodes s ip) = 1"
    and "file_mapped (content s) (disksize s) (inodes s ip)"
    and "tot \<le> n" and "unat off + unat (n - tot) \<le> unat (i_size (inodes s ip))" and "rounds (unat off) (unat (n - tot)) < fuel"
  shows "wp (readi_loop fuel ip off n tot dst s)
    (\<lambda>d t. d = dst @ take (unat (n - tot)) (drop (unat off) (file_bytes (content s) (inodes s ip))) \<and> same_files c p s t)"
  using assms
proof (induction fuel arbitrary: off tot dst s)
  case (Suc fuel)
  let ?x = "inodes s ip" and ?d = "content s"
  let ?F = "file_bytes ?d ?x"
  show ?case
  proof (cases "tot < n")
    case False
    then have "tot = n" using Suc.prems(5) by simp
    then show ?thesis using Suc.prems(1) by (simp add: same_files_def)
  next
    case True
    define r where "r = unat (n - tot)"
    define m where "m = min (n - tot) (of_nat BSIZE - off mod of_nat BSIZE)"
    have r: "0 < r" using True by (simp add: r_def unat_gt_0)
    have m: "unat m = min r (512 - unat off mod 512)" unfolding m_def r_def by (rule chunk_len)
    have bn: "unat (off div of_nat BSIZE) = unat off div 512" by (simp add: BSIZE_def unat_div)
    have md: "unat (off mod of_nat BSIZE) = unat off mod 512" by (simp add: BSIZE_def unat_mod)
    have sz: "unat off + r \<le> unat (i_size ?x)" using Suc.prems(6) by (simp add: r_def)
    have blk: "unat off div 512 < file_nblocks ?x" using sz r unfolding file_nblocks_def by linarith
    have o: "unat (off + m) = unat off + unat m"
      using sz m by (intro unat_add_below [of _ _ "i_size ?x"]) simp
    have t: "unat (n - (tot + m)) = r - unat m" "tot + m \<le> n" 
    proof -
      have "m \<le> n - tot" by (simp add: m_def)
      then have "unat tot + unat m \<le> unat n" using Suc.prems(5) by (simp add: word_le_nat_alt unat_sub)
      then show "tot + m \<le> n" by (simp add: word_le_nat_alt unat_add_below [of _ _ n])
      show "unat (n - (tot + m)) = r - unat m" using \<open>m \<le> n - tot\<close> by (simp add: r_def diff_diff_eq [symmetric] unat_sub)
    qed
    have dst: "take (unat m) (drop (unat off mod 512) (?d (file_block ?d ?x (unat off div 512)))) = take (unat m) (drop (unat off) ?F)"
      using sz m content_length [OF Suc.prems(1)] by (intro file_bytes_section [symmetric]) (simp_all add: BSIZE_def)
    have cat: "take (unat m) (drop (unat off) ?F) @ take (r - unat m) (drop (unat off + unat m) ?F) = take r (drop (unat off) ?F)"
    proof -
      have "unat m \<le> r" using m by simp
      then show ?thesis using take_add [of "unat m" "r - unat m" "drop (unat off) ?F"] by (simp add: add.commute)
    qed
    have IH: "wp (readi_loop fuel ip (off + m) n (tot + m) (dst @ take (unat m) (drop (unat off) ?F)) u)
        (\<lambda>e v. e = dst @ take r (drop (unat off) ?F) \<and> same_files c p s v)" if u: "same_files c p s u" for u
    proof -
      note f = same_filesD [OF u]
      have "rounds (unat off + unat m) (r - unat m) < fuel" using rounds_step [OF r m] Suc.prems(7) by (simp add: r_def)
      then have "wp (readi_loop fuel ip (off + m) n (tot + m) (dst @ take (unat m) (drop (unat off) ?F)) u)
        (\<lambda>e v. e = (dst @ take (unat m) (drop (unat off) ?F)) @ take (unat (n - (tot + m))) (drop (unat (off + m)) (file_bytes (content u) (inodes u ip)))
           \<and> same_files c p u v)"
        using Suc.prems sz m by (intro Suc.IH) (simp_all add: f t o)
      then show ?thesis by (rule wp_mono) (auto simp: f t o cat intro: same_files_trans [OF u])
    qed
    have rd: "wp (bread (i_dev (inodes t ip)) (file_block ?d ?x (unat off div 512)) t) (\<lambda>bp t. wp (brelse bp t)
        (\<lambda>_ u. wp (readi_loop fuel ip (off + m) n (tot + m) (dst @ take (unat m) (drop (unat off mod 512) (b_data (bufs t bp)))) u)
          (\<lambda>e v. e = dst @ take r (drop (unat off) ?F) \<and> same_files c p s v)))"
      if t: "same_files c p s t" for t
    proof -
      note f = same_filesD [OF t]
      have "file_block ?d ?x (unat off div 512) < disksize t" using Suc.prems(4) blk by (auto simp: f file_mapped_def)
      then show ?thesis
        using IH same_files_trans [OF t] Suc.prems(2,3) unfolding f by (simp add: f(3,5)) (rule read_then [OF f(1)], simp_all add: f dst)
    qed
    have "wp (bmap ip (off div of_nat BSIZE) s) (\<lambda>a t. a = file_block ?d ?x (unat off div 512) \<and> same_files c p s t)"
      using bmap_wp [OF Suc.prems(1-4), of "off div of_nat BSIZE"] blk by (simp add: bn)
    then show ?thesis
      using True by (simp add: m_def [symmetric] r_def [symmetric] md) (erule wp_mono, simp add: rd)
  qed
qed simp

lemma rounds_bound: "rounds off r < r div 512 + 3"
proof -
  have "off mod 512 + r + 511 \<le> r + 2 * 512" using mod_less_divisor [of 512 off] by simp
  then have "(off mod 512 + r + 511) div 512 \<le> (r + 2 * 512) div 512" by (rule div_le_mono)
  also have "\<dots> = r div 512 + 2" using div_mult_self1 [of 512 r 2] by (simp add: add.commute)
  finally show ?thesis by (simp add: rounds_def)
qed

lemma file_size_bound:
  assumes "file_mapped d sz x"
  shows "unat (i_size x) \<le> 71680"
proof -
  have "(unat (i_size x) + 511) div 512 \<le> 140"
    using assms by (simp add: file_mapped_def file_nblocks_def MAXFILE_def NDIRECT_def NINDIRECT_def BSIZE_def)
  then show ?thesis by linarith
qed

lemma file_bytes_length:
  assumes "\<And>n. length (d n) = 512"
  shows "length (file_bytes d x) = unat (i_size x)"
proof -
  have "length (concat (map (\<lambda>k. d (file_block d x k)) [0..<file_nblocks x])) = 512 * file_nblocks x"
    by (simp add: length_concat comp_def assms sum_list_triv)
  moreover have "unat (i_size x) \<le> 512 * file_nblocks x" unfolding file_nblocks_def by simp
  ultimately show ?thesis by (simp add: file_bytes_def)
qed

lemma readi_wp:
  assumes ok: "bio_ok c p Map.empty s" "card (pinned s) < NBUF" and x: "i_type (inodes s ip) \<noteq> T_DEV" "i_dev (inodes s ip) = 1"
    and m: "file_mapped (content s) (disksize s) (inodes s ip)"
    and r: "off \<le> i_size (inodes s ip)" "off \<le> off + n"
  shows "wp (readi ip off n s) (\<lambda>(r, d) t. same_files c p s t \<and> r = int (length d)
    \<and> d = take (unat n) (drop (unat off) (file_bytes (content s) (inodes s ip))))"
proof -
  let ?z = "i_size (inodes s ip)" and ?F = "file_bytes (content s) (inodes s ip)"
  define k where "k = (if off + n > ?z then ?z - off else n)"
  have o: "unat off + unat n < 4294967296" using r(2) unat_u32 [of off] unat_u32 [of n]
    by (simp add: word_le_nat_alt unat_word_ariths(1) mod_if split: if_splits)
  have k: "unat k = min (unat n) (unat ?z - unat off)"
    using r(1) o by (auto simp: k_def word_less_nat_alt word_le_nat_alt unat_sub unat_word_ariths(1))
  have z: "unat ?z \<le> 71680" by (rule file_size_bound [OF m])
  have len: "length ?F = unat ?z" using content_length [OF ok(1)] by (intro file_bytes_length) (simp add: BSIZE_def)
  have s: "sint k = int (unat k)" using k z by (intro sint_small) simp
  have "wp (readi_loop (unat k div BSIZE + 3) ip off k 0 [] s)
     (\<lambda>d t. d = [] @ take (unat (k - 0)) (drop (unat off) ?F) \<and> same_files c p s t)"
    using r(1) k rounds_bound [of "unat off" "unat k"]
    by (intro readi_loop_wp [OF ok x(2) m]) (simp_all add: BSIZE_def word_le_nat_alt)
  moreover have "take (unat k) (drop (unat off) ?F) = take (unat n) (drop (unat off) ?F)" using k len by (simp add: min_def)
  moreover have "length (take (unat n) (drop (unat off) ?F)) = unat k" using k len by simp
  ultimately show ?thesis using x(1) r unfolding readi_def Let_def k_def [symmetric]
    by (simp add: not_less s) (erule wp_mono, simp)
qed

section \<open>A small file system\<close>

text \<open>Block 1 is the super block, blocks 2 to 11 are the log, and block 19 is the bitmap. Block 32 holds the inodes: number 1 is the root
  directory, with one entry in block 20, and number 2 is a file of six bytes in block 21. The entry of the root has the name \<open>a\<close>
  and inode 2. All other blocks are free.\<close>

definition demo_iblock :: "u8 list" where
  "demo_iblock = replicate 64 0 @ [1, 0, 0, 0, 0, 0, 1, 0, 16, 0, 0, 0, 20, 0, 0, 0] @ replicate 48 0
     @ [2, 0, 0, 0, 0, 0, 1, 0, 6, 0, 0, 0, 21, 0, 0, 0] @ replicate 368 0"

definition demo_disk :: "u32 \<Rightarrow> u8 list" where
  "demo_disk n = (if n = 32 then demo_iblock else if n = 20 then [2, 0, 97] @ replicate 509 0
     else if n = 21 then [104, 101, 108, 108, 111, 10] @ replicate 506 0
     else if n = 19 then [255, 15, 56, 0, 1] @ replicate 507 0
     else if n = 1 then [33, 0, 0, 0, 13, 0, 0, 0, 8, 0, 0, 0, 10, 0, 0, 0, 2, 0, 0, 0, 32, 0, 0, 0, 19, 0, 0, 0] @ replicate 484 0
     else replicate 512 0)"

definition demo_sb :: superblock where
  "demo_sb = \<lparr>sb_size = 33, sb_nblocks = 13, sb_ninodes = 8, sb_nlog = 10, sb_logstart = 2, sb_inodestart = 32, sb_bmapstart = 19\<rparr>"

definition demo_fs :: consst where
  "demo_fs = icst.extend (logst.extend (biost.extend (slst.extend (ptab.extend run_ptab
       \<lparr>sleeplks = (\<lambda>_. \<lparr>sl_locked = False, sl_pid = 0\<rparr>)\<rparr>)
     \<lparr>bufs = demo_bufs, disk = demo_disk, disksize = 33, disk_writes = []\<rparr>)
     \<lparr>log_start = 2, log_size = 10, log_outstanding = 0, log_committing = False, log_dev = 1, log_lh = \<lparr>lh_n = 0, lh_block = (\<lambda>_. 0)\<rparr>\<rparr>)
     \<lparr>inodes = (\<lambda>_. \<lparr>i_dev = 0, i_inum = 0, i_ref = 0, i_valid = False, i_type = 0, i_major = 0, i_minor = 0, i_nlink = 0,
        i_size = 0, i_addrs = (\<lambda>_. 0)\<rparr>), sb = demo_sb\<rparr>)
     \<lparr>panicked = False, cons_locking = True, crt = (\<lambda>_. 0), crt_cursor = 0, uart = False, uart_out = [], input_buf = (\<lambda>_. 0),
      input_r = 0, input_w = 0, input_e = 0, kbd_shift = 0, devsws = (\<lambda>_. \<lparr>dev_read = None, dev_write = None\<rparr>)\<rparr>"

lemmas demo_defs = icst.defs logst.defs biost.defs slst.defs ptab.defs

lemma demo_fs_simps [simp]:
  "bufs demo_fs = demo_bufs" "disk demo_fs = demo_disk" "disksize demo_fs = 33" "sb demo_fs = demo_sb"
  "sleeplks demo_fs = (\<lambda>_. \<lparr>sl_locked = False, sl_pid = 0\<rparr>)" "i_ref (inodes demo_fs i) = 0"
  by (simp_all add: demo_fs_def demo_defs)

lemma demo_disk_length: "length (demo_disk n) = 512"
  by (simp add: demo_disk_def demo_iblock_def)

lemma demo_fs_bio: "bio_ok 0 0 Map.empty demo_fs" "content demo_fs = demo_disk" "pinned demo_fs = {}"
proof -
  have r: "ring (bufs demo_fs) (rev [0..<NBUF])" by (rule demo_ring) simp_all
  have z: "zeroed (bufs demo_fs b) \<and> \<not> sl_locked (sleeplks demo_fs (BufSL b))" for b by (simp add: zeroed_def demo_bufs_def)
  have d: "length (disk demo_fs n) = BSIZE" for n by (simp add: demo_disk_length BSIZE_def)
  have "quiet 0 0 demo_fs" by (rule quietI) (simp_all add: demo_fs_def demo_defs)
  then show "bio_ok 0 0 Map.empty demo_fs" "content demo_fs = demo_disk" "pinned demo_fs = {}"
    using zeroed_cache [OF r d z] by (simp_all add: bio_ok_def)
qed

text \<open>The same with the file loaded in the first entry of the inode table.\<close>

definition demo_open :: consst where
  "demo_open = demo_fs\<lparr>inodes := (inodes demo_fs)(0 := \<lparr>i_dev = 1, i_inum = 2, i_ref = 1, i_valid = True, i_type = T_FILE, i_major = 0, i_minor = 0,
     i_nlink = 1, i_size = 6, i_addrs = (\<lambda>_. 0)(0 := 21)\<rparr>)\<rparr>"

section \<open>Properties\<close>

text \<open>C10: \<open>readi\<close> returns the bytes of the file from the offset on, as many as were asked for or as there are, whether they lie in
  direct or in indirect blocks and across any number of blocks; an offset behind the end or one that overflows gives -1. No block
  and no inode changes, and all buffers are given back.\<close>

theorem readi_correct:
  assumes "bio_ok c p Map.empty s" and "card (pinned s) < NBUF" and "i_type (inodes s ip) \<noteq> T_DEV" and "i_dev (inodes s ip) = 1"
    and "file_mapped (content s) (disksize s) (inodes s ip)"
  shows "wp (readi ip off n s) (\<lambda>(r, d) t. same_files c p s t \<and>
    (if i_size (inodes s ip) < off \<or> off + n < off then r = - 1 \<and> d = []
     else r = int (length d) \<and> d = take (unat n) (drop (unat off) (file_bytes (content s) (inodes s ip)))))"
proof (cases "i_size (inodes s ip) < off \<or> off + n < off")
  case True
  then show ?thesis using assms(1,3) by (auto simp: readi_def same_files_def)
next
  case False
  then show ?thesis using readi_wp [OF assms, of off n] by (auto elim!: wp_mono simp: not_less)
qed

theorem readi_correct_witness:
  "bio_ok 0 0 Map.empty demo_open \<and> file_mapped (content demo_open) (disksize demo_open) (inodes demo_open 0)
   \<and> wp (readi 0 2 100 demo_open) (\<lambda>(r, d) t. same_files 0 0 demo_open t \<and> r = 4 \<and> d = [108, 108, 111, 10])"
proof -
  have ok: "bio_ok 0 0 Map.empty demo_open" "content demo_open = demo_disk" "pinned demo_open = {}" "disksize demo_open = 33"
    using demo_fs_bio by (simp_all add: demo_open_def)
  let ?x = "inodes demo_open 0"
  have x: "i_type ?x \<noteq> T_DEV" "i_dev ?x = 1" "i_size ?x = 6" by (simp_all add: demo_open_def T_FILE_def T_DEV_def)
  have n: "file_nblocks ?x = 1" "file_block demo_disk ?x 0 = 21" by (simp_all add: file_nblocks_def demo_open_def file_block_def NDIRECT_def)
  have m: "file_mapped demo_disk 33 ?x" by (simp add: file_mapped_def n MAXFILE_def NDIRECT_def)
  have b: "file_bytes demo_disk ?x = [104, 101, 108, 108, 111, 10]" by (simp add: file_bytes_def n demo_disk_def x)
  have "wp (readi 0 2 100 demo_open) (\<lambda>(r, d) t. same_files 0 0 demo_open t \<and> r = 4 \<and> d = [108, 108, 111, 10])"
    using readi_correct [OF ok(1), of 0 2 100] x m by (auto simp: ok b NBUF_def elim!: wp_mono)
  then show ?thesis using ok m by simp
qed

end
