(* ===== verification/Icache.thy ===== *)
theory Icache
  imports Filedata
begin

text \<open>
  The cache of inodes, seen from outside: which inode numbers are in use and how often, and that a loaded inode agrees
  with its copy on the disk. \<open>H\<close> is the set of the cache entries whose sleep lock the current process holds.
\<close>

section \<open>The operations on a quiet machine\<close>

lemma enter_inodes [simp]: "inodes (enter lk c s) = inodes s" "sb (enter lk c s) = sb s"
  by (simp_all add: enter_def)

lemma release_inodes:
  assumes "quiet c p s"
  shows "release lk (upd_inode i f (enter lk c s)) = Ret () (upd_inode i f s)"
proof -
  let ?t = "upd_inode i f (enter lk c s)"
  have "same_core (enter lk c s) ?t" by (simp add: same_core_def upd_inode_def)
  then have "release lk ?t = Ret () (leave lk c ?t)" using release_section [OF quietD(1,2) [OF assms]] by blast
  moreover have "leave lk c ?t = upd_inode i f (leave lk c (enter lk c s))" by (simp add: upd_inode_def leave_def)
  ultimately show ?thesis using enter_then_leave [OF quietD(1,2) [OF assms]] by simp
qed

lemma upd_inode_twice: "upd_inode i f (upd_inode i g s) = upd_inode i (\<lambda>x. f (g x)) s"
  by (simp add: upd_inode_def)

lemma iget_eq:
  assumes q: "quiet c p s"
  shows "iget dev n s =
    (case find_idx (\<lambda>i. i_ref (inodes s i) > 0 \<and> i_dev (inodes s i) = dev \<and> i_inum (inodes s i) = n) NINODE of
       Some i \<Rightarrow> Ret i (upd_inode i (\<lambda>x. x\<lparr>i_ref := i_ref x + 1\<rparr>) s)
     | None \<Rightarrow>
         (case find_idx (\<lambda>i. i_ref (inodes s i) = 0) NINODE of
            None \<Rightarrow> Panic ''iget: no inodes''
          | Some i \<Rightarrow> Ret i (upd_inode i (\<lambda>x. x\<lparr>i_dev := dev, i_inum := n, i_ref := 1, i_valid := False\<rparr>) s)))"
  unfolding iget_def Let_def upd_inode_twice
  by (simp add: acquire_calm [OF quietD(1,2) [OF q]] release_inodes [OF q] split: option.split)

lemma idup_eq:
  assumes q: "quiet c p s"
  shows "idup i s = Ret i (upd_inode i (\<lambda>x. x\<lparr>i_ref := i_ref x + 1\<rparr>) s)"
  by (simp add: idup_def Let_def acquire_calm [OF quietD(1,2) [OF q]] release_inodes [OF q])

section \<open>The invariant\<close>

text \<open>The fields of an inode that the disk holds, loaded into \<open>x\<close>.\<close>

definition load :: "(u32 \<Rightarrow> u8 list) \<Rightarrow> superblock \<Rightarrow> inode \<Rightarrow> inode" where
  "load d sblk x = dinode_get (d (IBLOCK (i_inum x) sblk)) (dinode_off (i_inum x)) x"

definition inode_ok :: "u32 \<Rightarrow> bool \<Rightarrow> (u32 \<Rightarrow> u8 list) \<Rightarrow> superblock \<Rightarrow> sleeplock \<Rightarrow> inode \<Rightarrow> bool" where
  "inode_ok pid h d sblk sl x \<longleftrightarrow> 0 \<le> i_ref x \<and> sl_locked sl = h \<and> (h \<longrightarrow> sl_pid sl = pid \<and> 0 < i_ref x)
     \<and> (0 < i_ref x \<longrightarrow> i_dev x = 1 \<and> (i_valid x \<longrightarrow> load d sblk x = x))"

definition icache_ok :: "u32 \<Rightarrow> nat set \<Rightarrow> 'a icst_scheme \<Rightarrow> bool" where
  "icache_ok pid H s \<longleftrightarrow>
     (\<forall>i < NINODE. inode_ok pid (i \<in> H) (content s) (sb s) (sleeplks s (InodeSL i)) (inodes s i))
     \<and> (\<forall>i < NINODE. \<forall>j < NINODE. 0 < i_ref (inodes s i) \<longrightarrow> 0 < i_ref (inodes s j) \<longrightarrow>
          i_inum (inodes s i) = i_inum (inodes s j) \<longrightarrow> i = j)"

definition fs_ok :: "nat \<Rightarrow> nat \<Rightarrow> nat set \<Rightarrow> 'a icst_scheme \<Rightarrow> bool" where
  "fs_ok c p H s \<longleftrightarrow> bio_ok c p Map.empty s \<and> icache_ok (p_pid (procs s p)) H s"

text \<open>How often the inode \<open>n\<close> is in use.\<close>

definition ientry :: "'a icst_scheme \<Rightarrow> u32 \<Rightarrow> nat option" where
  "ientry s n = find_idx (\<lambda>i. i_ref (inodes s i) > 0 \<and> i_dev (inodes s i) = 1 \<and> i_inum (inodes s i) = n) NINODE"

definition iref :: "'a icst_scheme \<Rightarrow> u32 \<Rightarrow> int" where
  "iref s n = (case ientry s n of Some i \<Rightarrow> i_ref (inodes s i) | None \<Rightarrow> 0)"

definition free_entries :: "'a icst_scheme \<Rightarrow> nat set" where
  "free_entries s = {i. i < NINODE \<and> i_ref (inodes s i) = 0}"

lemma ientry_eq:
  assumes "icache_ok pid H s" and "i < NINODE" and "0 < i_ref (inodes s i)"
  shows "ientry s (i_inum (inodes s i)) = Some i"
proof (cases "ientry s (i_inum (inodes s i))")
  case None
  then show ?thesis using assms by (auto simp: ientry_def find_idx_None icache_ok_def inode_ok_def)
next
  case (Some j)
  then have "j < NINODE" "0 < i_ref (inodes s j)" "i_inum (inodes s j) = i_inum (inodes s i)" by (auto simp: ientry_def find_idx_Some)
  then have "j = i" using assms by (auto simp: icache_ok_def)
  then show ?thesis using Some by simp
qed

lemma ientry_Some:
  assumes "ientry s n = Some i"
  shows "i < NINODE" "0 < i_ref (inodes s i)" "i_inum (inodes s i) = n" "i_dev (inodes s i) = 1"
  using assms by (auto simp: ientry_def find_idx_Some)

text \<open>A step that changes the entry \<open>i\<close> only.\<close>

lemma icache_upd:
  assumes ok: "icache_ok pid H s" and i: "i < NINODE"
    and x: "inode_ok pid (i \<in> H) (content s) (sb s) (sleeplks s (InodeSL i)) x"
    and new: "\<And>j. 0 < i_ref x \<Longrightarrow> ientry s (i_inum x) = Some j \<Longrightarrow> j = i"
  shows "icache_ok pid H (s\<lparr>inodes := (inodes s)(i := x)\<rparr>)"
proof -
  have "j = i" if "j < NINODE" "0 < i_ref (inodes s j)" "0 < i_ref x" "i_inum (inodes s j) = i_inum x" for j
    using new [of j] ientry_eq [OF ok that(1,2)] that by simp
  then show ?thesis using ok i x unfolding icache_ok_def by auto
qed

lemma iref_upd:
  assumes s: "icache_ok pid H s" and t: "icache_ok pid H' t" "inodes t = (inodes s)(i := x)" and i: "i < NINODE"
    and n: "0 < i_ref (inodes s i) \<Longrightarrow> i_inum (inodes s i) = n" "0 < i_ref x \<Longrightarrow> i_inum x = n"
    and one: "\<And>j. ientry s n = Some j \<Longrightarrow> j = i"
  shows "iref t = (iref s)(n := i_ref x)"
proof
  fix m
  show "iref t m = ((iref s)(n := i_ref x)) m"
  proof (cases "m = n")
    case False
    then have e: "ientry t m = ientry s m"
      unfolding ientry_def t(2) using n by (intro find_idx_cong) auto
    have "inodes t j = inodes s j" if "ientry s m = Some j" for j
      using ientry_Some [OF that] False n t(2) by auto
    then show ?thesis using False e by (simp add: iref_def split: option.split)
  next
    case True
    show ?thesis
    proof (cases "0 < i_ref x")
      case True
      then have "ientry t n = Some i" using ientry_eq [OF t(1) i] n t(2) by auto
      then show ?thesis using \<open>m = n\<close> t(2) by (simp add: iref_def)
    next
      case False
      then have z: "i_ref x = 0" using t i by (auto simp: icache_ok_def inode_ok_def dest!: spec [of _ i])
      have "ientry t n \<noteq> Some j" for j
      proof
        assume j: "ientry t n = Some j"
        then have "j \<noteq> i" using ientry_Some(2) [OF j] t(2) z by auto
        then have "ientry s n = Some j" using ientry_eq [OF s, of j] ientry_Some [OF j] t(2) by auto
        then show False using one \<open>j \<noteq> i\<close> by blast
      qed
      then have "ientry t n = None" by (cases "ientry t n") auto
      then show ?thesis using \<open>m = n\<close> z by (simp add: iref_def)
    qed
  qed
qed

lemma free_count:
  assumes "icache_ok pid H s"
  shows "card (free_entries s) + card {n. 0 < iref s n} = NINODE"
proof -
  define U where "U = {i. i < NINODE \<and> 0 < i_ref (inodes s i)}"
  have "inj_on (\<lambda>i. i_inum (inodes s i)) U" using assms by (auto simp: inj_on_def U_def icache_ok_def)
  moreover have "(\<lambda>i. i_inum (inodes s i)) ` U = {n. 0 < iref s n}"
  proof (safe, goal_cases)
    case (1 _ i)
    then show ?case using ientry_eq [OF assms, of i] by (simp add: U_def iref_def)
  next
    case (2 n)
    then obtain i where i: "ientry s n = Some i" by (cases "ientry s n") (auto simp: iref_def)
    then show ?case using ientry_Some [OF i] by (auto simp: U_def)
  qed
  ultimately have "card {n. 0 < iref s n} = card U" by (metis card_image)
  moreover have "free_entries s \<inter> U = {}" "free_entries s \<union> U = {..<NINODE}"
    using assms by (auto simp: free_entries_def U_def icache_ok_def inode_ok_def not_less order_antisym_conv)
  moreover have "finite (free_entries s)" "finite U" by (simp_all add: free_entries_def U_def)
  ultimately show ?thesis using card_Un_disjoint [of "free_entries s" U] by simp
qed

section \<open>Reference counts\<close>

definition same_disk :: "'a icst_scheme \<Rightarrow> 'a icst_scheme \<Rightarrow> bool" where
  "same_disk s t \<longleftrightarrow> store_of t = store_of s \<and> sb t = sb s \<and> disksize t = disksize s"

lemma same_disk_refl [simp]: "same_disk s s"
  by (simp add: same_disk_def)

lemma same_disk_trans: "same_disk s t \<Longrightarrow> same_disk t u \<Longrightarrow> same_disk s u"
  by (simp add: same_disk_def)

lemma same_diskD:
  assumes "same_disk s t"
  shows "content t = content s" "pinned t = pinned s" "sb t = sb s" "disksize t = disksize s"
  using assms by (simp_all add: same_disk_def store_of_def)

text \<open>An inode without its reference count.\<close>

definition unref :: "inode \<Rightarrow> inode" where
  "unref x = x\<lparr>i_ref := 0\<rparr>"

lemma unrefD:
  assumes "unref x = unref y"
  shows "i_inum x = i_inum y" "i_dev x = i_dev y" "i_valid x = i_valid y" "i_type x = i_type y" "i_nlink x = i_nlink y" "i_size x = i_size y"
    "i_addrs x = i_addrs y" "i_major x = i_major y"
  using assms by (cases x; cases y; simp add: unref_def)+

lemma unref_upd [simp]: "unref (x\<lparr>i_ref := k\<rparr>) = unref x"
  by (simp add: unref_def)

lemma load_ref [simp]: "load d sblk (x\<lparr>i_ref := k\<rparr>) = (load d sblk x)\<lparr>i_ref := k\<rparr>"
  by (simp add: load_def dinode_get_def cong: if_cong)

text \<open>The count of an entry in use changes.\<close>

lemma ref_change:
  assumes ok: "fs_ok c p H s" and i: "ientry s n = Some i" and k: "0 \<le> k" "i \<in> H \<Longrightarrow> 0 < k"
  defines "t \<equiv> upd_inode i (\<lambda>x. x\<lparr>i_ref := k\<rparr>) s"
  shows "fs_ok c p H t \<and> same_disk s t \<and> iref t = (iref s)(n := k) \<and> (\<forall>j. unref (inodes t j) = unref (inodes s j))
    \<and> (\<forall>m. 0 < iref t m \<longrightarrow> ientry t m = ientry s m)"
proof -
  let ?x = "(inodes s i)\<lparr>i_ref := k\<rparr>"
  have t: "t = s\<lparr>inodes := (inodes s)(i := ?x)\<rparr>" by (simp add: t_def upd_inode_def)
  note e = ientry_Some [OF i]
  have s: "icache_ok (p_pid (procs s p)) H s" "bio_ok c p Map.empty s" using ok by (simp_all add: fs_ok_def)
  then have "inode_ok (p_pid (procs s p)) (i \<in> H) (content s) (sb s) (sleeplks s (InodeSL i)) (inodes s i)" using e(1) by (simp add: icache_ok_def)
  then have x: "inode_ok (p_pid (procs s p)) (i \<in> H) (content s) (sb s) (sleeplks s (InodeSL i)) ?x" using e k by (auto simp: inode_ok_def)
  have "ientry t m = ientry s m" if m: "0 < iref t m" for m
  proof -
    obtain j where j: "ientry t m = Some j" using m by (cases "ientry t m") (auto simp: iref_def)
    then have "0 < i_ref (inodes s j)" "i_inum (inodes s j) = m" using ientry_Some [OF j] e by (auto simp: t split: if_splits)
    then show ?thesis using ientry_eq [OF s(1) ientry_Some(1) [OF j]] j by simp
  qed
  moreover have "icache_ok (p_pid (procs s p)) H t" unfolding t using s(1) e(1) x by (rule icache_upd) (use i e in auto)
  moreover from this have "iref t = (iref s)(n := i_ref ?x)"
    by (rule iref_upd [OF s(1), where i = i]) (use e i in \<open>auto simp: t\<close>)
  ultimately show ?thesis using s(2) by (simp add: t fs_ok_def same_disk_def)
qed

lemma iget_wp:
  assumes ok: "fs_ok c p H s" and room: "iref s n = 0 \<Longrightarrow> card {m. 0 < iref s m} < NINODE"
  shows "wp (iget 1 n s) (\<lambda>i t. ientry t n = Some i \<and> fs_ok c p H t \<and> same_disk s t \<and> iref t = (iref s)(n := iref s n + 1)
    \<and> (\<forall>j. 0 < i_ref (inodes s j) \<longrightarrow> unref (inodes t j) = unref (inodes s j)))"
proof -
  have s: "icache_ok (p_pid (procs s p)) H s" "bio_ok c p Map.empty s" "quiet c p s" using ok by (simp_all add: fs_ok_def bio_ok_def)
  show ?thesis
  proof (cases "ientry s n")
    case (Some i)
    let ?t = "upd_inode i (\<lambda>x. x\<lparr>i_ref := i_ref (inodes s i) + 1\<rparr>) s"
    have t: "upd_inode i (\<lambda>x. x\<lparr>i_ref := i_ref x + 1\<rparr>) s = ?t" by (simp add: upd_inode_def)
    have "fs_ok c p H ?t \<and> same_disk s ?t \<and> iref ?t = (iref s)(n := i_ref (inodes s i) + 1) \<and> (\<forall>j. unref (inodes ?t j) = unref (inodes s j))
      \<and> (\<forall>m. 0 < iref ?t m \<longrightarrow> ientry ?t m = ientry s m)"
      by (rule ref_change [OF ok Some]) (use ientry_Some [OF Some] in auto)
    moreover have "iref s n = i_ref (inodes s i)" using Some by (simp add: iref_def)
    moreover have "ientry ?t n = Some i"
      using ientry_eq [of "p_pid (procs s p)" H ?t i] calculation(1) ientry_Some [OF Some] by (simp add: upd_inode_def fs_ok_def)
    ultimately show ?thesis using Some t by (simp add: iget_eq [OF s(3)] ientry_def)
  next
    case None
    then have z: "iref s n = 0" by (simp add: iref_def)
    then have "card (free_entries s) > 0" using room free_count [OF s(1)] by simp
    then have "free_entries s \<noteq> {}" by auto
    then obtain i where i: "find_idx (\<lambda>i. i_ref (inodes s i) = 0) NINODE = Some i"
      by (cases "find_idx (\<lambda>i. i_ref (inodes s i) = 0) NINODE") (auto simp: find_idx_None free_entries_def)
    then have i': "i < NINODE" "i_ref (inodes s i) = 0" by (auto simp: find_idx_Some)
    let ?x = "(inodes s i)\<lparr>i_dev := 1, i_inum := n, i_ref := 1, i_valid := False\<rparr>"
    let ?t = "s\<lparr>inodes := (inodes s)(i := ?x)\<rparr>"
    have "inode_ok (p_pid (procs s p)) (i \<in> H) (content s) (sb s) (sleeplks s (InodeSL i)) (inodes s i)" using s(1) i' by (simp add: icache_ok_def)
    then have x: "inode_ok (p_pid (procs s p)) (i \<in> H) (content s) (sb s) (sleeplks s (InodeSL i)) ?x" using i' by (auto simp: inode_ok_def)
    have t: "icache_ok (p_pid (procs s p)) H ?t" using s(1) i'(1) x by (rule icache_upd) (use None in auto)
    moreover from this have "iref ?t = (iref s)(n := i_ref ?x)"
      by (rule iref_upd [OF s(1), where i = i]) (use i' None in auto)
    moreover have "ientry ?t n = Some i" using ientry_eq [OF t i'(1)] by simp
    ultimately show ?thesis using None i i' z s(2)
      by (simp add: iget_eq [OF s(3)] ientry_def upd_inode_def fs_ok_def same_disk_def)
  qed
qed

section \<open>Locks of inodes\<close>

lemma isleep_simps [simp]:
  "content (set_sleep (InodeSL i) b q s) = content s" "pinned (set_sleep (InodeSL i) b q s) = pinned s"
  "store_of (set_sleep (InodeSL i) b q s) = store_of s" "bio_ok c p h (set_sleep (InodeSL i) b q s) = bio_ok c p h s"
  "inodes (set_sleep (InodeSL i) b q u) = inodes u" "sb (set_sleep (InodeSL i) b q u) = sb u"
proof -
  show c: "content (set_sleep (InodeSL i) b q s) = content s" "pinned (set_sleep (InodeSL i) b q s) = pinned s"
    by (simp_all add: content_def pinned_def set_sleep_def fun_eq_iff split: option.split)
  then show "store_of (set_sleep (InodeSL i) b q s) = store_of s" by (simp add: store_of_def set_sleep_def)
  have "quiet c p (set_sleep (InodeSL i) b q s) = quiet c p s" by (simp add: set_sleep_def)
  then show "bio_ok c p h (set_sleep (InodeSL i) b q s) = bio_ok c p h s"
    by (simp add: bio_ok_def cache_ok_def caches_def) (simp add: set_sleep_def)
qed (simp_all add: set_sleep_def)

lemma sched_eq_inodes:
  assumes "sched_eq s t"
  shows "inodes t = inodes s" "sb t = sb s" "sleeplks t = sleeplks s" "disksize t = disksize s" "p_pid (procs t q) = p_pid (procs s q)"
proof -
  have "inodes (unsched u) = inodes u" "sb (unsched u) = sb u" "sleeplks (unsched u) = sleeplks u" "disksize (unsched u) = disksize u"
    "p_pid (procs (unsched u) q) = p_pid (procs u q)" for u :: "'b icst_scheme"
    by (simp_all add: unsched_def)
  with assms show "inodes t = inodes s" "sb t = sb s" "sleeplks t = sleeplks s" "disksize t = disksize s" "p_pid (procs t q) = p_pid (procs s q)"
    unfolding sched_eq_def by metis+
qed

lemma sched_eq_fs:
  assumes "sched_eq s t" and "quiet c p t" and "fs_ok c p H s"
  shows "fs_ok c p H t" "same_disk s t"
proof -
  note e = sched_eq_bufs [OF assms(1)] sched_eq_inodes [OF assms(1)]
  have c: "content t = content s" "pinned t = pinned s" unfolding content_def [abs_def] pinned_def e by simp_all
  then show "same_disk s t" using e by (simp add: same_disk_def store_of_def)
  show "fs_ok c p H t" using assms(2,3) e c by (simp add: fs_ok_def bio_ok_def cache_ok_def caches_def icache_ok_def)
qed

lemma icache_lock:
  assumes ok: "icache_ok pid H s" and i: "i < NINODE \<Longrightarrow> b = (i \<in> H')" "i \<in> H' \<Longrightarrow> q = pid \<and> 0 < i_ref (inodes s i)" and H: "H' - {i} = H - {i}"
  shows "icache_ok pid H' (set_sleep (InodeSL i) b q s)"
proof -
  have "inode_ok pid (j \<in> H') (content s) (sb s) (sleeplks (set_sleep (InodeSL i) b q s) (InodeSL j)) (inodes s j)" if j: "j < NINODE" for j
  proof -
    have "inode_ok pid (j \<in> H) (content s) (sb s) (sleeplks s (InodeSL j)) (inodes s j)" using ok j by (simp add: icache_ok_def)
    moreover have "j \<noteq> i \<Longrightarrow> j \<in> H' \<longleftrightarrow> j \<in> H" using H by blast
    ultimately show ?thesis using i j by (cases "j = i") (auto simp: inode_ok_def set_sleep_def)
  qed
  then show ?thesis using ok by (simp add: icache_ok_def)
qed

lemma acquiresleep_fs:
  assumes ok: "fs_ok c p H s" and i: "i < NINODE" "i \<notin> H" "0 < i_ref (inodes s i)"
  defines "t \<equiv> set_sleep (InodeSL i) True (p_pid (procs s p)) s"
  shows "acquiresleep (InodeSL i) s = Ret () t" "fs_ok c p (insert i H) t" "same_disk s t"
proof -
  have "\<not> sl_locked (sleeplks s (InodeSL i))" using ok i by (auto simp: fs_ok_def icache_ok_def inode_ok_def)
  then show "acquiresleep (InodeSL i) s = Ret () t" using acquiresleep_eq [of c p s "InodeSL i"] ok by (simp add: fs_ok_def bio_ok_def t_def)
  show "fs_ok c p (insert i H) t"
    using ok i icache_lock [of "p_pid (procs s p)" H s i True "insert i H"] by (simp add: fs_ok_def t_def) (simp add: set_sleep_def)
  show "same_disk s t" by (simp add: same_disk_def t_def) (simp add: set_sleep_def)
qed

lemma releasesleep_fs:
  assumes ok: "fs_ok c p H s"
  shows "wp (releasesleep (InodeSL i) s) (\<lambda>_ t. fs_ok c p (H - {i}) t \<and> same_disk s t \<and> inodes t = inodes s)"
proof -
  have q: "quiet c p s" using ok by (simp add: fs_ok_def bio_ok_def)
  let ?u = "set_sleep (InodeSL i) False 0 s"
  have u: "fs_ok c p (H - {i}) ?u" "same_disk s ?u"
    using ok icache_lock [of "p_pid (procs s p)" H s i False "H - {i}" 0] by (simp_all add: fs_ok_def same_disk_def) (simp_all add: set_sleep_def)
  show ?thesis
  proof (rule wp_mono [OF releasesleep_wp [OF q]])
    fix x t
    assume "quiet c p t \<and> woken (Some (sl_chan (InodeSL i))) [0..<NPROC] ?u t"
    then have "quiet c p t" "sched_eq ?u t" by (simp_all add: woken_def)
    then show "fs_ok c p (H - {i}) t \<and> same_disk s t \<and> inodes t = inodes s"
      using sched_eq_fs [of ?u t] sched_eq_inodes(1) [of ?u t] u same_disk_trans [OF u(2)] by simp
  qed
qed

lemma iunlock_wp:
  assumes ok: "fs_ok c p H s" and i: "i < NINODE" "i \<in> H"
  shows "wp (iunlock (Some i) s) (\<lambda>_ t. fs_ok c p (H - {i}) t \<and> same_disk s t \<and> inodes t = inodes s)"
proof -
  have q: "quiet c p s" using ok by (simp add: fs_ok_def bio_ok_def)
  have "sl_locked (sleeplks s (InodeSL i))" "sl_pid (sleeplks s (InodeSL i)) = p_pid (procs s p)" "0 < i_ref (inodes s i)"
    using ok i by (auto simp: fs_ok_def icache_ok_def inode_ok_def)
  then show ?thesis using releasesleep_fs [OF ok, of i] by (simp add: iunlock_def holdingsleep_eq [OF q])
qed

text \<open>Reading a block, with the table of inodes changed before the buffer is given back.\<close>

lemma bio_frame_inodes_upd: "bio_frame s t \<Longrightarrow> bio_frame (s\<lparr>inodes := y\<rparr>) (t\<lparr>inodes := y\<rparr>)"
proof -
  have "bio_blank (u\<lparr>inodes := y\<rparr>) = (bio_blank u)\<lparr>inodes := y\<rparr>" for u :: "'a icst_scheme"
    by (simp add: bio_blank_def buf_blank_def unsched_def)
  then show "bio_frame s t \<Longrightarrow> bio_frame (s\<lparr>inodes := y\<rparr>) (t\<lparr>inodes := y\<rparr>)" by (simp add: bio_frame_def)
qed

lemma read_keep:
  assumes "bio_ok c p Map.empty s" and "n < disksize s" and "card (pinned s) < NBUF"
  shows "wp (bread 1 n s) (\<lambda>b t. b_data (bufs t b) = content s n \<and> inodes t = inodes s
    \<and> (\<forall>y. wp (brelse b (t\<lparr>inodes := y\<rparr>)) (\<lambda>_ u. same_files c p (s\<lparr>inodes := y\<rparr>) u)))"
proof -
  have "wp (bread 1 n s) (\<lambda>b t. bio_ok c p [b \<mapsto> n] t \<and> store_of t = store_of s \<and> bio_frame s t)"
    using assms(3) by (intro wp_mono [OF bc.rd [OF assms(1,2)]]) (simp_all add: store_of_def)
  then show ?thesis
  proof (rule wp_mono, intro conjI allI)
    fix b t y
    assume t: "bio_ok c p [b \<mapsto> n] t \<and> store_of t = store_of s \<and> bio_frame s t"
    then show "b_data (bufs t b) = content s n" "inodes t = inodes s"
      using bc.peek [of c p "[b \<mapsto> n]" t b n] bio_frame_inodes [of s t] by (simp_all add: store_of_def)
    let ?t = "t\<lparr>inodes := y\<rparr>"
    have "n \<in> pinned s \<or> content s n = disk s n" using content_clean [OF assms(1), of n] by auto
    then have "wp (brelse b ?t) (\<lambda>_ u. bio_ok c p ([b \<mapsto> n](b := None)) u \<and> store_of u = store_of ?t \<and> bio_frame ?t u)"
      using t by (intro bc.rel) (auto simp: store_of_def)
    then show "wp (brelse b ?t) (\<lambda>_ u. same_files c p (s\<lparr>inodes := y\<rparr>) u)"
      using t bio_frame_inodes_upd [of s t y] by (auto simp: same_files_def intro: bio_frame_trans elim!: wp_mono)
  qed
qed

lemma same_files_upd: "same_files c p s t \<Longrightarrow> same_files c p (s\<lparr>inodes := y\<rparr>) (t\<lparr>inodes := y\<rparr>)"
  using bio_frame_inodes_upd [of s t y] by (simp add: same_files_def)

lemma same_files_fs:
  assumes f: "same_files c p s t" and ok: "icache_ok (p_pid (procs s p)) H s"
  shows "fs_ok c p H t" "same_disk s t"
proof -
  have fr: "bio_frame s t" using f by (simp add: same_files_def)
  note e = same_filesD [OF f] bio_frame_inodes [OF fr] bio_frame_sleep [OF fr] bio_frameD(4) [OF fr]
  show "fs_ok c p H t" using ok f e by (simp add: fs_ok_def icache_ok_def same_files_def)
  show "same_disk s t" using f e by (simp add: same_files_def same_disk_def)
qed

lemma load_fields [simp]: "i_ref (load d sblk x) = i_ref x" "i_dev (load d sblk x) = i_dev x" "i_inum (load d sblk x) = i_inum x"
  "load d sblk (x\<lparr>i_valid := v\<rparr>) = (load d sblk x)\<lparr>i_valid := v\<rparr>" "load d sblk (load d sblk x) = load d sblk x"
  by (simp_all add: load_def dinode_get_def fun_eq_iff cong: if_cong)

lemma iref_cong:
  assumes "\<And>i. i_ref (inodes t i) = i_ref (inodes s i)" "\<And>i. i_dev (inodes t i) = i_dev (inodes s i)" "\<And>i. i_inum (inodes t i) = i_inum (inodes s i)"
  shows "ientry t = ientry s" "iref t = iref s"
proof -
  show "ientry t = ientry s" by (simp add: ientry_def assms fun_eq_iff)
  then show "iref t = iref s" by (simp add: iref_def fun_eq_iff assms split: option.split)
qed

lemma ilock_wp:
  assumes ok: "fs_ok c p H s" and i: "ientry s n = Some i" "i \<notin> H" and n: "IBLOCK n (sb s) < disksize s" and pins: "card (pinned s) < NBUF"
    and live: "i_type (load (content s) (sb s) (inodes s i)) \<noteq> 0"
  shows "wp (ilock (Some i) s) (\<lambda>_ t. fs_ok c p (insert i H) t \<and> same_disk s t \<and> iref t = iref s \<and> ientry t = ientry s
    \<and> inodes t = (inodes s)(i := (load (content s) (sb s) (inodes s i))\<lparr>i_valid := True\<rparr>))"
proof -
  note e = ientry_Some [OF i(1)]
  let ?u = "set_sleep (InodeSL i) True (p_pid (procs s p)) s" and ?x = "load (content s) (sb s) (inodes s i)"
  have x: "0 < i_ref (inodes s i) \<and> i_valid (inodes s i) \<longrightarrow> ?x = inodes s i"
    using ok e(1) by (auto simp: fs_ok_def icache_ok_def inode_ok_def)
  note a = acquiresleep_fs [OF ok e(1) i(2) e(2)]
  have r: "\<not> i_ref (inodes s i) < 1" using e(2) by simp
  show ?thesis
  proof (cases "i_valid (inodes s i)")
    case True
    then have "inodes s = (inodes s)(i := ?x\<lparr>i_valid := True\<rparr>)" using x e(2) by (simp add: fun_eq_iff)
    moreover have "ientry ?u = ientry s" "iref ?u = iref s" by (rule iref_cong; simp)+
    ultimately show ?thesis using True r a by (simp add: ilock_def)
  next
    case False
    let ?y = "(inodes s)(i := ?x)" and ?z = "(inodes s)(i := ?x\<lparr>i_valid := True\<rparr>)"
    have u: "bio_ok c p Map.empty ?u" "icache_ok (p_pid (procs s p)) (insert i H) ?u" using a(2) by (auto simp: fs_ok_def set_sleep_def)
    have ok_z: "icache_ok (p_pid (procs s p)) (insert i H) (?u\<lparr>inodes := (inodes ?u)(i := ?x\<lparr>i_valid := True\<rparr>)\<rparr>)"
    proof (rule icache_upd [OF u(2) e(1)])
      have "inode_ok (p_pid (procs s p)) (i \<in> insert i H) (content ?u) (sb ?u) (sleeplks ?u (InodeSL i)) (inodes ?u i)"
        using u(2) e(1) unfolding icache_ok_def by blast
      then show "inode_ok (p_pid (procs s p)) (i \<in> insert i H) (content ?u) (sb ?u) (sleeplks ?u (InodeSL i)) (?x\<lparr>i_valid := True\<rparr>)"
        by (auto simp: inode_ok_def)
      show "j = i" if "ientry ?u (i_inum (?x\<lparr>i_valid := True\<rparr>)) = Some j" for j using that ientry_eq [OF u(2) e(1)] e by auto
    qed
    have post: "fs_ok c p (insert i H) (v\<lparr>inodes := ?z\<rparr>) \<and> same_disk s (v\<lparr>inodes := ?z\<rparr>) \<and> iref (v\<lparr>inodes := ?z\<rparr>) = iref s
        \<and> ientry (v\<lparr>inodes := ?z\<rparr>) = ientry s \<and> inodes v = ?y" if v: "same_files c p (?u\<lparr>inodes := ?y\<rparr>) v" for v
    proof -
      have w: "same_files c p (?u\<lparr>inodes := ?z\<rparr>) (v\<lparr>inodes := ?z\<rparr>)" using same_files_upd [OF v, of ?z] by simp
      have "fs_ok c p (insert i H) (v\<lparr>inodes := ?z\<rparr>)" "same_disk (?u\<lparr>inodes := ?z\<rparr>) (v\<lparr>inodes := ?z\<rparr>)"
        by (rule same_files_fs [OF w]; use ok_z in \<open>simp add: set_sleep_def\<close>)+
      moreover have "ientry (v\<lparr>inodes := ?z\<rparr>) = ientry s" "iref (v\<lparr>inodes := ?z\<rparr>) = iref s" by (rule iref_cong; simp)+
      ultimately show ?thesis using same_filesD(5) [OF v] a(3) by (simp add: same_disk_def)
    qed
    have "wp (bread 1 (IBLOCK n (sb s)) ?u) (\<lambda>b t. b_data (bufs t b) = content s (IBLOCK n (sb s)) \<and> inodes t = inodes s
      \<and> (\<forall>y. wp (brelse b (t\<lparr>inodes := y\<rparr>)) (\<lambda>_ v. same_files c p (?u\<lparr>inodes := y\<rparr>) v)))"
      using read_keep [OF u(1), of "IBLOCK n (sb s)"] n pins a(3) by (simp add: same_disk_def)
    moreover have xd: "dinode_get (content s (IBLOCK n (sb s))) (dinode_off n) (inodes s i) = ?x" using e by (simp add: load_def)
    ultimately show ?thesis
      using False r e a(1)
      by (simp add: ilock_def) (erule wp_mono, clarsimp simp: upd_inode_def xd, drule spec [of _ ?y], erule wp_mono, drule post, simp add: live)
  qed
qed

text \<open>Giving up a reference to an inode that has a link, or is in use elsewhere too.\<close>

lemma iput_wp:
  assumes ok: "fs_ok c p H s" and i: "ientry s n = Some i" "i \<notin> H" and l: "\<not> (i_valid (inodes s i) \<and> i_nlink (inodes s i) = 0)"
  shows "wp (iput i s) (\<lambda>_ t. fs_ok c p H t \<and> same_disk s t \<and> iref t = (iref s)(n := iref s n - 1)
    \<and> (\<forall>j. unref (inodes t j) = unref (inodes s j)) \<and> (\<forall>m. 0 < iref t m \<longrightarrow> ientry t m = ientry s m))"
proof -
  note e = ientry_Some [OF i(1)]
  note a = acquiresleep_fs [OF ok e(1) i(2) e(2)]
  let ?u = "set_sleep (InodeSL i) True (p_pid (procs s p)) s"
  have r: "wp (releasesleep (InodeSL i) ?u) (\<lambda>_ t. fs_ok c p H t \<and> same_disk s t \<and> inodes t = inodes s)"
    using i(2) same_disk_trans [OF a(3)] by (intro wp_mono [OF releasesleep_fs [OF a(2), of i]]) auto
  have p: "wp (acquire IcacheLock v) (\<lambda>_ w. wp (release IcacheLock (upd_inode i (\<lambda>x. x\<lparr>i_ref := i_ref x - 1\<rparr>) w))
       (\<lambda>_ t. fs_ok c p H t \<and> same_disk s t \<and> iref t = (iref s)(n := iref s n - 1) \<and> (\<forall>j. unref (inodes t j) = unref (inodes s j)) \<and> (\<forall>m. 0 < iref t m \<longrightarrow> ientry t m = ientry s m)))"
    if v: "fs_ok c p H v" "same_disk s v" "inodes v = inodes s" for v
  proof -
    have q: "quiet c p v" using v(1) by (simp add: fs_ok_def bio_ok_def)
    have iv: "ientry v = ientry s" "iref v = iref s" by (rule iref_cong; simp add: v)+
    let ?t = "upd_inode i (\<lambda>x. x\<lparr>i_ref := i_ref (inodes s i) - 1\<rparr>) v"
    have "upd_inode i (\<lambda>x. x\<lparr>i_ref := i_ref x - 1\<rparr>) v = ?t" by (simp add: upd_inode_def v)
    moreover have "fs_ok c p H ?t \<and> same_disk v ?t \<and> iref ?t = (iref v)(n := i_ref (inodes s i) - 1) \<and> (\<forall>j. unref (inodes ?t j) = unref (inodes v j)) \<and> (\<forall>m. 0 < iref ?t m \<longrightarrow> ientry ?t m = ientry v m)"
      using i e by (intro ref_change [OF v(1)]) (simp_all add: iv)
    moreover have "iref s n = i_ref (inodes s i)" using i by (simp add: iref_def)
    ultimately show ?thesis
      using v same_disk_trans [OF v(2)] by (simp add: acquire_calm [OF quietD(1,2) [OF q]] release_inodes [OF q] iv)
  qed
  show ?thesis using l a(1) r by (auto simp: iput_def intro: p elim!: wp_mono)
qed

lemma iunlockput_wp:
  assumes ok: "fs_ok c p H s" and i: "ientry s n = Some i" "i \<in> H" and l: "\<not> (i_valid (inodes s i) \<and> i_nlink (inodes s i) = 0)"
  shows "wp (iunlockput i s) (\<lambda>_ t. fs_ok c p (H - {i}) t \<and> same_disk s t \<and> iref t = (iref s)(n := iref s n - 1)
    \<and> (\<forall>j. unref (inodes t j) = unref (inodes s j)) \<and> (\<forall>m. 0 < iref t m \<longrightarrow> ientry t m = ientry s m))"
proof -
  have "wp (iput i v) (\<lambda>_ t. fs_ok c p (H - {i}) t \<and> same_disk s t \<and> iref t = (iref s)(n := iref s n - 1) \<and> (\<forall>j. unref (inodes t j) = unref (inodes s j)) \<and> (\<forall>m. 0 < iref t m \<longrightarrow> ientry t m = ientry s m))"
    if v: "fs_ok c p (H - {i}) v" "same_disk s v" "inodes v = inodes s" for v
  proof -
    have iv: "ientry v = ientry s" "iref v = iref s" by (rule iref_cong; simp add: v)+
    show ?thesis using iput_wp [OF v(1), of n i] i l same_disk_trans [OF v(2)] by (auto simp: v(3) iv elim!: wp_mono)
  qed
  then show ?thesis using iunlock_wp [OF ok ientry_Some(1) [OF i(1)] i(2)] by (auto simp: iunlockput_def elim!: wp_mono)
qed

end
