(* ===== verification/Pathwalk.thy ===== *)
theory Pathwalk
  imports Icache
begin

text \<open>
  Directories as lists of entries and the lookup of path names, against the tree of directories that the blocks of the
  disk describe. Looking up a name or a path changes nothing on the disk and leaves exactly one new reference, to the
  inode found.
\<close>

section \<open>Names\<close>

definition cname :: "u8 list \<Rightarrow> u8 list" where
  "cname xs = take DIRSIZ (takeWhile (\<lambda>x. x \<noteq> 0) xs)"

lemma cstr_at_list: "cstr (at_list xs) n = take n (takeWhile (\<lambda>x. x \<noteq> 0) xs)"
proof (induction xs arbitrary: n)
  case Nil
  then show ?case by (cases n) (simp_all add: cstr_Suc at_list_def)
next
  case (Cons x xs)
  then show ?case by (cases n) (simp_all add: cstr_Suc)
qed

lemma namecmp_0_iff: "namecmp a b = 0 \<longleftrightarrow> cname a = cname b"
  by (simp add: namecmp_def strncmp_0_iff cstr_at_list cname_def)

section \<open>Directories\<close>

text \<open>The entries of a directory with the bytes \<open>F\<close>; an entry with inode number 0 is unused.\<close>

definition dir_entry :: "u8 list \<Rightarrow> nat \<Rightarrow> dirent" where
  "dir_entry F k = dirent_get (take 16 (drop (16 * k) F))"

definition dir_find :: "u8 list \<Rightarrow> u8 list \<Rightarrow> nat option" where
  "dir_find F name = find_idx (\<lambda>k. de_inum (dir_entry F k) \<noteq> 0 \<and> cname name = cname (de_name (dir_entry F k))) (length F div 16)"

definition lookup_post :: "nat \<Rightarrow> nat \<Rightarrow> nat set \<Rightarrow> u8 list \<Rightarrow> u8 list \<Rightarrow> 'a consst_scheme \<Rightarrow> (nat \<times> u32) option \<Rightarrow> 'a consst_scheme \<Rightarrow> bool" where
  "lookup_post c p H F name s r t \<longleftrightarrow> fs_ok c p H t \<and> same_disk s t \<and> (\<forall>j. 0 < i_ref (inodes s j) \<longrightarrow> unref (inodes t j) = unref (inodes s j))
     \<and> (case dir_find F name of
          None \<Rightarrow> r = None \<and> iref t = iref s
        | Some k \<Rightarrow> \<exists>i. let n = ucast (de_inum (dir_entry F k)) in
            r = Some (i, of_nat (16 * k)) \<and> ientry t n = Some i \<and> iref t = (iref s)(n := iref s n + 1))"

lemma lookup_post_files:
  assumes "same_files c p s t" and "lookup_post c p H F name t r u" and "fs_ok c p H s"
  shows "lookup_post c p H F name s r u"
proof -
  have "same_disk s t" "inodes t = inodes s"
    using assms(3) same_files_fs(2) [OF assms(1), of H] same_filesD(5) [OF assms(1)] by (simp_all add: fs_ok_def)
  moreover from this have "iref t = iref s" by (intro iref_cong) simp_all
  ultimately show ?thesis using assms(2) by (auto simp: lookup_post_def intro: same_disk_trans split: option.splits)
qed

definition reads_dir :: "nat \<Rightarrow> 'a icst_scheme \<Rightarrow> bool" where
  "reads_dir dp s \<longleftrightarrow> i_type (inodes s dp) = T_DIR \<and> i_dev (inodes s dp) = 1 \<and> unat (i_size (inodes s dp)) mod 16 = 0
     \<and> file_mapped (content s) (disksize s) (inodes s dp) \<and> card (pinned s) < NBUF"

lemma unat_of_nat_u32: "k < 4294967296 \<Longrightarrow> unat (of_nat k :: u32) = k"
  by (simp add: unat_of_nat take_bit_nat_eq_self)

lemma read_entry:
  assumes ok: "fs_ok c p H s" and d: "reads_dir dp s" and k: "16 * k < unat (i_size (inodes s dp))" and off: "unat off = 16 * k"
  shows "wp (readi dp off (of_nat sizeof_dirent) s) (\<lambda>(r, d) t. same_files c p s t \<and> r = int sizeof_dirent
    \<and> dirent_get d = dir_entry (file_bytes (content s) (inodes s dp)) k)"
proof -
  let ?F = "file_bytes (content s) (inodes s dp)"
  have b: "bio_ok c p Map.empty s" using ok by (simp add: fs_ok_def)
  have z: "unat (i_size (inodes s dp)) \<le> 71680" using d by (auto simp: reads_dir_def intro: file_size_bound)
  have "16 * k + 16 \<le> unat (i_size (inodes s dp))" using k d unfolding reads_dir_def by auto
  moreover have "length ?F = unat (i_size (inodes s dp))" using content_length [OF b] by (intro file_bytes_length) (simp add: BSIZE_def)
  ultimately have l: "length (take 16 (drop (16 * k) ?F)) = 16" by simp
  have "wp (readi dp off (of_nat sizeof_dirent) s) (\<lambda>(r, d) t. same_files c p s t \<and> r = int (length d)
    \<and> d = take (unat (of_nat sizeof_dirent :: u32)) (drop (unat off) ?F))"
  proof (rule readi_wp [OF b])
    show "off \<le> i_size (inodes s dp)" using off k by (simp add: word_le_nat_alt)
    have "unat (off + of_nat sizeof_dirent) = 16 * k + 16"
      using off z k by (simp add: sizeof_dirent_def unat_word_ariths(1))
    then show "off \<le> off + of_nat sizeof_dirent" using off by (simp add: word_le_nat_alt)
  qed (use d in \<open>simp_all add: reads_dir_def T_DIR_def T_DEV_def\<close>)
  then show ?thesis using off l by (elim wp_mono) (auto simp: sizeof_dirent_def dir_entry_def)
qed

lemma fs_files: "same_files c p s t \<Longrightarrow> fs_ok c p H s \<Longrightarrow> fs_ok c p H t"
  using same_files_fs(1) unfolding fs_ok_def by blast

lemma reads_dir_cong:
  assumes "same_files c p s t"
  shows "reads_dir dp t = reads_dir dp s"
  by (simp add: reads_dir_def same_filesD [OF assms])

lemma find_idx_first:
  assumes "k < n" "P k" "\<And>j. j < k \<Longrightarrow> \<not> P j"
  shows "find_idx P n = Some k"
  using assms by (simp add: find_idx_Some)

lemma dirlookup_loop_wp:
  assumes "fs_ok c p H s" and "reads_dir dp s" and "card {m. 0 < iref s m} < NINODE"
    and "unat (i_size (inodes s dp)) = 16 * N" and "unat off = 16 * k" "k \<le> N" "N - k < fuel"
    and "\<And>j. j < k \<Longrightarrow> \<not> (de_inum (dir_entry F j) \<noteq> 0 \<and> cname name = cname (de_name (dir_entry F j)))"
    and "F = file_bytes (content s) (inodes s dp)"
  shows "wp (dirlookup_loop fuel dp name off s) (lookup_post c p H F name s)"
  using assms
proof (induction fuel arbitrary: off k s)
  case (Suc fuel)
  note ok = Suc.prems(1) and d = Suc.prems(2) and N = Suc.prems(4) and off = Suc.prems(5) and none = Suc.prems(8)
  let ?hit = "\<lambda>k. de_inum (dir_entry F k) \<noteq> 0 \<and> cname name = cname (de_name (dir_entry F k))"
  have b: "bio_ok c p Map.empty s" using ok by (simp add: fs_ok_def)
  have len: "length F div 16 = N" using content_length [OF b] Suc.prems(4,9) by (simp add: file_bytes_length BSIZE_def)
  show ?case
  proof (cases "k < N")
    case False
    then have "\<not> off < i_size (inodes s dp)" using off N by (simp add: word_less_nat_alt)
    moreover have "dir_find F name = None" using none False by (simp add: dir_find_def len find_idx_None)
    ultimately show ?thesis using ok by (simp add: lookup_post_def)
  next
    case True
    then have lt: "off < i_size (inodes s dp)" "16 * k < unat (i_size (inodes s dp))" using off N by (simp_all add: word_less_nat_alt)
    have "unat off + unat (of_nat sizeof_dirent :: u32) \<le> unat (i_size (inodes s dp))" using off N True by (simp add: sizeof_dirent_def)
    then have off': "unat (off + of_nat sizeof_dirent) = 16 * Suc k" using off by (simp add: unat_add_below sizeof_dirent_def)
    have next': "wp (dirlookup_loop fuel dp name (off + of_nat sizeof_dirent) t) (lookup_post c p H F name s)"
      if t: "same_files c p s t" and miss: "\<not> ?hit k" for t
    proof -
      note e = same_filesD [OF t]
      have "fs_ok c p H t" by (rule fs_files [OF t ok])
      moreover have "iref t = iref s" by (intro iref_cong) (simp_all add: e)
      moreover have "\<not> ?hit j" if "j < Suc k" for j using that none miss by (auto simp: less_Suc_eq)
      ultimately have "wp (dirlookup_loop fuel dp name (off + of_nat sizeof_dirent) t) (lookup_post c p H F name t)"
        using Suc.prems True d by (intro Suc.IH [where k = "Suc k"]) (simp_all add: e off' reads_dir_cong [OF t])
      then show ?thesis by (elim wp_mono) (auto intro: lookup_post_files [OF t] ok)
    qed
    have found: "wp (iget 1 (ucast (de_inum (dir_entry F k))) t) (\<lambda>i u. lookup_post c p H F name s (Some (i, off)) u)"
      if t: "same_files c p s t" and hit: "?hit k" for t
    proof -
      note e = same_filesD [OF t]
      have "fs_ok c p H t" by (rule fs_files [OF t ok])
      moreover have "iref t = iref s" by (intro iref_cong) (simp_all add: e)
      moreover have "dir_find F name = Some k" using hit none True by (simp add: dir_find_def len find_idx_first)
      moreover have "off = of_nat (16 * k)" by (metis off of_nat_unat ucast_id)
      ultimately have "wp (iget 1 (ucast (de_inum (dir_entry F k))) t) (\<lambda>i u. lookup_post c p H F name t (Some (i, off)) u)"
        using Suc.prems(3) by (intro wp_mono [OF iget_wp [of c p H t]]) (auto simp: lookup_post_def Let_def)
      then show ?thesis by (elim wp_mono) (auto intro: lookup_post_files [OF t] ok)
    qed
    have dev: "i_dev (inodes s dp) = 1" using d by (simp add: reads_dir_def)
    have "wp (readi dp off (of_nat sizeof_dirent) s) (\<lambda>(r, d) t. same_files c p s t \<and> r = int sizeof_dirent \<and> dirent_get d = dir_entry F k)"
      using read_entry [OF ok d lt(2) off] unfolding Suc.prems(9) .
    then show ?thesis
      using lt(1)
      by (simp add: split_beta) (erule wp_mono, auto simp: Let_def namecmp_0_iff same_filesD(5) dev intro: next' found)
  qed
qed simp

lemma dirlookup_wp:
  assumes "fs_ok c p H s" and "reads_dir dp s" and "card {m. 0 < iref s m} < NINODE"
  shows "wp (dirlookup dp name s) (lookup_post c p H (file_bytes (content s) (inodes s dp)) name s)"
proof -
  have "i_type (inodes s dp) = T_DIR" "unat (i_size (inodes s dp)) = 16 * (unat (i_size (inodes s dp)) div 16)"
    using assms(2) by (auto simp: reads_dir_def)
  then have "wp (dirlookup_loop (unat (i_size (inodes s dp)) div sizeof_dirent + 2) dp name 0 s)
      (lookup_post c p H (file_bytes (content s) (inodes s dp)) name s)"
    using assms by (intro dirlookup_loop_wp [where k = 0 and N = "unat (i_size (inodes s dp)) div 16"]) (simp_all add: sizeof_dirent_def)
  then show ?thesis using \<open>i_type (inodes s dp) = T_DIR\<close> by (simp add: dirlookup_def del: dirlookup_loop.simps)
qed

section \<open>Paths\<close>

text \<open>The elements of a path: what stands between the slashes, cut to the length of a name.\<close>

fun split_slash :: "u8 list \<Rightarrow> u8 list list" where
  "split_slash [] = [[]]"
| "split_slash (x # xs) = (if x = 47 then [] # split_slash xs else (x # hd (split_slash xs)) # tl (split_slash xs))"

definition path_elems :: "u8 list \<Rightarrow> u8 list list" where
  "path_elems path = map (take DIRSIZ) (filter (\<lambda>w. w \<noteq> []) (split_slash path))"

lemma split_slash_word:
  "split_slash xs = takeWhile (\<lambda>x. x \<noteq> 47) xs # (case dropWhile (\<lambda>x. x \<noteq> 47) xs of [] \<Rightarrow> [] | _ # ys \<Rightarrow> split_slash ys)"
  by (induction xs) simp_all

lemma path_elems_slash: "path_elems (dropWhile (\<lambda>x. x = 47) xs) = path_elems xs"
  by (induction xs) (simp_all add: path_elems_def)

lemma path_elems_word:
  assumes "xs \<noteq> []" and "hd xs \<noteq> 47"
  shows "path_elems xs = take DIRSIZ (takeWhile (\<lambda>x. x \<noteq> 47) xs) # path_elems (dropWhile (\<lambda>x. x \<noteq> 47) xs)"
proof -
  let ?w = "takeWhile (\<lambda>x. x \<noteq> 47) xs"
  have w: "?w \<noteq> []" using assms by (cases xs) auto
  show ?thesis
  proof (cases "dropWhile (\<lambda>x. x \<noteq> 47) xs")
    case Nil
    have "split_slash xs = [?w]" by (subst split_slash_word) (simp only: Nil list.case)
    then show ?thesis unfolding Nil using w by (simp add: path_elems_def)
  next
    case (Cons y ys)
    then have "y = 47" using hd_dropWhile [of "\<lambda>x. x \<noteq> 47" xs] by simp
    moreover have "split_slash xs = ?w # split_slash ys" by (subst split_slash_word) (simp only: Cons list.case)
    ultimately show ?thesis unfolding Cons using w by (simp add: path_elems_def)
  qed
qed

lemma skipelem_elems:
  "case skipelem path of None \<Rightarrow> path_elems path = []
   | Some (rest, name) \<Rightarrow> path_elems path = name # path_elems rest \<and> length rest < length path \<and> (rest = [] \<longleftrightarrow> path_elems rest = [])"
proof (cases "dropWhile (\<lambda>c. c = 47) path")
  case Nil
  have "path_elems path = path_elems []" using path_elems_slash [of path] unfolding Nil by (rule sym)
  moreover have "skipelem path = None" unfolding skipelem_def Nil Let_def by simp
  ultimately show ?thesis by (simp add: path_elems_def)
next
  case (Cons x xs)
  let ?p = "x # xs"
  define rest where "rest = dropWhile (\<lambda>c. c = 47) (dropWhile (\<lambda>c. c \<noteq> 47) ?p)"
  have x: "x \<noteq> 47" using hd_dropWhile [of "\<lambda>c. c = 47" path] Cons by simp
  have sk: "skipelem path = Some (rest, take DIRSIZ (takeWhile (\<lambda>c. c \<noteq> 47) ?p))"
    using Cons by (simp add: skipelem_def Let_def rest_def)
  have "path_elems path = path_elems ?p" using path_elems_slash [of path] Cons by simp
  then have "path_elems path = take DIRSIZ (takeWhile (\<lambda>c. c \<noteq> 47) ?p) # path_elems rest"
    using path_elems_word [of ?p] x path_elems_slash [of "dropWhile (\<lambda>c. c \<noteq> 47) ?p"] by (simp add: rest_def)
  moreover have "length rest < length path"
  proof -
    have "length rest \<le> length xs" using x length_dropWhile_le [of "\<lambda>c. c = 47" "dropWhile (\<lambda>c. c \<noteq> 47) xs"] length_dropWhile_le [of "\<lambda>c. c \<noteq> 47" xs]
      by (simp add: rest_def)
    then show ?thesis using length_dropWhile_le [of "\<lambda>c. c = 47" path] Cons by simp
  qed
  moreover have "rest = [] \<longleftrightarrow> path_elems rest = []"
  proof (cases rest)
    case (Cons y ys)
    then have "y \<noteq> 47" using hd_dropWhile [of "\<lambda>c. c = 47" "dropWhile (\<lambda>c. c \<noteq> 47) ?p"] by (simp add: rest_def)
    then show ?thesis using path_elems_word [of rest] Cons by simp
  qed (simp add: path_elems_def)
  ultimately show ?thesis using sk by simp
qed

section \<open>The tree of directories on the disk\<close>

definition dnode :: "(u32 \<Rightarrow> u8 list) \<Rightarrow> superblock \<Rightarrow> u32 \<Rightarrow> inode" where
  "dnode d sblk n = load d sblk \<lparr>i_dev = 1, i_inum = n, i_ref = 0, i_valid = False, i_type = 0, i_major = 0, i_minor = 0, i_nlink = 0,
     i_size = 0, i_addrs = (\<lambda>_. 0)\<rparr>"

definition live :: "(u32 \<Rightarrow> u8 list) \<Rightarrow> u32 \<Rightarrow> superblock \<Rightarrow> u32 \<Rightarrow> bool" where
  "live d sz sblk n \<longleftrightarrow> IBLOCK n sblk < sz \<and> i_type (dnode d sblk n) \<noteq> 0 \<and> i_nlink (dnode d sblk n) \<noteq> 0"

text \<open>A directory has whole entries, all of its blocks, and its entries name inodes in use.\<close>

definition dir_ok :: "(u32 \<Rightarrow> u8 list) \<Rightarrow> u32 \<Rightarrow> superblock \<Rightarrow> inode \<Rightarrow> bool" where
  "dir_ok d sz sblk x \<longleftrightarrow> file_mapped d sz x \<and> unat (i_size x) mod 16 = 0
     \<and> (\<forall>k < unat (i_size x) div 16. de_inum (dir_entry (file_bytes d x) k) \<noteq> 0 \<longrightarrow> live d sz sblk (ucast (de_inum (dir_entry (file_bytes d x) k))))"

definition fs_tree :: "(u32 \<Rightarrow> u8 list) \<Rightarrow> u32 \<Rightarrow> superblock \<Rightarrow> bool" where
  "fs_tree d sz sblk \<longleftrightarrow> live d sz sblk ROOTINO
     \<and> (\<forall>n. live d sz sblk n \<and> i_type (dnode d sblk n) = T_DIR \<longrightarrow> dir_ok d sz sblk (dnode d sblk n))"

definition child :: "(u32 \<Rightarrow> u8 list) \<Rightarrow> superblock \<Rightarrow> u32 \<Rightarrow> u8 list \<Rightarrow> u32 option" where
  "child d sblk n name =
     (let F = file_bytes d (dnode d sblk n) in
      if i_type (dnode d sblk n) \<noteq> T_DIR then None
      else map_option (\<lambda>k. ucast (de_inum (dir_entry F k))) (dir_find F name))"

text \<open>Where a path leads from the inode \<open>n\<close>, and the directory and the name that its last element stand for.\<close>

fun walk :: "(u32 \<Rightarrow> u8 list) \<Rightarrow> superblock \<Rightarrow> u32 \<Rightarrow> u8 list list \<Rightarrow> u32 option" where
  "walk d sblk n [] = Some n"
| "walk d sblk n (e # es) = Option.bind (child d sblk n e) (\<lambda>m. walk d sblk m es)"

definition walk_parent :: "(u32 \<Rightarrow> u8 list) \<Rightarrow> superblock \<Rightarrow> u32 \<Rightarrow> u8 list list \<Rightarrow> (u32 \<times> u8 list) option" where
  "walk_parent d sblk n es =
     (if es = [] then None
      else case walk d sblk n (butlast es) of
        None \<Rightarrow> None
      | Some m \<Rightarrow> if i_type (dnode d sblk m) = T_DIR then Some (m, last es) else None)"

definition goal_of :: "bool \<Rightarrow> (u32 \<Rightarrow> u8 list) \<Rightarrow> superblock \<Rightarrow> u32 \<Rightarrow> u8 list list \<Rightarrow> (u32 \<times> u8 list) option" where
  "goal_of parent d sblk n es = (if parent then walk_parent d sblk n es else map_option (\<lambda>m. (m, [])) (walk d sblk n es))"

lemma goal_of_Cons:
  "goal_of parent d sblk n (e # es) =
     (if i_type (dnode d sblk n) \<noteq> T_DIR then None
      else if parent \<and> es = [] then Some (n, e)
      else Option.bind (child d sblk n e) (\<lambda>m. goal_of parent d sblk m es))"
  by (cases "child d sblk n e") (auto simp: goal_of_def walk_parent_def child_def Let_def split: option.splits)

lemma load_dnode:
  shows "i_type (load d sblk x) = i_type (dnode d sblk (i_inum x))" "i_nlink (load d sblk x) = i_nlink (dnode d sblk (i_inum x))"
    "i_size (load d sblk x) = i_size (dnode d sblk (i_inum x))" "file_bytes d (load d sblk x) = file_bytes d (dnode d sblk (i_inum x))"
    "file_mapped d sz (load d sblk x) = file_mapped d sz (dnode d sblk (i_inum x))"
proof -
  show e: "i_type (load d sblk x) = i_type (dnode d sblk (i_inum x))" "i_nlink (load d sblk x) = i_nlink (dnode d sblk (i_inum x))"
    "i_size (load d sblk x) = i_size (dnode d sblk (i_inum x))"
    by (simp_all add: dnode_def load_def dinode_get_def)
  have a: "i_addrs (load d sblk x) k = i_addrs (dnode d sblk (i_inum x)) k" if "k \<le> NDIRECT" for k
    using that by (simp add: dnode_def load_def dinode_get_def)
  have b: "file_block d (load d sblk x) = file_block d (dnode d sblk (i_inum x))"
    by (simp add: file_block_def a fun_eq_iff)
  then show "file_bytes d (load d sblk x) = file_bytes d (dnode d sblk (i_inum x))"
    by (simp add: file_bytes_def file_nblocks_def e)
  show "file_mapped d sz (load d sblk x) = file_mapped d sz (dnode d sblk (i_inum x))"
    by (simp add: file_mapped_def file_nblocks_def e b a)
qed

section \<open>Walking\<close>

text \<open>The state with the directory \<open>n\<close> locked in the entry \<open>ip\<close>.\<close>

definition at_dir :: "nat \<Rightarrow> nat \<Rightarrow> 'a icst_scheme \<Rightarrow> u32 \<Rightarrow> nat \<Rightarrow> 'a icst_scheme \<Rightarrow> bool" where
  "at_dir c p s n ip t \<longleftrightarrow> fs_ok c p {ip} t \<and> same_disk s t \<and> ientry t n = Some ip
     \<and> unref (inodes t ip) = unref ((load (content s) (sb s) (inodes s ip))\<lparr>i_valid := True\<rparr>)"

lemma ilock_dir:
  assumes "fs_ok c p {} s" and i: "ientry s n = Some ip" and "live (content s) (disksize s) (sb s) n" and "card (pinned s) < NBUF"
  shows "wp (ilock (Some ip) s) (\<lambda>_ t. at_dir c p s n ip t \<and> iref t = iref s)"
proof (rule wp_mono [OF ilock_wp [OF assms(1,2)]])
  show "i_type (load (content s) (sb s) (inodes s ip)) \<noteq> 0"
    using assms(3) ientry_Some(3) [OF i] by (simp add: load_dnode live_def)
qed (use assms in \<open>auto simp: live_def at_dir_def\<close>)

lemma at_dirD:
  assumes t: "at_dir c p s n ip t" and i: "ientry s n = Some ip"
  shows "fs_ok c p {ip} t" "ientry t n = Some ip" "same_disk s t" "i_type (inodes t ip) = i_type (dnode (content s) (sb s) n)"
    "i_nlink (inodes t ip) = i_nlink (dnode (content s) (sb s) n)" "i_size (inodes t ip) = i_size (dnode (content s) (sb s) n)"
    "i_dev (inodes t ip) = 1" "file_bytes (content s) (inodes t ip) = file_bytes (content s) (dnode (content s) (sb s) n)"
    "file_mapped (content s) z (inodes t ip) = file_mapped (content s) z (dnode (content s) (sb s) n)"
proof -
  let ?x = "(load (content s) (sb s) (inodes s ip))\<lparr>i_valid := True\<rparr>"
  have u: "unref (inodes t ip) = unref ?x" using t by (simp add: at_dir_def)
  note e = unrefD [OF u] ientry_Some [OF i]
  show "fs_ok c p {ip} t" "ientry t n = Some ip" "same_disk s t" using t by (simp_all add: at_dir_def)
  show "i_type (inodes t ip) = i_type (dnode (content s) (sb s) n)" "i_nlink (inodes t ip) = i_nlink (dnode (content s) (sb s) n)"
    "i_size (inodes t ip) = i_size (dnode (content s) (sb s) n)" "i_dev (inodes t ip) = 1"
    using e by (simp_all add: load_dnode)
  have "file_bytes (content s) (inodes t ip) = file_bytes (content s) (load (content s) (sb s) (inodes s ip))"
    "file_mapped (content s) z (inodes t ip) = file_mapped (content s) z (load (content s) (sb s) (inodes s ip))"
    by (simp_all add: file_bytes_def file_mapped_def file_nblocks_def file_block_def e fun_eq_iff cong: if_cong)
  then show "file_bytes (content s) (inodes t ip) = file_bytes (content s) (dnode (content s) (sb s) n)"
    "file_mapped (content s) z (inodes t ip) = file_mapped (content s) z (dnode (content s) (sb s) n)"
    using e by (simp_all add: load_dnode)
qed

lemma at_dir_keep:
  assumes t: "at_dir c p s n ip t" and i: "ientry s n = Some ip" and u: "fs_ok c p {ip} u" "same_disk t u" "unref (inodes u ip) = unref (inodes t ip)"
  shows "at_dir c p s n ip u"
proof -
  have "ip < NINODE" "i_inum (inodes u ip) = n"
    using ientry_Some [OF at_dirD(2) [OF t i]] unrefD(1) [OF u(3)] by simp_all
  moreover from this have "0 < i_ref (inodes u ip)" using u(1) by (auto simp: fs_ok_def icache_ok_def inode_ok_def)
  ultimately have "ientry u n = Some ip" using ientry_eq [of "p_pid (procs u p)" "{ip}" u ip] u(1) by (simp add: fs_ok_def)
  then show ?thesis using t u same_disk_trans [of s t u] by (simp add: at_dir_def)
qed

lemma leave_dir:
  assumes t: "at_dir c p s n ip t" and i: "ientry s n = Some ip" and l: "live (content s) (disksize s) (sb s) n"
  shows "wp (iunlockput ip t) (\<lambda>_ u. fs_ok c p {} u \<and> same_disk s u \<and> iref u = (iref t)(n := iref t n - 1)
    \<and> (\<forall>m. 0 < iref u m \<longrightarrow> ientry u m = ientry t m))"
proof -
  note d = at_dirD [OF t i]
  have "i_nlink (inodes t ip) \<noteq> 0" using l d by (simp add: live_def)
  then show ?thesis using same_disk_trans [OF d(3)] by (intro wp_mono [OF iunlockput_wp [OF d(1,2)]]) auto
qed

lemma reads_at_dir:
  assumes t: "at_dir c p s n ip t" and i: "ientry s n = Some ip" and l: "live (content s) (disksize s) (sb s) n"
    and "fs_tree (content s) (disksize s) (sb s)" and "card (pinned s) < NBUF" and "i_type (dnode (content s) (sb s) n) = T_DIR"
  shows "reads_dir ip t"
proof -
  note d = at_dirD [OF t i]
  have "dir_ok (content s) (disksize s) (sb s) (dnode (content s) (sb s) n)" using assms by (simp add: fs_tree_def)
  then show ?thesis using assms(5,6) same_diskD [OF d(3)] d(4-) unfolding reads_dir_def by (simp add: dir_ok_def)
qed

text \<open>\<open>f\<close> counts the references apart from the one the walk holds; at the end there is one more for the inode found.\<close>

definition walked :: "nat \<Rightarrow> nat \<Rightarrow> 'a icst_scheme \<Rightarrow> (u32 \<Rightarrow> int) \<Rightarrow> (u32 \<times> u8 list) option \<Rightarrow> (nat \<times> u8 list) option \<Rightarrow> 'a icst_scheme \<Rightarrow> bool" where
  "walked c p s f g r t \<longleftrightarrow> fs_ok c p {} t \<and> same_disk s t
     \<and> (case g of
          None \<Rightarrow> r = None \<and> iref t = f
        | Some (m, name) \<Rightarrow> \<exists>i. r = Some (i, name) \<and> ientry t m = Some i \<and> iref t = f(m := f m + 1))"

lemma walked_trans: "same_disk s t \<Longrightarrow> walked c p t f g r u \<Longrightarrow> walked c p s f g r u"
  by (auto simp: walked_def intro: same_disk_trans)

lemma iref_nonneg: "fs_ok c p H s \<Longrightarrow> 0 \<le> iref s m"
  by (cases "ientry s m") (auto simp: iref_def dest: ientry_Some)

lemma iref_finite: "finite {m. 0 < iref s m}"
proof (rule finite_subset)
  show "{m. 0 < iref s m} \<subseteq> (\<lambda>i. i_inum (inodes s i)) ` {..<NINODE}"
  proof clarify
    fix m
    assume "0 < iref s m"
    then obtain i where "ientry s m = Some i" by (cases "ientry s m") (auto simp: iref_def)
    from ientry_Some [OF this] show "m \<in> (\<lambda>i. i_inum (inodes s i)) ` {..<NINODE}" by auto
  qed
qed simp

lemma child_live:
  assumes "fs_tree d sz sblk" and "live d sz sblk n" and "child d sblk n e = Some m" and "\<And>b. length (d b) = 512"
  shows "live d sz sblk m"
proof -
  let ?F = "file_bytes d (dnode d sblk n)"
  obtain k where k: "dir_find ?F e = Some k" "m = ucast (de_inum (dir_entry ?F k))" and T: "i_type (dnode d sblk n) = T_DIR"
    using assms(3) by (auto simp: child_def Let_def split: if_splits)
  then have "dir_ok d sz sblk (dnode d sblk n)" using assms by (simp add: fs_tree_def)
  moreover have "k < unat (i_size (dnode d sblk n)) div 16" "de_inum (dir_entry ?F k) \<noteq> 0"
    using k(1) file_bytes_length [OF assms(4)] by (auto simp: dir_find_def find_idx_Some)
  ultimately show ?thesis using k(2) by (simp add: dir_ok_def)
qed

lemma linked_entry:
  assumes "fs_ok c p H s" and i: "ientry s n = Some ip" and "live (content s) (disksize s) (sb s) n"
  shows "\<not> (i_valid (inodes s ip) \<and> i_nlink (inodes s ip) = 0)"
proof -
  have "i_valid (inodes s ip) \<longrightarrow> load (content s) (sb s) (inodes s ip) = inodes s ip"
    using assms(1) ientry_Some [OF i] by (auto simp: fs_ok_def icache_ok_def inode_ok_def)
  moreover have "i_nlink (load (content s) (sb s) (inodes s ip)) \<noteq> 0"
    using assms(3) ientry_Some(3) [OF i] by (simp add: load_dnode live_def)
  ultimately show ?thesis by auto
qed

lemma stay_at_dir:
  assumes t: "at_dir c p s n ip t" "iref t = iref s" and i: "ientry s n = Some ip"
  shows "wp (iunlock (Some ip) t) (\<lambda>_ u. walked c p s ((iref s)(n := iref s n - 1)) (Some (n, name)) (Some (ip, name)) u)"
proof -
  note d = at_dirD [OF t(1) i]
  have "walked c p s ((iref s)(n := iref s n - 1)) (Some (n, name)) (Some (ip, name)) u"
    if u: "fs_ok c p ({ip} - {ip}) u" "same_disk t u" "inodes u = inodes t" for u
  proof -
    have "ientry u = ientry t" "iref u = iref t" by (rule iref_cong; simp add: u)+
    then show ?thesis using u d t(2) same_disk_trans [OF d(3)] by (simp add: walked_def)
  qed
  then show ?thesis using ientry_Some(1) [OF i] by (intro wp_mono [OF iunlock_wp [OF d(1)]]) auto
qed

text \<open>One step down: the entry is looked up, the directory is given back, and the walk goes on from the child.\<close>

lemma step_down:
  assumes t: "at_dir c p s n ip t" "iref t = iref s" and i: "ientry s n = Some ip" and ok: "fs_ok c p {} s"
    and l: "live (content s) (disksize s) (sb s) n"
    and tree: "fs_tree (content s) (disksize s) (sb s)" and pins: "card (pinned s) < NBUF" and dir: "i_type (dnode (content s) (sb s) n) = T_DIR"
    and f: "f = (iref s)(n := iref s n - 1)" and room: "card {m. 0 < f m} + 2 \<le> NINODE"
  shows "wp (dirlookup ip name t) (\<lambda>r u. wp (iunlockput ip u) (\<lambda>_ v. fs_ok c p {} v \<and> same_disk s v \<and>
     (case child (content s) (sb s) n name of
        None \<Rightarrow> r = None \<and> iref v = f
      | Some m \<Rightarrow> \<exists>i' off. r = Some (i', off) \<and> ientry v m = Some i' \<and> iref v = f(m := f m + 1))))"
proof -
  note d = at_dirD [OF t(1) i]
  note sd = same_diskD [OF d(3)]
  let ?F = "file_bytes (content s) (dnode (content s) (sb s) n)"
  have pos: "0 < iref s n" using i ientry_Some(2) [OF i] by (simp add: iref_def)
  have fin: "finite {m. 0 < f m}" using f by (intro finite_subset [OF _ iref_finite [of s]]) (auto split: if_splits)
  have "card {m. 0 < iref t m} < NINODE"
  proof -
    have "{m. 0 < iref t m} \<subseteq> insert n {m. 0 < f m}" using t(2) f by auto
    then have "card {m. 0 < iref t m} \<le> card (insert n {m. 0 < f m})" using fin by (intro card_mono) auto
    also have "\<dots> \<le> Suc (card {m. 0 < f m})" using fin by (simp add: card_insert_if)
    finally show ?thesis using room by simp
  qed
  then have "wp (dirlookup ip name t) (lookup_post c p {ip} ?F name t)"
    using dirlookup_wp [OF d(1) reads_at_dir [OF t(1) i l tree pins dir]] d sd by simp
  then show ?thesis
  proof (rule wp_mono)
    fix r u
    assume r: "lookup_post c p {ip} ?F name t r u"
    have u: "at_dir c p s n ip u"
      using r ientry_Some(2) [OF d(2)] by (intro at_dir_keep [OF t(1) i]) (auto simp: lookup_post_def)
    show "wp (iunlockput ip u) (\<lambda>_ v. fs_ok c p {} v \<and> same_disk s v \<and>
     (case child (content s) (sb s) n name of
        None \<Rightarrow> r = None \<and> iref v = f
      | Some m \<Rightarrow> \<exists>i' off. r = Some (i', off) \<and> ientry v m = Some i' \<and> iref v = f(m := f m + 1)))"
    proof (rule wp_mono [OF leave_dir [OF u i l]])
      fix x v
      assume v: "fs_ok c p {} v \<and> same_disk s v \<and> iref v = (iref u)(n := iref u n - 1) \<and> (\<forall>m. 0 < iref v m \<longrightarrow> ientry v m = ientry u m)"
      show "fs_ok c p {} v \<and> same_disk s v \<and> (case child (content s) (sb s) n name of
        None \<Rightarrow> r = None \<and> iref v = f
      | Some m \<Rightarrow> \<exists>i' off. r = Some (i', off) \<and> ientry v m = Some i' \<and> iref v = f(m := f m + 1))"
      proof (cases "dir_find ?F name")
        case None
        then show ?thesis using r v t(2) f dir by (simp add: lookup_post_def child_def)
      next
        case (Some k)
        let ?m = "ucast (de_inum (dir_entry ?F k))"
        obtain i' where i': "r = Some (i', of_nat (16 * k))" "ientry u ?m = Some i'" "iref u = (iref s)(?m := iref s ?m + 1)"
          using r Some t(2) by (auto simp: lookup_post_def Let_def)
        have "iref v = f(?m := f ?m + 1)" using v i'(3) f by (auto simp: fun_eq_iff)
        moreover have "0 < iref v ?m" using v i'(3) pos iref_nonneg [OF ok, of ?m] by auto
        ultimately show ?thesis using v i' Some dir by (simp add: child_def)
      qed
    qed
  qed
qed

lemma namex_loop_wp:
  assumes "fs_ok c p {} s" and "ientry s n = Some ip" and "live (content s) (disksize s) (sb s) n"
    and "fs_tree (content s) (disksize s) (sb s)" and "card (pinned s) < NBUF"
    and "f = (iref s)(n := iref s n - 1)" and "card {m. 0 < f m} + 2 \<le> NINODE" and "length path < fuel"
  shows "wp (namex_loop fuel ip path parent s) (walked c p s f (goal_of parent (content s) (sb s) n (path_elems path)))"
  using assms
proof (induction fuel arbitrary: ip n path s)
  case (Suc fuel)
  note ok = Suc.prems(1) and i = Suc.prems(2) and l = Suc.prems(3) and tree = Suc.prems(4) and pins = Suc.prems(5) and f = Suc.prems(6)
  let ?d = "content s" and ?sb = "sb s"
  have d512: "length (?d b) = 512" for b using content_length [of c p Map.empty s b] ok by (simp add: fs_ok_def BSIZE_def)
  show ?case
  proof (cases "skipelem path")
    case None
    then have "path_elems path = []" using skipelem_elems [of path] by simp
    moreover have "wp (iput ip s) (\<lambda>_ t. fs_ok c p {} t \<and> same_disk s t \<and> iref t = f)"
      by (rule wp_mono [OF iput_wp [OF ok i]]) (use linked_entry [OF ok i l] f in auto)
    ultimately show ?thesis using None ok i f by (auto simp: walked_def goal_of_def walk_parent_def elim!: wp_mono)
  next
    case (Some a)
    then obtain rest name where a: "skipelem path = Some (rest, name)" by (cases a) simp
    then have e: "path_elems path = name # path_elems rest" "length rest < fuel" "rest = [] \<longleftrightarrow> path_elems rest = []"
      using skipelem_elems [of path] Suc.prems(8) by auto
    let ?g = "goal_of parent ?d ?sb n (path_elems path)" and ?dir = "i_type (dnode ?d ?sb n) = T_DIR"
    have out: "wp (iunlockput ip t) (\<lambda>_ u. walked c p s f None None u)" if t: "at_dir c p s n ip t" "iref t = iref s" for t
      by (rule wp_mono [OF leave_dir [OF t(1) i l]]) (simp add: walked_def t(2) f fun_upd_def)
    have down: "wp (dirlookup ip name t) (\<lambda>r u. wp (case r of
          None \<Rightarrow> then_do (iunlockput ip u) (\<lambda>_ s. Ret None s)
        | Some (next, _) \<Rightarrow> then_do (iunlockput ip u) (\<lambda>_ s. namex_loop fuel next rest parent s)) (walked c p s f ?g))"
      if t: "at_dir c p s n ip t" "iref t = iref s" and dir: ?dir and more: "\<not> (parent \<and> rest = [])" for t
    proof (rule wp_mono [OF step_down [OF t i ok l tree pins dir f Suc.prems(7), of name]])
      fix r u
      let ?post = "\<lambda>v. fs_ok c p {} v \<and> same_disk s v \<and> (case child ?d ?sb n name of None \<Rightarrow> r = None \<and> iref v = f
        | Some m \<Rightarrow> \<exists>i' off. r = Some (i', off) \<and> ientry v m = Some i' \<and> iref v = f(m := f m + 1))"
      assume "wp (iunlockput ip u) (\<lambda>_. ?post)"
      then obtain v where v: "iunlockput ip u = Ret () v" "?post v" by (auto simp: wp_Ret_iff)
      show "wp (case r of
          None \<Rightarrow> then_do (iunlockput ip u) (\<lambda>_ s. Ret None s)
        | Some (next, _) \<Rightarrow> then_do (iunlockput ip u) (\<lambda>_ s. namex_loop fuel next rest parent s)) (walked c p s f ?g)"
      proof (cases "child ?d ?sb n name")
        case None
        then show ?thesis using v dir more e by (simp add: goal_of_Cons walked_def)
      next
        case (Some m)
        then obtain i' off where i': "r = Some (i', off)" "ientry v m = Some i'" "iref v = f(m := f m + 1)" using v(2) by auto
        note sd = same_diskD [of s v]
        have "wp (namex_loop fuel i' rest parent v) (walked c p v f (goal_of parent (content v) (sb v) m (path_elems rest)))"
          using v(2) Suc.prems sd i' e child_live [OF tree l Some d512] by (intro Suc.IH) (auto simp: fun_eq_iff)
        then show ?thesis using v i' Some dir more e sd by (auto simp: goal_of_Cons intro: walked_trans elim!: wp_mono)
      qed
    qed
    have lk: "wp (ilock (Some ip) s) (\<lambda>_ t. at_dir c p s n ip t \<and> iref t = iref s)" by (rule ilock_dir [OF ok i l pins])
    have st: "wp (if i_type (inodes t ip) \<noteq> T_DIR then then_do (iunlockput ip t) (\<lambda>_ s. Ret None s)
        else if parent \<and> rest = [] then then_do (iunlock (Some ip) t) (\<lambda>_ s. Ret (Some (ip, name)) s)
        else then_do (dirlookup ip name t) (\<lambda>r s. case r of
            None \<Rightarrow> then_do (iunlockput ip s) (\<lambda>_ s. Ret None s)
          | Some (next, _) \<Rightarrow> then_do (iunlockput ip s) (\<lambda>_ s. namex_loop fuel next rest parent s))) (walked c p s f ?g)"
      if t: "at_dir c p s n ip t" "iref t = iref s" for t
    proof (cases ?dir)
      case True
      then show ?thesis using down [OF t True] stay_at_dir [OF t i, of name, folded f] at_dirD(4) [OF t(1) i] e by (auto simp: goal_of_Cons)
    next
      case False
      then show ?thesis using out [OF t] at_dirD(4) [OF t(1) i] e by (simp add: goal_of_Cons)
    qed
    show ?thesis unfolding namex_loop.simps a option.case prod.case wp_then_do by (rule wp_mono [OF lk]) (use st in blast)
  qed
qed simp

text \<open>The inode a path starts from: the root, or the current directory of the process.\<close>

definition starts_at :: "nat \<Rightarrow> u8 list \<Rightarrow> 'a icst_scheme \<Rightarrow> u32 \<Rightarrow> bool" where
  "starts_at p path s n \<longleftrightarrow>
     (if path \<noteq> [] \<and> hd path = 47 then n = ROOTINO
      else live (content s) (disksize s) (sb s) n \<and> p_cwd (procs s p) \<noteq> None \<and> ientry s n = p_cwd (procs s p))"

lemma namex_wp:
  assumes ok: "fs_ok c p {} s" and tree: "fs_tree (content s) (disksize s) (sb s)" and pins: "card (pinned s) < NBUF"
    and room: "card {m. 0 < iref s m} + 2 \<le> NINODE" and n: "starts_at p path s n"
  shows "wp (namex path parent s) (walked c p s (iref s) (goal_of parent (content s) (sb s) n (path_elems path)))"
proof -
  have q: "quiet c p s" using ok by (simp add: fs_ok_def bio_ok_def)
  have go: "wp (namex_loop (Suc (length path)) i path parent t) (walked c p s (iref s) (goal_of parent (content s) (sb s) n (path_elems path)))"
    if t: "fs_ok c p {} t" "same_disk s t" "ientry t n = Some i" "iref t = (iref s)(n := iref s n + 1)" and l: "live (content s) (disksize s) (sb s) n" for t i
  proof -
    note sd = same_diskD [OF t(2)]
    have "wp (namex_loop (Suc (length path)) i path parent t) (walked c p t (iref s) (goal_of parent (content t) (sb t) n (path_elems path)))"
      using t l tree pins room by (intro namex_loop_wp) (auto simp: sd fun_eq_iff)
    then show ?thesis unfolding sd by (rule wp_mono) (rule walked_trans [OF t(2)])
  qed
  show ?thesis
  proof (cases "path \<noteq> [] \<and> hd path = 47")
    case True
    then have "n = ROOTINO" using n by (simp add: starts_at_def)
    moreover have "live (content s) (disksize s) (sb s) ROOTINO" using tree by (simp add: fs_tree_def)
    moreover have "wp (iget ROOTDEV ROOTINO s) (\<lambda>i t. ientry t ROOTINO = Some i \<and> fs_ok c p {} t \<and> same_disk s t
        \<and> iref t = (iref s)(ROOTINO := iref s ROOTINO + 1))"
      using iget_wp [OF ok, of ROOTINO] room by (auto simp: ROOTDEV_def elim!: wp_mono)
    ultimately show ?thesis using True go by (auto simp: namex_def simp del: namex_loop.simps elim!: wp_mono)
  next
    case False
    then obtain cwd where cwd: "p_cwd (procs s p) = Some cwd" "ientry s n = Some cwd" and l: "live (content s) (disksize s) (sb s) n"
      using n unfolding starts_at_def by auto
    let ?t = "upd_inode cwd (\<lambda>x. x\<lparr>i_ref := i_ref (inodes s cwd) + 1\<rparr>) s"
    have "fs_ok c p {} ?t \<and> same_disk s ?t \<and> iref ?t = (iref s)(n := i_ref (inodes s cwd) + 1) \<and> (\<forall>j. unref (inodes ?t j) = unref (inodes s j))
      \<and> (\<forall>m. 0 < iref ?t m \<longrightarrow> ientry ?t m = ientry s m)"
      by (rule ref_change [OF ok cwd(2)]) (use ientry_Some(2) [OF cwd(2)] in auto)
    moreover have "iref s n = i_ref (inodes s cwd)" "0 < i_ref (inodes s cwd)" using cwd ientry_Some(2) [OF cwd(2)] by (simp_all add: iref_def)
    moreover have "idup cwd s = Ret cwd ?t" by (simp add: idup_eq [OF q]) (simp add: upd_inode_def)
    ultimately show ?thesis using False cwd l go [of ?t cwd] quietD(4) [OF q] by (auto simp: namex_def simp del: namex_loop.simps)
  qed
qed

section \<open>Walking through the small file system\<close>

lemma demo_fs_ok: "fs_ok 0 0 {} demo_fs" "ientry demo_fs n = None" "iref demo_fs n = 0"
proof -
  show "fs_ok 0 0 {} demo_fs" using demo_fs_bio by (simp add: fs_ok_def icache_ok_def inode_ok_def)
  show "ientry demo_fs n = None" by (simp add: ientry_def find_idx_None)
  then show "iref demo_fs n = 0" by (simp add: iref_def)
qed

lemma demo_inode:
  "i_type (dnode demo_disk demo_sb 1) = T_DIR" "i_nlink (dnode demo_disk demo_sb 1) = 1" "i_size (dnode demo_disk demo_sb 1) = 16"
  "i_addrs (dnode demo_disk demo_sb 1) 0 = 20"
  "i_type (dnode demo_disk demo_sb 2) = T_FILE" "i_nlink (dnode demo_disk demo_sb 2) = 1" "i_size (dnode demo_disk demo_sb 2) = 6"
  "i_addrs (dnode demo_disk demo_sb 2) 0 = 21"
  by (simp_all add: dnode_def load_def dinode_get_def dinode_off_def IBLOCK_def IPB_def BSIZE_def sizeof_dinode_def demo_sb_def demo_disk_def
     demo_iblock_def get16_def get32_def nth_append T_DIR_def T_FILE_def NDIRECT_def)

lemma demo_live: "live demo_disk 33 demo_sb n \<longleftrightarrow> n = 1 \<or> n = 2"
proof
  assume l: "live demo_disk 33 demo_sb n"
  then have "unat (n div 8 + 32) < 33" by (simp add: live_def IBLOCK_def IPB_def BSIZE_def sizeof_dinode_def demo_sb_def word_less_nat_alt)
  moreover have "unat (n div 8) \<le> 536870911" using unat_u32 [of n] by (simp add: unat_div)
  ultimately have "unat n < 8" by (simp add: unat_word_ariths(1) unat_div)
  then have "n \<in> {0, 1, 2, 3, 4, 5, 6, 7}" by (auto simp: word_unat_eq_iff)
  moreover have "i_type (dnode demo_disk demo_sb n) \<noteq> 0" using l by (simp add: live_def)
  ultimately show "n = 1 \<or> n = 2"
    by (auto simp: dnode_def load_def dinode_get_def dinode_off_def IBLOCK_def IPB_def BSIZE_def sizeof_dinode_def demo_sb_def demo_disk_def
     demo_iblock_def get16_def nth_append)
next
  assume "n = 1 \<or> n = 2"
  then show "live demo_disk 33 demo_sb n"
    using demo_inode by (auto simp: live_def IBLOCK_def IPB_def BSIZE_def sizeof_dinode_def demo_sb_def T_DIR_def T_FILE_def)
qed

lemma demo_root: "file_bytes demo_disk (dnode demo_disk demo_sb 1) = [2, 0, 97] @ replicate 13 0" "file_mapped demo_disk 33 (dnode demo_disk demo_sb 1)"
  "dir_entry (file_bytes demo_disk (dnode demo_disk demo_sb 1)) 0 = \<lparr>de_inum = 2, de_name = 97 # replicate 13 0\<rparr>"
proof -
  have n: "file_nblocks (dnode demo_disk demo_sb 1) = 1" by (simp add: file_nblocks_def demo_inode)
  show b: "file_bytes demo_disk (dnode demo_disk demo_sb 1) = [2, 0, 97] @ replicate 13 0"
    by (simp add: file_bytes_def n file_block_def NDIRECT_def demo_inode demo_disk_def)
  show "file_mapped demo_disk 33 (dnode demo_disk demo_sb 1)"
    by (simp add: file_mapped_def n file_block_def MAXFILE_def NDIRECT_def demo_inode)
  show "dir_entry (file_bytes demo_disk (dnode demo_disk demo_sb 1)) 0 = \<lparr>de_inum = 2, de_name = 97 # replicate 13 0\<rparr>"
    unfolding b by (simp add: dir_entry_def dirent_get_def get16_def DIRSIZ_def)
qed

lemma demo_tree: "fs_tree demo_disk 33 demo_sb"
  using demo_root demo_inode by (auto simp: fs_tree_def demo_live ROOTINO_def dir_ok_def T_DIR_def T_FILE_def)

lemma demo_walk: "walk demo_disk demo_sb 1 (path_elems [47, 97]) = Some 2" "walk_parent demo_disk demo_sb 1 (path_elems [47, 97]) = Some (1, [97])"
proof -
  have e: "path_elems [47, 97] = [[97]]" by (simp add: path_elems_def DIRSIZ_def)
  have "dir_find (file_bytes demo_disk (dnode demo_disk demo_sb 1)) [97] = Some 0"
    using demo_root(1,3) by (simp add: dir_find_def find_idx_Some cname_def)
  then show "walk demo_disk demo_sb 1 (path_elems [47, 97]) = Some 2" "walk_parent demo_disk demo_sb 1 (path_elems [47, 97]) = Some (1, [97])"
    using demo_root(3) by (simp_all add: e walk_parent_def child_def demo_inode)
qed

section \<open>Properties\<close>

text \<open>C8: a path leads \<open>namei\<close> to the inode that the directories on the disk name, from the root or from the current directory, and
  to no inode when there is none; \<open>nameiparent\<close> finds the directory of the last element. Nothing on the disk changes, all inodes
  are unlocked, and the inode found has one more reference while all others have as many as before.\<close>

theorem namei_resolves:
  assumes "fs_ok c p {} s" and "fs_tree (content s) (disksize s) (sb s)" and "card (pinned s) < NBUF"
    and "card {m. 0 < iref s m} + 2 \<le> NINODE" and "starts_at p path s n"
  shows "wp (namei path s) (\<lambda>r t. fs_ok c p {} t \<and> same_disk s t \<and>
      (case walk (content s) (sb s) n (path_elems path) of
         None \<Rightarrow> r = None \<and> iref t = iref s
       | Some m \<Rightarrow> \<exists>i. r = Some i \<and> ientry t m = Some i \<and> iref t = (iref s)(m := iref s m + 1)))
    \<and> wp (nameiparent path s) (\<lambda>r t. fs_ok c p {} t \<and> same_disk s t \<and>
      (case walk_parent (content s) (sb s) n (path_elems path) of
         None \<Rightarrow> r = None \<and> iref t = iref s
       | Some (m, name) \<Rightarrow> \<exists>i. r = Some (i, name) \<and> ientry t m = Some i \<and> iref t = (iref s)(m := iref s m + 1)))"
  using namex_wp [OF assms, of False] namex_wp [OF assms, of True]
  by (auto simp: namei_def nameiparent_def walked_def goal_of_def elim!: wp_mono split: option.splits)

theorem namei_resolves_witness:
  "fs_ok 0 0 {} demo_fs \<and> wp (namei [47, 97] demo_fs) (\<lambda>r t. fs_ok 0 0 {} t \<and> same_disk demo_fs t \<and> ientry t 2 = r \<and> iref t = (\<lambda>_. 0)(2 := 1))
   \<and> wp (nameiparent [47, 97] demo_fs) (\<lambda>r t. \<exists>i. r = Some (i, [97]) \<and> ientry t 1 = Some i)"
proof -
  have i: "iref demo_fs = (\<lambda>_. 0)" by (rule ext) (rule demo_fs_ok)
  have "fs_tree (content demo_fs) (disksize demo_fs) (sb demo_fs)" "card (pinned demo_fs) < NBUF" "card {m. 0 < iref demo_fs m} + 2 \<le> NINODE"
    "starts_at 0 [47, 97] demo_fs 1"
    using demo_tree by (simp_all add: demo_fs_bio i NBUF_def NINODE_def starts_at_def ROOTINO_def)
  from namei_resolves [OF demo_fs_ok(1) this] show ?thesis
    by (auto simp: demo_fs_bio demo_walk i demo_fs_ok(1) elim!: wp_mono)
qed

end
