(* ===== verification/Transact.thy ===== *)
theory Transact
  imports Pathwalk Logsafe
begin

text \<open>
  Changing blocks inside a transaction: read a block, change the buffer, log it and give it back. The block allocator and the
  contents of files are built on this.
\<close>

section \<open>Editing a block\<close>

text \<open>Apart from blocks, buffers and scheduling only the header of the log changes.\<close>

definition log_frame :: "'a logst_scheme \<Rightarrow> 'a logst_scheme \<Rightarrow> bool" where
  "log_frame s t \<longleftrightarrow> bio_frame (s\<lparr>log_lh := log_lh t\<rparr>) t"

lemma log_frame_refl [simp]: "log_frame s s"
  by (simp add: log_frame_def)

lemma log_frame_bio: "bio_frame s t \<Longrightarrow> log_frame s t"
  using log_frameD(3) [of s t] by (simp add: log_frame_def)

lemma log_frame_trans: "log_frame s t \<Longrightarrow> log_frame t u \<Longrightarrow> log_frame s u"
  using bio_frame_lh [of "s\<lparr>log_lh := log_lh t\<rparr>" t "log_lh u"] unfolding log_frame_def by (auto intro: bio_frame_trans)

lemma log_frame_fields:
  fixes s t :: "'a logst_scheme"
  assumes "log_frame s t"
  shows "log_start t = log_start s" "log_dev t = log_dev s" "log_size t = log_size s" "log_outstanding t = log_outstanding s"
    "disksize t = disksize s" "log_cap t = log_cap s" "log_area t = log_area s"
proof -
  note f = log_frameD [OF assms [unfolded log_frame_def]]
  show "log_start t = log_start s" "log_dev t = log_dev s" "log_size t = log_size s" "log_outstanding t = log_outstanding s"
    "disksize t = disksize s" "log_cap t = log_cap s" "log_area t = log_area s"
    using f by (simp_all add: log_cap_def log_area_def log_slot_def [abs_def])
qed

lemma log_frame_inodes:
  assumes "log_frame s t"
  shows "inodes t = inodes s" "sb t = sb s" "sleeplks t (InodeSL k) = sleeplks s (InodeSL k)" "p_pid (procs t q) = p_pid (procs s q)"
  using bio_frame_inodes [OF assms [unfolded log_frame_def]] bio_frame_sleep [OF assms [unfolded log_frame_def], of k]
    bio_frameD(4) [OF assms [unfolded log_frame_def], of q] by simp_all

text \<open>The blocks have become \<open>d\<close>, those in \<open>W\<close> have been logged, and the disk is as it was.\<close>

definition edited :: "nat \<Rightarrow> nat \<Rightarrow> (nat \<rightharpoonup> u32) \<Rightarrow> 'a logst_scheme \<Rightarrow> (u32 \<Rightarrow> u8 list) \<Rightarrow> u32 set \<Rightarrow> 'a logst_scheme \<Rightarrow> bool" where
  "edited c p h s d W t \<longleftrightarrow> log_inv c p h t \<and> content t = d \<and> disk t = disk s \<and> pinned t = pinned s \<union> W \<and> log_frame s t"

lemma edited_trans: "edited c p h s d W t \<Longrightarrow> edited c p h' t d' V u \<Longrightarrow> W \<union> V = U \<Longrightarrow> edited c p h' s d' U u"
  by (auto simp: edited_def intro: log_frame_trans)

lemma upd_data: "upd_buf b (\<lambda>x. x\<lparr>b_data := f (b_data x)\<rparr>) s = set_data b (f (b_data (bufs s b))) s"
  by (simp add: set_data_def upd_buf_def)

lemma pinned_count:
  assumes "log_inv c p h s"
  shows "card (pinned s) = lh_count s"
  using assms by (simp add: log_inv_def card_image)

lemma edit_held:
  fixes s :: "'a logst_scheme"
  assumes I: "log_inv c p h s" and h: "h b = Some n" and n: "n \<notin> log_area s" and room: "lh_count s < log_cap s" and "1 \<le> log_outstanding s"
    and d: "length d = BSIZE"
  shows "wp (log_write b (set_data b d s)) (\<lambda>_ t. edited c p h s ((content s)(n := d)) {n} t \<and> n \<in> pinned t)"
proof -
  have ok: "bio_ok c p h s" using I by (simp add: log_inv_def)
  let ?u = "set_data b d s"
  have u: "bio_ok c p h ?u" "store_of ?u = store_poke n d (store_of s)" "bio_frame s ?u" using bc.poke [OF ok h d] by simp_all
  then have e: "content ?u = (content s)(n := d)" "pinned ?u = pinned s" "disk ?u = disk s" by (simp_all add: store_of_def store_poke_def)
  note f = log_frameD [OF u(3)] log_wf_frame [OF u(3)]
  have I': "log_inv c p h ?u" using I u(1) f e by (simp add: log_inv_def lh_count_def)
  have "log_cap ?u = log_cap s" "log_area ?u = log_area s" "lh_count ?u = lh_count s"
    using log_frame_fields [OF log_frame_bio [OF u(3)]] f by (simp_all add: lh_count_def)
  moreover from this have "wp (log_write b ?u) (\<lambda>_ t. log_inv c p h t \<and> content t = content ?u \<and> disk t = disk ?u
    \<and> pinned t = insert n (pinned ?u) \<and> log_lh t = add_block n (log_lh ?u) \<and> log_outstanding t = log_outstanding ?u
    \<and> bio_frame (?u\<lparr>log_lh := log_lh t\<rparr>) t)"
    using n room assms(5) f by (intro log_write_wp [OF I' h]) simp_all
  ultimately show ?thesis
  proof (elim wp_mono conjE, intro conjI)
    fix x t
    assume t: "log_inv c p h t" "content t = content ?u" "disk t = disk ?u" "pinned t = insert n (pinned ?u)" "log_lh t = add_block n (log_lh ?u)"
      "bio_frame (?u\<lparr>log_lh := log_lh t\<rparr>) t"
    have "log_frame s t" using log_frame_trans [OF log_frame_bio [OF u(3)]] t(6) by (simp add: log_frame_def)
    then show "edited c p h s ((content s)(n := d)) {n} t" "n \<in> pinned t" using t e by (simp_all add: edited_def)
  qed
qed

lemma log_cap_bound: "log_cap s \<le> NBUF"
  by (simp add: log_cap_def LOGSIZE_def MAXOPBLOCKS_def NBUF_def)

text \<open>Reading a block into a buffer, and giving it back without or with a change.\<close>

lemma open_block:
  fixes s :: "'a logst_scheme"
  assumes I: "log_inv c p h s" and n: "n < disksize s" "n \<notin> ran h" and room: "lh_count s + card (dom h) < NBUF"
  shows "wp (bread 1 n s) (\<lambda>b t. h b = None \<and> b_data (bufs t b) = content s n \<and> edited c p (h(b \<mapsto> n)) s (content s) {} t
    \<and> pinned t = pinned s \<and> bio_frame s t)"
proof -
  have ok: "bio_ok c p h s" using I by (simp add: log_inv_def)
  have "wp (bread 1 n s) (\<lambda>b t. h b = None \<and> bio_ok c p (h(b \<mapsto> n)) t \<and> store_of t = store_of s \<and> bio_frame s t)"
    using room pinned_count [OF I] by (intro bc.rd [OF ok n]) (simp add: store_of_def)
  then show ?thesis
  proof (rule wp_mono, elim conjE, intro conjI)
    fix b t
    assume t: "h b = None" "bio_ok c p (h(b \<mapsto> n)) t" "store_of t = store_of s" "bio_frame s t"
    then have e: "content t = content s" "pinned t = pinned s" "disk t = disk s" by (simp_all add: store_of_def)
    show "b_data (bufs t b) = content s n" using bc.peek [OF t(2), of b n] e by (simp add: store_of_def)
    have "log_inv c p (h(b \<mapsto> n)) t" using I t(2) e log_frameD [OF t(4)] log_wf_frame [OF t(4)] by (simp add: log_inv_def)
    then show "edited c p (h(b \<mapsto> n)) s (content s) {} t" using e log_wf_frame [OF t(4)] t(4) by (simp add: edited_def log_frame_bio)
    show "h b = None" "pinned t = pinned s" "bio_frame s t" using t e by simp_all
  qed
qed

lemma close_block:
  fixes s :: "'a logst_scheme"
  assumes I: "log_inv c p h s" and h: "h b = Some n" and "n \<in> pinned s \<or> content s n = disk s n"
  shows "wp (brelse b s) (\<lambda>_ t. edited c p (h(b := None)) s (content s) {} t \<and> pinned t = pinned s \<and> bio_frame s t)"
proof -
  have ok: "bio_ok c p h s" using I by (simp add: log_inv_def)
  have "wp (brelse b s) (\<lambda>_ t. bio_ok c p (h(b := None)) t \<and> store_of t = store_of s \<and> bio_frame s t)"
    using assms(3) by (intro bc.rel [OF ok h]) (simp add: store_of_def)
  then show ?thesis
  proof (rule wp_mono, elim conjE, intro conjI)
    fix x t
    assume t: "bio_ok c p (h(b := None)) t" "store_of t = store_of s" "bio_frame s t"
    then have e: "content t = content s" "pinned t = pinned s" "disk t = disk s" by (simp_all add: store_of_def)
    have "log_inv c p (h(b := None)) t" using I t(1) e log_frameD [OF t(3)] log_wf_frame [OF t(3)] by (simp add: log_inv_def)
    then show "edited c p (h(b := None)) s (content s) {} t" using e log_wf_frame [OF t(3)] t(3) by (simp add: edited_def log_frame_bio)
    show "pinned t = pinned s" "bio_frame s t" using t e by simp_all
  qed
qed

lemma look_block:
  fixes s :: "'a logst_scheme"
  assumes I: "log_inv c p h s" and n: "n < disksize s" "n \<notin> ran h" and room: "lh_count s + card (dom h) < NBUF"
  shows "wp (bread 1 n s) (\<lambda>b t. b_data (bufs t b) = content s n \<and> bio_frame s t
    \<and> wp (brelse b t) (\<lambda>_ u. edited c p h s (content s) {} u \<and> bio_frame s u))"
proof (rule wp_mono [OF open_block [OF assms]], elim conjE, intro conjI)
  fix b t
  assume t: "h b = None" "b_data (bufs t b) = content s n" "edited c p (h(b \<mapsto> n)) s (content s) {} t" "pinned t = pinned s" "bio_frame s t"
  then show "b_data (bufs t b) = content s n" "bio_frame s t" by simp_all
  have k: "(h(b \<mapsto> n))(b := None) = h" using t(1) by (auto simp: fun_eq_iff)
  have ct: "content t = content s" using t(3) by (simp add: edited_def)
  have "n \<in> pinned s \<or> content s n = disk s n" using I n(2) content_clean [of c p h s n] by (auto simp: log_inv_def)
  then have "n \<in> pinned t \<or> content t n = disk t n" using t(3,4) by (simp add: edited_def)
  then have "wp (brelse b t) (\<lambda>_ u. edited c p ((h(b \<mapsto> n))(b := None)) t (content t) {} u \<and> pinned u = pinned t \<and> bio_frame t u)"
    using t(3) by (intro close_block) (simp_all add: edited_def)
  then show "wp (brelse b t) (\<lambda>_ u. edited c p h s (content s) {} u \<and> bio_frame s u)"
    unfolding k ct by (elim wp_mono) (auto intro: edited_trans [OF t(3)] bio_frame_trans [OF t(5)])
qed

lemma edit_block:
  fixes s :: "'a logst_scheme"
  assumes I: "log_inv c p h s" and n: "n < disksize s" "n \<notin> ran h" "n \<notin> log_area s" and room: "lh_count s + card (dom h) < log_cap s" and o: "1 \<le> log_outstanding s"
  shows "wp (bread 1 n s) (\<lambda>b t. b_data (bufs t b) = content s n \<and> bio_frame s t
    \<and> (\<forall>d. length d = BSIZE \<longrightarrow> wp (log_write b (set_data b d t)) (\<lambda>_ u. wp (brelse b u) (\<lambda>_ v. edited c p h s ((content s)(n := d)) {n} v))))"
proof -
  have "lh_count s + card (dom h) < NBUF" using room log_cap_bound [of s] by simp
  note op = open_block [OF I n(1,2) this]
  show ?thesis
  proof (rule wp_mono [OF op], elim conjE, intro conjI allI impI)
    fix b t and d :: "u8 list"
    assume t: "h b = None" "b_data (bufs t b) = content s n" "edited c p (h(b \<mapsto> n)) s (content s) {} t" "pinned t = pinned s" "bio_frame s t"
      and d: "length d = BSIZE"
    have k: "(h(b \<mapsto> n))(b := None) = h" using t(1) by (auto simp: fun_eq_iff)
    have f: "log_frame s t" "log_inv c p (h(b \<mapsto> n)) t" "content t = content s" using t(3) by (simp_all add: edited_def)
    have "lh_count t = lh_count s" using pinned_count [OF f(2)] pinned_count [OF I] t(4) by simp
    note ff = log_frame_fields [OF f(1)]
    have "wp (log_write b (set_data b d t)) (\<lambda>_ u. edited c p (h(b \<mapsto> n)) t ((content t)(n := d)) {n} u \<and> n \<in> pinned u)"
      using n(3) room \<open>lh_count t = lh_count s\<close> o by (intro edit_held [OF f(2) _ _ _ _ d]) (simp_all add: ff)
    then show "wp (log_write b (set_data b d t)) (\<lambda>_ u. wp (brelse b u) (\<lambda>_ v. edited c p h s ((content s)(n := d)) {n} v))"
    proof (rule wp_mono, elim conjE)
      fix x u
      assume u: "edited c p (h(b \<mapsto> n)) t ((content t)(n := d)) {n} u" "n \<in> pinned u"
      have "wp (brelse b u) (\<lambda>_ v. edited c p ((h(b \<mapsto> n))(b := None)) u (content u) {} v \<and> pinned v = pinned u \<and> bio_frame u v)"
        using u by (intro close_block [where n = n]) (simp_all add: edited_def)
      moreover have cu: "content u = (content s)(n := d)" using u(1) f(3) by (simp add: edited_def)
      moreover have su: "edited c p (h(b \<mapsto> n)) s ((content s)(n := d)) {n} u" using edited_trans [OF t(3) u(1)] f(3) by simp
      ultimately show "wp (brelse b u) (\<lambda>_ v. edited c p h s ((content s)(n := d)) {n} v)"
        unfolding k cu by (elim wp_mono) (auto intro: edited_trans [OF su])
    qed
  qed simp_all
qed

section \<open>The block allocator\<close>

text \<open>Which blocks the bitmap marks as used.\<close>

definition in_use :: "(u32 \<Rightarrow> u8 list) \<Rightarrow> superblock \<Rightarrow> u32 \<Rightarrow> bool" where
  "in_use d sblk b \<longleftrightarrow> bit (d (BBLOCK b sblk) ! (unat b mod BPB div 8)) (unat b mod BPB mod 8)"

definition mark :: "nat \<Rightarrow> u8 list \<Rightarrow> u8 list" where
  "mark i xs = xs[i div 8 := xs ! (i div 8) OR push_bit (i mod 8) 1]"

text \<open>The blocks after \<open>b\<close> has been handed out: its bit is set and it is filled with zeros.\<close>

definition alloc_blocks :: "superblock \<Rightarrow> u32 \<Rightarrow> (u32 \<Rightarrow> u8 list) \<Rightarrow> u32 \<Rightarrow> u8 list" where
  "alloc_blocks sblk b d = (d(BBLOCK b sblk := mark (unat b mod BPB) (d (BBLOCK b sblk))))(b := replicate BSIZE 0)"

text \<open>The bitmap lies on the disk, outside the log; it marks itself, the log and the blocks that are being held as used.\<close>

definition bitmap_ok :: "(nat \<rightharpoonup> u32) \<Rightarrow> (u32 \<Rightarrow> u8 list) \<Rightarrow> 'a icst_scheme \<Rightarrow> bool" where
  "bitmap_ok h d s \<longleftrightarrow> sb_size (sb s) \<le> disksize s \<and> unat (sb_size (sb s)) \<le> 2 ^ 31
     \<and> (\<forall>b < sb_size (sb s). BBLOCK b (sb s) < sb_size (sb s) \<and> BBLOCK b (sb s) \<notin> log_area s \<union> ran h \<and> in_use d (sb s) (BBLOCK b (sb s)))
     \<and> (\<forall>b \<in> log_area s \<union> ran h. b < sb_size (sb s) \<and> in_use d (sb s) b)"

lemma BBLOCK_at:
  assumes "unat b = BPB * m" and "i < BPB" and "BPB * m + i < 4294967296"
  shows "unat (b + of_nat i) = BPB * m + i" "BBLOCK (b + of_nat i) sblk = BBLOCK b sblk"
    "in_use d sblk (b + of_nat i) \<longleftrightarrow> bit (d (BBLOCK b sblk) ! (i div 8)) (i mod 8)"
proof -
  have "unat (of_nat i :: u32) = i" using assms by (intro unat_of_nat_u32) (simp add: BPB_def BSIZE_def)
  then show u: "unat (b + of_nat i) = BPB * m + i" using assms by (simp add: unat_word_ariths(1))
  have "unat ((b + of_nat i) div of_nat BPB) = unat (b div of_nat BPB)"
    using u assms(1,2) by (simp add: unat_div BPB_def BSIZE_def)
  then have "(b + of_nat i) div of_nat BPB = b div of_nat BPB" by (simp add: word_unat_eq_iff)
  then show e: "BBLOCK (b + of_nat i) sblk = BBLOCK b sblk" by (simp add: BBLOCK_def)
  have "unat (b + of_nat i) mod BPB = i" using u assms(2) by simp
  then show "in_use d sblk (b + of_nat i) \<longleftrightarrow> bit (d (BBLOCK b sblk) ! (i div 8)) (i mod 8)" by (simp add: in_use_def e)
qed

lemma balloc_scan_cases:
  "case balloc_scan [k..<n] b sz d of
     Some i \<Rightarrow> k \<le> i \<and> i < n \<and> b + of_nat i < sz \<and> \<not> bit (d ! (i div 8)) (i mod 8) \<and> (\<forall>j. k \<le> j \<and> j < i \<longrightarrow> bit (d ! (j div 8)) (j mod 8))
   | None \<Rightarrow> \<exists>e \<le> n. (e < n \<longrightarrow> \<not> b + of_nat e < sz) \<and> (\<forall>j. k \<le> j \<and> j < e \<longrightarrow> bit (d ! (j div 8)) (j mod 8))"
proof (induction "n - k" arbitrary: k)
  case 0
  then show ?case by auto
next
  case (Suc m)
  then have k: "[k..<n] = k # [Suc k..<n]" "k < n" by (simp_all add: upt_conv_Cons)
  have IH: "case balloc_scan [Suc k..<n] b sz d of
     Some i \<Rightarrow> Suc k \<le> i \<and> i < n \<and> b + of_nat i < sz \<and> \<not> bit (d ! (i div 8)) (i mod 8) \<and> (\<forall>j. Suc k \<le> j \<and> j < i \<longrightarrow> bit (d ! (j div 8)) (j mod 8))
   | None \<Rightarrow> \<exists>e \<le> n. (e < n \<longrightarrow> \<not> b + of_nat e < sz) \<and> (\<forall>j. Suc k \<le> j \<and> j < e \<longrightarrow> bit (d ! (j div 8)) (j mod 8))"
    by (rule Suc.hyps(1)) (use Suc.hyps(2) in simp)
  show ?case
  proof (cases "b + of_nat k < sz")
    case False
    then show ?thesis using k by (auto intro!: exI [of _ k])
  next
    case True
    show ?thesis
    proof (cases "bit (d ! (k div 8)) (k mod 8)")
      case False
      then show ?thesis using k True by (auto simp: and_exp_eq_0_iff_not_bit)
    next
      case bit: True
      have next': "j = k \<or> Suc k \<le> j" if "k \<le> j" for j using that by auto
      then show ?thesis using IH k True bit by (auto simp: and_exp_eq_0_iff_not_bit split: option.splits dest!: next')
    qed
  qed
qed

lemma wp_conj: "wp m P \<Longrightarrow> wp m Q \<Longrightarrow> wp m (\<lambda>x s. P x s \<and> Q x s)"
  by (cases m) simp_all

text \<open>A transaction that may change the blocks in \<open>R\<close> and \<open>k\<close> others. One place of the log stays free, since \<open>log_write\<close> stops at a full log
  before it looks whether the block is there.\<close>

definition txn :: "nat \<Rightarrow> nat \<Rightarrow> (nat \<rightharpoonup> u32) \<Rightarrow> u32 set \<Rightarrow> nat \<Rightarrow> 'a logst_scheme \<Rightarrow> bool" where
  "txn c p h R k s \<longleftrightarrow> log_inv c p h s \<and> finite R \<and> card (pinned s \<union> R) + card (dom h) + k < log_cap s \<and> 1 \<le> log_outstanding s"

lemma log_inv_finite: "log_inv c p h s \<Longrightarrow> finite (pinned s)"
  by (simp add: log_inv_def)

lemma txn_edited:
  assumes "txn c p h R k s" and "edited c p h s d W t" and "finite W" and "card (W - (pinned s \<union> R)) + l \<le> k"
  shows "txn c p h R l t"
proof -
  have "pinned t \<union> R = (pinned s \<union> R) \<union> (W - (pinned s \<union> R))" using assms(2) by (auto simp: edited_def)
  then have "card (pinned t \<union> R) \<le> card (pinned s \<union> R) + card (W - (pinned s \<union> R))" by (metis card_Un_le)
  then show ?thesis using assms log_frame_fields [of s t] by (auto simp: txn_def edited_def)
qed

lemma txn_same:
  assumes "txn c p h R k s" and "edited c p h s d W t" and "W \<subseteq> R"
  shows "txn c p h R k t"
proof -
  have "finite W" "W - (pinned s \<union> R) = {}" using assms by (auto simp: txn_def intro: finite_subset)
  then show ?thesis using txn_edited [OF assms(1,2), of k] by (metis add_0 card.empty le_refl)
qed

lemma txn_less: "txn c p h R k s \<Longrightarrow> l \<le> k \<Longrightarrow> txn c p h R l s"
  by (simp add: txn_def)

text \<open>The buffer \<open>b\<close> of block \<open>n\<close>, which can be given back as it is, or changed and logged before.\<close>

definition opened :: "nat \<Rightarrow> nat \<Rightarrow> (nat \<rightharpoonup> u32) \<Rightarrow> 'a logst_scheme \<Rightarrow> u32 \<Rightarrow> nat \<Rightarrow> 'a logst_scheme \<Rightarrow> bool" where
  "opened c p h s n b t \<longleftrightarrow> b_data (bufs t b) = content s n \<and> bio_frame s t \<and> wp (brelse b t) (\<lambda>_ u. edited c p h s (content s) {} u)
    \<and> (\<forall>d. length d = BSIZE \<longrightarrow> wp (log_write b (set_data b d t)) (\<lambda>_ u. wp (brelse b u) (\<lambda>_ v. edited c p h s ((content s)(n := d)) {n} v)))"

lemma use_block:
  assumes T: "txn c p h R k s" and n: "n < disksize s" "n \<notin> log_area s \<union> ran h"
  shows "wp (bread 1 n s) (opened c p h s n)"
proof -
  have "lh_count s \<le> card (pinned s \<union> R)"
    using T log_inv_finite [of c p h s] pinned_count [of c p h s, symmetric] by (auto simp: txn_def intro!: card_mono)
  then have I: "log_inv c p h s" "lh_count s + card (dom h) < log_cap s" "1 \<le> log_outstanding s" using T by (simp_all add: txn_def)
  then have "lh_count s + card (dom h) < NBUF" using log_cap_bound [of s] by simp
  then have "wp (bread 1 n s) (\<lambda>b t. b_data (bufs t b) = content s n \<and> bio_frame s t \<and> wp (brelse b t) (\<lambda>_ u. edited c p h s (content s) {} u))"
    using n by (intro wp_mono [OF look_block [OF I(1)]]) (auto elim!: wp_mono)
  moreover have "wp (bread 1 n s) (\<lambda>b t. b_data (bufs t b) = content s n \<and> bio_frame s t
    \<and> (\<forall>d. length d = BSIZE \<longrightarrow> wp (log_write b (set_data b d t)) (\<lambda>_ u. wp (brelse b u) (\<lambda>_ v. edited c p h s ((content s)(n := d)) {n} v))))"
    using n I by (intro edit_block) simp_all
  ultimately show ?thesis by (rule wp_mono [OF wp_conj]) (simp add: opened_def)
qed

lemma opened_edit:
  assumes "opened c p h s n b t" and "length d = BSIZE" and "\<And>v. edited c p h s ((content s)(n := d)) {n} v \<Longrightarrow> wp (k v) Q"
  shows "wp (log_write b (set_data b d t)) (\<lambda>_ u. wp (brelse b u) (\<lambda>_ v. wp (k v) Q))"
proof -
  have "wp (log_write b (set_data b d t)) (\<lambda>_ u. wp (brelse b u) (\<lambda>_ v. edited c p h s ((content s)(n := d)) {n} v))"
    using assms(1,2) by (simp add: opened_def)
  then show ?thesis by (rule wp_mono) (erule wp_mono, rule assms(3))
qed

lemma bzero_wp:
  assumes "txn c p h R k s" and n: "n < disksize s" "n \<notin> log_area s \<union> ran h"
  shows "wp (bzero 1 n s) (\<lambda>_ t. edited c p h s ((content s)(n := replicate BSIZE 0)) {n} t)"
proof -
  have z: "upd_buf b (b_data_update (\<lambda>_. replicate BSIZE 0)) t = set_data b (replicate BSIZE 0) t" for b and t :: "'a icst_scheme"
    by (simp add: set_data_def)
  show ?thesis using use_block [OF assms] by (simp add: bzero_def z) (erule wp_mono, simp add: opened_def)
qed

lemma balloc_take:
  assumes T: "txn c p h R 1 s" and bm: "bitmap_ok h (content s) s" and b: "unat b = BPB * m" "i < BPB" "BPB * m + i < 4294967296"
    and a: "b + of_nat i < sb_size (sb s)" "\<not> in_use (content s) (sb s) (b + of_nat i)" and bp: "opened c p h s (BBLOCK b (sb s)) bp t"
  shows "wp (log_write bp (set_data bp (mark i (content s (BBLOCK b (sb s)))) t)) (\<lambda>_ u. wp (brelse bp u) (\<lambda>_ v. wp (bzero 1 (b + of_nat i) v)
        (\<lambda>_ w. edited c p h s (alloc_blocks (sb s) (b + of_nat i) (content s)) {BBLOCK b (sb s), b + of_nat i} w)))"
proof -
  let ?n = "BBLOCK b (sb s)" and ?a = "b + of_nat i"
  note at = BBLOCK_at [OF b]
  have an: "?a < disksize s" "?a \<notin> log_area s \<union> ran h" using bm a by (auto simp: bitmap_ok_def)
  have len: "length (mark i (content s ?n)) = BSIZE"
    using content_length [of c p h s ?n] T by (simp add: mark_def txn_def log_inv_def)
  have z: "wp (bzero 1 ?a v) (\<lambda>_ w. edited c p h s (alloc_blocks (sb s) ?a (content s)) {?n, ?a} w)"
    if v: "edited c p h s ((content s)(?n := mark i (content s ?n))) {?n} v" for v
  proof -
    have f: "log_frame s v" "content v = (content s)(?n := mark i (content s ?n))" using v by (simp_all add: edited_def)
    note ff = log_frame_fields [OF f(1)]
    have "unat ?a mod BPB = i" using at(1) b(2) by simp
    then have e: "(content v)(?a := replicate BSIZE 0) = alloc_blocks (sb s) ?a (content s)" by (simp add: alloc_blocks_def f(2) at(2))
    have "card ({?n} - (pinned s \<union> R)) \<le> card {?n}" by (rule card_mono) auto
    then have "txn c p h R 0 v" by (intro txn_edited [OF T v]) simp_all
    then have "wp (bzero 1 ?a v) (\<lambda>_ w. edited c p h v ((content v)(?a := replicate BSIZE 0)) {?a} w)"
      using an by (intro bzero_wp) (simp_all add: ff)
    then show ?thesis unfolding e by (rule wp_mono) (auto intro: edited_trans [OF v])
  qed
  show ?thesis by (rule opened_edit [OF bp len z])
qed

text \<open>The bits of a stretch of the bitmap, up to a block and up to the end of the disk.\<close>

lemma bits_below:
  assumes b: "unat b = BPB * m" and i: "i < BPB" "BPB * m + i < 4294967296" and low: "\<And>x. x < b \<Longrightarrow> in_use d sblk x"
    and bits: "\<And>j. j < i \<Longrightarrow> bit (d (BBLOCK b sblk) ! (j div 8)) (j mod 8)" and y: "y < b + of_nat i"
  shows "in_use d sblk y"
proof (cases "y < b")
  case False
  define j where "j = unat y - BPB * m"
  have "unat b \<le> unat y" "unat y < BPB * m + i" using False y BBLOCK_at(1) [OF b i] by (simp_all add: word_less_nat_alt)
  then have j: "j < i" "unat y = BPB * m + j" using b by (simp_all add: j_def)
  then have "y = b + of_nat j" using BBLOCK_at(1) [OF b, of j] i by (simp add: word_unat_eq_iff)
  then show ?thesis using bits [OF j(1)] BBLOCK_at(3) [OF b, of j] i j(1) by simp
qed (rule low)

lemma bits_stop:
  assumes b: "unat b = BPB * m" and big: "\<And>i. i \<le> BPB \<Longrightarrow> BPB * m + i < 4294967296" and low: "\<And>x. x < b \<Longrightarrow> in_use d sblk x"
    and e: "e \<le> BPB" "e < BPB \<longrightarrow> \<not> b + of_nat e < sz" "\<And>j. j < e \<Longrightarrow> bit (d (BBLOCK b sblk) ! (j div 8)) (j mod 8)"
    and y: "y < sz" "unat y < BPB * Suc m"
  shows "in_use d sblk y"
proof (cases "y < b")
  case False
  define j where "j = unat y - BPB * m"
  note at = BBLOCK_at [OF b _ big]
  have j: "j < BPB" "unat y = BPB * m + j" using False y(2) b by (simp_all add: j_def word_less_nat_alt)
  then have yj: "y = b + of_nat j" using at(1) [of j] by (simp add: word_unat_eq_iff)
  have "j < e"
  proof (rule ccontr)
    assume "\<not> j < e"
    then have "b + of_nat e \<le> y" using j e(1) at(1) [of e] by (simp add: word_le_nat_alt)
    then show False using e(2) \<open>\<not> j < e\<close> j(1) y(1) by auto
  qed
  then show ?thesis using e(3) at(3) [of j] yj j(1) by simp
qed (rule low)

lemma balloc_loop_wp:
  assumes "txn c p h R 1 s" and "bitmap_ok h (content s) s" and "unat b = BPB * m" and "\<And>x. x < b \<Longrightarrow> in_use (content s) (sb s) x"
    and "x < sb_size (sb s)" "\<not> in_use (content s) (sb s) x" and "unat (sb_size (sb s)) < BPB * (m + fuel)"
  shows "wp (balloc_loop fuel 1 b s) (\<lambda>a t. a < sb_size (sb s) \<and> \<not> in_use (content s) (sb s) a \<and> (\<forall>x < a. in_use (content s) (sb s) x)
    \<and> edited c p h s (alloc_blocks (sb s) a (content s)) {BBLOCK a (sb s), a} t)"
  using assms
proof (induction fuel arbitrary: b m s)
  case 0
  have "b \<le> x" using "0.prems"(4) [of x] "0.prems"(6) by (meson not_le)
  then show ?case using "0.prems"(3,5,7) by (simp add: word_less_nat_alt word_le_nat_alt)
next
  case (Suc fuel)
  note T = Suc.prems(1) and bm = Suc.prems(2) and b = Suc.prems(3) and low = Suc.prems(4) and x = Suc.prems(5,6)
  let ?d = "content s" and ?sb = "sb s" and ?n = "BBLOCK b (sb s)"
  have "b \<le> x" using low [of x] x by (meson not_le)
  then have lt: "b < sb_size ?sb" using x(1) by simp
  then have n: "?n < disksize s" "?n \<notin> log_area s \<union> ran h" using bm by (auto simp: bitmap_ok_def)
  have big: "BPB * m + i < 4294967296" if "i \<le> BPB" for i
    using lt b bm that by (simp add: bitmap_ok_def word_less_nat_alt BPB_def BSIZE_def)
  note sc = balloc_scan_cases [where k = 0 and n = BPB and b = b and sz = "sb_size ?sb" and d = "?d ?n"]
  note at = BBLOCK_at [OF b _ big]
  let ?post = "\<lambda>a t. a < sb_size ?sb \<and> \<not> in_use ?d ?sb a \<and> (\<forall>x < a. in_use ?d ?sb x) \<and> edited c p h s (alloc_blocks ?sb a ?d) {BBLOCK a ?sb, a} t"
  show ?case
  proof (cases "balloc_scan [0..<BPB] b (sb_size ?sb) (?d ?n)")
    case (Some i)
    then have i: "i < BPB" "b + of_nat i < sb_size ?sb" "\<not> in_use ?d ?sb (b + of_nat i)" "\<And>j. j < i \<Longrightarrow> bit (?d ?n ! (j div 8)) (j mod 8)"
      using sc at(3) [of i] by auto
    have wr: "wp (log_write bp (set_data bp (mark i (?d ?n)) t)) (\<lambda>_ u. wp (brelse bp u) (\<lambda>_ v. wp (bzero 1 (b + of_nat i) v) (\<lambda>_ w. ?post (b + of_nat i) w)))"
      if "opened c p h s ?n bp t" for bp t
    proof -
      have "edited c p h s (alloc_blocks ?sb (b + of_nat i) ?d) {?n, b + of_nat i} w \<Longrightarrow> ?post (b + of_nat i) w" for w using bits_below [OF b i(1) big low i(4)] i at(2) [of i] by simp
      then show ?thesis using balloc_take [OF T bm b i(1) big i(2,3) that] i(1) by (auto elim!: wp_mono)
    qed
    have ud: "upd_buf bp (\<lambda>x. x\<lparr>b_data := (b_data x)[i div 8 := b_data x ! (i div 8) OR 2 ^ (i mod 8)]\<rparr>) t = set_data bp (mark i (?d ?n)) t"
      "sb t = ?sb" "b_data (bufs t bp) = ?d ?n" if "opened c p h s ?n bp t" for bp t
      using that by (simp_all add: set_data_def upd_buf_def mark_def opened_def bio_frame_inodes)
    show ?thesis using lt
      by simp (rule wp_mono [OF use_block [OF T n]], simp add: ud Some wr)
  next
    case None
    then obtain e where e: "e \<le> BPB" "e < BPB \<longrightarrow> \<not> b + of_nat e < sb_size ?sb" "\<And>j. j < e \<Longrightarrow> bit (?d ?n ! (j div 8)) (j mod 8)"
      using sc by auto
    have full: "in_use ?d ?sb y" if "y < sb_size ?sb" "unat y < BPB * Suc m" for y
      by (rule bits_stop [OF b big low e that]) simp_all
    have b': "unat (b + of_nat BPB) = BPB * Suc m" using b big [of BPB] by (simp add: unat_word_ariths(1) BPB_def BSIZE_def)
    have "wp (balloc_loop fuel 1 (b + of_nat BPB) u) ?post" if u: "edited c p h s ?d {} u" for u
    proof -
      have f: "log_frame s u" "content u = ?d" using u by (simp_all add: edited_def)
      note ff = log_frame_fields [OF f(1)] log_frame_inodes [OF f(1)]
      have "BPB * Suc m \<le> unat x" using full [of x] x by (meson not_le)
      then have "in_use ?d ?sb y" if "y < b + of_nat BPB" for y using that full [of y] b' x(1) by (simp add: word_less_nat_alt)
      then have "wp (balloc_loop fuel 1 (b + of_nat BPB) u) (\<lambda>a t. a < sb_size (sb u) \<and> \<not> in_use (content u) (sb u) a \<and> (\<forall>x < a. in_use (content u) (sb u) x)
          \<and> edited c p h u (alloc_blocks (sb u) a (content u)) {BBLOCK a (sb u), a} t)"
        using txn_same [OF T u] bm x b' Suc.prems(7) by (intro Suc.IH [where m = "Suc m"]) (simp_all add: ff f bitmap_ok_def)
      then show ?thesis by (rule wp_mono) (auto simp: ff f intro: edited_trans [OF u])
    qed
    then have "wp (brelse bp t) (\<lambda>_ u. wp (balloc_loop fuel 1 (b + of_nat BPB) u) ?post)" if "opened c p h s ?n bp t" for bp t
      using that by (auto simp: opened_def elim!: wp_mono)
    moreover have "sb t = ?sb" "b_data (bufs t bp) = ?d ?n" if "opened c p h s ?n bp t" for bp t
      using that by (simp_all add: opened_def bio_frame_inodes)
    ultimately show ?thesis using lt None
      by simp (rule wp_mono [OF use_block [OF T n]], simp)
  qed
qed

lemma balloc_wp:
  assumes "txn c p h R 1 s" and "bitmap_ok h (content s) s" and "x < sb_size (sb s)" "\<not> in_use (content s) (sb s) x"
  shows "wp (balloc 1 s) (\<lambda>a t. a < sb_size (sb s) \<and> \<not> in_use (content s) (sb s) a \<and> (\<forall>x < a. in_use (content s) (sb s) x)
    \<and> edited c p h s (alloc_blocks (sb s) a (content s)) {BBLOCK a (sb s), a} t)"
proof -
  have "unat (sb_size (sb s)) < BPB * (0 + (unat (sb_size (sb s)) div BPB + 2))"
    using dividend_less_times_div [of BPB "unat (sb_size (sb s))"] by (simp add: BPB_def BSIZE_def)
  then show ?thesis unfolding balloc_def using assms by (intro balloc_loop_wp [where m = 0 and x = x]) simp_all
qed

lemma bit_mark:
  assumes "j div 8 < length xs"
  shows "bit (mark i xs ! (j div 8)) (j mod 8) \<longleftrightarrow> i = j \<or> bit (xs ! (j div 8)) (j mod 8)"
proof (cases "i div 8 = j div 8")
  case True
  then have "i mod 8 = j mod 8 \<longleftrightarrow> i = j" by (metis div_mult_mod_eq)
  moreover have "bit (2 ^ (i mod 8) :: u8) (j mod 8) \<longleftrightarrow> i mod 8 = j mod 8" by (auto simp: bit_exp_iff)
  ultimately show ?thesis using True assms by (simp add: mark_def bit_or_iff) auto
next
  case False
  then show ?thesis by (auto simp: mark_def)
qed

lemma BPB_small: "BPB < 4294967296"
  by (simp add: BPB_def BSIZE_def)

lemma BBLOCK_inj:
  assumes "BBLOCK a sblk = BBLOCK b sblk" and "unat a mod BPB = unat b mod BPB"
  shows "a = b"
proof -
  have "a div of_nat BPB = b div of_nat BPB" using assms(1) by (simp add: BBLOCK_def)
  then have "unat a div BPB = unat b div BPB" by (metis unat_div unat_of_nat_u32 BPB_small)
  then show ?thesis using assms(2) by (metis div_mult_mod_eq word_unat_eq_iff)
qed

text \<open>Handing out \<open>a\<close> marks \<open>a\<close> and nothing else.\<close>

lemma in_use_alloc:
  assumes bm: "bitmap_ok h d s" and a: "a < sb_size (sb s)" "\<not> in_use d (sb s) a" and x: "x < sb_size (sb s)" and d: "\<And>n. length (d n) = BSIZE"
  shows "in_use (alloc_blocks (sb s) a d) (sb s) x \<longleftrightarrow> x = a \<or> in_use d (sb s) x"
proof -
  have "BBLOCK x (sb s) \<noteq> a" using bm x a by (auto simp: bitmap_ok_def)
  moreover have "unat x mod BPB div 8 < BSIZE" by (simp add: BPB_def BSIZE_def)
  moreover have "BBLOCK x (sb s) = BBLOCK a (sb s) \<and> unat x mod BPB = unat a mod BPB \<longleftrightarrow> x = a" using BBLOCK_inj by blast
  ultimately show ?thesis
    by (cases "BBLOCK x (sb s) = BBLOCK a (sb s)") (auto simp: in_use_def alloc_blocks_def bit_mark d)
qed

definition unmark :: "nat \<Rightarrow> u8 list \<Rightarrow> u8 list" where
  "unmark i xs = xs[i div 8 := xs ! (i div 8) AND NOT (push_bit (i mod 8) 1)]"

lemma bit_unmark:
  assumes "j div 8 < length xs"
  shows "bit (unmark i xs ! (j div 8)) (j mod 8) \<longleftrightarrow> i \<noteq> j \<and> bit (xs ! (j div 8)) (j mod 8)"
proof (cases "i div 8 = j div 8")
  case True
  then have "i mod 8 = j mod 8 \<longleftrightarrow> i = j" by (metis div_mult_mod_eq)
  moreover have "bit (NOT (2 ^ (i mod 8)) :: u8) (j mod 8) \<longleftrightarrow> i mod 8 \<noteq> j mod 8" by (auto simp: bit_not_iff bit_exp_iff)
  ultimately show ?thesis using True assms by (simp add: unmark_def bit_and_iff) auto
next
  case False
  then show ?thesis by (auto simp: unmark_def)
qed

definition free_blocks :: "superblock \<Rightarrow> u32 \<Rightarrow> (u32 \<Rightarrow> u8 list) \<Rightarrow> u32 \<Rightarrow> u8 list" where
  "free_blocks sblk b d = d(BBLOCK b sblk := unmark (unat b mod BPB) (d (BBLOCK b sblk)))"

lemma in_use_free:
  assumes "length (d (BBLOCK x sblk)) = BSIZE"
  shows "in_use (free_blocks sblk b d) sblk x \<longleftrightarrow> x \<noteq> b \<and> in_use d sblk x"
proof -
  have "unat x mod BPB div 8 < BSIZE" by (simp add: BPB_def BSIZE_def)
  moreover have "BBLOCK x sblk = BBLOCK b sblk \<and> unat x mod BPB = unat b mod BPB \<longleftrightarrow> x = b" using BBLOCK_inj by blast
  ultimately show ?thesis using assms
    by (cases "BBLOCK x sblk = BBLOCK b sblk") (auto simp: in_use_def free_blocks_def bit_unmark)
qed

definition super_of :: "u8 list \<Rightarrow> superblock" where
  "super_of d = \<lparr>sb_size = get32 d 0, sb_nblocks = get32 d 4, sb_ninodes = get32 d 8, sb_nlog = get32 d 12,
     sb_logstart = get32 d 16, sb_inodestart = get32 d 20, sb_bmapstart = get32 d 24\<rparr>"

text \<open>Block 1 holds the super block that has been read at the start.\<close>

definition super_ok :: "(nat \<rightharpoonup> u32) \<Rightarrow> (u32 \<Rightarrow> u8 list) \<Rightarrow> 'a icst_scheme \<Rightarrow> bool" where
  "super_ok h d s \<longleftrightarrow> super_of (d 1) = sb s \<and> 1 < sb_size (sb s) \<and> in_use d (sb s) 1 \<and> 1 \<notin> log_area s \<union> ran h
     \<and> (\<forall>b < sb_size (sb s). BBLOCK b (sb s) \<noteq> 1)"

lemma bitmap_ok_frame:
  assumes "log_frame s t"
  shows "bitmap_ok h d t = bitmap_ok h d s" "super_ok h d t = super_ok h d s"
  using log_frame_fields [OF assms] log_frame_inodes [OF assms] by (simp_all add: bitmap_ok_def super_ok_def)

lemma alloc_keeps:
  assumes "bitmap_ok h d s" and "a < sb_size (sb s)" "\<not> in_use d (sb s) a" and "\<And>n. length (d n) = BSIZE"
  shows "bitmap_ok h (alloc_blocks (sb s) a d) s" and "super_ok h d s \<Longrightarrow> super_ok h (alloc_blocks (sb s) a d) s"
proof -
  note u = in_use_alloc [OF assms(1-3) _ assms(4)]
  show "bitmap_ok h (alloc_blocks (sb s) a d) s" using assms(1) u unfolding bitmap_ok_def by blast
  show "super_ok h (alloc_blocks (sb s) a d) s" if s: "super_ok h d s"
  proof -
    have "a \<noteq> 1" "BBLOCK a (sb s) \<noteq> 1" using s assms by (auto simp: super_ok_def)
    then have "alloc_blocks (sb s) a d 1 = d 1" by (auto simp: alloc_blocks_def)
    then show ?thesis using s u [of 1] by (simp add: super_ok_def)
  qed
qed

lemma bfree_wp:
  assumes T: "txn c p h R k s" and bm: "bitmap_ok h (content s) s" and sup: "super_ok h (content s) s"
    and b: "b < sb_size (sb s)" "in_use (content s) (sb s) b"
  shows "wp (bfree 1 b s) (\<lambda>_ t. edited c p h s (free_blocks (sb s) b (content s)) {BBLOCK b (sb s)} t)"
proof -
  let ?n = "BBLOCK b (sb s)" and ?i = "unat b mod BPB"
  have n: "?n < disksize s" "?n \<notin> log_area s \<union> ran h" using bm b by (auto simp: bitmap_ok_def)
  have ub: "unat (b mod of_nat BPB) = ?i" by (metis unat_mod unat_of_nat_u32 BPB_small)
  have one: "1 < disksize s" "1 \<notin> log_area s \<union> ran h" using sup bm by (auto simp: super_ok_def bitmap_ok_def)
  have free: "wp (bread 1 ?n u) (\<lambda>bp t. b_data (bufs t bp) = content s ?n
      \<and> wp (log_write bp (set_data bp (unmark ?i (content s ?n)) t)) (\<lambda>_ v. wp (brelse bp v) (\<lambda>_ w. edited c p h s (free_blocks (sb s) b (content s)) {BBLOCK b (sb s)} w)))"
    if u: "edited c p h s (content s) {} u" for u
  proof -
    have f: "log_frame s u" "content u = content s" "log_inv c p h u" using u by (simp_all add: edited_def)
    note ff = log_frame_fields [OF f(1)] log_frame_inodes [OF f(1)]
    have T': "txn c p h R k u" using txn_same [OF T u] by simp
    have len: "length (unmark ?i (content s ?n)) = BSIZE" using content_length [of c p h u ?n] f by (simp add: unmark_def log_inv_def)
    have "wp (log_write bp (set_data bp (unmark ?i (content s ?n)) t)) (\<lambda>_ v. wp (brelse bp v) (\<lambda>_ w. edited c p h s (free_blocks (sb s) b (content s)) {BBLOCK b (sb s)} w))"
      if op: "opened c p h u ?n bp t" for bp t
    proof -
      have "wp (log_write bp (set_data bp (unmark ?i (content s ?n)) t)) (\<lambda>_ v. wp (brelse bp v) (\<lambda>_ w. edited c p h u ((content u)(?n := unmark ?i (content s ?n))) {?n} w))"
        using op len by (simp add: opened_def)
      then show ?thesis by (rule wp_mono) (auto simp: free_blocks_def f intro: edited_trans [OF u] elim!: wp_mono)
    qed
    then show ?thesis using n by (intro wp_mono [OF use_block [OF T']]) (auto simp: ff f opened_def)
  qed
  have ud: "upd_buf bp (\<lambda>x. x\<lparr>b_data := (b_data x)[?i div 8 := b_data x ! (?i div 8) AND NOT (2 ^ (?i mod 8))]\<rparr>) t
      = set_data bp (unmark ?i (b_data (bufs t bp))) t" for bp and t :: "'a icst_scheme"
    by (simp add: set_data_def upd_buf_def unmark_def)
  have used: "content s ?n ! (?i div 8) AND 2 ^ (?i mod 8) \<noteq> 0" using b(2) by (simp add: in_use_def and_exp_eq_0_iff_not_bit)
  have sb: "sb u = sb s" "u\<lparr>sb := sb s\<rparr> = u" if "edited c p h s (content s) {} u" for u
    using that log_frame_inodes(2) [of s u] by (simp_all add: edited_def)
  have "wp (readsb 1 s) (\<lambda>sblk u. sblk = sb s \<and> edited c p h s (content s) {} u)"
    using use_block [OF T one] sup
    by (simp add: readsb_def Let_def super_of_def [symmetric] super_ok_def) (erule wp_mono, auto simp: opened_def elim!: wp_mono)
  then show ?thesis
    by (simp add: bfree_def Let_def ub) (erule wp_mono, clarsimp simp: sb, drule free, erule wp_mono, simp add: used ud)
qed

section \<open>A transaction on the small file system\<close>

definition demo_txn :: consst where
  "demo_txn = demo_fs\<lparr>log_outstanding := 1\<rparr>"

lemma demo_txn_simps [simp]:
  "disksize demo_txn = 33" "sb demo_txn = demo_sb" "content demo_txn = demo_disk" "log_outstanding demo_txn = 1" "lh_count demo_txn = 0"
  "log_start demo_txn = 2" "log_cap demo_txn = 9" "pinned demo_txn = {}" "bio_ok 0 0 Map.empty demo_txn" "disk demo_txn = demo_disk" "log_dev demo_txn = 1"
  "lh_n (log_lh demo_txn) = 0"
proof -
  have f: "log_lh demo_txn = \<lparr>lh_n = 0, lh_block = (\<lambda>_. 0)\<rparr>" "log_start demo_txn = 2" "log_size demo_txn = 10" "log_dev demo_txn = 1"
    by (simp_all add: demo_txn_def demo_fs_def demo_defs)
  have s: "store_of demo_txn = store_of demo_fs" by (simp add: demo_txn_def)
  then show "content demo_txn = demo_disk" "pinned demo_txn = {}" using demo_fs_bio by (simp_all add: store_of_def)
  have "quiet 0 0 demo_txn = quiet 0 0 demo_fs" "cache_ok pid h demo_txn = cache_ok pid h demo_fs" for pid h by (simp_all add: demo_txn_def)
  then show "bio_ok 0 0 Map.empty demo_txn" using demo_fs_bio(1) by (simp add: bio_ok_def) (simp add: demo_txn_def)
  show "disksize demo_txn = 33" "sb demo_txn = demo_sb" "log_outstanding demo_txn = 1" "lh_count demo_txn = 0" "log_start demo_txn = 2" "log_cap demo_txn = 9"
    "disk demo_txn = demo_disk" "log_dev demo_txn = 1" "lh_n (log_lh demo_txn) = 0"
    using f by (simp_all add: lh_count_def log_cap_def LOGSIZE_def MAXOPBLOCKS_def) (simp_all add: demo_txn_def)
qed

lemma demo_txn_ok: "txn 0 0 Map.empty {} 8 demo_txn"
  by (simp add: txn_def log_inv_def log_wf_def demo_disk_def get32_def)

lemma demo_bits:
  assumes "unat b < 40"
  shows "in_use demo_disk demo_sb b \<longleftrightarrow> bit (([255, 15, 56, 0, 1] :: u8 list) ! (unat b div 8)) (unat b mod 8)" "BBLOCK b demo_sb = 19"
proof -
  have "unat b mod 4096 = unat b" "unat b div 4096 = 0" using assms by simp_all
  then have z: "b div 4096 = 0" by (simp add: word_unat_eq_iff unat_div)
  then show B: "BBLOCK b demo_sb = 19" by (simp add: BBLOCK_def demo_sb_def BPB_def BSIZE_def)
  have "unat b div 8 < 5" using assms by simp
  then have "([255, 15, 56, 0, 1] @ replicate 507 0 :: u8 list) ! (unat b div 8) = [255, 15, 56, 0, 1] ! (unat b div 8)" by (subst nth_append) simp
  then show "in_use demo_disk demo_sb b \<longleftrightarrow> bit (([255, 15, 56, 0, 1] :: u8 list) ! (unat b div 8)) (unat b mod 8)"
    using assms by (simp add: in_use_def B demo_disk_def BPB_def BSIZE_def)
qed

lemma demo_area: "b \<in> log_area demo_txn \<Longrightarrow> b \<in> {2, 3, 4, 5, 6, 7, 8, 9, 10, 11}"
proof -
  have "{..<9 :: nat} = {0, 1, 2, 3, 4, 5, 6, 7, 8}" by auto
  then show "b \<in> log_area demo_txn \<Longrightarrow> b \<in> {2, 3, 4, 5, 6, 7, 8, 9, 10, 11}" by (auto simp: log_area_def log_slot_def)
qed

lemma demo_bitmap: "bitmap_ok Map.empty demo_disk demo_txn" "super_ok Map.empty demo_disk demo_txn" "\<not> in_use demo_disk demo_sb 12"
proof -
  have u: "in_use demo_disk demo_sb b" if "b \<in> {1, 2, 3, 4, 5, 6, 7, 8, 9, 10, 11, 19}" for b
    using that demo_bits(1) [of b] by (auto simp: bit_numeral_rec)
  have B: "BBLOCK b demo_sb = 19" if "b < 33" for b using that demo_bits(2) [of b] by (simp add: word_less_nat_alt)
  moreover have "sb_size demo_sb = 33" by (simp add: demo_sb_def)
  moreover have L: "b < 33 \<and> in_use demo_disk demo_sb b" if "b \<in> log_area demo_txn" for b using u [of b] demo_area [OF that] by auto
  ultimately show "bitmap_ok Map.empty demo_disk demo_txn"
    using u [of 19] B L demo_area [of 19] by (auto simp: bitmap_ok_def)
  show "super_ok Map.empty demo_disk demo_txn"
    using demo_area [of 1] u [of 1] B by (auto simp: super_ok_def) (simp_all add: super_of_def demo_disk_def get32_def demo_sb_def)
  show "\<not> in_use demo_disk demo_sb 12" using demo_bits(1) [of 12] by (simp add: bit_numeral_rec)
qed

section \<open>Properties\<close>

text \<open>C11: \<open>balloc\<close> hands out a block that was free, filled with zeros; it marks this block and no other as used and changes no
  other block but the bitmap. \<open>bfree\<close> of this block makes the bitmap what it was.\<close>

theorem balloc_correct:
  fixes s :: "'a icst_scheme"
  assumes "txn c p Map.empty {} 2 s" and "bitmap_ok Map.empty (content s) s" and "super_ok Map.empty (content s) s"
    and "x < sb_size (sb s)" and "\<not> in_use (content s) (sb s) x"
  shows "wp (balloc 1 s) (\<lambda>a t. a < sb_size (sb s) \<and> \<not> in_use (content s) (sb s) a \<and> content t a = replicate BSIZE 0
    \<and> (\<forall>y < sb_size (sb s). in_use (content t) (sb s) y \<longleftrightarrow> y = a \<or> in_use (content s) (sb s) y)
    \<and> (\<forall>n. n \<noteq> a \<and> n \<noteq> BBLOCK a (sb s) \<longrightarrow> content t n = content s n)
    \<and> wp (bfree 1 a t) (\<lambda>_ u. \<forall>y < sb_size (sb s). in_use (content u) (sb s) y \<longleftrightarrow> in_use (content s) (sb s) y))"
proof -
  have T: "txn c p Map.empty {} 1 s" using assms(1) by (simp add: txn_def)
  have len: "length (content s n) = BSIZE" for n using content_length [of c p Map.empty s n] T by (simp add: txn_def log_inv_def)
  show ?thesis
  proof (rule wp_mono [OF balloc_wp [OF T assms(2,4,5)]])
    fix a t
    assume a: "a < sb_size (sb s) \<and> \<not> in_use (content s) (sb s) a \<and> (\<forall>x < a. in_use (content s) (sb s) x)
      \<and> edited c p Map.empty s (alloc_blocks (sb s) a (content s)) {BBLOCK a (sb s), a} t"
    then have e: "edited c p Map.empty s (alloc_blocks (sb s) a (content s)) {BBLOCK a (sb s), a} t" "content t = alloc_blocks (sb s) a (content s)" "log_frame s t"
      by (simp_all add: edited_def)
    note ff = log_frame_fields [OF e(3)] log_frame_inodes [OF e(3)]
    have lt: "length (content t n) = BSIZE" for n using content_length [of c p Map.empty t n] e by (simp add: edited_def log_inv_def)
    have u: "in_use (content t) (sb s) y \<longleftrightarrow> y = a \<or> in_use (content s) (sb s) y" if "y < sb_size (sb s)" for y
      using in_use_alloc [OF assms(2) _ _ that len] a e by simp
    have fr: "in_use (free_blocks (sb s) a (content t)) (sb s) y \<longleftrightarrow> in_use (content s) (sb s) y" if "y < sb_size (sb s)" for y
      using in_use_free [of "content t" y "sb s" a] lt u [OF that] a by auto
    have "card ({BBLOCK a (sb s), a} - (pinned s \<union> {})) \<le> card {BBLOCK a (sb s), a}" by (rule card_mono) auto
    also have "\<dots> \<le> 2" by (simp add: card_insert_if)
    finally have "txn c p Map.empty {} 0 t" by (intro txn_edited [OF assms(1) e(1)]) simp_all
    then have "wp (bfree 1 a t) (\<lambda>_ u. edited c p Map.empty t (free_blocks (sb t) a (content t)) {BBLOCK a (sb t)} u)"
      using alloc_keeps [OF assms(2) _ _ len, of a] a u assms(3) by (intro bfree_wp) (simp_all add: bitmap_ok_frame [OF e(3)] ff e(2))
    then have "wp (bfree 1 a t) (\<lambda>_ v. \<forall>y < sb_size (sb s). in_use (content v) (sb s) y \<longleftrightarrow> in_use (content s) (sb s) y)"
      using fr by (elim wp_mono) (simp add: edited_def ff)
    then show "a < sb_size (sb s) \<and> \<not> in_use (content s) (sb s) a \<and> content t a = replicate BSIZE 0
      \<and> (\<forall>y < sb_size (sb s). in_use (content t) (sb s) y \<longleftrightarrow> y = a \<or> in_use (content s) (sb s) y)
      \<and> (\<forall>n. n \<noteq> a \<and> n \<noteq> BBLOCK a (sb s) \<longrightarrow> content t n = content s n)
      \<and> wp (bfree 1 a t) (\<lambda>_ u. \<forall>y < sb_size (sb s). in_use (content u) (sb s) y \<longleftrightarrow> in_use (content s) (sb s) y)"
      using a u e by (simp add: alloc_blocks_def)
  qed
qed

theorem balloc_correct_witness:
  "txn 0 0 Map.empty {} 2 demo_txn \<and> bitmap_ok Map.empty demo_disk demo_txn \<and> super_ok Map.empty demo_disk demo_txn \<and> \<not> in_use demo_disk demo_sb 12
   \<and> wp (balloc 1 demo_txn) (\<lambda>a t. a < 33 \<and> \<not> in_use demo_disk demo_sb a \<and> content t a = replicate BSIZE 0 \<and> content t 21 = demo_disk 21)"
proof -
  have T: "txn 0 0 Map.empty {} 2 demo_txn" using demo_txn_ok by (simp add: txn_def)
  have sz: "sb_size demo_sb = 33" by (simp add: demo_sb_def)
  have b: "21 \<noteq> a \<and> 21 \<noteq> BBLOCK a demo_sb" if "a < 33" "\<not> in_use demo_disk demo_sb a" for a
    using demo_bits(2) [of a] demo_bits(1) [of 21] that by (auto simp: word_less_nat_alt bit_numeral_rec)
  have "wp (balloc 1 demo_txn) (\<lambda>a t. a < 33 \<and> \<not> in_use demo_disk demo_sb a \<and> content t a = replicate BSIZE 0 \<and> content t 21 = demo_disk 21)"
    using balloc_correct [OF T, of 12] demo_bitmap b by (auto simp: sz elim!: wp_mono)
  then show ?thesis using T demo_bitmap by simp
qed

end
