(* ===== verification/Filewrite.thy ===== *)
theory Filewrite
  imports Transact
begin

text \<open>
  Writing to a file, and growing it. The content of an inode is seen as a function from all offsets a file can have to bytes, with zeros
  where no block has been allocated: allocating a block does not change it, since the block comes filled with zeros.
\<close>

section \<open>The blocks of a file\<close>

text \<open>The block numbers that an inode holds, directly or in its indirect block; the last index stands for the indirect block.\<close>

definition fptr :: "(u32 \<Rightarrow> u8 list) \<Rightarrow> inode \<Rightarrow> nat \<Rightarrow> u32" where
  "fptr d x k = (if k < NDIRECT then i_addrs x k else if k = MAXFILE then i_addrs x NDIRECT
     else if i_addrs x NDIRECT = 0 then 0 else get32 (d (i_addrs x NDIRECT)) (4 * (k - NDIRECT)))"

definition own :: "(u32 \<Rightarrow> u8 list) \<Rightarrow> inode \<Rightarrow> u32 set" where
  "own d x = fptr d x ` {..MAXFILE} - {0}"

definition fview :: "(u32 \<Rightarrow> u8 list) \<Rightarrow> inode \<Rightarrow> nat \<Rightarrow> u8" where
  "fview d x i = (if fptr d x (i div BSIZE) = 0 then 0 else d (fptr d x (i div BSIZE)) ! (i mod BSIZE))"

definition bitmap_blocks :: "'a icst_scheme \<Rightarrow> u32 set" where
  "bitmap_blocks s = (\<lambda>b. BBLOCK b (sb s)) ` {..<sb_size (sb s)}"

definition inode_blocks :: "'a icst_scheme \<Rightarrow> u32 set" where
  "inode_blocks s = (\<lambda>i. IBLOCK i (sb s)) ` {..<sb_ninodes (sb s)}"

text \<open>The blocks that belong to no file, and that they are marked as used.\<close>

definition meta :: "'a icst_scheme \<Rightarrow> u32 set" where
  "meta s = log_area s \<union> bitmap_blocks s \<union> inode_blocks s \<union> {0, 1}"

definition disk_ok :: "(u32 \<Rightarrow> u8 list) \<Rightarrow> 'a icst_scheme \<Rightarrow> bool" where
  "disk_ok d s \<longleftrightarrow> bitmap_ok Map.empty d s \<and> (\<forall>n. length (d n) = BSIZE)
     \<and> (\<forall>n \<in> inode_blocks s \<union> {0, 1}. n < sb_size (sb s) \<and> in_use d (sb s) n \<and> n \<notin> log_area s \<union> bitmap_blocks s)"

definition file_ok :: "(u32 \<Rightarrow> u8 list) \<Rightarrow> 'a icst_scheme \<Rightarrow> inode \<Rightarrow> bool" where
  "file_ok d s x \<longleftrightarrow> unat (i_size x) \<le> MAXFILE * BSIZE \<and> (\<forall>k < file_nblocks x. fptr d x k \<noteq> 0)
     \<and> inj_on (fptr d x) {k. k \<le> MAXFILE \<and> fptr d x k \<noteq> 0}
     \<and> (\<forall>a \<in> own d x. a < sb_size (sb s) \<and> in_use d (sb s) a \<and> a \<notin> meta s)"

text \<open>From \<open>x\<close> to \<open>x'\<close> the file may have got blocks that were free; blocks in use that are not its own stay as they were.\<close>

definition fstep :: "'a icst_scheme \<Rightarrow> (u32 \<Rightarrow> u8 list) \<Rightarrow> inode \<Rightarrow> (u32 \<Rightarrow> u8 list) \<Rightarrow> inode \<Rightarrow> bool" where
  "fstep s d x d' x' \<longleftrightarrow> (\<forall>k \<le> MAXFILE. fptr d x k \<noteq> 0 \<longrightarrow> fptr d' x' k = fptr d x k)
     \<and> (\<forall>a \<in> own d' x'. a < sb_size (sb s) \<longrightarrow> a \<in> own d x \<or> \<not> in_use d (sb s) a)
     \<and> (\<forall>n < sb_size (sb s). in_use d (sb s) n \<longrightarrow> in_use d' (sb s) n)
     \<and> (\<forall>n < sb_size (sb s). in_use d (sb s) n \<and> n \<notin> own d x \<union> bitmap_blocks s \<longrightarrow> d' n = d n)"

lemma fstep_refl [simp]: "fstep s d x d x"
  by (simp add: fstep_def)

lemma fstep_trans:
  assumes "fstep s d x d' x'" and "fstep s d' x' d'' x''"
  shows "fstep s d x d'' x''"
proof -
  have o: "a \<in> own d x \<or> \<not> in_use d (sb s) a" if "a \<in> own d' x'" "a < sb_size (sb s)" for a using assms(1) that by (simp add: fstep_def)
  have m: "in_use d' (sb s) n" if "n < sb_size (sb s)" "in_use d (sb s) n" for n using assms(1) that by (simp add: fstep_def)
  have e: "d' n = d n" if "n < sb_size (sb s)" "in_use d (sb s) n" "n \<notin> own d x \<union> bitmap_blocks s" for n using assms(1) that by (simp add: fstep_def)
  have "d'' n = d n" if n: "n < sb_size (sb s)" "in_use d (sb s) n" "n \<notin> own d x \<union> bitmap_blocks s" for n
    using assms(2) n m [OF n(1,2)] e [OF n] o [of n] by (auto simp: fstep_def)
  moreover have "a \<in> own d x \<or> \<not> in_use d (sb s) a" if "a \<in> own d'' x''" "a < sb_size (sb s)" for a
    using assms(2) that o [of a] m [of a] by (auto simp: fstep_def)
  ultimately show ?thesis using assms by (auto simp: fstep_def)
qed

lemma layout_cong:
  assumes "sb t = sb s" "disksize t = disksize s" "log_area t = log_area s"
  shows "bitmap_blocks t = bitmap_blocks s" "meta t = meta s" "disk_ok d t = disk_ok d s" "file_ok d t x = file_ok d s x" "fstep t = fstep s"
  using assms by (simp_all add: bitmap_blocks_def meta_def inode_blocks_def disk_ok_def file_ok_def bitmap_ok_def fstep_def fun_eq_iff)

lemma fptr_own: "k \<le> MAXFILE \<Longrightarrow> fptr d x k \<noteq> 0 \<Longrightarrow> fptr d x k \<in> own d x"
  by (simp add: own_def)

lemma NM [simp]: "NDIRECT < MAXFILE" "NDIRECT \<le> MAXFILE"
  by (simp_all add: MAXFILE_def NDIRECT_def NINDIRECT_def BSIZE_def)

lemma fptr_ind [simp]: "fptr d x MAXFILE = i_addrs x NDIRECT"
  by (simp add: fptr_def less_not_sym)

lemma ind_own: "i_addrs x NDIRECT \<noteq> 0 \<Longrightarrow> i_addrs x NDIRECT \<in> own d x"
  using fptr_own [of MAXFILE d x] by simp

lemma file_ok_nblocks:
  assumes "file_ok d s x"
  shows "file_nblocks x \<le> MAXFILE"
proof -
  have "unat (i_size x) \<le> 71680" using assms by (simp add: file_ok_def MAXFILE_def NDIRECT_def NINDIRECT_def BSIZE_def)
  then have "file_nblocks x \<le> 140" unfolding file_nblocks_def by linarith
  then show ?thesis by (simp add: MAXFILE_def NDIRECT_def NINDIRECT_def BSIZE_def)
qed

text \<open>A free block becomes block \<open>j\<close> of the file.\<close>

lemma grow:
  fixes s :: "'a icst_scheme"
  assumes dk: "disk_ok d s" and fo: "file_ok d s x" and a: "a < sb_size (sb s)" "\<not> in_use d (sb s) a" and j: "j \<le> MAXFILE" "fptr d x j = 0"
    and P: "\<And>k. k \<le> MAXFILE \<Longrightarrow> fptr d' x' k = (if k = j then a else fptr d x k)" and z: "i_size x' = i_size x" and D: "d' a = replicate BSIZE 0"
    and O: "\<And>n. n < sb_size (sb s) \<Longrightarrow> in_use d (sb s) n \<Longrightarrow> n \<notin> bitmap_blocks s \<Longrightarrow> n = i_addrs x NDIRECT \<longrightarrow> n = 0 \<Longrightarrow> d' n = d n"
    and U: "\<And>n. n < sb_size (sb s) \<Longrightarrow> in_use d' (sb s) n \<longleftrightarrow> n = a \<or> in_use d (sb s) n" and L: "\<And>n. length (d' n) = BSIZE"
  shows "disk_ok d' s" "file_ok d' s x'" "fstep s d x d' x'" "a \<noteq> 0" "\<And>i. i < MAXFILE * BSIZE \<Longrightarrow> fview d' x' i = fview d x i"
proof -
  have mu: "n < sb_size (sb s) \<and> in_use d (sb s) n" if "n \<in> meta s" for n
    using that dk by (auto simp: disk_ok_def meta_def bitmap_ok_def bitmap_blocks_def)
  then have am: "a \<notin> meta s" using a by blast
  then show az: "a \<noteq> 0" by (auto simp: meta_def)
  show "disk_ok d' s" using dk U L unfolding disk_ok_def bitmap_ok_def by blast
  have ow: "own d' x' = insert a (own d x)"
  proof -
    have "fptr d' x' ` {..MAXFILE} = insert a (fptr d x ` ({..MAXFILE} - {j}))" using P j(1) by (auto simp: image_iff)
    moreover have "fptr d x ` {..MAXFILE} = insert 0 (fptr d x ` ({..MAXFILE} - {j}))" using j by (force simp: image_iff)
    ultimately show ?thesis using az by (auto simp: own_def)
  qed
  have ox: "b < sb_size (sb s) \<and> in_use d (sb s) b \<and> b \<notin> meta s" if "b \<in> own d x" for b using that fo by (simp add: file_ok_def)
  have inj: "inj_on (fptr d x) {k. k \<le> MAXFILE \<and> fptr d x k \<noteq> 0}" using fo by (simp add: file_ok_def)
  have "inj_on (fptr d' x') {k. k \<le> MAXFILE \<and> fptr d' x' k \<noteq> 0}"
  proof (rule inj_onI)
    fix k l
    assume "k \<in> {k. k \<le> MAXFILE \<and> fptr d' x' k \<noteq> 0}" "l \<in> {k. k \<le> MAXFILE \<and> fptr d' x' k \<noteq> 0}" "fptr d' x' k = fptr d' x' l"
    moreover have "fptr d x m \<noteq> a" if "m \<le> MAXFILE" for m using fptr_own [OF that, of d x] ox az a by auto
    ultimately show "k = l" using P inj_onD [OF inj, of k l] by (auto split: if_splits)
  qed
  moreover have "\<forall>k < file_nblocks x'. fptr d' x' k \<noteq> 0"
  proof (intro allI impI)
    fix k
    assume "k < file_nblocks x'"
    moreover from this have "fptr d x k \<noteq> 0" using fo z by (auto simp: file_ok_def file_nblocks_def)
    moreover have "file_nblocks x \<le> MAXFILE" using fo by (rule file_ok_nblocks)
    ultimately show "fptr d' x' k \<noteq> 0" using P [of k] az z by (simp add: file_nblocks_def split: if_splits)
  qed
  ultimately show "file_ok d' s x'" using fo z U a am ox by (auto simp: file_ok_def ow)
  show "fstep s d x d' x'" using P j O U a ind_own [of x d] by (auto simp: fstep_def ow)
  fix i
  assume i: "i < MAXFILE * BSIZE"
  let ?k = "i div BSIZE"
  have k: "?k < MAXFILE" using i by (simp add: less_mult_imp_div_less)
  show "fview d' x' i = fview d x i"
  proof (cases "?k = j \<or> fptr d x ?k = 0")
    case True
    then show ?thesis using P [of ?k] k j az D by (auto simp: fview_def BSIZE_def)
  next
    case False
    have "fptr d x ?k \<noteq> i_addrs x NDIRECT" using inj_onD [OF inj, of ?k MAXFILE] False k by auto
    moreover have "fptr d x ?k \<in> own d x" using False k by (intro fptr_own) simp_all
    ultimately have "d' (fptr d x ?k) = d (fptr d x ?k)" using ox by (intro O) (auto simp: meta_def)
    then show ?thesis using P [of ?k] k False by (simp add: fview_def)
  qed
qed

lemma get32_zeros [simp]: "i + 4 \<le> n \<Longrightarrow> get32 (replicate n 0) i = 0"
  by (simp add: get32_def)

text \<open>The three places a block number can go to: a direct one, the one of the indirect block, and one inside the indirect block.\<close>

definition put_addr :: "nat \<Rightarrow> u32 \<Rightarrow> inode \<Rightarrow> inode" where
  "put_addr k a x = x\<lparr>i_addrs := (i_addrs x)(k := a)\<rparr>"

lemma put_addr_simps [simp]: "i_size (put_addr k a x) = i_size x" "i_dev (put_addr k a x) = i_dev x" "i_inum (put_addr k a x) = i_inum x"
  "i_addrs (put_addr k a x) = (i_addrs x)(k := a)"
  by (simp_all add: put_addr_def)

lemma alloc_others:
  assumes "disk_ok d s" and "a < sb_size (sb s)" "\<not> in_use d (sb s) a"
  shows "alloc_blocks (sb s) a d a = replicate BSIZE 0" "length (alloc_blocks (sb s) a d n) = BSIZE"
    "n < sb_size (sb s) \<Longrightarrow> in_use d (sb s) n \<Longrightarrow> n \<notin> bitmap_blocks s \<Longrightarrow> alloc_blocks (sb s) a d n = d n"
    "n < sb_size (sb s) \<Longrightarrow> in_use (alloc_blocks (sb s) a d) (sb s) n \<longleftrightarrow> n = a \<or> in_use d (sb s) n"
proof -
  show "alloc_blocks (sb s) a d a = replicate BSIZE 0" by (simp add: alloc_blocks_def)
  show "length (alloc_blocks (sb s) a d n) = BSIZE" using assms(1) by (simp add: alloc_blocks_def disk_ok_def mark_def)
  show "alloc_blocks (sb s) a d n = d n" if "n < sb_size (sb s)" "in_use d (sb s) n" "n \<notin> bitmap_blocks s"
    using that assms by (auto simp: alloc_blocks_def bitmap_blocks_def)
  show "in_use (alloc_blocks (sb s) a d) (sb s) n \<longleftrightarrow> n = a \<or> in_use d (sb s) n" if "n < sb_size (sb s)"
    using in_use_alloc [of Map.empty d s a n] that assms by (simp add: disk_ok_def)
qed

lemma file_okD:
  assumes "file_ok d s x" and "b \<in> own d x"
  shows "b < sb_size (sb s)" "in_use d (sb s) b" "b \<notin> meta s" "b \<notin> bitmap_blocks s"
  using assms by (simp_all add: file_ok_def meta_def)

lemma grow_addr:
  fixes s :: "'a icst_scheme"
  assumes dk: "disk_ok d s" and fo: "file_ok d s x" and a: "a < sb_size (sb s)" "\<not> in_use d (sb s) a" and k: "k \<le> NDIRECT" "i_addrs x k = 0"
  defines "d' \<equiv> alloc_blocks (sb s) a d" and "x' \<equiv> put_addr k a x"
  shows "disk_ok d' s" "file_ok d' s x'" "fstep s d x d' x'" "a \<noteq> 0" "\<And>i. i < MAXFILE * BSIZE \<Longrightarrow> fview d' x' i = fview d x i"
proof -
  define j where "j = (if k = NDIRECT then MAXFILE else k)"
  have j: "j \<le> MAXFILE" "fptr d x j = 0" using k by (auto simp: j_def fptr_def MAXFILE_def)
  have ind: "d' (i_addrs x NDIRECT) = d (i_addrs x NDIRECT)" if "i_addrs x NDIRECT \<noteq> 0"
    using file_okD [OF fo ind_own [OF that]] alloc_others(3) [OF dk a] by (simp add: d'_def)
  have P: "fptr d' x' i = (if i = j then a else fptr d x i)" if i: "i \<le> MAXFILE" for i
  proof (cases "k = NDIRECT")
    case True
    have "4 * (i - NDIRECT) + 4 \<le> BSIZE" if "i \<noteq> MAXFILE"
      using i that by (simp add: MAXFILE_def NDIRECT_def NINDIRECT_def BSIZE_def)
    then show ?thesis using True k j i NM(2) alloc_others(1) [OF dk a] by (auto simp: fptr_def j_def x'_def d'_def not_le [symmetric])
  next
    case False
    then show ?thesis using k j i ind by (auto simp: fptr_def j_def x'_def)
  qed
  note al = alloc_others [OF dk a, folded d'_def]
  have z: "i_size x' = i_size x" by (simp add: x'_def)
  note g = grow [OF dk fo a j P z al(1,3,4,2)]
  show "disk_ok d' s" "file_ok d' s x'" "fstep s d x d' x'" "a \<noteq> 0" "\<And>i. i < MAXFILE * BSIZE \<Longrightarrow> fview d' x' i = fview d x i"
    by (rule g; assumption)+
qed

lemma in_use_upd:
  assumes "b < sb_size (sb s)" and "n \<notin> bitmap_blocks s"
  shows "in_use (d(n := v)) (sb s) b = in_use d (sb s) b"
  using assms by (auto simp: in_use_def bitmap_blocks_def)

lemma grow_indirect:
  fixes s :: "'a icst_scheme"
  assumes dk: "disk_ok d s" and fo: "file_ok d s x" and a: "a < sb_size (sb s)" "\<not> in_use d (sb s) a" and k: "k < NINDIRECT" "get32 (d (i_addrs x NDIRECT)) (4 * k) = 0"
    and n: "i_addrs x NDIRECT \<noteq> 0"
  defines "d' \<equiv> (alloc_blocks (sb s) a d)(i_addrs x NDIRECT := put32 (d (i_addrs x NDIRECT)) (4 * k) a)"
  shows "disk_ok d' s" "file_ok d' s x" "fstep s d x d' x" "a \<noteq> 0" "\<And>i. i < MAXFILE * BSIZE \<Longrightarrow> fview d' x i = fview d x i"
    "fptr d' x (NDIRECT + k) = a"
proof -
  let ?n = "i_addrs x NDIRECT"
  have j: "NDIRECT + k \<le> MAXFILE" "NDIRECT + k \<noteq> MAXFILE" "fptr d x (NDIRECT + k) = 0" using k n by (auto simp: fptr_def MAXFILE_def)
  note o = file_okD [OF fo ind_own [OF n]]
  have na: "?n \<noteq> a" using o(2) a by auto
  have len: "length (d ?n) = BSIZE" using dk by (simp add: disk_ok_def)
  have fit: "4 * l + 4 \<le> BSIZE" if "l < NINDIRECT" for l using that by (simp add: NINDIRECT_def BSIZE_def)
  have P: "fptr d' x i = (if i = NDIRECT + k then a else fptr d x i)" if i: "i \<le> MAXFILE" for i
  proof (cases "i < NDIRECT \<or> i = MAXFILE")
    case False
    then have "i - NDIRECT < NINDIRECT" using i by (auto simp: MAXFILE_def)
    then show ?thesis using False n fit [OF k(1)] fit [of "i - NDIRECT"] len by (auto simp: fptr_def d'_def intro!: get_put_other(1))
  qed (use j in \<open>auto simp: fptr_def\<close>)
  have O: "d' m = d m" if "m < sb_size (sb s)" "in_use d (sb s) m" "m \<notin> bitmap_blocks s" "m = ?n \<longrightarrow> m = 0" for m
    using that alloc_others(3) [OF dk a] n by (auto simp: d'_def)
  have U: "in_use d' (sb s) m \<longleftrightarrow> m = a \<or> in_use d (sb s) m" if "m < sb_size (sb s)" for m
    unfolding d'_def using in_use_upd [OF that o(4)] alloc_others(4) [OF dk a that] by simp
  have L: "length (d' m) = BSIZE" for m using alloc_others(2) [OF dk a] len fit [OF k(1)] by (simp add: d'_def)
  have "d' a = replicate BSIZE 0" using na alloc_others(1) [OF dk a] by (simp add: d'_def)
  note g = grow [OF dk fo a j(1,3) P refl this O U L]
  show "disk_ok d' s" "file_ok d' s x" "fstep s d x d' x" "a \<noteq> 0" "\<And>i. i < MAXFILE * BSIZE \<Longrightarrow> fview d' x i = fview d x i"
    using g by simp_all
  show "fptr d' x (NDIRECT + k) = a" using P j by simp
qed

text \<open>Block \<open>k\<close> of the file gets the bytes \<open>v\<close>.\<close>

lemma write_data:
  fixes s :: "'a icst_scheme"
  assumes dk: "disk_ok d s" and fo: "file_ok d s x" and k: "k < MAXFILE" "fptr d x k \<noteq> 0" and v: "length v = BSIZE"
  defines "d' \<equiv> d(fptr d x k := v)"
  shows "disk_ok d' s" "file_ok d' s x" "fstep s d x d' x" "fptr d' x = fptr d x"
    "\<And>i. i < MAXFILE * BSIZE \<Longrightarrow> fview d' x i = (if i div BSIZE = k then v ! (i mod BSIZE) else fview d x i)"
proof -
  let ?a = "fptr d x k"
  have ao: "?a \<in> own d x" using k by (intro fptr_own) simp_all
  note o = file_okD [OF fo ao]
  have inj: "inj_on (fptr d x) {k. k \<le> MAXFILE \<and> fptr d x k \<noteq> 0}" using fo by (simp add: file_ok_def)
  have ne: "fptr d x l \<noteq> ?a" if "l \<le> MAXFILE" "l \<noteq> k" for l using inj_onD [OF inj, of l k] that k by auto
  have "i_addrs x NDIRECT \<noteq> ?a" using ne [of MAXFILE] k by simp
  then show P: "fptr d' x = fptr d x" by (auto simp: fptr_def d'_def)
  have U: "in_use d' (sb s) b = in_use d (sb s) b" if "b < sb_size (sb s)" for b unfolding d'_def by (rule in_use_upd [OF that o(4)])
  have L: "length (d' n) = BSIZE" for n using dk v by (simp add: d'_def disk_ok_def)
  show "disk_ok d' s" using dk U L unfolding disk_ok_def bitmap_ok_def by blast
  show "file_ok d' s x" using fo U unfolding file_ok_def own_def P by blast
  show "fstep s d x d' x" using ao U by (auto simp: fstep_def own_def P) (auto simp: d'_def)
  fix i
  assume "i < MAXFILE * BSIZE"
  then have "i div BSIZE < MAXFILE" by (simp add: less_mult_imp_div_less)
  then show "fview d' x i = (if i div BSIZE = k then v ! (i mod BSIZE) else fview d x i)"
    using k ne [of "i div BSIZE"] by (auto simp: fview_def P) (simp_all add: d'_def)
qed

section \<open>Steps of a transaction\<close>

lemma log_inodes [simp]:
  "log_inv c p h (upd_inode i f s) = log_inv c p h s" "content (upd_inode i f s) = content s" "pinned (upd_inode i f s) = pinned s"
  "disk (upd_inode i f s) = disk s" "disksize (upd_inode i f s) = disksize s" "log_cap (upd_inode i f s) = log_cap s" "sb (upd_inode i f s) = sb s"
  "log_area (upd_inode i f s) = log_area s" "log_outstanding (upd_inode i f s) = log_outstanding s" "inodes (upd_inode i f s) = (inodes s)(i := f (inodes s i))"
  by (simp_all add: upd_inode_def log_inv_def log_wf_def lh_count_def log_cap_def log_area_def log_slot_def [abs_def])

lemma txn_inodes [simp]: "txn c p h R k (upd_inode i f s) = txn c p h R k s"
  by (simp add: txn_def)

lemma bio_frame_upd_inodes:
  fixes s t :: "'a icst_scheme"
  assumes "bio_frame s t"
  shows "bio_frame (s\<lparr>inodes := y\<rparr>) (t\<lparr>inodes := y\<rparr>)"
proof -
  have "bio_blank (u\<lparr>inodes := y\<rparr>) = (bio_blank u)\<lparr>inodes := y\<rparr>" for u :: "'a icst_scheme"
    by (simp add: bio_blank_def buf_blank_def unsched_def inode_locks_def)
  then show ?thesis using assms by (simp add: bio_frame_def)
qed

lemma lh_then_inodes: "s\<lparr>inodes := y, log_lh := l\<rparr> = s\<lparr>log_lh := l, inodes := y\<rparr>"
  by (rule icst.equality) simp_all

lemma edited_upd_inode:
  assumes "edited c p h s d W t"
  shows "edited c p h (upd_inode i f s) d W (upd_inode i f t)"
proof -
  have f: "log_frame s t" using assms by (simp add: edited_def)
  have "log_frame (s\<lparr>inodes := y\<rparr>) (t\<lparr>inodes := y\<rparr>)" for y using bio_frame_upd_inodes [OF f [unfolded log_frame_def], of y]
    by (simp add: log_frame_def lh_then_inodes)
  then have "log_frame (upd_inode i f s) (upd_inode i f t)" using log_frame_inodes(1) [OF f] by (simp add: upd_inode_def)
  then show ?thesis using assms by (simp add: edited_def)
qed

definition fs_step :: "nat \<Rightarrow> nat \<Rightarrow> nat \<Rightarrow> 'a icst_scheme \<Rightarrow> 'a icst_scheme \<Rightarrow> bool" where
  "fs_step c p ip s t \<longleftrightarrow> (\<exists>A W. edited c p Map.empty (upd_inode ip (\<lambda>x. x\<lparr>i_addrs := A\<rparr>) s) (content t) W t)
     \<and> disk_ok (content t) s \<and> file_ok (content t) s (inodes t ip) \<and> fstep s (content s) (inodes s ip) (content t) (inodes t ip)"

lemma fs_stepD:
  assumes "fs_step c p ip s t"
  shows "sb t = sb s" "disksize t = disksize s" "log_area t = log_area s" "disk t = disk s" "log_inv c p Map.empty t"
    "inodes t = (inodes s)(ip := (inodes s ip)\<lparr>i_addrs := i_addrs (inodes t ip)\<rparr>)"
    "disk_ok (content t) t" "file_ok (content t) t (inodes t ip)" "pinned s \<subseteq> pinned t" "log_outstanding t = log_outstanding s" "log_cap t = log_cap s"
proof -
  obtain A W where e: "edited c p Map.empty (upd_inode ip (\<lambda>x. x\<lparr>i_addrs := A\<rparr>) s) (content t) W t" using assms by (auto simp: fs_step_def)
  then have f: "log_frame (upd_inode ip (\<lambda>x. x\<lparr>i_addrs := A\<rparr>) s) t" by (simp add: edited_def)
  show l: "sb t = sb s" "disksize t = disksize s" "log_area t = log_area s" using log_frame_fields [OF f] log_frame_inodes [OF f] by simp_all
  show "log_outstanding t = log_outstanding s" "log_cap t = log_cap s" using log_frame_fields [OF f] by simp_all
  show "inodes t = (inodes s)(ip := (inodes s ip)\<lparr>i_addrs := i_addrs (inodes t ip)\<rparr>)" using log_frame_inodes(1) [OF f] by simp
  show "disk t = disk s" "log_inv c p Map.empty t" "pinned s \<subseteq> pinned t" using e by (auto simp: edited_def)
  show "disk_ok (content t) t" "file_ok (content t) t (inodes t ip)" using assms unfolding layout_cong [OF l] fs_step_def by simp_all
qed

lemma fs_step_trans:
  assumes "fs_step c p ip s t" and "fs_step c p ip t u"
  shows "fs_step c p ip s u"
proof -
  note f = fs_stepD [OF assms(1)]
  obtain A W B V where e: "edited c p Map.empty (upd_inode ip (\<lambda>x. x\<lparr>i_addrs := A\<rparr>) s) (content t) W t"
    "edited c p Map.empty (upd_inode ip (\<lambda>x. x\<lparr>i_addrs := B\<rparr>) t) (content u) V u" using assms by (auto simp: fs_step_def)
  have "edited c p Map.empty (upd_inode ip (\<lambda>x. x\<lparr>i_addrs := B\<rparr>) s) (content u) (W \<union> V) u"
    using edited_trans [OF edited_upd_inode [OF e(1), of ip "\<lambda>x. x\<lparr>i_addrs := B\<rparr>"] e(2) refl] by (simp add: upd_inode_twice)
  moreover have "disk_ok (content u) s" "file_ok (content u) s (inodes u ip)" "fstep s (content t) (inodes t ip) (content u) (inodes u ip)"
    using assms(2) unfolding fs_step_def layout_cong [OF f(1-3)] by simp_all
  ultimately show ?thesis using assms(1) by (auto simp: fs_step_def intro: fstep_trans)
qed

lemma fs_step_edit:
  assumes "edited c p Map.empty s d W t" and "disk_ok d s" and "file_ok d s (inodes s ip)" and "fstep s (content s) (inodes s ip) d (inodes s ip)"
  shows "fs_step c p ip s t"
proof -
  have "upd_inode ip (\<lambda>x. x\<lparr>i_addrs := i_addrs (inodes s ip)\<rparr>) s = s" by (simp add: upd_inode_def)
  moreover have "content t = d" "inodes t = inodes s" using assms(1) log_frame_inodes(1) [of s t] by (simp_all add: edited_def)
  ultimately show ?thesis using assms unfolding fs_step_def by metis
qed

text \<open>What a transaction needs to write \<open>r\<close> more blocks of a file: places in the log, and free blocks.\<close>

definition nfree :: "(u32 \<Rightarrow> u8 list) \<Rightarrow> 'a icst_scheme \<Rightarrow> nat" where
  "nfree d s = card {b. b < sb_size (sb s) \<and> \<not> in_use d (sb s) b}"

definition reserve :: "nat \<Rightarrow> 'a icst_scheme \<Rightarrow> u32 set" where
  "reserve ip s = bitmap_blocks s \<union> {IBLOCK (i_inum (inodes s ip)) (sb s)} \<union> ({i_addrs (inodes s ip) NDIRECT} - {0})"

definition unmade :: "nat \<Rightarrow> 'a icst_scheme \<Rightarrow> nat" where
  "unmade ip s = (if i_addrs (inodes s ip) NDIRECT = 0 then 1 else 0)"

definition room :: "nat \<Rightarrow> nat \<Rightarrow> nat \<Rightarrow> nat \<Rightarrow> 'a icst_scheme \<Rightarrow> bool" where
  "room c p ip r s \<longleftrightarrow> txn c p Map.empty (reserve ip s) (r + 1 + unmade ip s) s \<and> r + unmade ip s \<le> nfree (content s) s"

lemma nfree_alloc:
  assumes "disk_ok d s" and "a < sb_size (sb s)" "\<not> in_use d (sb s) a" and "\<And>n. n < sb_size (sb s) \<Longrightarrow> in_use d' (sb s) n \<longleftrightarrow> n = a \<or> in_use d (sb s) n"
  shows "Suc (nfree d' s) = nfree d s"
proof -
  have "{b. b < sb_size (sb s) \<and> \<not> in_use d' (sb s) b} = {b. b < sb_size (sb s) \<and> \<not> in_use d (sb s) b} - {a}" using assms by auto
  then show ?thesis unfolding nfree_def using assms(2,3) by (simp only:) (intro card_Suc_Diff1, simp_all)
qed

lemma nfree_pos: "0 < nfree d s \<Longrightarrow> \<exists>b < sb_size (sb s). \<not> in_use d (sb s) b"
  by (auto simp: nfree_def card_gt_0_iff)

lemma txn_alloc:
  assumes T: "txn c p h R (Suc m) s" and e: "edited c p h s d {B, a} t" and "B \<in> R"
  shows "txn c p h (insert a R) m t"
proof -
  have "pinned t \<union> insert a R = insert a (pinned s \<union> R)" using e assms(3) by (auto simp: edited_def)
  then have "card (pinned t \<union> insert a R) \<le> Suc (card (pinned s \<union> R))" by (simp add: card_insert_if)
  then show ?thesis using assms log_frame_fields [of s t] by (auto simp: txn_def edited_def)
qed

lemma txn_subset:
  assumes "txn c p h R k s" and "Q \<subseteq> R" and "l \<le> k"
  shows "txn c p h Q l s"
proof -
  have "card (pinned s \<union> Q) \<le> card (pinned s \<union> R)" using assms(2) by (intro card_mono) auto
  then show ?thesis using assms by (auto simp: txn_def intro: finite_subset)
qed

section \<open>Finding or making a block of a file\<close>

text \<open>From \<open>s\<close> to \<open>t\<close> the inode \<open>ip\<close> may have got blocks, and no byte of the file has changed.\<close>

definition mapped_step :: "nat \<Rightarrow> nat \<Rightarrow> nat \<Rightarrow> 'a icst_scheme \<Rightarrow> 'a icst_scheme \<Rightarrow> bool" where
  "mapped_step c p ip s t \<longleftrightarrow> fs_step c p ip s t
     \<and> (\<forall>i < MAXFILE * BSIZE. fview (content t) (inodes t ip) i = fview (content s) (inodes s ip) i)"

lemma mapped_step_trans: "mapped_step c p ip s t \<Longrightarrow> mapped_step c p ip t u \<Longrightarrow> mapped_step c p ip s u"
  by (auto simp: mapped_step_def intro: fs_step_trans)

lemma mapped_step_same:
  assumes "edited c p Map.empty s (content s) {} t" and "disk_ok (content s) s" and "file_ok (content s) s (inodes s ip)"
  shows "mapped_step c p ip s t" "inodes t = inodes s" "room c p ip r s \<Longrightarrow> room c p ip r t"
proof -
  have f: "log_frame s t" "content t = content s" using assms(1) by (simp_all add: edited_def)
  note ff = log_frame_fields [OF f(1)] log_frame_inodes [OF f(1)]
  show "inodes t = inodes s" by (rule ff)
  show "mapped_step c p ip s t" using fs_step_edit [OF assms(1-3)] f(2) ff by (simp add: mapped_step_def)
  show "room c p ip r s \<Longrightarrow> room c p ip r t"
    using txn_same [OF _ assms(1)] by (simp add: room_def reserve_def unmade_def nfree_def bitmap_blocks_def ff f)
qed

lemma edited_refl: "log_inv c p h s \<Longrightarrow> edited c p h s (content s) {} s"
  by (simp add: edited_def)

lemma alloc_addr:
  assumes dk: "disk_ok (content s) s" and fo: "file_ok (content s) s (inodes s ip)" and T: "txn c p Map.empty (reserve ip s) (Suc m) s"
    and k: "k \<le> NDIRECT" "i_addrs (inodes s ip) k = 0" and nf: "0 < nfree (content s) s"
  shows "wp (balloc 1 s) (\<lambda>a t. a \<noteq> 0 \<and> inodes t = inodes s \<and> mapped_step c p ip s (upd_inode ip (put_addr k a) t) \<and> a \<in> pinned t
    \<and> txn c p Map.empty (insert a (reserve ip s)) m t \<and> Suc (nfree (content t) s) = nfree (content s) s)"
proof -
  obtain b where b: "b < sb_size (sb s)" "\<not> in_use (content s) (sb s) b" using nfree_pos [OF nf] by auto
  have T1: "txn c p Map.empty (reserve ip s) 1 s" using T by (rule txn_less) simp
  have bm: "bitmap_ok Map.empty (content s) s" using dk by (simp add: disk_ok_def)
  show ?thesis
  proof (rule wp_mono [OF balloc_wp [OF T1 bm b]], elim conjE, intro conjI)
    fix a t
    assume a: "a < sb_size (sb s)" "\<not> in_use (content s) (sb s) a"
      and e: "edited c p Map.empty s (alloc_blocks (sb s) a (content s)) {BBLOCK a (sb s), a} t"
    note g = grow_addr [OF dk fo a k]
    let ?A = "(i_addrs (inodes s ip))(k := a)"
    have ct: "content t = alloc_blocks (sb s) a (content s)" using e by (simp add: edited_def)
    show ti: "inodes t = inodes s" using e log_frame_inodes(1) [of s t] by (simp add: edited_def)
    have u: "upd_inode ip (put_addr k a) s = upd_inode ip (\<lambda>x. x\<lparr>i_addrs := ?A\<rparr>) s" by (simp add: upd_inode_def put_addr_def)
    show "mapped_step c p ip s (upd_inode ip (put_addr k a) t)"
      using edited_upd_inode [OF e, of ip "put_addr k a"] g ct ti unfolding u by (auto simp: mapped_step_def fs_step_def)
    show "a \<noteq> 0" by (rule g)
    show "a \<in> pinned t" using e by (auto simp: edited_def)
    show "txn c p Map.empty (insert a (reserve ip s)) m t"
      by (rule txn_alloc [OF T e]) (use a in \<open>auto simp: reserve_def bitmap_blocks_def\<close>)
    show "Suc (nfree (content t) s) = nfree (content s) s" unfolding ct by (rule nfree_alloc [OF dk a alloc_others(4) [OF dk a]])
  qed
qed

lemma bmap_direct:
  assumes dk: "disk_ok (content s) s" and fo: "file_ok (content s) s (inodes s ip)" and x: "i_dev (inodes s ip) = 1"
    and R: "room c p ip (Suc r) s" and bn: "unat bn < NDIRECT"
  shows "wp (bmap ip bn s) (\<lambda>a t. mapped_step c p ip s t \<and> a = fptr (content t) (inodes t ip) (unat bn) \<and> a \<noteq> 0
    \<and> (a \<in> pinned t \<and> room c p ip r t \<or> room c p ip (Suc r) t) \<and> (fptr (content s) (inodes s ip) (unat bn) \<noteq> 0 \<longrightarrow> inodes t = inodes s))"
proof -
  let ?x = "inodes s ip" and ?k = "unat bn"
  have lt: "bn < of_nat NDIRECT" using bn by (simp add: NDIRECT_def word_less_nat_alt)
  have p: "fptr (content s) ?x ?k = i_addrs ?x ?k" using bn by (simp add: fptr_def)
  show ?thesis
  proof (cases "i_addrs ?x ?k = 0")
    case False
    have I: "log_inv c p Map.empty s" using R by (simp add: room_def txn_def)
    show ?thesis using False lt p R mapped_step_same [OF edited_refl [OF I] dk fo] by (simp add: bmap_def)
  next
    case True
    have T: "txn c p Map.empty (reserve ip s) (Suc (r + 1 + unmade ip s)) s" "0 < nfree (content s) s" using R by (simp_all add: room_def)
    have "wp (balloc 1 s) (\<lambda>a t. mapped_step c p ip s (upd_inode ip (put_addr ?k a) t) \<and> a = fptr (content t) (put_addr ?k a (inodes t ip)) ?k \<and> a \<noteq> 0
      \<and> a \<in> pinned t \<and> room c p ip r (upd_inode ip (put_addr ?k a) t))"
    proof (rule wp_mono [OF alloc_addr [OF dk fo T(1) _ True T(2)]], goal_cases)
      case (2 a t)
      then have f: "mapped_step c p ip s (upd_inode ip (put_addr ?k a) t)" "inodes t = inodes s" by simp_all
      note g = fs_stepD [of c p ip s "upd_inode ip (put_addr ?k a) t"]
      have "sb t = sb s" using g(1) f(1) by (simp add: mapped_step_def)
      then have e: "reserve ip (upd_inode ip (put_addr ?k a) t) = reserve ip s" "unmade ip (upd_inode ip (put_addr ?k a) t) = unmade ip s"
        "nfree (content t) (upd_inode ip (put_addr ?k a) t) = nfree (content t) s"
        using bn f(2) by (simp_all add: reserve_def unmade_def nfree_def bitmap_blocks_def)
      have "txn c p Map.empty (reserve ip s) (r + 1 + unmade ip s) t" using 2 by (auto intro: txn_subset)
      then have "room c p ip r (upd_inode ip (put_addr ?k a) t)" using 2 R by (auto simp: room_def e)
      then show ?case using 2 bn by (simp add: fptr_def)
    qed (use bn in simp)
    moreover have "(\<lambda>x. x\<lparr>i_addrs := (i_addrs x)(?k := a)\<rparr>) = put_addr ?k a" for a by (simp add: put_addr_def fun_eq_iff)
    ultimately show ?thesis using True lt x p by (simp add: bmap_def) (erule wp_mono, simp)
  qed
qed

text \<open>The first half of \<open>bmap\<close> for a block behind the direct ones: the indirect block is there.\<close>

lemma indirect_there:
  assumes dk: "disk_ok (content s) s" and fo: "file_ok (content s) s (inodes s ip)" and x: "i_dev (inodes s ip) = 1" and R: "room c p ip r s"
  shows "wp (if i_addrs (inodes s ip) NDIRECT = 0
       then then_do (balloc (i_dev (inodes s ip)) s) (\<lambda>addr s. Ret addr (upd_inode ip (\<lambda>x. x\<lparr>i_addrs := (i_addrs x)(NDIRECT := addr)\<rparr>) s))
       else Ret (i_addrs (inodes s ip) NDIRECT) s)
     (\<lambda>a t. mapped_step c p ip s t \<and> a = i_addrs (inodes t ip) NDIRECT \<and> a \<noteq> 0 \<and> room c p ip r t
        \<and> (i_addrs (inodes s ip) NDIRECT \<noteq> 0 \<longrightarrow> inodes t = inodes s \<and> content t = content s))"
proof (cases "i_addrs (inodes s ip) NDIRECT = 0")
  case False
  have I: "log_inv c p Map.empty s" using R by (simp add: room_def txn_def)
  show ?thesis using False R mapped_step_same [OF edited_refl [OF I] dk fo] by simp
next
  case True
  have T: "txn c p Map.empty (reserve ip s) (Suc (r + 1)) s" "0 < nfree (content s) s" "r < nfree (content s) s"
    using R True by (simp_all add: room_def unmade_def)
  have u: "(\<lambda>x. x\<lparr>i_addrs := (i_addrs x)(NDIRECT := a)\<rparr>) = put_addr NDIRECT a" for a by (simp add: put_addr_def fun_eq_iff)
  have "room c p ip r (upd_inode ip (put_addr NDIRECT a) t)"
    if a: "a \<noteq> 0" "inodes t = inodes s" "mapped_step c p ip s (upd_inode ip (put_addr NDIRECT a) t)"
      "txn c p Map.empty (insert a (reserve ip s)) (r + 1) t" "Suc (nfree (content t) s) = nfree (content s) s" for a t
  proof -
    have "sb t = sb s" using fs_stepD(1) [of c p ip s "upd_inode ip (put_addr NDIRECT a) t"] a by (simp add: mapped_step_def)
    then have e: "reserve ip (upd_inode ip (put_addr NDIRECT a) t) = insert a (reserve ip s)" "unmade ip (upd_inode ip (put_addr NDIRECT a) t) = 0"
      "nfree (content t) (upd_inode ip (put_addr NDIRECT a) t) = nfree (content t) s"
      using a True by (simp_all add: reserve_def unmade_def nfree_def bitmap_blocks_def)
    show ?thesis using a T(3) by (simp add: room_def e)
  qed
  then show ?thesis using True x wp_mono [OF alloc_addr [OF dk fo T(1) _ True T(2)]] by (simp add: u) 
qed

text \<open>Changing a held buffer, logging it and giving it back.\<close>

lemma edit_close:
  fixes s :: "'a logst_scheme"
  assumes "log_inv c p h s" and h: "h b = Some n" and "n \<notin> log_area s" and "lh_count s < log_cap s" and "1 \<le> log_outstanding s" and "length d = BSIZE"
  shows "wp (log_write b (set_data b d s)) (\<lambda>_ t. wp (brelse b t) (\<lambda>_ u. edited c p (h(b := None)) s ((content s)(n := d)) {n} u))"
proof (rule wp_mono [OF edit_held [OF assms]], elim conjE)
  fix x t
  assume t: "edited c p h s ((content s)(n := d)) {n} t" "n \<in> pinned t"
  have "wp (brelse b t) (\<lambda>_ u. edited c p (h(b := None)) t (content t) {} u \<and> pinned u = pinned t \<and> bio_frame t u)"
    using t h by (intro close_block [where n = n]) (simp_all add: edited_def)
  moreover have "content t = (content s)(n := d)" using t by (simp add: edited_def)
  ultimately show "wp (brelse b t) (\<lambda>_ u. edited c p (h(b := None)) s ((content s)(n := d)) {n} u)"
    by (elim wp_mono) (auto intro: edited_trans [OF t(1)])
qed

text \<open>The second half: a free block is entered in the indirect block, whose buffer \<open>b\<close> is held meanwhile.\<close>

definition put_entry :: "superblock \<Rightarrow> u32 \<Rightarrow> nat \<Rightarrow> u32 \<Rightarrow> (u32 \<Rightarrow> u8 list) \<Rightarrow> u32 \<Rightarrow> u8 list" where
  "put_entry sblk n k a d = (alloc_blocks sblk a d)(n := put32 (d n) (4 * k) a)"

lemma entered:
  assumes dk: "disk_ok (content s) s" and fo: "file_ok (content s) s (inodes s ip)" and R: "room c p ip (Suc r) s"
    and n: "n = i_addrs (inodes s ip) NDIRECT" "n \<noteq> 0" and k: "k < NINDIRECT" "get32 (content s n) (4 * k) = 0"
    and a: "a < sb_size (sb s)" "\<not> in_use (content s) (sb s) a"
    and w: "edited c p Map.empty s (put_entry (sb s) n k a (content s)) {BBLOCK a (sb s), a, n} w"
  shows "mapped_step c p ip s w \<and> inodes w = inodes s \<and> a = fptr (content w) (inodes w ip) (NDIRECT + k) \<and> a \<noteq> 0 \<and> a \<in> pinned w \<and> room c p ip r w"
proof (intro conjI)
  let ?d = "content s" and ?R = "reserve ip s"
  have T: "txn c p Map.empty ?R (r + 2) s" and nf: "Suc r \<le> nfree ?d s" using R n by (simp_all add: room_def unmade_def)
  note g = grow_indirect [OF dk fo a, folded n(1), OF k n(2), folded put_entry_def]
  have o: "n \<notin> bitmap_blocks s" using file_okD(4) [OF fo ind_own [of "inodes s ip" ?d]] n by simp
  have B: "BBLOCK a (sb s) \<in> ?R" "n \<in> ?R" using a n by (auto simp: reserve_def bitmap_blocks_def)
  have fw: "log_frame s w" "content w = put_entry (sb s) n k a ?d" using w by (simp_all add: edited_def)
  note fh = log_frame_fields [OF fw(1)] log_frame_inodes [OF fw(1)]
  show "inodes w = inodes s" by (rule fh)
  show "mapped_step c p ip s w" using fs_step_edit [OF w g(1-3)] g(5) by (simp add: mapped_step_def fw fh)
  show "a = fptr (content w) (inodes w ip) (NDIRECT + k)" "a \<noteq> 0" using g by (simp_all add: fw fh)
  show "a \<in> pinned w" using w by (auto simp: edited_def)
  have "card ({BBLOCK a (sb s), a, n} - (pinned s \<union> ?R)) \<le> card {a}" using B by (intro card_mono) auto
  then have "txn c p Map.empty ?R (r + 1) w" by (intro txn_edited [OF T w]) simp_all
  moreover have "Suc (nfree (put_entry (sb s) n k a ?d) s) = nfree ?d s"
    using in_use_upd [OF _ o] alloc_others(4) [OF dk a] by (intro nfree_alloc [OF dk a]) (simp add: put_entry_def)
  ultimately show "room c p ip r w" using nf n by (simp add: room_def reserve_def unmade_def bitmap_blocks_def nfree_def fw fh)
qed

lemma enter_block:
  assumes dk: "disk_ok (content s) s" and fo: "file_ok (content s) s (inodes s ip)" and R: "room c p ip (Suc r) s"
    and n: "n = i_addrs (inodes s ip) NDIRECT" "n \<noteq> 0" and k: "k < NINDIRECT" "get32 (content s n) (4 * k) = 0"
    and t: "edited c p [b \<mapsto> n] s (content s) {} t"
  shows "wp (balloc 1 t) (\<lambda>a u. wp (log_write b (set_data b (put32 (b_data (bufs u b)) (4 * k) a) u)) (\<lambda>_ v. wp (brelse b v) (\<lambda>_ w.
    mapped_step c p ip s w \<and> inodes w = inodes s \<and> a = fptr (content w) (inodes w ip) (NDIRECT + k) \<and> a \<noteq> 0 \<and> a \<in> pinned w \<and> room c p ip r w)))"
proof -
  let ?d = "content s" and ?R = "reserve ip s"
  have T: "txn c p Map.empty ?R (r + 2) s" and nf: "0 < nfree ?d s" using R n by (simp_all add: room_def unmade_def)
  have o: "n < sb_size (sb s)" "in_use ?d (sb s) n" "n \<notin> bitmap_blocks s" "n \<notin> log_area s"
    using file_okD [OF fo ind_own [of "inodes s ip" ?d]] n by (simp_all add: meta_def)
  have ft: "log_frame s t" "content t = ?d" "pinned t = pinned s" "log_inv c p [b \<mapsto> n] t" using t by (simp_all add: edited_def)
  note ff = log_frame_fields [OF ft(1)] log_frame_inodes [OF ft(1)]
  have Tt: "txn c p [b \<mapsto> n] ?R 1 t" using T ft ff by (auto simp: txn_def)
  have bm: "bitmap_ok [b \<mapsto> n] ?d t"
    using dk o unfolding bitmap_ok_frame [OF ft(1)] by (auto simp: disk_ok_def bitmap_ok_def bitmap_blocks_def)
  obtain y where y: "y < sb_size (sb s)" "\<not> in_use ?d (sb s) y" using nfree_pos [OF nf] by auto
  have "wp (balloc 1 t) (\<lambda>a u. a < sb_size (sb s) \<and> \<not> in_use ?d (sb s) a \<and> (\<forall>x < a. in_use ?d (sb s) x)
    \<and> edited c p [b \<mapsto> n] t (alloc_blocks (sb s) a ?d) {BBLOCK a (sb s), a} u)"
    using balloc_wp [OF Tt, unfolded ft ff, OF bm y] .
  then show ?thesis
  proof (rule wp_mono, elim conjE)
    fix a u
    assume a: "a < sb_size (sb s)" "\<not> in_use ?d (sb s) a" and tu: "edited c p [b \<mapsto> n] t (alloc_blocks (sb s) a ?d) {BBLOCK a (sb s), a} u"
    have u: "edited c p [b \<mapsto> n] s (alloc_blocks (sb s) a ?d) {BBLOCK a (sb s), a} u" using edited_trans [OF t tu] by simp
    let ?v = "put32 (?d n) (4 * k) a"
    have fu: "log_frame s u" "content u = alloc_blocks (sb s) a ?d" "log_inv c p [b \<mapsto> n] u" "pinned u = pinned s \<union> {BBLOCK a (sb s), a}" using u by (simp_all add: edited_def)
    note fg = log_frame_fields [OF fu(1)]
    have cn: "content u n = ?d n" using alloc_others(3) [OF dk a o(1-3)] fu by simp
    have bd: "b_data (bufs u b) = ?d n" using bc.peek [of c p "[b \<mapsto> n]" u b n] fu cn by (simp add: log_inv_def store_of_def)
    have len: "length ?v = BSIZE" using dk k by (simp add: disk_ok_def NINDIRECT_def BSIZE_def)
    have "card (pinned u) \<le> card (insert a (pinned s \<union> ?R))" using fu(4) a by (intro card_mono) (auto simp: reserve_def bitmap_blocks_def)
    also have "\<dots> \<le> Suc (card (pinned s \<union> ?R))" by (simp add: card_insert_if)
    finally have room: "lh_count u < log_cap u" using T pinned_count [OF fu(3)] fg by (simp add: txn_def)
    have "wp (log_write b (set_data b ?v u)) (\<lambda>_ v. wp (brelse b v) (\<lambda>_ w. edited c p ([b \<mapsto> n](b := None)) u ((content u)(n := ?v)) {n} w))"
      using o room T fg by (intro edit_close [OF fu(3) _ _ _ _ len]) (simp_all add: txn_def)
    moreover have "edited c p Map.empty s (put_entry (sb s) n k a ?d) {BBLOCK a (sb s), a, n} w"
      if "edited c p Map.empty u ((content u)(n := ?v)) {n} w" for w
      using edited_trans [OF u that] fu(2) by (simp add: put_entry_def insert_commute)
    ultimately show "wp (log_write b (set_data b (put32 (b_data (bufs u b)) (4 * k) a) u)) (\<lambda>_ v. wp (brelse b v) (\<lambda>_ w.
      mapped_step c p ip s w \<and> inodes w = inodes s \<and> a = fptr (content w) (inodes w ip) (NDIRECT + k) \<and> a \<noteq> 0 \<and> a \<in> pinned w \<and> room c p ip r w))"
      unfolding bd using entered [OF dk fo R n k a] by (auto elim!: wp_mono)
  qed
qed

definition fill_entry :: "nat \<Rightarrow> nat \<Rightarrow> nat \<Rightarrow> 'a icst_scheme \<Rightarrow> (u32, 'a icst_scheme) outcome" where
  "fill_entry ip bp k s = (let addr = get32 (b_data (bufs s bp)) (4 * k) in
     if addr = 0 then
       then_do (balloc (i_dev (inodes s ip)) s) (\<lambda>addr s.
       let s = upd_buf bp (\<lambda>x. x\<lparr>b_data := put32 (b_data x) (4 * k) addr\<rparr>) s in
       then_do (log_write bp s) (\<lambda>_ s. Ret addr s))
     else Ret addr s)"

lemma bmap_far:
  assumes "\<not> bn < of_nat NDIRECT" and "bn - of_nat NDIRECT < of_nat NINDIRECT"
  shows "bmap ip bn s =
    then_do (if i_addrs (inodes s ip) NDIRECT = 0
       then then_do (balloc (i_dev (inodes s ip)) s) (\<lambda>addr s. Ret addr (upd_inode ip (\<lambda>x. x\<lparr>i_addrs := (i_addrs x)(NDIRECT := addr)\<rparr>) s))
       else Ret (i_addrs (inodes s ip) NDIRECT) s) (\<lambda>addr s.
    then_do (bread (i_dev (inodes s ip)) addr s) (\<lambda>bp s.
    then_do (fill_entry ip bp (unat (bn - of_nat NDIRECT)) s) (\<lambda>addr s.
    then_do (brelse bp s) (\<lambda>_ s. Ret addr s))))"
  using assms unfolding bmap_def fill_entry_def Let_def by simp

lemma indirect_entry:
  assumes dk: "disk_ok (content s) s" and fo: "file_ok (content s) s (inodes s ip)" and x: "i_dev (inodes s ip) = 1" and R: "room c p ip (Suc r) s"
    and n: "n = i_addrs (inodes s ip) NDIRECT" "n \<noteq> 0" and k: "k < NINDIRECT"
  shows "wp (bread (i_dev (inodes s ip)) n s) (\<lambda>bp t. wp (fill_entry ip bp k t) (\<lambda>a u. wp (brelse bp u) (\<lambda>_ w.
       mapped_step c p ip s w \<and> inodes w = inodes s \<and> a = fptr (content w) (inodes w ip) (NDIRECT + k) \<and> a \<noteq> 0 \<and> (a \<in> pinned w \<and> room c p ip r w \<or> room c p ip (Suc r) w))))"
proof -
  let ?e = "get32 (content s n) (4 * k)"
  have T: "txn c p Map.empty (reserve ip s) (r + 2) s" using R n by (simp add: room_def unmade_def)
  then have I: "log_inv c p Map.empty s" by (simp add: txn_def)
  have "lh_count s \<le> card (pinned s \<union> reserve ip s)" using pinned_count [OF I, symmetric] by (simp add: card_mono)
  then have rm: "lh_count s + card (dom (Map.empty :: nat \<rightharpoonup> u32)) < NBUF" using T log_cap_bound [of s] by (simp add: txn_def)
  have nd: "n < disksize s" using file_okD(1) [OF fo ind_own [of "inodes s ip" "content s"]] n dk by (auto simp: disk_ok_def bitmap_ok_def)
  have pe: "fptr (content s) (inodes s ip) (NDIRECT + k) = ?e" using n k by (simp add: fptr_def MAXFILE_def)
  show ?thesis unfolding x
  proof (rule wp_mono [OF open_block [OF I nd _ rm]], simp, elim conjE)
    fix b t
    assume t: "b_data (bufs t b) = content s n" "edited c p [b \<mapsto> n] s (content s) {} t" "pinned t = pinned s" "bio_frame s t"
    have ti: "i_dev (inodes t ip) = 1" using bio_frame_inodes [OF t(4)] x by simp
    have "wp (brelse b t) (\<lambda>_ w. mapped_step c p ip s w \<and> inodes w = inodes s \<and> ?e = fptr (content w) (inodes w ip) (NDIRECT + k) \<and> room c p ip (Suc r) w)"
    proof -
      have "n \<in> pinned s \<or> content s n = disk s n" using content_clean [of c p Map.empty s n] I by (auto simp: log_inv_def)
      then have "wp (brelse b t) (\<lambda>_ w. edited c p ([b \<mapsto> n](b := None)) t (content t) {} w \<and> pinned w = pinned t \<and> bio_frame t w)"
        using t by (intro close_block [where n = n]) (simp_all add: edited_def)
      moreover have "content t = content s" using t(2) by (simp add: edited_def)
      ultimately have "wp (brelse b t) (\<lambda>_ w. edited c p Map.empty s (content s) {} w)" by (elim wp_mono) (auto intro: edited_trans [OF t(2)])
      then show ?thesis
        by (rule wp_mono) (use mapped_step_same [OF _ dk fo] R pe in \<open>auto simp: edited_def\<close>)
    qed
    moreover note enter_block [OF dk fo R n k _ t(2)]
    ultimately show "wp (fill_entry ip b k t) (\<lambda>a u. wp (brelse b u) (\<lambda>_ w.
       mapped_step c p ip s w \<and> inodes w = inodes s \<and> a = fptr (content w) (inodes w ip) (NDIRECT + k) \<and> a \<noteq> 0 \<and> (a \<in> pinned w \<and> room c p ip r w \<or> room c p ip (Suc r) w)))"
      using t(1) unfolding fill_entry_def Let_def by (auto simp: ti upd_data [of b "\<lambda>y. put32 y (4 * k) a" for a] elim!: wp_mono)
  qed
qed

lemma bmap_indirect:
  assumes dk: "disk_ok (content s) s" and fo: "file_ok (content s) s (inodes s ip)" and x: "i_dev (inodes s ip) = 1"
    and R: "room c p ip (Suc r) s" and bn: "NDIRECT \<le> unat bn" "unat bn < MAXFILE"
  shows "wp (bmap ip bn s) (\<lambda>a t. mapped_step c p ip s t \<and> a = fptr (content t) (inodes t ip) (unat bn) \<and> a \<noteq> 0
    \<and> (a \<in> pinned t \<and> room c p ip r t \<or> room c p ip (Suc r) t) \<and> (fptr (content s) (inodes s ip) (unat bn) \<noteq> 0 \<longrightarrow> inodes t = inodes s))"
proof -
  let ?bn = "bn - of_nat NDIRECT"
  have le: "\<not> bn < of_nat NDIRECT" "of_nat NDIRECT \<le> bn" using bn(1) by (simp_all add: NDIRECT_def word_less_nat_alt word_le_nat_alt)
  then have u: "unat ?bn = unat bn - NDIRECT" by (simp add: unat_sub NDIRECT_def)
  have r: "?bn < of_nat NINDIRECT" "unat bn - NDIRECT < NINDIRECT" using u bn
    by (simp_all add: word_less_nat_alt MAXFILE_def NDIRECT_def NINDIRECT_def BSIZE_def)
  have nz: "i_addrs (inodes s ip) NDIRECT \<noteq> 0" if "fptr (content s) (inodes s ip) (unat bn) \<noteq> 0"
    using that bn by (auto simp: fptr_def)
  have ent: "wp (bread (i_dev (inodes t ip)) a t) (\<lambda>bp t. wp (fill_entry ip bp (unat ?bn) t) (\<lambda>a u. wp (brelse bp u) (\<lambda>_ w.
       mapped_step c p ip s w \<and> a = fptr (content w) (inodes w ip) (unat bn) \<and> a \<noteq> 0 \<and> (a \<in> pinned w \<and> room c p ip r w \<or> room c p ip (Suc r) w)
       \<and> (fptr (content s) (inodes s ip) (unat bn) \<noteq> 0 \<longrightarrow> inodes w = inodes s))))"
    if t: "mapped_step c p ip s t" "a = i_addrs (inodes t ip) NDIRECT" "a \<noteq> 0" "room c p ip (Suc r) t" "i_addrs (inodes s ip) NDIRECT \<noteq> 0 \<longrightarrow> inodes t = inodes s"
    for a t
  proof -
    have f: "fs_step c p ip s t" using t(1) by (simp add: mapped_step_def)
    have "i_dev (inodes t ip) = 1" using arg_cong [OF fs_stepD(6) [OF f], of "\<lambda>f. i_dev (f ip)"] x by simp
    note g = indirect_entry [OF fs_stepD(7,8) [OF f] this t(4,2,3) r(2), folded u]
    have "NDIRECT + unat ?bn = unat bn" using u bn by simp
    then show ?thesis using g mapped_step_trans [OF t(1)] nz t(5) by (auto elim!: wp_mono)
  qed
  show ?thesis
    unfolding bmap_far [OF le(1) r(1)] wp_then_do wp.simps by (rule wp_mono [OF indirect_there [OF dk fo x R]]) (use ent in blast)
qed

lemma bmap_grow:
  assumes "disk_ok (content s) s" and "file_ok (content s) s (inodes s ip)" and "i_dev (inodes s ip) = 1" and "room c p ip (Suc r) s" and "unat bn < MAXFILE"
  shows "wp (bmap ip bn s) (\<lambda>a t. mapped_step c p ip s t \<and> a = fptr (content t) (inodes t ip) (unat bn) \<and> a \<noteq> 0
    \<and> (a \<in> pinned t \<and> room c p ip r t \<or> room c p ip (Suc r) t) \<and> (fptr (content s) (inodes s ip) (unat bn) \<noteq> 0 \<longrightarrow> inodes t = inodes s))"
  using bmap_direct [OF assms(1-4)] bmap_indirect [OF assms(1-4)] assms(5) by (meson not_le)

section \<open>Writing\<close>

text \<open>From \<open>s\<close> to \<open>t\<close> the bytes \<open>ys\<close> have been written from offset \<open>o\<close> on. The inode changes only if blocks were missing there.\<close>

definition wrote :: "nat \<Rightarrow> nat \<Rightarrow> nat \<Rightarrow> nat \<Rightarrow> u8 list \<Rightarrow> 'a icst_scheme \<Rightarrow> 'a icst_scheme \<Rightarrow> bool" where
  "wrote c p ip o' ys s t \<longleftrightarrow> fs_step c p ip s t \<and> o' + length ys \<le> MAXFILE * BSIZE
     \<and> (\<forall>i < MAXFILE * BSIZE. fview (content t) (inodes t ip) i
          = (if o' \<le> i \<and> i < o' + length ys then ys ! (i - o') else fview (content s) (inodes s ip) i))
     \<and> (\<forall>i. o' \<le> i \<and> i < o' + length ys \<longrightarrow> fptr (content t) (inodes t ip) (i div BSIZE) \<noteq> 0)
     \<and> ((\<forall>i. o' \<le> i \<and> i < o' + length ys \<longrightarrow> fptr (content s) (inodes s ip) (i div BSIZE) \<noteq> 0) \<longrightarrow> inodes t = inodes s)"

lemma fs_step_ptr:
  assumes "fs_step c p ip s t" and "k \<le> MAXFILE" "fptr (content s) (inodes s ip) k \<noteq> 0"
  shows "fptr (content t) (inodes t ip) k = fptr (content s) (inodes s ip) k"
  using assms by (simp add: fs_step_def fstep_def)

lemma block_index: "i < MAXFILE * BSIZE \<Longrightarrow> i div BSIZE < MAXFILE"
  by (simp add: less_mult_imp_div_less)

lemma wrote_trans:
  assumes a: "wrote c p ip o' ys s t" and b: "wrote c p ip (o' + length ys) zs t u"
  shows "wrote c p ip o' (ys @ zs) s u"
proof -
  have st: "fs_step c p ip s t" "fs_step c p ip t u" using a b by (simp_all add: wrote_def)
  have keep: "fptr (content u) (inodes u ip) (i div BSIZE) = fptr (content t) (inodes t ip) (i div BSIZE)"
    if "i < o' + length ys" "fptr (content t) (inodes t ip) (i div BSIZE) \<noteq> 0" for i
    using that a block_index [of i] by (intro fs_step_ptr [OF st(2)]) (auto simp: wrote_def)
  have keep': "fptr (content t) (inodes t ip) (i div BSIZE) = fptr (content s) (inodes s ip) (i div BSIZE)"
    if "i < o' + length ys + length zs" "fptr (content s) (inodes s ip) (i div BSIZE) \<noteq> 0" for i
    using that b block_index [of i] by (intro fs_step_ptr [OF st(1)]) (auto simp: wrote_def)
  have "inodes u = inodes s" if h: "\<And>i. o' \<le> i \<and> i < o' + length (ys @ zs) \<Longrightarrow> fptr (content s) (inodes s ip) (i div BSIZE) \<noteq> 0"
  proof -
    have "inodes t = inodes s" using a h by (simp add: wrote_def)
    moreover have "fptr (content t) (inodes t ip) (i div BSIZE) \<noteq> 0" if "o' + length ys \<le> i" "i < o' + length ys + length zs" for i
      using keep' [of i] h [of i] that by simp
    then have "inodes u = inodes t" using b by (simp add: wrote_def)
    ultimately show ?thesis by simp
  qed
  moreover have "fptr (content u) (inodes u ip) (i div BSIZE) \<noteq> 0" if "o' \<le> i" "i < o' + length (ys @ zs)" for i
    using a b that keep [of i] by (cases "i < o' + length ys") (auto simp: wrote_def)
  moreover have "fview (content u) (inodes u ip) i = (if o' \<le> i \<and> i < o' + length (ys @ zs) then (ys @ zs) ! (i - o') else fview (content s) (inodes s ip) i)"
    if "i < MAXFILE * BSIZE" for i
    using a b that by (auto simp: wrote_def nth_append)
  ultimately show ?thesis using fs_step_trans [OF st] b by (simp add: wrote_def add.assoc)
qed

lemma in_block:
  fixes i o' m :: nat
  assumes "o' mod 512 + m \<le> 512"
  shows "o' \<le> i \<and> i < o' + m \<longleftrightarrow> i div 512 = o' div 512 \<and> o' mod 512 \<le> i mod 512 \<and> i mod 512 < o' mod 512 + m"
    "o' \<le> i \<Longrightarrow> i < o' + m \<Longrightarrow> i - o' = i mod 512 - o' mod 512"
proof -
  have arith: "512 * a + b \<le> 512 * q + r \<and> 512 * q + r < 512 * a + b + m \<longleftrightarrow> q = a \<and> b \<le> r \<and> r < b + m"
    if "b + m \<le> 512" "r < 512" for a b q r :: nat using that by (cases "q = a") auto
  have e: "o' = 512 * (o' div 512) + o' mod 512" "i = 512 * (i div 512) + i mod 512" by simp_all
  show "o' \<le> i \<and> i < o' + m \<longleftrightarrow> i div 512 = o' div 512 \<and> o' mod 512 \<le> i mod 512 \<and> i mod 512 < o' mod 512 + m"
    using arith [OF assms, of "i mod 512" "o' div 512" "i div 512"] e by simp
  then show "o' \<le> i \<Longrightarrow> i < o' + m \<Longrightarrow> i - o' = i mod 512 - o' mod 512" using e by (metis diff_cancel2 add.commute)
qed

lemma room_same:
  assumes R: "a \<in> pinned s \<and> room c p ip r s \<or> room c p ip (Suc r) s" and e: "edited c p Map.empty s d {a} t"
    and U: "\<And>b. b < sb_size (sb s) \<Longrightarrow> in_use d (sb s) b = in_use (content s) (sb s) b"
  shows "room c p ip r t"
proof -
  have f: "log_frame s t" "content t = d" using e by (simp_all add: edited_def)
  note ff = log_frame_fields [OF f(1)] log_frame_inodes [OF f(1)]
  have c: "card ({a} - (pinned s \<union> reserve ip s)) \<le> (if a \<in> pinned s then 0 else 1)" by (simp add: card_Diff_singleton_if insert_Diff_if)
  have "txn c p Map.empty (reserve ip s) (r + 1 + unmade ip s) t" using R
  proof (elim disjE conjE)
    assume "a \<in> pinned s" "room c p ip r s"
    then show ?thesis using c by (intro txn_edited [OF _ e, where k = "r + 1 + unmade ip s"]) (simp_all add: room_def)
  next
    assume "room c p ip (Suc r) s"
    then show ?thesis using c by (intro txn_edited [OF _ e, where k = "Suc r + 1 + unmade ip s"]) (simp_all add: room_def split: if_splits)
  qed
  moreover have "nfree d s = nfree (content s) s" unfolding nfree_def using U by (intro arg_cong [where f = card]) auto
  ultimately show ?thesis using R by (auto simp: room_def reserve_def unmade_def bitmap_blocks_def nfree_def ff f)
qed

text \<open>The block that \<open>bmap\<close> has found gets the bytes.\<close>

lemma wrote_block:
  fixes s t v :: "'a icst_scheme"
  assumes st: "mapped_step c p ip s t" and a: "a = fptr (content t) (inodes t ip) (o' div 512)" "a \<noteq> 0"
    and m: "o' mod 512 + length ys \<le> 512" "o' div 512 < MAXFILE" "0 < length ys"
    and I: "fptr (content s) (inodes s ip) (o' div 512) \<noteq> 0 \<longrightarrow> inodes t = inodes s"
    and v: "edited c p Map.empty t ((content t)(a := patch (content t a) (o' mod 512) ys)) {a} v"
  shows "wrote c p ip o' ys s v" "b < sb_size (sb t) \<Longrightarrow> in_use (content v) (sb t) b = in_use (content t) (sb t) b"
proof -
  have f: "fs_step c p ip s t" using st by (simp add: mapped_step_def)
  note g = fs_stepD [OF f]
  let ?y = "patch (content t a) (o' mod 512) ys"
  have lt: "length (content t a) = 512" using g(7) by (simp add: disk_ok_def BSIZE_def)
  then have len: "length ?y = BSIZE" using m(1) by (simp add: BSIZE_def)
  have nz: "fptr (content t) (inodes t ip) (o' div 512) \<noteq> 0" using a by simp
  note w = write_data [OF g(7,8) m(2) nz len, folded a(1)]
  have cv: "content v = (content t)(a := ?y)" "inodes v = inodes t" using v log_frame_inodes(1) [of t v] by (simp_all add: edited_def)
  have tv: "fs_step c p ip t v" by (rule fs_step_edit [OF v w(1-3)])
  have ib: "i div 512 = o' div 512" if "o' \<le> i" "i < o' + length ys" for i using in_block(1) [OF m(1), of i] that by blast
  have "fview (content v) (inodes v ip) i = (if o' \<le> i \<and> i < o' + length ys then ys ! (i - o') else fview (content s) (inodes s ip) i)"
    if i: "i < MAXFILE * BSIZE" for i
  proof -
    have s: "fview (content t) (inodes t ip) i = fview (content s) (inodes s ip) i" using st i by (simp add: mapped_step_def)
    have e: "fview (content v) (inodes v ip) i = (if i div 512 = o' div 512 then ?y ! (i mod 512) else fview (content s) (inodes s ip) i)"
      using w(5) [OF i] cv s by (simp add: BSIZE_def)
    have y: "?y ! (i mod 512) = (if o' mod 512 \<le> i mod 512 \<and> i mod 512 < o' mod 512 + length ys then ys ! (i mod 512 - o' mod 512) else content t a ! (i mod 512))"
      using lt m(1) by (intro nth_patch) simp_all
    have n: "content t a ! (i mod 512) = fview (content s) (inodes s ip) i" if "i div 512 = o' div 512"
      using that s nz a(1) by (simp add: fview_def BSIZE_def)
    show ?thesis unfolding e y using in_block [OF m(1), of i] n by auto
  qed
  moreover have "o' + length ys \<le> MAXFILE * BSIZE"
  proof -
    have gen: "e + l \<le> M" if "e = 512 * q + b" "b + l \<le> 512" "512 * Suc q \<le> M" for e l M q b :: nat using that by simp
    show ?thesis using m(2) by (intro gen [of o' "o' div 512" "o' mod 512", OF _ m(1)]) (simp_all add: BSIZE_def)
  qed
  moreover have "fptr (content v) (inodes v ip) (i div BSIZE) \<noteq> 0" if "o' \<le> i" "i < o' + length ys" for i
    using ib [OF that] nz w(4) cv by (simp add: BSIZE_def)
  moreover have "inodes v = inodes s" if "\<forall>i. o' \<le> i \<and> i < o' + length ys \<longrightarrow> fptr (content s) (inodes s ip) (i div BSIZE) \<noteq> 0"
    using that [rule_format, of o'] I m(3) cv by (simp add: BSIZE_def)
  ultimately show "wrote c p ip o' ys s v" using fs_step_trans [OF f tv] by (auto simp: wrote_def)
  have "a \<notin> bitmap_blocks t" using file_okD(4) [OF g(8) fptr_own [of "o' div 512"]] a m(2) by simp
  then show "b < sb_size (sb t) \<Longrightarrow> in_use (content v) (sb t) b = in_use (content t) (sb t) b" unfolding cv by (intro in_use_upd)
qed

lemma write_block:
  assumes dk: "disk_ok (content s) s" and fo: "file_ok (content s) s (inodes s ip)" and x: "i_dev (inodes s ip) = 1" and R: "room c p ip (Suc r) s"
    and m: "unat off mod 512 + length ys \<le> 512" "unat off div 512 < MAXFILE" "0 < length ys"
    and k: "\<And>v. wrote c p ip (unat off) ys s v \<Longrightarrow> room c p ip r v \<Longrightarrow> wp (k v) Q"
  shows "wp (bmap ip (off div of_nat BSIZE) s) (\<lambda>addr t. wp (bread (i_dev (inodes t ip)) addr t) (\<lambda>bp t.
     wp (log_write bp (upd_buf bp (\<lambda>x. x\<lparr>b_data := patch (b_data x) (unat off mod 512) ys\<rparr>) t)) (\<lambda>_ u. wp (brelse bp u) (\<lambda>_ v. wp (k v) Q))))"
proof -
  have bn: "unat (off div of_nat BSIZE) = unat off div 512" by (simp add: BSIZE_def unat_div)
  show ?thesis
  proof (rule wp_mono [OF bmap_grow [OF dk fo x R]], simp add: bn m, unfold bn, elim conjE)
    fix a t
    assume t: "mapped_step c p ip s t" "a = fptr (content t) (inodes t ip) (unat off div 512)" "a \<noteq> 0"
      and Rt: "a \<in> pinned t \<and> room c p ip r t \<or> room c p ip (Suc r) t"
      and I: "fptr (content s) (inodes s ip) (unat off div 512) \<noteq> 0 \<longrightarrow> inodes t = inodes s"
    have f: "fs_step c p ip s t" using t(1) by (simp add: mapped_step_def)
    note g = fs_stepD [OF f]
    have dev: "i_dev (inodes t ip) = 1" using arg_cong [OF g(6), of "\<lambda>f. i_dev (f ip)"] x by simp
    have ao: "a \<in> own (content t) (inodes t ip)" using t m(2) fptr_own [of "unat off div 512"] by simp
    note o = file_okD [OF g(8) ao]
    have n: "a < disksize t" "a \<notin> log_area t \<union> ran Map.empty" using o g(7) by (auto simp: disk_ok_def bitmap_ok_def meta_def)
    obtain l where T: "txn c p Map.empty (reserve ip t) l t" using Rt by (auto simp: room_def)
    let ?y = "patch (content t a) (unat off mod 512) ys"
    have len: "length ?y = BSIZE" using g(7) m(1) by (simp add: disk_ok_def BSIZE_def)
    have kv: "wp (k v) Q" if v: "edited c p Map.empty t ((content t)(a := ?y)) {a} v" for v
    proof (rule k)
      note w = wrote_block [OF t m I v]
      show "wrote c p ip (unat off) ys s v" by (rule w)
      have "content v = (content t)(a := ?y)" using v by (simp add: edited_def)
      then show "room c p ip r v" using w(2) by (intro room_same [OF Rt v]) simp
    qed
    show "wp (bread (i_dev (inodes t ip)) a t) (\<lambda>bp t.
       wp (log_write bp (upd_buf bp (\<lambda>x. x\<lparr>b_data := patch (b_data x) (unat off mod 512) ys\<rparr>) t)) (\<lambda>_ u. wp (brelse bp u) (\<lambda>_ v. wp (k v) Q)))"
      unfolding dev
    proof (rule wp_mono [OF use_block [OF T n]])
      fix bp u
      assume op: "opened c p Map.empty t a bp u"
      then have "upd_buf bp (\<lambda>x. x\<lparr>b_data := patch (b_data x) (unat off mod 512) ys\<rparr>) u = set_data bp ?y u"
        using upd_data [of bp "\<lambda>y. patch y (unat off mod 512) ys" u] by (simp add: opened_def)
      then show "wp (log_write bp (upd_buf bp (\<lambda>x. x\<lparr>b_data := patch (b_data x) (unat off mod 512) ys\<rparr>) u)) (\<lambda>_ u. wp (brelse bp u) (\<lambda>_ v. wp (k v) Q))"
        using opened_edit [OF op len kv] by simp
    qed
  qed
qed

lemma wrote_nil:
  assumes "log_inv c p Map.empty s" and "disk_ok (content s) s" and "file_ok (content s) s (inodes s ip)" and "o' \<le> MAXFILE * BSIZE"
  shows "wrote c p ip o' [] s s"
  using mapped_step_same [OF edited_refl [OF assms(1)] assms(2,3)] assms(4) by (auto simp: wrote_def mapped_step_def)

lemma room_less: "room c p ip r s \<Longrightarrow> q \<le> r \<Longrightarrow> room c p ip q s"
  by (auto simp: room_def intro: txn_less)

lemma step_words:
  fixes tot n m :: u32
  assumes "m \<le> n - tot" and "tot \<le> n"
  shows "unat (n - (tot + m)) = unat (n - tot) - unat m" "tot + m \<le> n"
proof -
  have "unat tot + unat m \<le> unat n" using assms by (simp add: word_le_nat_alt unat_sub)
  then show "tot + m \<le> n" by (simp add: word_le_nat_alt unat_add_below [of _ _ n])
  show "unat (n - (tot + m)) = unat (n - tot) - unat m" using assms(1) by (simp add: diff_diff_eq [symmetric] unat_sub)
qed

lemma writei_loop_wp:
  assumes "disk_ok (content s) s" and "file_ok (content s) s (inodes s ip)" and "i_dev (inodes s ip) = 1"
    and "room c p ip (rounds (unat off) (unat (n - tot))) s" and "tot \<le> n" and "length src = unat (n - tot)"
    and "unat off + unat (n - tot) \<le> MAXFILE * BSIZE" and "rounds (unat off) (unat (n - tot)) < fuel"
  shows "wp (writei_loop fuel ip src off n tot s)
    (\<lambda>o' t. unat o' = unat off + unat (n - tot) \<and> wrote c p ip (unat off) src s t \<and> room c p ip 0 t)"
  using assms
proof (induction fuel arbitrary: off tot src s)
  case (Suc fuel)
  note dk = Suc.prems(1) and fo = Suc.prems(2) and x = Suc.prems(3) and R = Suc.prems(4)
  show ?case
  proof (cases "tot < n")
    case False
    then have "tot = n" using Suc.prems(5) by simp
    moreover have "log_inv c p Map.empty s" using R by (simp add: room_def txn_def)
    ultimately show ?thesis using Suc.prems wrote_nil [OF _ dk fo] room_less [OF R] by simp
  next
    case True
    define r where "r = unat (n - tot)"
    define m where "m = min (n - tot) (of_nat BSIZE - off mod of_nat BSIZE)"
    let ?ys = "take (unat m) src" and ?zs = "drop (unat m) src"
    have r: "0 < r" using True by (simp add: r_def unat_gt_0)
    have m: "unat m = min r (512 - unat off mod 512)" unfolding m_def r_def by (rule chunk_len)
    have md: "unat (off mod of_nat BSIZE) = unat off mod 512" by (simp add: BSIZE_def unat_mod)
    have sz: "unat off + r \<le> MAXFILE * 512" using Suc.prems(7) by (simp add: r_def BSIZE_def)
    have blk: "unat off div 512 < MAXFILE" using sz r by (simp add: less_mult_imp_div_less)
    have o: "unat (off + m) = unat off + unat m"
      using sz m by (intro unat_add_below [of _ _ "of_nat (MAXFILE * 512)"]) (simp add: MAXFILE_def NDIRECT_def NINDIRECT_def BSIZE_def)
    have t: "unat (n - (tot + m)) = r - unat m" "tot + m \<le> n" using step_words [of m n tot] Suc.prems(5) by (simp_all add: m_def r_def)
    have ys: "length ?ys = unat m" "length ?zs = r - unat m" "0 < unat m" "unat m \<le> r" using Suc.prems(6) r m by (simp_all add: r_def)
    have q: "rounds (unat off + unat m) (r - unat m) < rounds (unat off) r" using rounds_step [OF r m] .
    have fit: "unat off mod 512 + length ?ys \<le> 512" unfolding ys m by (simp add: le_diff_conv2)
    have pos: "0 < length ?ys" using ys by simp
    have R': "room c p ip (Suc (rounds (unat off) r - 1)) s" using R q by (simp add: r_def)
    have IH: "wp (writei_loop fuel ip ?zs (off + m) n (tot + m) v)
        (\<lambda>o' t. unat o' = unat off + r \<and> wrote c p ip (unat off) src s t \<and> room c p ip 0 t)"
      if w: "wrote c p ip (unat off) ?ys s v" and Rv: "room c p ip (rounds (unat off) r - 1) v" for v
    proof -
      have f: "fs_step c p ip s v" using w by (simp add: wrote_def)
      note g = fs_stepD [OF f]
      have dev: "i_dev (inodes v ip) = 1" using arg_cong [OF g(6), of "\<lambda>f. i_dev (f ip)"] x by simp
      have "room c p ip (rounds (unat off + unat m) (r - unat m)) v" using q by (intro room_less [OF Rv]) simp
      then have "wp (writei_loop fuel ip ?zs (off + m) n (tot + m) v)
          (\<lambda>o' t. unat o' = unat off + unat m + (r - unat m) \<and> wrote c p ip (unat off + unat m) ?zs v t \<and> room c p ip 0 t)"
        using Suc.IH [OF g(7,8) dev, of "off + m" "tot + m" ?zs] t o ys q sz Suc.prems(8) by (simp add: r_def BSIZE_def)
      then show ?thesis
        by (rule wp_mono) (use wrote_trans [OF w, of ?zs] ys in auto)
    qed
    show ?thesis
      using True write_block [where k = "writei_loop fuel ip ?zs (off + m) n (tot + m)", OF dk fo x R' fit blk pos IH] by (simp add: Let_def m_def [symmetric] r_def [symmetric] md)
  qed
qed simp

section \<open>Storing the inode\<close>

lemma put_addrs_upto:
  fixes a :: "nat \<Rightarrow> u32"
  assumes "o' + 12 + 4 * n \<le> length d"
  defines "e \<equiv> fold (\<lambda>i d. put32 d (o' + 12 + 4 * i) (a i)) [0..<n] d"
  shows "length e = length d \<and> (\<forall>i < n. get32 e (o' + 12 + 4 * i) = a i)
    \<and> (\<forall>j < length d. j < o' + 12 \<or> o' + 12 + 4 * n \<le> j \<longrightarrow> e ! j = d ! j)"
  using assms(1) unfolding e_def
proof (induction n)
  case (Suc n)
  let ?e = "fold (\<lambda>i d. put32 d (o' + 12 + 4 * i) (a i)) [0..<n] d"
  let ?f = "put32 ?e (o' + 12 + 4 * n) (a n)"
  have IH: "length ?e = length d" "\<forall>i < n. get32 ?e (o' + 12 + 4 * i) = a i" "\<forall>j < length d. j < o' + 12 \<or> o' + 12 + 4 * n \<le> j \<longrightarrow> ?e ! j = d ! j"
    using Suc.IH Suc.prems by simp_all
  have "get32 ?f (o' + 12 + 4 * i) = a i" if "i < Suc n" for i
    using that IH(1,2) Suc.prems by (cases "i = n") (simp_all add: get_put_other)
  moreover have "?f ! j = d ! j" if "j < length d" "j < o' + 12 \<or> o' + 12 + 4 * Suc n \<le> j" for j
    using that IH(1,3) Suc.prems by (auto simp: put32_def nth_patch)
  ultimately show ?case using IH(1) Suc.prems by simp
qed simp

lemma dinode_put_props:
  assumes "o' + 64 \<le> length d"
  shows "length (dinode_put x o' d) = length d" "dinode_get (dinode_put x o' d) o' x = x"
    "j < length d \<Longrightarrow> j < o' \<or> o' + 64 \<le> j \<Longrightarrow> dinode_put x o' d ! j = d ! j"
proof -
  define e where "e = put32 (put16 (put16 (put16 (put16 d o' (i_type x)) (o' + 2) (i_major x)) (o' + 4) (i_minor x)) (o' + 6) (i_nlink x)) (o' + 8) (i_size x)"
  let ?f = "dinode_put x o' d"
  have f: "?f = put_addrs (i_addrs x) o' e" by (simp add: dinode_put_def e_def)
  have le: "length e = length d" using assms by (simp add: e_def)
  have ge: "get16 e o' = i_type x" "get16 e (o' + 2) = i_major x" "get16 e (o' + 4) = i_minor x" "get16 e (o' + 6) = i_nlink x" "get32 e (o' + 8) = i_size x"
    using assms by (simp_all add: e_def get_put_other)
  have oe: "e ! j = d ! j" if "j < length d" "j < o' \<or> o' + 64 \<le> j" for j
    using assms that by (auto simp: e_def put32_def put16_def nth_patch)
  have a: "length ?f = length e \<and> (\<forall>i < NDIRECT + 1. get32 ?f (o' + 12 + 4 * i) = i_addrs x i)
     \<and> (\<forall>j < length e. j < o' + 12 \<or> o' + 12 + 4 * (NDIRECT + 1) \<le> j \<longrightarrow> ?f ! j = e ! j)"
    unfolding f put_addrs_def by (rule put_addrs_upto) (use assms le in \<open>simp add: NDIRECT_def\<close>)
  then show "length ?f = length d" using le by simp
  have low: "?f ! j = e ! j" if "j < o' + 12" for j using a that assms le by simp
  have "get16 ?f i = get16 e i" if "i + 1 < o' + 12" for i using low [of i] low [of "i + 1"] that by (simp add: get16_def)
  moreover have "get32 ?f (o' + 8) = get32 e (o' + 8)" by (simp add: get32_def low)
  ultimately show "dinode_get ?f o' x = x" using a ge by (simp add: dinode_get_def cong: if_cong)
  show "j < length d \<Longrightarrow> j < o' \<or> o' + 64 \<le> j \<Longrightarrow> ?f ! j = d ! j" using a oe [of j] le by (auto simp: NDIRECT_def)
qed

lemma dinode_off_bound: "dinode_off n + 64 \<le> BSIZE"
proof -
  have "unat (n mod 8) < 8" using word_mod_less_divisor [of 8 n] by (simp add: word_less_nat_alt)
  then show ?thesis by (simp add: dinode_off_def IPB_def sizeof_dinode_def BSIZE_def)
qed

lemma inode_place:
  assumes "IBLOCK m sblk = IBLOCK n sblk" and "m \<noteq> n"
  shows "dinode_off m + 64 \<le> dinode_off n \<or> dinode_off n + 64 \<le> dinode_off m"
proof -
  have "m div 8 = n div 8" using assms(1) by (simp add: IBLOCK_def IPB_def sizeof_dinode_def BSIZE_def)
  then have "m mod 8 \<noteq> n mod 8" using assms(2) by (metis word_mod_div_equality)
  then have "unat (m mod 8) \<noteq> unat (n mod 8)" by (simp add: word_unat_eq_iff)
  then show ?thesis by (auto simp: dinode_off_def IPB_def sizeof_dinode_def BSIZE_def)
qed

lemma dinode_get_cong:
  assumes "\<And>j. o' \<le> j \<Longrightarrow> j < o' + 64 \<Longrightarrow> e ! j = d ! j"
  shows "dinode_get e o' x = dinode_get d o' x"
  using assms by (simp add: dinode_get_def get16_def get32_def NDIRECT_def cong: if_cong)

text \<open>What \<open>iupdate\<close> makes of the blocks: the inode loads as it is in memory, and every other one loads as before.\<close>

definition store_inode :: "superblock \<Rightarrow> inode \<Rightarrow> (u32 \<Rightarrow> u8 list) \<Rightarrow> u32 \<Rightarrow> u8 list" where
  "store_inode sblk x d = d(IBLOCK (i_inum x) sblk := dinode_put x (dinode_off (i_inum x)) (d (IBLOCK (i_inum x) sblk)))"

lemma load_store:
  assumes "\<And>n. length (d n) = BSIZE"
  shows "load (store_inode sblk x d) sblk x = x" "i_inum y \<noteq> i_inum x \<Longrightarrow> load (store_inode sblk x d) sblk y = load d sblk y"
proof -
  have p: "dinode_off n + 64 \<le> length (d m)" for m n using dinode_off_bound [of n] assms by simp
  show "load (store_inode sblk x d) sblk x = x" by (simp add: load_def store_inode_def dinode_put_props(2) [OF p])
  show "load (store_inode sblk x d) sblk y = load d sblk y" if y: "i_inum y \<noteq> i_inum x"
  proof (cases "IBLOCK (i_inum y) sblk = IBLOCK (i_inum x) sblk")
    case True
    have "dinode_put x (dinode_off (i_inum x)) (d (IBLOCK (i_inum x) sblk)) ! j = d (IBLOCK (i_inum x) sblk) ! j"
      if "dinode_off (i_inum y) \<le> j" "j < dinode_off (i_inum y) + 64" for j
      using inode_place [OF True y] that p [of "i_inum y" "IBLOCK (i_inum x) sblk"] by (intro dinode_put_props(3) [OF p]) auto
    note dinode_get_cong [OF this]
    then show ?thesis by (simp add: load_def store_inode_def True)
  qed (simp add: load_def store_inode_def)
qed

text \<open>A file whose blocks stay as they are stays as it is.\<close>

lemma unchanged_file:
  assumes fo: "file_ok d s y" and keep: "\<And>b. b \<in> own d y \<Longrightarrow> d' b = d b" "\<And>b. b \<in> own d y \<Longrightarrow> in_use d' (sb s) b"
  shows "fptr d' y = fptr d y" "file_ok d' s y" "i < MAXFILE * BSIZE \<Longrightarrow> fview d' y i = fview d y i"
proof -
  show P: "fptr d' y = fptr d y" using keep(1) [OF ind_own] by (auto simp: fptr_def fun_eq_iff)
  show "file_ok d' s y" using fo keep(2) unfolding file_ok_def own_def P by blast
  show "fview d' y i = fview d y i" if "i < MAXFILE * BSIZE"
    using keep(1) [OF fptr_own, of "i div BSIZE"] block_index [OF that] by (simp add: fview_def P)
qed

lemma file_bytes_view:
  assumes fo: "file_ok d s x" and d: "\<And>n. length (d n) = BSIZE"
  shows "file_bytes d x = map (fview d x) [0..<unat (i_size x)]"
proof (rule nth_equalityI)
  have len: "length (file_bytes d x) = unat (i_size x)" using d by (intro file_bytes_length) (simp add: BSIZE_def)
  then show "length (file_bytes d x) = length (map (fview d x) [0..<unat (i_size x)])" by simp
  fix i
  assume "i < length (file_bytes d x)"
  then have i: "i < unat (i_size x)" using len by simp
  have le: "unat (i_size x) \<le> 512 * file_nblocks x" unfolding file_nblocks_def by simp
  then have k: "i div 512 < file_nblocks x" using i by (simp add: less_mult_imp_div_less mult.commute)
  then have nz: "fptr d x (i div 512) \<noteq> 0" "i div 512 < MAXFILE" using fo file_ok_nblocks [OF fo] by (auto simp: file_ok_def)
  then have "file_block d x (i div 512) = fptr d x (i div 512)" by (auto simp: file_block_def fptr_def split: if_splits)
  then show "file_bytes d x ! i = map (fview d x) [0..<unat (i_size x)] ! i"
    using concat_nth [of "\<lambda>k. d (file_block d x k)" i "file_nblocks x"] i le d nz by (simp add: file_bytes_def fview_def BSIZE_def)
qed

lemma iupdate_wp:
  assumes T: "txn c p Map.empty R k s" and dk: "disk_ok (content s) s" and x: "i_dev (inodes s ip) = 1" "i_inum (inodes s ip) < sb_ninodes (sb s)"
  shows "wp (iupdate ip s) (\<lambda>_ t. edited c p Map.empty s (store_inode (sb s) (inodes s ip) (content s)) {IBLOCK (i_inum (inodes s ip)) (sb s)} t)"
proof -
  let ?x = "inodes s ip" and ?n = "IBLOCK (i_inum (inodes s ip)) (sb s)"
  have "?n \<in> inode_blocks s" using x(2) by (simp add: inode_blocks_def)
  then have n: "?n < disksize s" "?n \<notin> log_area s \<union> ran Map.empty" using dk by (auto simp: disk_ok_def bitmap_ok_def)
  let ?v = "dinode_put ?x (dinode_off (i_inum ?x)) (content s ?n)"
  have "dinode_off (i_inum ?x) + 64 \<le> length (content s ?n)" "length (content s ?n) = BSIZE" using dinode_off_bound dk by (simp_all add: disk_ok_def)
  then have len: "length ?v = BSIZE" using dinode_put_props(1) by simp
  have "wp (log_write bp (upd_buf bp (\<lambda>x. x\<lparr>b_data := dinode_put (inodes t ip) (dinode_off (i_inum (inodes t ip))) (b_data x)\<rparr>) t))
      (\<lambda>_ u. wp (brelse bp u) (\<lambda>_ w. edited c p Map.empty s (store_inode (sb s) ?x (content s)) {?n} w))" if op: "opened c p Map.empty s ?n bp t" for bp t
  proof -
    have t: "inodes t = inodes s" "b_data (bufs t bp) = content s ?n" using op bio_frame_inodes by (auto simp: opened_def)
    show ?thesis using op len upd_data [of bp "\<lambda>y. dinode_put ?x (dinode_off (i_inum ?x)) y" t] by (simp add: t opened_def store_inode_def)
  qed
  then show ?thesis using wp_mono [OF use_block [OF T n]] by (simp add: iupdate_def x(1))
qed

lemma store_inode_keeps:
  fixes s :: "'a icst_scheme"
  assumes dk: "disk_ok d s" and x: "i_inum x < sb_ninodes (sb s)"
  defines "d' \<equiv> store_inode (sb s) x d"
  shows "disk_ok d' s" "b < sb_size (sb s) \<Longrightarrow> in_use d' (sb s) b = in_use d (sb s) b" "n \<notin> inode_blocks s \<Longrightarrow> d' n = d n"
proof -
  let ?n = "IBLOCK (i_inum x) (sb s)"
  have n: "?n \<in> inode_blocks s" using x by (simp add: inode_blocks_def)
  then have "?n \<notin> bitmap_blocks s" using dk by (simp add: disk_ok_def)
  then have U: "in_use d' (sb s) b = in_use d (sb s) b" if "b < sb_size (sb s)" for b
    unfolding d'_def store_inode_def using that by (rule in_use_upd [rotated])
  then show "b < sb_size (sb s) \<Longrightarrow> in_use d' (sb s) b = in_use d (sb s) b" .
  have "dinode_off (i_inum x) + 64 \<le> length (d ?n)" using dinode_off_bound dk by (simp add: disk_ok_def)
  then have "length (d' m) = BSIZE" for m using dk dinode_put_props(1) by (simp add: d'_def store_inode_def disk_ok_def)
  then show "disk_ok d' s" using dk U unfolding disk_ok_def bitmap_ok_def by blast
  show "n \<notin> inode_blocks s \<Longrightarrow> d' n = d n" using n by (auto simp: d'_def store_inode_def)
qed

section \<open>The whole write\<close>

lemma fptr_size [simp]: "fptr d (x\<lparr>i_size := z\<rparr>) = fptr d x" "own d (x\<lparr>i_size := z\<rparr>) = own d x" "fview d (x\<lparr>i_size := z\<rparr>) = fview d x"
  by (simp_all add: fptr_def own_def fview_def fun_eq_iff)

lemma file_ok_grown:
  assumes fo: "file_ok d s x" and o: "o' \<le> unat (i_size x)" "unat z = o' + l" "o' + l \<le> MAXFILE * BSIZE"
    and nz: "\<And>i. o' \<le> i \<Longrightarrow> i < o' + l \<Longrightarrow> fptr d x (i div BSIZE) \<noteq> 0"
  shows "file_ok d s (x\<lparr>i_size := z\<rparr>)"
proof -
  have "fptr d x k \<noteq> 0" if "k < file_nblocks (x\<lparr>i_size := z\<rparr>)" for k
  proof (cases "512 * k < unat (i_size x)")
    case True
    then have "k < file_nblocks x" unfolding file_nblocks_def by linarith
    then show ?thesis using fo by (simp add: file_ok_def)
  next
    case False
    have "512 * k < o' + l" using that o(2) unfolding file_nblocks_def by simp
    then show ?thesis using nz [of "512 * k"] False o(1) by (simp add: BSIZE_def)
  qed
  then show ?thesis using fo o by (simp add: file_ok_def)
qed

text \<open>What a write of \<open>ys\<close> at \<open>o'\<close> achieves: the file has the bytes, the copy of the inode in the blocks agrees with the one in memory, other files
  and other inodes are as they were, and nothing has reached the disk yet.\<close>

definition after_write :: "nat \<Rightarrow> nat \<Rightarrow> nat \<Rightarrow> nat \<Rightarrow> u8 list \<Rightarrow> 'a icst_scheme \<Rightarrow> 'a icst_scheme \<Rightarrow> bool" where
  "after_write c p ip o' ys s t \<longleftrightarrow> log_inv c p Map.empty t \<and> disk t = disk s
     \<and> disk_ok (content t) t \<and> file_ok (content t) t (inodes t ip) \<and> load (content t) (sb t) (inodes t ip) = inodes t ip
     \<and> file_bytes (content t) (inodes t ip) = (let F = file_bytes (content s) (inodes s ip) in take o' F @ ys @ drop (o' + length ys) F)
     \<and> (\<forall>j. j \<noteq> ip \<longrightarrow> inodes t j = inodes s j)
     \<and> (\<forall>y. file_ok (content s) s y \<and> own (content s) y \<inter> own (content s) (inodes s ip) = {} \<longrightarrow>
          file_ok (content t) t y \<and> file_bytes (content t) y = file_bytes (content s) y)
     \<and> (\<forall>y. i_inum y < sb_ninodes (sb s) \<and> i_inum y \<noteq> i_inum (inodes s ip) \<longrightarrow> load (content t) (sb t) y = load (content s) (sb s) y)"

lemma splice:
  assumes "o' \<le> a" and "z = max a (o' + length ys)" and "\<And>i. i < z \<Longrightarrow> g i = (if o' \<le> i \<and> i < o' + length ys then ys ! (i - o') else f i)"
  shows "map g [0..<z] = take o' (map f [0..<a]) @ ys @ drop (o' + length ys) (map f [0..<a])"
proof (rule nth_equalityI)
  fix i
  assume "i < length (map g [0..<z])"
  then have i: "i < z" by simp
  then show "map g [0..<z] ! i = (take o' (map f [0..<a]) @ ys @ drop (o' + length ys) (map f [0..<a])) ! i"
    using assms(1,2) assms(3) [OF i] by (auto simp: nth_append)
qed (use assms(1,2) in auto)

text \<open>Other files, and other inodes, during a step.\<close>

lemma others_kept:
  assumes f: "fs_step c p ip s t" and dk: "disk_ok (content s) s" and y: "file_ok (content s) s y" "own (content s) y \<inter> own (content s) (inodes s ip) = {}"
  shows "file_ok (content t) s y" "own (content t) y = own (content s) y" "file_bytes (content t) y = file_bytes (content s) y"
proof -
  have st: "fstep s (content s) (inodes s ip) (content t) (inodes t ip)" using f by (simp add: fs_step_def)
  have k: "content t b = content s b" "in_use (content t) (sb s) b" if "b \<in> own (content s) y" for b
    using st file_okD [OF y(1) that] y(2) that by (auto simp: fstep_def)
  note u = unchanged_file [OF y(1) k]
  show "file_ok (content t) s y" by (rule u)
  show "own (content t) y = own (content s) y" using u(1) by (simp add: own_def)
  have z: "unat (i_size y) \<le> MAXFILE * BSIZE" using y(1) by (simp add: file_ok_def)
  have "disk_ok (content t) s" using f by (simp add: fs_step_def)
  then show "file_bytes (content t) y = file_bytes (content s) y"
    using file_bytes_view [OF u(2)] file_bytes_view [OF y(1)] dk u(3) z by (simp add: disk_ok_def)
qed

lemma inode_block_kept:
  assumes f: "fs_step c p ip s t" and dk: "disk_ok (content s) s" and fo: "file_ok (content s) s (inodes s ip)" and n: "n \<in> inode_blocks s"
  shows "content t n = content s n"
proof -
  have st: "fstep s (content s) (inodes s ip) (content t) (inodes t ip)" using f by (simp add: fs_step_def)
  have "n < sb_size (sb s)" "in_use (content s) (sb s) n" "n \<notin> bitmap_blocks s" using dk n by (simp_all add: disk_ok_def)
  moreover have "n \<notin> own (content s) (inodes s ip)" using file_okD(3) [OF fo] n by (auto simp: meta_def)
  ultimately show ?thesis using st by (simp add: fstep_def)
qed

text \<open>The write stays inside the file.\<close>

lemma write_inside:
  assumes w: "wrote c p ip o' ys s t" and dk: "disk_ok (content s) s" and fo: "file_ok (content s) s (inodes s ip)"
    and ld: "load (content s) (sb s) (inodes s ip) = inodes s ip" and n: "i_inum (inodes s ip) < sb_ninodes (sb s)"
    and o: "o' + length ys \<le> unat (i_size (inodes s ip))"
  shows "after_write c p ip o' ys s t"
proof -
  let ?x = "inodes s ip"
  have f: "fs_step c p ip s t" using w by (simp add: wrote_def)
  note g = fs_stepD [OF f]
  have "fptr (content s) ?x (i div BSIZE) \<noteq> 0" if "i < unat (i_size ?x)" for i
  proof -
    have "i div 512 < file_nblocks ?x" using that unfolding file_nblocks_def by linarith
    then show ?thesis using fo by (simp add: file_ok_def BSIZE_def)
  qed
  then have I: "inodes t = inodes s" using w o by (simp add: wrote_def)
  have l: "load (content t) (sb s) y = load (content s) (sb s) y" if "i_inum y < sb_ninodes (sb s)" for y
    using inode_block_kept [OF f dk fo, of "IBLOCK (i_inum y) (sb s)"] that by (simp add: load_def inode_blocks_def)
  have ft: "file_ok (content t) s ?x" "\<And>n. length (content t n) = BSIZE" using f I by (simp_all add: fs_step_def disk_ok_def)
  have "map (fview (content t) ?x) [0..<unat (i_size ?x)]
      = take o' (map (fview (content s) ?x) [0..<unat (i_size ?x)]) @ ys @ drop (o' + length ys) (map (fview (content s) ?x) [0..<unat (i_size ?x)])"
    using w o I fo by (intro splice) (auto simp: wrote_def file_ok_def)
  then have "file_bytes (content t) ?x = take o' (file_bytes (content s) ?x) @ ys @ drop (o' + length ys) (file_bytes (content s) ?x)"
    using file_bytes_view [OF ft] file_bytes_view [OF fo] dk by (simp add: disk_ok_def)
  then show ?thesis using g others_kept [OF f dk] l n ld I layout_cong(4) [OF g(1-3)] by (auto simp: after_write_def Let_def)
qed

text \<open>The write ends behind the file, and the inode is stored.\<close>

lemma write_grows:
  fixes s :: "'a icst_scheme"
  assumes w: "wrote c p ip o' ys s t" and dk: "disk_ok (content s) s" and fo: "file_ok (content s) s (inodes s ip)"
    and n: "i_inum (inodes s ip) < sb_ninodes (sb s)" and o: "o' \<le> unat (i_size (inodes s ip))" "unat (i_size (inodes s ip)) < o' + length ys" "unat z = o' + length ys"
    and u: "edited c p Map.empty (upd_inode ip (i_size_update (\<lambda>_. z)) t) (store_inode (sb t) ((inodes t ip)\<lparr>i_size := z\<rparr>) (content t)) W u"
  shows "after_write c p ip o' ys s u"
proof -
  let ?x = "inodes s ip" and ?y = "(inodes t ip)\<lparr>i_size := z\<rparr>"
  have f: "fs_step c p ip s t" using w by (simp add: wrote_def)
  note g = fs_stepD [OF f]
  have num: "i_inum (inodes t ip) = i_inum ?x" using arg_cong [OF g(6), of "\<lambda>f. i_inum (f ip)"] by simp
  have fr: "log_frame (upd_inode ip (i_size_update (\<lambda>_. z)) t) u" "content u = store_inode (sb s) ?y (content t)" using u g(1) by (simp_all add: edited_def)
  note h = log_frame_fields [OF fr(1), simplified, unfolded g] log_frame_inodes(1,2) [OF fr(1), simplified, unfolded g(1)]
  have iu: "inodes u ip = ?y" using h by simp
  have dt: "disk_ok (content t) s" using f by (simp add: fs_step_def)
  have "i_inum ?y < sb_ninodes (sb s)" using n num by simp
  note k = store_inode_keeps [OF dt this, folded fr(2)]
  have len: "\<And>m. length (content s m) = BSIZE" "\<And>m. length (content t m) = BSIZE" "\<And>m. length (content u m) = BSIZE" using dk dt k(1) by (simp_all add: disk_ok_def)
  have keep: "file_ok (content u) s v" "file_bytes (content u) v = file_bytes (content t) v" if v: "file_ok (content t) s v" for v
  proof -
    note e = unchanged_file [OF v, of "content u"]
    have b: "content u b = content t b" "in_use (content u) (sb s) b" if "b \<in> own (content t) v" for b
      using file_okD [OF v that] k(2,3) by (auto simp: meta_def)
    show "file_ok (content u) s v" by (rule e(2) [OF b])
    from file_bytes_view [OF this len(3)] show "file_bytes (content u) v = file_bytes (content t) v"
      using file_bytes_view [OF v len(2)] e(3) [OF b] v by (simp add: file_ok_def)
  qed
  have mx: "o' + length ys \<le> MAXFILE * BSIZE" "unat (i_size (inodes t ip)) = unat (i_size ?x)"
    using w arg_cong [OF g(6), of "\<lambda>f. i_size (f ip)"] by (simp_all add: wrote_def)
  have fy: "file_ok (content t) s ?y"
    using w f mx(2) o by (intro file_ok_grown [where o' = o' and l = "length ys"]) (simp_all add: wrote_def fs_step_def)
  have "map (fview (content t) ?y) [0..<o' + length ys]
      = take o' (map (fview (content s) ?x) [0..<unat (i_size ?x)]) @ ys @ drop (o' + length ys) (map (fview (content s) ?x) [0..<unat (i_size ?x)])"
    using w o by (intro splice) (auto simp: wrote_def)
  then have "file_bytes (content t) ?y = take o' (file_bytes (content s) ?x) @ ys @ drop (o' + length ys) (file_bytes (content s) ?x)"
    using file_bytes_view [OF fy len(2)] file_bytes_view [OF fo len(1)] o(3) by simp
  moreover have "load (content u) (sb s) v = load (content s) (sb s) v" if "i_inum v < sb_ninodes (sb s)" "i_inum v \<noteq> i_inum ?x" for v
    using load_store(2) [OF len(2), of v ?y "sb s"] inode_block_kept [OF f dk fo, of "IBLOCK (i_inum v) (sb s)"] that num fr(2)
    by (simp add: load_def inode_blocks_def)
  moreover have "\<forall>j. j \<noteq> ip \<longrightarrow> inodes u j = inodes s j" using h g(6) by (metis fun_upd_other)
  moreover have "log_inv c p Map.empty u" "disk u = disk s" using u g(4) by (simp_all add: edited_def)
  ultimately show ?thesis
    using k(1) keep fy others_kept [OF f dk] load_store(1) [OF len(2), of "sb s" ?y] fr(2) layout_cong [of u s] h iu
    by (auto simp: after_write_def Let_def)
qed

lemma writei_wp:
  fixes s :: "'a consst_scheme"
  assumes R: "room c p ip (rounds (unat off) (unat n)) s" and dk: "disk_ok (content s) s" and fo: "file_ok (content s) s (inodes s ip)"
    and ld: "load (content s) (sb s) (inodes s ip) = inodes s ip" and x: "i_type (inodes s ip) \<noteq> T_DEV" "i_dev (inodes s ip) = 1" "i_inum (inodes s ip) < sb_ninodes (sb s)"
    and len: "length src = unat n" and b: "off \<le> i_size (inodes s ip)" "off \<le> off + n" "off + n \<le> of_nat (MAXFILE * BSIZE)"
  shows "wp (writei ip src off n s) (\<lambda>r t. r = int (length src) \<and> after_write c p ip (unat off) src s t)"
proof -
  have "unat off + unat n < 4294967296" using b(2) unat_u32 [of off] unat_u32 [of n]
    by (simp add: word_le_nat_alt unat_word_ariths(1) mod_if split: if_splits)
  then have on: "unat (off + n) = unat off + unat n" by (simp add: unat_word_ariths(1))
  have mx: "unat off + unat n \<le> MAXFILE * BSIZE"
    using b(3) by (simp add: word_le_nat_alt on MAXFILE_def NDIRECT_def NINDIRECT_def BSIZE_def)
  have sn: "sint n = int (length src)" using mx len by (simp add: sint_small MAXFILE_def NDIRECT_def NINDIRECT_def BSIZE_def)
  have "wp (writei_loop (unat n div BSIZE + 3) ip src off n 0 s)
     (\<lambda>o' t. unat o' = unat off + unat (n - 0) \<and> wrote c p ip (unat off) src s t \<and> room c p ip 0 t)"
    using R len mx rounds_bound [of "unat off" "unat n"] by (intro writei_loop_wp [OF dk fo x(2)]) (simp_all add: BSIZE_def)
  then have L: "wp (writei_loop (unat n div BSIZE + 3) ip src off n 0 s)
     (\<lambda>o' t. o' = off + n \<and> wrote c p ip (unat off) src s t \<and> room c p ip 0 t)"
    by (rule wp_mono) (simp add: on [symmetric] word_unat_eq_iff)
  have stop: "after_write c p ip (unat off) src s t" if "wrote c p ip (unat off) src s t" "n = 0 \<or> off + n \<le> i_size (inodes t ip)" for t
  proof (rule write_inside [OF that(1) dk fo ld x(3)])
    have "i_size (inodes t ip) = i_size (inodes s ip)" using that(1) fs_stepD(6) [of c p ip s t] by (metis fun_upd_same inode.ext_inject inode.surjective inode.update_convs(10) wrote_def)
    then show "unat off + length src \<le> unat (i_size (inodes s ip))" using that(2) b(1) on len by (auto simp: word_le_nat_alt)
  qed
  have more: "wp (iupdate ip (upd_inode ip (i_size_update (\<lambda>_. off + n)) t)) (\<lambda>_ u. after_write c p ip (unat off) src s u)"
    if w: "wrote c p ip (unat off) src s t" "room c p ip 0 t" "i_size (inodes t ip) < off + n" for t
  proof -
    let ?u = "upd_inode ip (i_size_update (\<lambda>_. off + n)) t"
    have f: "fs_step c p ip s t" using w(1) by (simp add: wrote_def)
    note g = fs_stepD [OF f]
    have e: "i_size (inodes t ip) = i_size (inodes s ip)" "i_dev (inodes t ip) = 1" "i_inum (inodes t ip) = i_inum (inodes s ip)"
      using arg_cong [OF g(6), of "\<lambda>f. i_size (f ip)"] arg_cong [OF g(6), of "\<lambda>f. i_dev (f ip)"] arg_cong [OF g(6), of "\<lambda>f. i_inum (f ip)"] x by simp_all
    have T: "txn c p Map.empty (reserve ip t) (0 + 1 + unmade ip t) ?u" using w(2) by (simp add: room_def)
    have dk': "disk_ok (content ?u) ?u" using g(7) layout_cong(3) [of ?u t] by simp
    have "wp (iupdate ip ?u) (\<lambda>_ u. edited c p Map.empty ?u (store_inode (sb t) ((inodes t ip)\<lparr>i_size := off + n\<rparr>) (content t)) {IBLOCK (i_inum (inodes s ip)) (sb s)} u)"
      using iupdate_wp [OF T dk', of ip] e x g(1) by simp
    then show ?thesis
      by (rule wp_mono) (rule write_grows [OF w(1) dk fo x(3)], use b(1) w(3) e on len in \<open>simp_all add: word_le_nat_alt word_less_nat_alt\<close>)
  qed
  show ?thesis
    using x(1) b L unfolding writei_def Let_def by (simp add: not_less sn) (erule wp_mono, use stop more in \<open>auto simp: not_less elim!: wp_mono\<close>)
qed

section \<open>Properties\<close>

text \<open>C9: \<open>writei\<close> puts the bytes into the file from the offset on and extends it when they go past its end, allocating direct blocks, the
  indirect block and blocks behind it as needed. The inode in memory agrees with its copy in the blocks afterwards, every file that shares no
  block with this one and every other inode keep their content, each block is still used once, and the disk has not changed: all is in the
  log. An offset behind the end, one that overflows and a write past the largest size give -1 and change nothing.\<close>

theorem writei_correct:
  fixes s :: "'a consst_scheme"
  assumes "room c p ip (rounds (unat off) (unat n)) s" and "disk_ok (content s) s" and "file_ok (content s) s (inodes s ip)"
    and "load (content s) (sb s) (inodes s ip) = inodes s ip" and "i_type (inodes s ip) \<noteq> T_DEV" and "i_dev (inodes s ip) = 1"
    and "i_inum (inodes s ip) < sb_ninodes (sb s)" and "length src = unat n"
  shows "wp (writei ip src off n s) (\<lambda>r t.
    if i_size (inodes s ip) < off \<or> off + n < off \<or> of_nat (MAXFILE * BSIZE) < off + n then r = - 1 \<and> t = s
    else r = int (length src) \<and> after_write c p ip (unat off) src s t)"
proof (cases "i_size (inodes s ip) < off \<or> off + n < off \<or> of_nat (MAXFILE * BSIZE) < off + n")
  case True
  then show ?thesis using assms(5) by (auto simp: writei_def)
next
  case False
  then show ?thesis using writei_wp [OF assms] by (auto simp: not_less elim!: wp_mono)
qed

text \<open>The file of the small file system, opened in a transaction.\<close>

definition demo_file :: inode where
  "demo_file = \<lparr>i_dev = 1, i_inum = 2, i_ref = 1, i_valid = True, i_type = T_FILE, i_major = 0, i_minor = 0,
     i_nlink = 1, i_size = 6, i_addrs = (\<lambda>_. 0)(0 := 21)\<rparr>"

definition demo_write :: consst where
  "demo_write = upd_inode 0 (\<lambda>_. demo_file) demo_txn"

lemma demo_write_simps [simp]: "content demo_write = demo_disk" "sb demo_write = demo_sb" "inodes demo_write 0 = demo_file" "log_area demo_write = log_area demo_txn"
  "disksize demo_write = 33"
  by (simp_all add: demo_write_def)

lemma demo_blocks: "bitmap_blocks demo_write = {19}" "inode_blocks demo_write = {32}"
proof -
  have "BBLOCK b demo_sb = 19" if "b < 33" for b using demo_bits(2) [of b] that by (simp add: word_less_nat_alt)
  moreover have "\<exists>b :: u32. b < 33" by (rule exI [of _ 0]) simp
  moreover have "sb_size demo_sb = 33" by (simp add: demo_sb_def)
  ultimately show "bitmap_blocks demo_write = {19}" unfolding bitmap_blocks_def by (auto simp: image_iff)
  have "IBLOCK i demo_sb = 32" if "i < 8" for i
  proof -
    have "unat (i div 8) = 0" using that by (simp add: unat_div word_less_nat_alt)
    then have "i div 8 = 0" by (simp add: unat_eq_0)
    then show ?thesis by (simp add: IBLOCK_def demo_sb_def IPB_def BSIZE_def sizeof_dinode_def)
  qed
  moreover have "\<exists>i :: u32. i < 8" by (rule exI [of _ 0]) simp
  moreover have "sb_ninodes demo_sb = 8" by (simp add: demo_sb_def)
  ultimately show "inode_blocks demo_write = {32}" unfolding inode_blocks_def by (auto simp: image_iff)
qed

lemma demo_disk_ok: "disk_ok demo_disk demo_write"
proof -
  have a: "b \<notin> log_area demo_txn" if "b \<in> {0, 1, 32}" for b using demo_area [of b] that by auto
  have "in_use demo_disk demo_sb b" if "b \<in> {0, 1, 32}" for b using demo_bits(1) [of b] that by (auto simp: bit_numeral_rec)
  moreover have "bitmap_ok Map.empty demo_disk demo_write" using demo_bitmap(1) by (simp add: bitmap_ok_def)
  ultimately show ?thesis using a by (simp add: disk_ok_def demo_blocks demo_disk_length BSIZE_def) (simp add: demo_sb_def)
qed

lemma demo_file_ptr: "fptr demo_disk demo_file k = (if k = 0 then 21 else 0)"
  by (simp add: fptr_def demo_file_def NDIRECT_def)

lemma demo_file_ok: "file_ok demo_disk demo_write demo_file"
proof -
  have "own demo_disk demo_file = {21}" by (auto simp: own_def demo_file_ptr image_iff)
  moreover have "file_nblocks demo_file = 1" by (simp add: file_nblocks_def demo_file_def)
  moreover have "inj_on (fptr demo_disk demo_file) {k. k \<le> MAXFILE \<and> fptr demo_disk demo_file k \<noteq> 0}" by (auto simp: inj_on_def demo_file_ptr)
  moreover have "in_use demo_disk demo_sb 21" using demo_bits(1) [of 21] by (simp add: bit_numeral_rec)
  moreover have "21 \<notin> log_area demo_txn" using demo_area [of 21] by auto
  ultimately show ?thesis by (simp add: file_ok_def demo_file_ptr meta_def demo_blocks) (simp add: demo_sb_def demo_file_def MAXFILE_def NDIRECT_def NINDIRECT_def BSIZE_def)
qed

lemma demo_load: "load demo_disk demo_sb demo_file = demo_file"
proof -
  have "get32 (demo_disk 32) (140 + 4 * i) = (if i = 0 then 21 else 0)" if "i < 13" for i
    using that by (cases i) (simp_all add: demo_disk_def demo_iblock_def get32_def nth_append)
  moreover have "get16 (demo_disk 32) 128 = T_FILE" "get16 (demo_disk 32) 130 = 0" "get16 (demo_disk 32) 132 = 0" "get16 (demo_disk 32) 134 = 1"
    "get32 (demo_disk 32) 136 = 6" "get32 (demo_disk 32) 140 = 21"
    by (simp_all add: demo_disk_def demo_iblock_def get16_def get32_def nth_append T_FILE_def)
  ultimately show ?thesis
    by (simp add: load_def dinode_get_def demo_file_def fun_eq_iff NDIRECT_def)
      (simp add: IBLOCK_def IPB_def BSIZE_def sizeof_dinode_def dinode_off_def demo_sb_def)
qed

lemma demo_room: "room 0 0 0 2 demo_write"
proof -
  have r: "reserve 0 demo_write = {19, 32}" "unmade 0 demo_write = 1"
    by (simp_all add: reserve_def unmade_def demo_blocks insert_commute) (simp_all add: IBLOCK_def IPB_def BSIZE_def sizeof_dinode_def demo_sb_def demo_file_def NDIRECT_def insert_commute)
  have "{12, 13, 14} \<subseteq> {b :: u32. b < 33 \<and> \<not> in_use demo_disk demo_sb b}"
    using demo_bits(1) [of 12] demo_bits(1) [of 13] demo_bits(1) [of 14] by (simp add: bit_numeral_rec)
  then have "card {12, 13, 14 :: u32} \<le> nfree demo_disk demo_write"
    unfolding nfree_def by (intro card_mono) (simp_all add: demo_sb_def)
  then show ?thesis using demo_txn_ok by (simp add: room_def r) (simp add: demo_write_def txn_def)
qed

theorem writei_correct_witness:
  "room 0 0 0 (rounds 6 600) demo_write \<and> disk_ok demo_disk demo_write \<and> file_ok demo_disk demo_write demo_file
   \<and> wp (writei 0 (replicate 600 7) 6 600 demo_write) (\<lambda>r t. r = 600
       \<and> file_bytes (content t) (inodes t 0) = [104, 101, 108, 108, 111, 10] @ replicate 600 7)"
proof -
  have R: "room 0 0 0 (rounds 6 600) demo_write" using demo_room by (simp add: rounds_def)
  have b: "file_bytes demo_disk demo_file = [104, 101, 108, 108, 111, 10]"
    by (simp add: file_bytes_def file_nblocks_def demo_file_def file_block_def NDIRECT_def demo_disk_def)
  have x: "i_type demo_file \<noteq> T_DEV" "i_dev demo_file = 1" "i_inum demo_file < sb_ninodes demo_sb" "i_size demo_file = 6"
    by (simp_all add: demo_file_def T_DEV_def T_FILE_def demo_sb_def)
  have "wp (writei 0 (replicate 600 7) 6 600 demo_write) (\<lambda>r t. r = 600
       \<and> file_bytes (content t) (inodes t 0) = [104, 101, 108, 108, 111, 10] @ replicate 600 7)"
    using writei_correct [of 0 0 0 6 600 demo_write "replicate 600 7"] R demo_disk_ok demo_file_ok demo_load x
    by (auto simp: after_write_def Let_def b MAXFILE_def NDIRECT_def NINDIRECT_def BSIZE_def elim!: wp_mono)
  then show ?thesis using R demo_disk_ok demo_file_ok by simp
qed

end
