(* ===== verification/Spec2Isabelle.thy ===== *)
theory Spec2Isabelle
  imports Pagetable Prioqueue Logsafe Lazyalloc Pipering Trap Idequeue Filters Shellprint Filewrite
begin

text \<open>
  A verification of xv6-nbs, an x86 teaching kernel with a scheduler of ten priorities, lazy allocation of user memory, exit
  codes, \<open>dup2\<close>, \<open>phmem\<close> and \<open>date\<close>, together with its user library and some of its programs.

  \<^bold>\<open>The program and its model.\<close> The kernel is a stack of components, each using those before it; the theories
  follow this order. A component that has state of its own extends the record of the state below it, so that every
  operation is a function on an extensible record, and what is proved of a lower component holds in the state of every
  higher one: \<open>machine\<close> (\<open>Spinlock\<close>), \<open>kmem\<close> (\<open>Kalloc\<close>), \<open>vmst\<close> (\<open>Vm\<close>), \<open>ptab\<close> (\<open>Proc\<close>), \<open>slst\<close> (\<open>Sleeplock\<close>), \<open>biost\<close>
  (\<open>Bio\<close>), \<open>logst\<close> (\<open>Log\<close>), \<open>icst\<close> (\<open>Inode\<close>), \<open>consst\<close> (\<open>Console\<close>), \<open>pipst\<close> (\<open>Pipe\<close>), \<open>filest\<close> (\<open>File\<close>), \<open>sysst\<close> (\<open>Lifecycle\<close>),
  and \<open>idest\<close> (\<open>Ide\<close>) beside the log for the kernel with an IDE disk.

  A piece of kernel code maps a state to an \<open>outcome\<close> (\<open>Prelude\<close>): it returns (\<open>Ret\<close>), panics (\<open>Panic\<close>), dereferences a bad address
  (\<open>Fault\<close>), spins on a lock of another CPU (\<open>Spin\<close>), gives up the CPU inside \<open>sched\<close> (\<open>Sleep\<close>), ends the process (\<open>Exited\<close>)
  or loops forever (\<open>Diverge\<close>). A function that can lose the CPU in its middle is split there: the first part ends in \<open>Sleep\<close>, and the
  part after the context switch has the suffix \<open>_resume\<close>. A theorem about several processes therefore speaks of each section between two
  switches, with any behaviour of the others in between. \<open>wp m Q\<close> says that \<open>m\<close> returns and the result satisfies \<open>Q\<close>.

  Integers have the width of the code (\<open>u8\<close>, \<open>u16\<close>, \<open>u32\<close>) and wrap. Memory is a map from 32-bit addresses to bytes; the free list of
  the page allocator and the page tables live in it, and structures in disk blocks are read and written by byte offsets. Tables of
  structures (processes, buffers, inodes, open files, pipes) are maps from indices to records, with pointers between entries as optional
  indices.

  \<^bold>\<open>Components.\<close>
  \<^item> \<open>Prelude\<close>, \<open>Machine\<close>, \<open>Bytes\<close>: outcomes, loops over tables, byte memory, little-endian fields.
  \<^item> \<open>Spinlock\<close> (\<open>spinlock.c\<close>, \<open>mycpu\<close> of \<open>proc.c\<close>): mutual exclusion and interrupt nesting for every interleaving of
    \<open>acquire\<close> and \<open>release\<close> on several CPUs, each with its own interrupt flag; outcomes of \<open>acquire\<close>.
  \<^item> \<open>Kstring\<close> (\<open>string.c\<close>), \<open>Kalloc\<close> (\<open>kalloc.c\<close>): \<open>memmove\<close> on overlapping areas; the free list as an abstract set of pages, the
    contract \<open>page_allocator\<close> and its interpretation, used by all of virtual memory.
  \<^item> \<open>Vm\<close>, \<open>Pagetable\<close> (\<open>vm.c\<close>): what the tables in memory mean as a map of pages, and that \<open>mappages\<close>, \<open>allocuvm\<close> and \<open>deallocuvm\<close>
    change exactly the mappings they should, with the page tables and frames kept disjoint; \<open>allocuvm\<close> succeeds exactly when enough pages are
    free, and no page is lost when it fails.
  \<^item> \<open>Proc\<close>, \<open>Prioqueue\<close>, \<open>Sched\<close> (\<open>proc.c\<close>): the linked priority queues refine lists (contract \<open>fifo_queues\<close>); \<open>sleep\<close>, \<open>wakeup\<close>, \<open>kill\<close>
    and the scheduler keep the queues equal to the runnable processes; the most urgent queue is served in turn. Two theorems show where the
    code breaks these: moving the last process of a queue, and looking up an unknown process identifier.
  \<^item> \<open>Sleeplock\<close> (\<open>sleeplock.c\<close>): taking, waiting for and passing on a sleep lock.
  \<^item> \<open>Bio\<close>, \<open>Bcache\<close> (\<open>bio.c\<close>, \<open>memide.c\<close>): the ring of buffers is a list in the order of use; the cache refines a store of blocks
    (contract \<open>block_cache\<close>), on which the log and the files are proved.
  \<^item> \<open>Ide\<close>, \<open>Idequeue\<close> (\<open>ide.c\<close>): the queue of requests and the interrupt handler do, request by request, what the memory disk does in one step.
  \<^item> \<open>Log\<close>, \<open>Logsafe\<close> (\<open>log.c\<close>): a transaction is atomic under a crash after any of its block writes, and recovery may itself crash.
  \<^item> \<open>Inode\<close>, \<open>Fs\<close> (\<open>fs.c\<close>): blocks, inodes, directories and paths, proved in five layers over the contract of the block cache.
    \<open>Filedata\<close>: the bytes of a file and that \<open>readi\<close> returns them. \<open>Icache\<close>: references and locks of the table of inodes (\<open>iget\<close>, \<open>idup\<close>,
    \<open>ilock\<close>, \<open>iunlock\<close>, \<open>iput\<close>). \<open>Pathwalk\<close>: directories as a tree, in which \<open>namei\<close> finds the inode the elements of the path lead to.
    \<open>Transact\<close>: changes of blocks inside a transaction, the bitmap, and that \<open>balloc\<close> hands out a block that was free. \<open>Filewrite\<close>: \<open>bmap\<close> with
    allocation, \<open>iupdate\<close>, and that \<open>writei\<close> writes into a file, extends it and leaves every other file alone.
  \<^item> \<open>Kbd\<close>, \<open>Console\<close>, \<open>Pipe\<close>, \<open>Pipering\<close>, \<open>File\<close> (\<open>kbd.c\<close>, \<open>console.c\<close>, \<open>uart.c\<close>, \<open>pipe.c\<close>, \<open>file.c\<close>): the ring buffer of a pipe is a bounded
    queue of bytes, also when the counters wrap.
  \<^item> \<open>Usermem\<close>, \<open>Lazyalloc\<close> (\<open>trap.c\<close>): access to user memory through the page table and the fault handler; the first access to a page below
    the size of the process creates it with zeros, and a read of the guard page stops the kernel.
  \<^item> \<open>Lifecycle\<close>, \<open>Exec\<close>, \<open>Sysproc\<close>, \<open>Sysfile\<close>, \<open>Trap\<close>, \<open>Rtc\<close> (\<open>proc.c\<close>, \<open>exec.c\<close>, \<open>sysproc.c\<close>, \<open>sysfile.c\<close>, \<open>syscall.c\<close>, \<open>trap.c\<close>, \<open>lapic.c\<close>):
    processes, programs, system calls, the dispatch of traps and the clock chip.
  \<^item> \<open>Userlib\<close>, \<open>Grep\<close>, \<open>Filters\<close>, \<open>Shell\<close>, \<open>Shellprint\<close> (\<open>user/\<close>): the user library; the matcher of \<open>grep\<close> against the language of
    patterns; what \<open>wc\<close> prints for input in any pieces; the parser of the shell against a printer.

  \<^bold>\<open>Bounds.\<close> Loops over tables go through the table. The loops of \<open>scheduler\<close>, \<open>idewait\<close> and \<open>cmostime\<close> may run forever and are partial
  functions or inputs of the environment; that \<open>cmostime\<close> returns is proved. Loops with fuel (\<open>readi\<close>, \<open>writei\<close>, the walk through the ring of
  buffers, the chain of the IDE queue, the nesting of the shell's parser) get a bound derived from the data, such as the number of bytes left or
  the size of the table, and the theorems about them show that it is enough.

  \<^bold>\<open>Not modelled.\<close> Assembly code (boot, context switch, trap entry), the programming of the interrupt controllers and of the
  serial port, segment descriptors, the search for processors, the host program \<open>mkfs\<close> and the test programs under \<open>user/\<close>. A context switch
  appears as the point where a function is split; interrupts appear where the code enables them. Memory ordering between CPUs is not
  modelled: the sections under a lock are atomic steps.
\<close>

end
